(* ===== verification/Prelude.thy ===== *)
theory Prelude
  imports Main "HOL-Library.Word" "HOL-Library.Monad_Syntax"
begin

text \<open>
  Shared vocabulary of the development. A Rust panic (a failed \<open>expect\<close>, \<open>assert!\<close>,
  \<open>unreachable!\<close>, or a checked integer operation) is the value \<open>None\<close> of the option
  monad, so every operation that may panic has a result of type \<open>'r option\<close> and is
  written with the \<open>do\<close> notation. \<open>Result\<close> and \<open>Poll\<close> are datatypes of their own.

  A \<open>usize\<close> is a natural number kept within 64 bits: addition that the source checks is
  \<open>checked_add\<close>, subtraction is \<open>checked_sub\<close> (a debug build panics on underflow; the
  invariants of the components show that it never happens, so a release build, which
  wraps, behaves the same). A task waker is its identity, a natural number; waking is an
  output of an operation: the list of wakers woken, in order, after the state lock has
  been released.
\<close>

section \<open>Collections of rewrite rules\<close>

named_theorems panic_simps \<open>rules that open a computation of the option monad\<close>
named_theorems rep_intros \<open>representation rules of the storage layers\<close>
named_theorems op_defs \<open>definitions of the operations of a component\<close>

section \<open>Machine integers\<close>

type_synonym usize = nat
type_synonym waker = nat

definition usize_max :: usize where
  "usize_max = 2 ^ 64 - 1"

definition checked_add :: "usize \<Rightarrow> usize \<Rightarrow> usize option" where
  "checked_add a b = (if a + b \<le> usize_max then Some (a + b) else None)"

definition checked_sub :: "usize \<Rightarrow> usize \<Rightarrow> usize option" where
  "checked_sub a b = (if b \<le> a then Some (a - b) else None)"

definition guard :: "bool \<Rightarrow> unit option" where
  "guard b = (if b then Some () else None)"

section \<open>Results and polls\<close>

datatype ('a, 'e) result = Ok 'a | Err 'e

datatype 'a poll = Pending | Ready 'a

fun is_ready :: "'a poll \<Rightarrow> bool" where
  "is_ready Pending = False"
| "is_ready (Ready _) = True"

section \<open>Atomic cells\<close>

text \<open>\<open>compare_exchange\<close> on an atomic: the result, and the value left in the cell.\<close>

definition compare_exchange :: "'a \<Rightarrow> 'a \<Rightarrow> 'a \<Rightarrow> ('a, 'a) result \<times> 'a" where
  "compare_exchange v current new = (if v = current then (Ok v, new) else (Err v, v))"

lemma compare_exchange_simps [simp]:
  "compare_exchange v v new = (Ok v, new)"
  by (simp add: compare_exchange_def)

section \<open>Wakers\<close>

text \<open>\<open>Waker::will_wake\<close> compares the identities of the two wakers.\<close>

definition will_wake :: "waker \<Rightarrow> waker \<Rightarrow> bool" where
  "will_wake current waker \<longleftrightarrow> current = waker"

text \<open>\<open>register_waker\<close>: the retired registration and the new content of the slot.\<close>

definition register_waker :: "waker option \<Rightarrow> waker \<Rightarrow> waker option \<times> waker option" where
  "register_waker slot waker =
     (if (case slot of Some current \<Rightarrow> will_wake current waker | None \<Rightarrow> False)
      then (None, slot) else (slot, Some waker))"

lemma register_waker_slot [simp]: "snd (register_waker slot waker) = Some waker"
  by (auto simp: register_waker_def will_wake_def split: option.splits)

lemma register_waker_eq:
  "register_waker slot waker = (if slot = Some waker then None else slot, Some waker)"
  by (auto simp: register_waker_def will_wake_def split: option.splits)

section \<open>Opening computations that may panic\<close>

lemma bind_Some_iff [panic_simps]:
  "Option.bind m f = Some y \<longleftrightarrow> (\<exists>x. m = Some x \<and> f x = Some y)"
  by (cases m) auto

lemma guard_Some_iff [panic_simps]: "guard b = Some u \<longleftrightarrow> b"
  by (simp add: guard_def)

lemma checked_add_Some_iff [panic_simps]:
  "checked_add a b = Some c \<longleftrightarrow> c = a + b \<and> a + b \<le> usize_max"
  by (auto simp: checked_add_def)

lemma checked_sub_Some_iff [panic_simps]:
  "checked_sub a b = Some c \<longleftrightarrow> c = a - b \<and> b \<le> a"
  by (auto simp: checked_sub_def)

lemma guard_True [simp]: "guard True = Some ()"
  by (simp add: guard_def)

lemma guard_simp: "b \<Longrightarrow> guard b = Some ()"
  by (simp add: guard_def)

lemma checked_sub_simp: "b \<le> a \<Longrightarrow> checked_sub a b = Some (a - b)"
  by (simp add: checked_sub_def)

lemma checked_add_simp: "a + b \<le> usize_max \<Longrightarrow> checked_add a b = Some (a + b)"
  by (simp add: checked_add_def)

lemma map_option_same [simp]: "map_option (\<lambda>x. x) m = m"
  by (cases m) auto

section \<open>Loops\<close>

text \<open>
  A Rust loop over a state: the body returns the new state and whether the loop goes on.
  A panic in the body and a loop that never ends are both \<open>None\<close>; the rule \<open>loop_rule\<close>
  shows that a loop returns, from an invariant and a measure that every round decreases.
\<close>

partial_function (option) loop :: "('s \<Rightarrow> ('s \<times> bool) option) \<Rightarrow> 's \<Rightarrow> 's option" where
  "loop body s = do { r \<leftarrow> body s; if snd r then loop body (fst r) else Some (fst r) }"

lemma loop_rule:
  assumes "I s"
    and step: "\<And>s. I s \<Longrightarrow> \<exists>s' b. body s = Some (s', b) \<and>
      (if b then I s' \<and> (m s' :: nat) < m s else Q s')"
  shows "\<exists>t. loop body s = Some t \<and> Q t"
  using assms(1)
proof (induction "m s" arbitrary: s rule: less_induct)
  case less
  from step [OF less.prems] obtain s' b where b: "body s = Some (s', b)"
    "if b then I s' \<and> m s' < m s else Q s'" by blast
  then show ?case
    using less.hyps [of s'] by (cases b) (auto simp: loop.simps [of body s])
qed

lemma loop_unroll:
  "body s = Some (s', b) \<Longrightarrow> loop body s = (if b then loop body s' else Some s')"
  by (simp add: loop.simps [of body s])

lemma loop_once: "body s = Some (s1, True) \<Longrightarrow> body s1 = Some (s2, False) \<Longrightarrow> loop body s = Some s2"
  by (simp add: loop.simps [of body s] loop.simps [of body s1])

section \<open>Neighbours in a list of distinct elements\<close>

text \<open>The element that follows, or precedes, a given one.\<close>

fun after :: "'a list \<Rightarrow> 'a \<Rightarrow> 'a option" where
  "after [] i = None"
| "after [x] i = None"
| "after (x # y # zs) i = (if x = i then Some y else after (y # zs) i)"

definition before :: "'a list \<Rightarrow> 'a \<Rightarrow> 'a option" where
  "before xs i = after (rev xs) i"

definition first_of :: "'a list \<Rightarrow> 'a option" where
  "first_of xs = (case xs of [] \<Rightarrow> None | x # _ \<Rightarrow> Some x)"

definition last_of :: "'a list \<Rightarrow> 'a option" where
  "last_of xs = first_of (rev xs)"

lemma first_of_simps [simp]: "first_of [] = None" "first_of (x # xs) = Some x"
  by (simp_all add: first_of_def)

lemma last_of_simps [simp]:
  "last_of [] = None" "last_of [x] = Some x" "last_of (xs @ [x]) = Some x"
  by (simp_all add: last_of_def)

lemma first_of_append: "first_of (xs @ ys) = (if xs = [] then first_of ys else first_of xs)"
  by (cases xs) auto

lemma last_of_append: "last_of (xs @ ys) = (if ys = [] then last_of xs else last_of ys)"
  by (simp add: last_of_def first_of_append)

lemma last_of_Cons: "last_of (x # xs) = (if xs = [] then Some x else last_of xs)"
  using last_of_append [of "[x]" xs] by (simp add: last_of_def)

lemma first_of_None_iff [simp]: "first_of xs = None \<longleftrightarrow> xs = []"
  by (cases xs) auto

lemma last_of_None_iff [simp]: "last_of xs = None \<longleftrightarrow> xs = []"
  by (simp add: last_of_def)

lemma first_of_Some_iff: "first_of xs = Some x \<longleftrightarrow> (\<exists>ys. xs = x # ys)"
  by (cases xs) auto

lemma last_of_Some_iff: "last_of xs = Some x \<longleftrightarrow> (\<exists>ys. xs = ys @ [x])"
  by (cases xs rule: rev_cases) auto

lemma after_notin: "i \<notin> set xs \<Longrightarrow> after xs i = None"
  by (induction xs i rule: after.induct) auto

lemma after_Cons: "after (x # xs) i = (if x = i then first_of xs else after xs i)"
  by (cases xs) auto

lemma last_of_in_set: "last_of xs = Some i \<Longrightarrow> i \<in> set xs"
  by (auto simp: last_of_Some_iff)

lemma after_append:
  "distinct (xs @ ys) \<Longrightarrow>
   after (xs @ ys) i =
     (if i \<in> set ys then after ys i
      else if last_of xs = Some i then first_of ys else after xs i)"
  by (induction xs)
     (auto simp: after_Cons after_notin last_of_Cons first_of_append last_of_in_set
        dest: last_of_in_set)

lemma before_append:
  assumes "distinct (xs @ ys)"
  shows "before (xs @ ys) i =
     (if i \<in> set xs then before xs i
      else if first_of ys = Some i then last_of xs else before ys i)"
  using after_append [of "rev ys" "rev xs" i] assms
  by (simp add: before_def last_of_def first_of_def Int_commute split: list.splits)

lemma before_notin: "i \<notin> set xs \<Longrightarrow> before xs i = None"
  by (simp add: before_def after_notin)

lemma before_simps [simp]: "before [] i = None" "before [x] i = None"
  by (simp_all add: before_def)

section \<open>Sums over the entries of a finite map\<close>

text \<open>
  Counting what a system's handles hold: \<open>msum g m\<close> adds \<open>g\<close> over the values of the map.
\<close>

definition msum :: "('b \<Rightarrow> nat) \<Rightarrow> ('a \<Rightarrow> 'b option) \<Rightarrow> nat" where
  "msum g m = (\<Sum>i\<in>dom m. g (the (m i)))"

lemma msum_empty [simp]: "msum g Map.empty = 0"
  by (simp add: msum_def)

lemma msum_insert:
  assumes "finite (dom m)" and "m i = None"
  shows "msum g (m(i \<mapsto> y)) = msum g m + g y"
proof -
  have "i \<notin> dom m" using assms(2) by auto
  moreover have "(\<Sum>j\<in>dom m. g (the ((m(i \<mapsto> y)) j))) = (\<Sum>j\<in>dom m. g (the (m j)))"
    using assms(2) by (intro sum.cong) auto
  ultimately show ?thesis using assms(1) by (simp add: msum_def)
qed

lemma msum_delete:
  assumes "finite (dom m)" and "m i = Some x"
  shows "msum g (m(i := None)) + g x = msum g m"
proof -
  have "i \<in> dom m" using assms(2) by auto
  moreover have "(\<Sum>j\<in>dom m - {i}. g (the ((m(i := None)) j))) = (\<Sum>j\<in>dom m - {i}. g (the (m j)))"
    by (intro sum.cong) auto
  ultimately show ?thesis
    using assms by (simp add: msum_def sum.remove [of "dom m" i])
qed

lemma msum_update:
  assumes "finite (dom m)" and "m i = Some x"
  shows "msum g (m(i \<mapsto> y)) + g x = msum g m + g y"
proof -
  have "msum g ((m(i := None))(i \<mapsto> y)) = msum g (m(i := None)) + g y"
    using assms(1) by (intro msum_insert) auto
  then show ?thesis using msum_delete [OF assms, of g] by simp
qed

lemma msum_ge: "finite (dom m) \<Longrightarrow> m i = Some x \<Longrightarrow> g x \<le> msum g m"
  using msum_delete [of m i x g] by simp

lemma msum_zero_iff: "finite (dom m) \<Longrightarrow> msum g m = 0 \<longleftrightarrow> (\<forall>i x. m i = Some x \<longrightarrow> g x = 0)"
  by (force simp: msum_def)

lemma msum_cong: "(\<And>i x. m i = Some x \<Longrightarrow> f x = g x) \<Longrightarrow> msum f m = msum g m"
  unfolding msum_def by (intro sum.cong) auto

lemma msum_mono: "(\<And>i x. m i = Some x \<Longrightarrow> f x \<le> g x) \<Longrightarrow> msum f m \<le> msum g m"
  unfolding msum_def by (intro sum_mono) auto

lemmas prelude_ops [op_defs] = usize_max_def checked_add_def checked_sub_def guard_def will_wake_def compare_exchange_def
  register_waker_def Let_def

text \<open>Reachability: a step at the end of a run.\<close>

lemma run_step: "r\<^sup>*\<^sup>* s t \<Longrightarrow> r t u \<Longrightarrow> r\<^sup>*\<^sup>* s u"
  by (rule rtranclp.rtrancl_into_rtrancl)

end
