(* ===== verification/Arena.thy ===== *)
theory Arena
  imports Prelude
begin

text \<open>
  The slot arena of \<open>internal/arena.rs\<close>: a vector of occupied and vacant slots, the vacant
  ones threaded on a singly linked free list. The invariant is the one stated in the source
  comment (the length counts the occupied slots, every vacant slot is on the free list
  exactly once); \<open>arena_get\<close> is at the same time the lookup operation and the abstraction
  to a finite map. The locale \<open>store\<close> is the contract the waiter list, the waker set and
  the broadcast log rely on, interpreted here on the arena.
\<close>

section \<open>Slot identifiers\<close>

text \<open>A \<open>NonZeroUsize\<close>: \<open>NonZero n\<close> is the positive number \<open>n + 1\<close>.\<close>

datatype non_zero_usize = NonZero nat

fun nz_new :: "usize \<Rightarrow> non_zero_usize option" where
  "nz_new 0 = None"
| "nz_new (Suc n) = Some (NonZero n)"

fun nz_get :: "non_zero_usize \<Rightarrow> usize" where
  "nz_get (NonZero n) = n + 1"

datatype slot_id = SlotId non_zero_usize

definition from_index :: "usize \<Rightarrow> slot_id option" where
  "from_index index = do {
     encoded \<leftarrow> checked_add index 1;
     nz \<leftarrow> nz_new encoded;
     Some (SlotId nz) }"

fun slot_index :: "slot_id \<Rightarrow> usize" where
  "slot_index (SlotId nz) = nz_get nz - 1"

lemma from_index_eq:
  "from_index i = (if i + 1 \<le> usize_max then Some (SlotId (NonZero i)) else None)"
  by (simp add: from_index_def checked_add_def)

lemma slot_index_inject [simp]: "slot_index a = slot_index b \<longleftrightarrow> a = b"
  by (cases a rule: slot_index.cases; cases b rule: slot_index.cases)
     (metis add_diff_cancel_right' nz_get.simps slot_index.simps non_zero_usize.exhaust)

lemma from_index_slot_index: "from_index i = Some sid \<Longrightarrow> slot_index sid = i"
  by (auto simp: from_index_eq split: if_splits)

section \<open>The arena\<close>

datatype 'a slot = Occupied 'a | Vacant "slot_id option"

record 'a arena =
  ar_slots :: "'a slot list"
  ar_vacant_head :: "slot_id option"
  ar_len :: usize

definition slot_at :: "'a slot list \<Rightarrow> usize \<Rightarrow> 'a slot option" where
  "slot_at ss i = (if i < length ss then Some (ss ! i) else None)"

definition arena_new :: "'a arena" where
  "arena_new = \<lparr>ar_slots = [], ar_vacant_head = None, ar_len = 0\<rparr>"

text \<open>The reserved capacity of the vector is not observable through the operations.\<close>

definition arena_with_capacity :: "usize \<Rightarrow> 'a arena" where
  "arena_with_capacity capacity = \<lparr>ar_slots = [], ar_vacant_head = None, ar_len = 0\<rparr>"

definition arena_insert :: "'a arena \<Rightarrow> 'a \<Rightarrow> (slot_id \<times> 'a arena) option" where
  "arena_insert a value = do {
     (sid, a) \<leftarrow>
       (case ar_vacant_head a of
          Some sid \<Rightarrow> do {
            slot \<leftarrow> slot_at (ar_slots a) (slot_index sid);
            vacant_head \<leftarrow> (case slot of Vacant nxt \<Rightarrow> Some nxt | Occupied _ \<Rightarrow> None);
            Some (sid, a\<lparr>ar_vacant_head := vacant_head,
                        ar_slots := (ar_slots a)[slot_index sid := Occupied value]\<rparr>) }
        | None \<Rightarrow> do {
            sid \<leftarrow> from_index (length (ar_slots a));
            Some (sid, a\<lparr>ar_slots := ar_slots a @ [Occupied value]\<rparr>) });
     len \<leftarrow> checked_add (ar_len a) 1;
     Some (sid, a\<lparr>ar_len := len\<rparr>) }"

definition arena_get :: "'a arena \<Rightarrow> slot_id \<Rightarrow> 'a option" where
  "arena_get a sid =
     (case slot_at (ar_slots a) (slot_index sid) of
        Some (Occupied value) \<Rightarrow> Some value
      | Some (Vacant _) \<Rightarrow> None
      | None \<Rightarrow> None)"

text \<open>A write through the reference that \<open>get_mut\<close> returns.\<close>

definition arena_put :: "'a arena \<Rightarrow> slot_id \<Rightarrow> 'a \<Rightarrow> 'a arena" where
  "arena_put a sid value = a\<lparr>ar_slots := (ar_slots a)[slot_index sid := Occupied value]\<rparr>"

definition arena_is_empty :: "'a arena \<Rightarrow> bool" where
  "arena_is_empty a \<longleftrightarrow> ar_len a = 0"

definition arena_remove :: "'a arena \<Rightarrow> slot_id \<Rightarrow> ('a \<times> 'a arena) option" where
  "arena_remove a sid = do {
     slot \<leftarrow> slot_at (ar_slots a) (slot_index sid);
     value \<leftarrow> (case slot of Occupied value \<Rightarrow> Some value | Vacant _ \<Rightarrow> None);
     len \<leftarrow> checked_sub (ar_len a) 1;
     Some (value,
       a\<lparr>ar_slots := (ar_slots a)[slot_index sid := Vacant (ar_vacant_head a)],
         ar_len := len, ar_vacant_head := Some sid\<rparr>) }"

definition slot_values :: "'a slot list \<Rightarrow> 'a list" where
  "slot_values ss =
     List.map_filter (\<lambda>s. case s of Occupied value \<Rightarrow> Some value | Vacant _ \<Rightarrow> None) ss"

definition arena_take_all :: "'a arena \<Rightarrow> 'a list \<times> 'a arena" where
  "arena_take_all a =
     (slot_values (ar_slots a), a\<lparr>ar_vacant_head := None, ar_len := 0, ar_slots := []\<rparr>)"

definition arena_into_iter :: "'a arena \<Rightarrow> 'a list" where
  "arena_into_iter a = slot_values (ar_slots a)"

lemmas arena_ops [op_defs] = nz_get.simps from_index_eq slot_index.simps slot_at_def arena_new_def
  arena_with_capacity_def arena_insert_def arena_get_def arena_put_def arena_is_empty_def
  arena_remove_def slot_values_def arena_take_all_def arena_into_iter_def

section \<open>The invariant\<close>

fun is_vacant :: "'a slot \<Rightarrow> bool" where
  "is_vacant (Vacant _) = True"
| "is_vacant (Occupied _) = False"

text \<open>The free list that starts at a given head visits exactly these slots.\<close>

fun free_path :: "'a slot list \<Rightarrow> slot_id option \<Rightarrow> slot_id list \<Rightarrow> bool" where
  "free_path ss h [] \<longleftrightarrow> h = None"
| "free_path ss h (x # xs) \<longleftrightarrow>
     h = Some x \<and> (\<exists>nxt. slot_at ss (slot_index x) = Some (Vacant nxt) \<and> free_path ss nxt xs)"

definition arena_inv :: "'a arena \<Rightarrow> bool" where
  "arena_inv a \<longleftrightarrow>
     length (ar_slots a) \<le> usize_max \<and>
     ar_len a = length (slot_values (ar_slots a)) \<and>
     (\<exists>fs. free_path (ar_slots a) (ar_vacant_head a) fs \<and> distinct fs \<and>
        (\<forall>sid. (\<exists>nxt. slot_at (ar_slots a) (slot_index sid) = Some (Vacant nxt)) \<longrightarrow> sid \<in> set fs))"

text \<open>An insertion finds a slot: one is vacant, or the vector may still grow.\<close>

definition arena_room :: "'a arena \<Rightarrow> bool" where
  "arena_room a \<longleftrightarrow> ar_vacant_head a \<noteq> None \<or> length (ar_slots a) < usize_max"

subsection \<open>Slots and updates\<close>

lemma slot_at_update:
  "slot_at (ss[i := s]) j = (if i = j \<and> i < length ss then Some s else slot_at ss j)"
  by (auto simp: slot_at_def)

lemma slot_at_append:
  "slot_at (ss @ [s]) j = (if j = length ss then Some s else slot_at ss j)"
  by (auto simp: slot_at_def nth_append less_Suc_eq)

lemma slot_at_Some_less: "slot_at ss i = Some s \<Longrightarrow> i < length ss"
  by (auto simp: slot_at_def split: if_splits)

lemma slot_values_Nil [simp]: "slot_values [] = []"
  by (simp add: slot_values_def)

lemma slot_values_append [simp]: "slot_values (ss @ ts) = slot_values ss @ slot_values ts"
  by (simp add: slot_values_def map_filter_def)

lemma slot_values_Cons [simp]:
  "slot_values (Occupied v # ss) = v # slot_values ss"
  "slot_values (Vacant n # ss) = slot_values ss"
  by (simp_all add: slot_values_def map_filter_def)

lemma length_slot_values_le: "length (slot_values ss) \<le> length ss"
proof (induction ss)
  case (Cons s ss)
  then show ?case by (cases s) auto
qed simp

lemma slot_split:
  assumes "slot_at ss i = Some s"
  obtains us vs where "ss = us @ s # vs" "length us = i"
proof
  show "ss = take i ss @ s # drop (Suc i) ss" "length (take i ss) = i"
    using assms by (auto simp: slot_at_def id_take_nth_drop split: if_splits)
qed

lemma length_slot_values_occupy:
  assumes "slot_at ss i = Some (Vacant n)"
  shows "length (slot_values (ss[i := Occupied v])) = Suc (length (slot_values ss))"
  using assms by (elim slot_split) (auto simp: list_update_append)

lemma length_slot_values_overwrite:
  assumes "slot_at ss i = Some (Occupied w)"
  shows "length (slot_values (ss[i := Occupied v])) = length (slot_values ss)"
  using assms by (elim slot_split) (auto simp: list_update_append)

lemma length_slot_values_vacate:
  assumes "slot_at ss i = Some (Occupied w)"
  shows "Suc (length (slot_values (ss[i := Vacant n]))) = length (slot_values ss)"
  using assms by (elim slot_split) (auto simp: list_update_append)

lemma vacant_room:
  assumes "slot_at ss i = Some (Vacant n)"
  shows "length (slot_values ss) < length ss"
  using assms
proof (elim slot_split)
  fix us vs
  assume "ss = us @ Vacant n # vs"
  then show ?thesis
    using length_slot_values_le [of us] length_slot_values_le [of vs] by simp
qed

lemma free_path_update:
  "free_path ss h fs \<Longrightarrow> (\<And>sid. sid \<in> set fs \<Longrightarrow> slot_index sid \<noteq> i) \<Longrightarrow>
   free_path (ss[i := s]) h fs"
  by (induction fs arbitrary: h) (auto simp: slot_at_update)

lemma free_path_append: "free_path ss h fs \<Longrightarrow> free_path (ss @ [s]) h fs"
  by (induction fs arbitrary: h) (auto simp: slot_at_append dest: slot_at_Some_less)

lemma free_path_vacant:
  "free_path ss h fs \<Longrightarrow> sid \<in> set fs \<Longrightarrow> \<exists>nxt. slot_at ss (slot_index sid) = Some (Vacant nxt)"
  by (induction fs arbitrary: h) auto

subsection \<open>Lookup laws\<close>

lemma arena_get_Some_iff:
  "arena_get a sid = Some v \<longleftrightarrow> slot_at (ar_slots a) (slot_index sid) = Some (Occupied v)"
  by (auto simp: arena_get_def split: option.splits slot.splits)

lemma arena_get_new [simp]: "arena_get arena_new sid = None"
  by (simp add: arena_get_def arena_new_def slot_at_def)

text \<open>The successful runs of the two operations that may panic, read off their definitions.\<close>

lemma arena_insert_Some_iff:
  "arena_insert a v = Some (sid, a') \<longleftrightarrow>
     ar_len a + 1 \<le> usize_max \<and>
     ((\<exists>nxt. ar_vacant_head a = Some sid \<and>
        slot_at (ar_slots a) (slot_index sid) = Some (Vacant nxt) \<and>
        a' = a\<lparr>ar_vacant_head := nxt,
               ar_slots := (ar_slots a)[slot_index sid := Occupied v], ar_len := ar_len a + 1\<rparr>) \<or>
      (ar_vacant_head a = None \<and> from_index (length (ar_slots a)) = Some sid \<and>
        a' = a\<lparr>ar_slots := ar_slots a @ [Occupied v], ar_len := ar_len a + 1\<rparr>))"
proof (cases "ar_vacant_head a")
  case None
  then show ?thesis
    by (auto simp: arena_insert_def panic_simps)
next
  case (Some h)
  then show ?thesis
  proof (cases "slot_at (ar_slots a) (slot_index h)")
    case None
    with Some show ?thesis by (auto simp: arena_insert_def)
  next
    case (Some s)
    with \<open>ar_vacant_head a = Some h\<close> show ?thesis
      by (cases s) (auto simp: arena_insert_def panic_simps)
  qed
qed

lemma arena_remove_Some_iff:
  "arena_remove a sid = Some (v, a') \<longleftrightarrow>
     slot_at (ar_slots a) (slot_index sid) = Some (Occupied v) \<and> 1 \<le> ar_len a \<and>
     a' = a\<lparr>ar_slots := (ar_slots a)[slot_index sid := Vacant (ar_vacant_head a)],
            ar_len := ar_len a - 1, ar_vacant_head := Some sid\<rparr>"
proof (cases "slot_at (ar_slots a) (slot_index sid)")
  case (Some s)
  then show ?thesis
    by (cases s) (auto simp: arena_remove_def panic_simps)
qed (simp add: arena_remove_def)

lemma arena_get_insert:
  assumes "arena_insert a v = Some (sid, a')"
  shows "arena_get a sid = None" and "arena_get a' = (arena_get a)(sid \<mapsto> v)"
proof -
  show "arena_get a sid = None"
    using assms from_index_slot_index [of _ sid]
    by (auto simp: arena_insert_Some_iff arena_get_def slot_at_def split: option.splits if_splits)
  show "arena_get a' = (arena_get a)(sid \<mapsto> v)"
    using assms from_index_slot_index [of _ sid]
    by (auto simp: arena_insert_Some_iff arena_get_def slot_at_update slot_at_append fun_eq_iff
          simp flip: slot_index_inject dest: slot_at_Some_less)
qed

lemma arena_get_put:
  assumes "arena_get a sid = Some w"
  shows "arena_get (arena_put a sid v) = (arena_get a)(sid \<mapsto> v)"
  using assms slot_at_Some_less [of "ar_slots a" "slot_index sid"]
  unfolding arena_get_Some_iff
  by (auto simp: arena_get_def arena_put_def slot_at_update fun_eq_iff)

lemma arena_get_remove:
  assumes "arena_remove a sid = Some (v, a')"
  shows "arena_get a sid = Some v" and "arena_get a' = (arena_get a)(sid := None)"
  using assms slot_at_Some_less [of "ar_slots a"]
  by (auto simp: arena_remove_Some_iff arena_get_Some_iff arena_get_def slot_at_update fun_eq_iff)

subsection \<open>Every operation preserves the invariant, and none panics on a valid identifier\<close>

lemma arena_inv_new [simp]: "arena_inv arena_new"
  by (auto simp: arena_inv_def arena_new_def slot_at_def intro: exI [of _ "[]"])

lemma arena_inv_insert:
  assumes "arena_inv a" and "arena_insert a v = Some (sid, a')"
  shows "arena_inv a'"
proof -
  from assms(1) obtain fs where fs: "free_path (ar_slots a) (ar_vacant_head a) fs" "distinct fs"
    "\<And>j nxt. slot_at (ar_slots a) (slot_index j) = Some (Vacant nxt) \<Longrightarrow> j \<in> set fs"
    and len: "length (ar_slots a) \<le> usize_max" "ar_len a = length (slot_values (ar_slots a))"
    by (auto simp: arena_inv_def)
  from assms(2) consider
    (reuse) nxt where "ar_vacant_head a = Some sid"
      "slot_at (ar_slots a) (slot_index sid) = Some (Vacant nxt)"
      "a' = a\<lparr>ar_vacant_head := nxt,
             ar_slots := (ar_slots a)[slot_index sid := Occupied v], ar_len := ar_len a + 1\<rparr>"
  | (grow) "ar_vacant_head a = None" "from_index (length (ar_slots a)) = Some sid"
      "a' = a\<lparr>ar_slots := ar_slots a @ [Occupied v], ar_len := ar_len a + 1\<rparr>"
    by (auto simp: arena_insert_Some_iff)
  then show ?thesis
  proof cases
    case reuse
    with fs(1) obtain gs where gs: "fs = sid # gs" "free_path (ar_slots a) nxt gs"
      by (cases fs) auto
    with fs(2) have "free_path (ar_slots a') nxt gs"
      unfolding reuse(3) by (auto intro!: free_path_update)
    moreover have "j \<in> set gs" if "slot_at (ar_slots a') (slot_index j) = Some (Vacant n)" for j n
      using that fs(3) [of j n] gs(1) reuse(3) slot_at_Some_less [OF reuse(2)]
      by (auto simp: slot_at_update split: if_splits)
    ultimately show ?thesis
      using len fs(2) gs(1) length_slot_values_occupy [OF reuse(2)]
      by (auto simp: arena_inv_def reuse(3) intro!: exI [of _ gs])
  next
    case grow
    with fs(1) have "fs = []" by (cases fs) auto
    with fs(3) grow show ?thesis
      using len
      by (auto simp: arena_inv_def slot_at_append from_index_eq split: if_splits
            intro!: exI [of _ "[]"])
  qed
qed

lemma arena_inv_put:
  assumes "arena_inv a" and get: "arena_get a sid = Some w"
  shows "arena_inv (arena_put a sid v)"
proof -
  from assms(1) obtain fs where fs: "free_path (ar_slots a) (ar_vacant_head a) fs" "distinct fs"
    "\<And>j nxt. slot_at (ar_slots a) (slot_index j) = Some (Vacant nxt) \<Longrightarrow> j \<in> set fs"
    and len: "length (ar_slots a) \<le> usize_max" "ar_len a = length (slot_values (ar_slots a))"
    by (auto simp: arena_inv_def)
  have occ: "slot_at (ar_slots a) (slot_index sid) = Some (Occupied w)"
    using get by (simp add: arena_get_Some_iff)
  then have "free_path (ar_slots (arena_put a sid v)) (ar_vacant_head a) fs"
    unfolding arena_put_def using fs(1)
    by (auto intro!: free_path_update dest: free_path_vacant)
  then show ?thesis
    using fs len length_slot_values_overwrite [OF occ]
    by (auto simp: arena_inv_def arena_put_def slot_at_update split: if_splits intro!: exI [of _ fs])
qed

lemma arena_inv_remove:
  assumes "arena_inv a" and rem: "arena_remove a sid = Some (v, a')"
  shows "arena_inv a'"
proof -
  from assms(1) obtain fs where fs: "free_path (ar_slots a) (ar_vacant_head a) fs" "distinct fs"
    "\<And>j nxt. slot_at (ar_slots a) (slot_index j) = Some (Vacant nxt) \<Longrightarrow> j \<in> set fs"
    and len: "length (ar_slots a) \<le> usize_max" "ar_len a = length (slot_values (ar_slots a))"
    by (auto simp: arena_inv_def)
  from rem have occ: "slot_at (ar_slots a) (slot_index sid) = Some (Occupied v)"
    and a': "a' = a\<lparr>ar_slots := (ar_slots a)[slot_index sid := Vacant (ar_vacant_head a)],
                    ar_len := ar_len a - 1, ar_vacant_head := Some sid\<rparr>"
    by (simp_all add: arena_remove_Some_iff)
  have new: "sid \<notin> set fs"
    using free_path_vacant [OF fs(1), of sid] occ by auto
  then have "free_path (ar_slots a') (Some sid) (sid # fs)"
    unfolding a' using fs(1)
    by (auto simp: slot_at_update slot_at_Some_less [OF occ] intro!: free_path_update)
  moreover have "j \<in> set (sid # fs)"
    if "slot_at (ar_slots a') (slot_index j) = Some (Vacant n)" for j n
    using that fs(3) [of j n] by (auto simp: a' slot_at_update split: if_splits)
  ultimately show ?thesis
    using len fs(2) new length_slot_values_vacate [OF occ, of "ar_vacant_head a"]
    by (auto simp: arena_inv_def a' intro!: exI [of _ "sid # fs"])
qed

lemma arena_inv_take_all: "arena_inv (snd (arena_take_all a))"
  by (auto simp: arena_inv_def arena_take_all_def slot_at_def intro: exI [of _ "[]"])

lemma arena_insert_no_panic:
  assumes "arena_inv a" and "arena_room a"
  shows "\<exists>sid a'. arena_insert a v = Some (sid, a')"
proof (cases "ar_vacant_head a")
  case None
  with assms show ?thesis
    using length_slot_values_le [of "ar_slots a"]
    by (auto simp: arena_insert_Some_iff arena_room_def arena_inv_def from_index_eq)
next
  case (Some sid)
  with assms obtain fs nxt where "slot_at (ar_slots a) (slot_index sid) = Some (Vacant nxt)"
    by (auto simp: arena_inv_def elim: free_path.elims)
  moreover from vacant_room [OF this] assms(1) have "ar_len a + 1 \<le> usize_max"
    by (auto simp: arena_inv_def)
  ultimately show ?thesis
    using Some by (auto simp: arena_insert_Some_iff)
qed

lemma arena_remove_no_panic:
  assumes "arena_inv a" and get: "arena_get a sid = Some v"
  shows "\<exists>a'. arena_remove a sid = Some (v, a')"
proof -
  have occ: "slot_at (ar_slots a) (slot_index sid) = Some (Occupied v)"
    using get by (simp add: arena_get_Some_iff)
  have "1 \<le> ar_len a"
    using length_slot_values_vacate [OF occ, of None] assms(1) by (auto simp: arena_inv_def)
  with occ show ?thesis
    by (auto simp: arena_remove_Some_iff)
qed

section \<open>The contract of the storage layer\<close>

text \<open>
  What a client of the arena relies on: lookups after every operation, freshness of the
  identifier an insertion returns, and the absence of panics on valid identifiers.
\<close>

locale store =
  fixes inv :: "'s \<Rightarrow> bool"
    and room :: "'s \<Rightarrow> bool"
    and get :: "'s \<Rightarrow> 'k \<Rightarrow> 'v option"
    and insert :: "'s \<Rightarrow> 'v \<Rightarrow> ('k \<times> 's) option"
    and put :: "'s \<Rightarrow> 'k \<Rightarrow> 'v \<Rightarrow> 's"
    and remove :: "'s \<Rightarrow> 'k \<Rightarrow> ('v \<times> 's) option"
  assumes insert_fresh: "insert s v = Some (k, s') \<Longrightarrow> get s k = None"
    and get_insert: "insert s v = Some (k, s') \<Longrightarrow> get s' = (get s)(k \<mapsto> v)"
    and get_put: "get s k = Some w \<Longrightarrow> get (put s k v) = (get s)(k \<mapsto> v)"
    and remove_get: "remove s k = Some (v, s') \<Longrightarrow> get s k = Some v"
    and get_remove: "remove s k = Some (v, s') \<Longrightarrow> get s' = (get s)(k := None)"
    and inv_insert: "inv s \<Longrightarrow> insert s v = Some (k, s') \<Longrightarrow> inv s'"
    and inv_put: "inv s \<Longrightarrow> get s k = Some w \<Longrightarrow> inv (put s k v)"
    and inv_remove: "inv s \<Longrightarrow> remove s k = Some (v, s') \<Longrightarrow> inv s'"
    and insert_total: "inv s \<Longrightarrow> room s \<Longrightarrow> \<exists>k s'. insert s v = Some (k, s')"
    and remove_total: "inv s \<Longrightarrow> get s k = Some v \<Longrightarrow> \<exists>s'. remove s k = Some (v, s')"
begin

lemma remove_after_insert:
  assumes "inv s" and "insert s v = Some (k, s')"
  shows "\<exists>s''. remove s' k = Some (v, s'') \<and> get s'' = get s"
proof -
  have "get s' k = Some v"
    using get_insert [OF assms(2)] by simp
  then obtain s'' where "remove s' k = Some (v, s'')"
    using remove_total inv_insert [OF assms] by blast
  moreover from get_remove [OF this] have "get s'' = get s"
    using get_insert [OF assms(2)] insert_fresh [OF assms(2)] by (simp add: fun_upd_idem)
  ultimately show ?thesis by blast
qed

lemma insert_keeps_others:
  assumes "insert s v = Some (k, s')" and "get s j = Some w"
  shows "j \<noteq> k" and "get s' j = Some w"
  using assms insert_fresh [OF assms(1)] get_insert [OF assms(1)] by auto

lemma remove_keeps_others:
  assumes "remove s k = Some (v, s')" and "get s j = Some w" and "j \<noteq> k"
  shows "get s' j = Some w"
  using assms get_remove [OF assms(1)] by simp

lemma remove_invalid:
  assumes "get s k = None"
  shows "remove s k = None"
  using assms remove_get [of s k] by (cases "remove s k") auto

end

interpretation ar: store arena_inv arena_room arena_get arena_insert arena_put arena_remove
  by unfold_locales
     (blast intro: arena_get_insert arena_get_put arena_get_remove arena_inv_insert arena_inv_put
        arena_inv_remove arena_insert_no_panic arena_remove_no_panic)+

text \<open>Collecting the occupied values empties the arena and returns each of them.\<close>

lemma set_slot_values: "set (slot_values ss) = {v. \<exists>i. slot_at ss i = Some (Occupied v)}"
proof -
  have "v \<in> set (slot_values ss) \<longleftrightarrow> Occupied v \<in> set ss" for v
    by (induction ss) (auto simp: slot_values_def map_filter_def split: slot.splits)
  then show ?thesis
    by (auto simp: slot_at_def in_set_conv_nth)
qed

lemma slot_index_surj: "\<exists>sid. slot_index sid = i"
  by (rule exI [of _ "SlotId (NonZero i)"]) simp

lemma set_arena_values: "set (slot_values (ar_slots a)) = ran (arena_get a)"
  unfolding set_slot_values ran_def arena_get_Some_iff
  using slot_index_surj by (metis (no_types, lifting))

lemma arena_get_take_all [simp]: "arena_get (snd (arena_take_all a)) = Map.empty"
  by (simp add: arena_take_all_def arena_get_def slot_at_def fun_eq_iff)

lemma arena_is_empty_iff:
  assumes "arena_inv a"
  shows "arena_is_empty a \<longleftrightarrow> arena_get a = Map.empty"
proof -
  have "ar_len a = 0 \<longleftrightarrow> slot_values (ar_slots a) = []"
    using assms by (simp add: arena_inv_def)
  also have "\<dots> \<longleftrightarrow> ran (arena_get a) = {}"
    by (metis set_arena_values set_empty)
  also have "\<dots> \<longleftrightarrow> arena_get a = Map.empty"
    by (metis dom_eq_empty_conv ran_empty ranI domIff empty_iff option.exhaust_sel equals0I)
  finally show ?thesis
    by (simp add: arena_is_empty_def)
qed

lemma arena_dom_indices: "slot_index ` dom (arena_get a) \<subseteq> {..<length (ar_slots a)}"
  by (auto simp: arena_get_Some_iff dest: slot_at_Some_less)

lemma arena_get_finite [simp]: "finite (dom (arena_get a))"
  using finite_imageD [OF finite_subset [OF arena_dom_indices]] by (auto simp: inj_on_def)

lemma arena_get_card:
  assumes "arena_inv a"
  shows "card (dom (arena_get a)) \<le> usize_max"
  using card_inj_on_le [OF _ arena_dom_indices, of a] assms by (auto simp: inj_on_def arena_inv_def)

text \<open>
  What is inserted is found under a fresh slot and removed again exactly once; the slot
  free list stays well formed, no other entry changes, and nothing panics below the capacity.
\<close>

theorem arena_insert_remove_round_trip:
  assumes "arena_inv a" and "arena_room a"
  shows "\<exists>sid a' a''. arena_insert a v = Some (sid, a') \<and> arena_inv a' \<and> arena_get a sid = None \<and>
    arena_get a' = (arena_get a)(sid \<mapsto> v) \<and> arena_remove a' sid = Some (v, a'') \<and> arena_inv a'' \<and>
    arena_get a'' = arena_get a \<and> arena_remove a'' sid = None"
proof -
  obtain sid a' where i: "arena_insert a v = Some (sid, a')" using ar.insert_total [OF assms] by blast
  obtain a'' where r: "arena_remove a' sid = Some (v, a'')" "arena_get a'' = arena_get a"
    using ar.remove_after_insert [OF assms(1) i] by blast
  have "arena_remove a'' sid = None"
    using ar.remove_invalid ar.insert_fresh [OF i] r(2) by metis
  with i r ar.insert_fresh [OF i] ar.get_insert [OF i] ar.inv_insert [OF assms(1) i]
    ar.inv_remove [OF _ r(1)] show ?thesis by blast
qed

theorem arena_insert_remove_round_trip_witness:
  "\<exists>sid a' a''. arena_insert arena_new (5::nat) = Some (sid, a') \<and> arena_remove a' sid = Some (5, a'') \<and>
    arena_get a'' = arena_get arena_new"
proof -
  have "arena_inv (arena_new :: nat arena)" "arena_room (arena_new :: nat arena)"
    by (rule arena_inv_new, simp add: arena_room_def arena_new_def usize_max_def)
  from arena_insert_remove_round_trip [OF this, of 5] show ?thesis by blast
qed

end
