(* ===== verification/WaitList.thy ===== *)
theory WaitList
  imports Arena
begin

text \<open>
  The waiter queue of \<open>internal/waitlist.rs\<close>: a doubly linked list whose nodes live in an
  arena, where a node that has been detached stays addressable until it is removed. The
  abstraction is a pair: the queue of linked identifiers, front first (\<open>wl_queue\<close>, computed
  by following the \<open>next\<close> links), and the map from identifiers to values (\<open>wl_val\<close>, linked
  and detached nodes alike). Each operation is shown to act on the abstraction as the
  corresponding list and map operation; the locale \<open>waiter_queue\<close> states this as the
  contract of the clients, interpreted here on the linked representation.
\<close>

section \<open>Nodes and links\<close>

datatype waiter_id = WaiterId slot_id

fun waiter_slot :: "waiter_id \<Rightarrow> slot_id" where
  "waiter_slot (WaiterId s) = s"

lemma waiter_slot_inject [simp]: "waiter_slot v = waiter_slot w \<longleftrightarrow> v = w"
  by (cases v; cases w) auto

record links =
  lk_prev :: "waiter_id option"
  lk_next :: "waiter_id option"

record 'a node =
  nd_links :: "links option"
  nd_value :: 'a

record 'a wait_list =
  wl_head :: "waiter_id option"
  wl_tail :: "waiter_id option"
  wl_nodes :: "'a node arena"

definition wl_new :: "'a wait_list" where
  "wl_new = \<lparr>wl_head = None, wl_tail = None, wl_nodes = arena_new\<rparr>"

definition wl_node :: "'a wait_list \<Rightarrow> waiter_id \<Rightarrow> 'a node option" where
  "wl_node wl w = arena_get (wl_nodes wl) (waiter_slot w)"

text \<open>Writes through the references that \<open>node_mut\<close> and \<open>linked_node_mut\<close> return.\<close>

definition wl_put_node :: "'a wait_list \<Rightarrow> waiter_id \<Rightarrow> 'a node \<Rightarrow> 'a wait_list" where
  "wl_put_node wl w n = wl\<lparr>wl_nodes := arena_put (wl_nodes wl) (waiter_slot w) n\<rparr>"

definition linked_node_mut ::
  "'a wait_list \<Rightarrow> waiter_id \<Rightarrow> (links \<Rightarrow> links) \<Rightarrow> 'a wait_list option" where
  "linked_node_mut wl w f = do {
     n \<leftarrow> wl_node wl w;
     l \<leftarrow> nd_links n;
     Some (wl_put_node wl w (n\<lparr>nd_links := Some (f l)\<rparr>)) }"

section \<open>Operations\<close>

definition push_front :: "'a wait_list \<Rightarrow> 'a \<Rightarrow> (waiter_id \<times> 'a wait_list) option" where
  "push_front wl value = do {
     let nxt = wl_head wl;
     (s, nodes) \<leftarrow> arena_insert (wl_nodes wl)
        \<lparr>nd_links = Some \<lparr>lk_prev = None, lk_next = nxt\<rparr>, nd_value = value\<rparr>;
     let w = WaiterId s;
     let wl = wl\<lparr>wl_nodes := nodes\<rparr>;
     wl \<leftarrow> (case nxt of
              Some nxt \<Rightarrow> linked_node_mut wl nxt (lk_prev_update (\<lambda>_. Some w))
            | None \<Rightarrow> Some (wl\<lparr>wl_tail := Some w\<rparr>));
     Some (w, wl\<lparr>wl_head := Some w\<rparr>) }"

definition push_back :: "'a wait_list \<Rightarrow> 'a \<Rightarrow> (waiter_id \<times> 'a wait_list) option" where
  "push_back wl value = do {
     let prv = wl_tail wl;
     (s, nodes) \<leftarrow> arena_insert (wl_nodes wl)
        \<lparr>nd_links = Some \<lparr>lk_prev = prv, lk_next = None\<rparr>, nd_value = value\<rparr>;
     let w = WaiterId s;
     let wl = wl\<lparr>wl_nodes := nodes\<rparr>;
     wl \<leftarrow> (case prv of
              Some prv \<Rightarrow> linked_node_mut wl prv (lk_next_update (\<lambda>_. Some w))
            | None \<Rightarrow> Some (wl\<lparr>wl_head := Some w\<rparr>));
     Some (w, wl\<lparr>wl_tail := Some w\<rparr>) }"

text \<open>
  The predicate closure may change the value it inspects and the variables it captures:
  it maps the captured state and the value to the answer, the new value and the new
  captured state. The result is \<open>None\<close> for a waiter that stays, and the value of the
  detached node otherwise; clients write that value back with \<open>set_waiter\<close>.
\<close>

type_synonym ('c, 'a) unlink_pred = "'c \<Rightarrow> 'a \<Rightarrow> bool \<times> 'a \<times> 'c"

definition unlink_waiter ::
  "'a wait_list \<Rightarrow> waiter_id \<Rightarrow> ('c, 'a) unlink_pred \<Rightarrow> 'c \<Rightarrow>
   ('a option \<times> 'c \<times> 'a wait_list) option" where
  "unlink_waiter wl w should_unlink c = do {
     n \<leftarrow> wl_node wl w;
     let (ok, v, c) = should_unlink c (nd_value n);
     if \<not> ok then Some (None, c, wl_put_node wl w (n\<lparr>nd_value := v\<rparr>))
     else do {
       let wl = wl_put_node wl w (n\<lparr>nd_value := v, nd_links := None\<rparr>);
       wl \<leftarrow> (case nd_links n of
                None \<Rightarrow> Some wl
              | Some l \<Rightarrow> do {
                  wl \<leftarrow> (case lk_prev l of
                           Some p \<Rightarrow> linked_node_mut wl p (lk_next_update (\<lambda>_. lk_next l))
                         | None \<Rightarrow> Some (wl\<lparr>wl_head := lk_next l\<rparr>));
                  (case lk_next l of
                     Some x \<Rightarrow> linked_node_mut wl x (lk_prev_update (\<lambda>_. lk_prev l))
                   | None \<Rightarrow> Some (wl\<lparr>wl_tail := lk_prev l\<rparr>)) });
       n \<leftarrow> wl_node wl w;
       Some (Some (nd_value n), c, wl) } }"

definition unlink_first_waiter ::
  "'a wait_list \<Rightarrow> ('c, 'a) unlink_pred \<Rightarrow> 'c \<Rightarrow>
   ((waiter_id \<times> 'a) option \<times> 'c \<times> 'a wait_list) option" where
  "unlink_first_waiter wl should_unlink c =
     (case wl_head wl of
        None \<Rightarrow> Some (None, c, wl)
      | Some first \<Rightarrow> do {
          (r, c, wl) \<leftarrow> unlink_waiter wl first should_unlink c;
          Some (map_option (\<lambda>v. (first, v)) r, c, wl) })"

text \<open>The closure \<open>|_| true\<close>.\<close>

definition always :: "(unit, 'a) unlink_pred" where
  "always c v = (True, v, c)"

definition wl_is_empty :: "'a wait_list \<Rightarrow> bool" where
  "wl_is_empty wl \<longleftrightarrow> wl_head wl = None"

definition waiter_mut :: "'a wait_list \<Rightarrow> waiter_id \<Rightarrow> 'a option" where
  "waiter_mut wl w = do { n \<leftarrow> wl_node wl w; Some (nd_value n) }"

definition set_waiter :: "'a wait_list \<Rightarrow> waiter_id \<Rightarrow> 'a \<Rightarrow> 'a wait_list option" where
  "set_waiter wl w v = do { n \<leftarrow> wl_node wl w; Some (wl_put_node wl w (n\<lparr>nd_value := v\<rparr>)) }"

definition remove_unlinked_waiter ::
  "'a wait_list \<Rightarrow> waiter_id \<Rightarrow> ('a \<times> 'a wait_list) option" where
  "remove_unlinked_waiter wl w = do {
     n \<leftarrow> wl_node wl w;
     guard (nd_links n = None);
     (n, nodes) \<leftarrow> arena_remove (wl_nodes wl) (waiter_slot w);
     Some (nd_value n, wl\<lparr>wl_nodes := nodes\<rparr>) }"

lemmas waitlist_ops [op_defs] = wl_new_def wl_node_def wl_put_node_def linked_node_mut_def
  push_front_def push_back_def unlink_waiter_def unlink_first_waiter_def always_def wl_is_empty_def
  waiter_mut_def set_waiter_def remove_unlinked_waiter_def

section \<open>Abstraction and invariant\<close>

text \<open>Follow the \<open>next\<close> links; a list of distinct nodes is no longer than the slot vector.\<close>

fun walk :: "nat \<Rightarrow> 'a wait_list \<Rightarrow> waiter_id option \<Rightarrow> waiter_id list" where
  "walk 0 wl h = []"
| "walk (Suc k) wl None = []"
| "walk (Suc k) wl (Some w) =
     w # walk k wl (case wl_node wl w of
                      Some n \<Rightarrow> (case nd_links n of Some l \<Rightarrow> lk_next l | None \<Rightarrow> None)
                    | None \<Rightarrow> None)"

definition wl_queue :: "'a wait_list \<Rightarrow> waiter_id list" where
  "wl_queue wl = walk (length (ar_slots (wl_nodes wl))) wl (wl_head wl)"

definition wl_val :: "'a wait_list \<Rightarrow> waiter_id \<Rightarrow> 'a option" where
  "wl_val wl w = map_option nd_value (wl_node wl w)"

definition links_in :: "waiter_id list \<Rightarrow> waiter_id \<Rightarrow> links option" where
  "links_in xs w =
     (if w \<in> set xs then Some \<lparr>lk_prev = before xs w, lk_next = after xs w\<rparr> else None)"

text \<open>The nodes, the head and the tail represent the queue \<open>xs\<close>.\<close>

definition linked :: "'a wait_list \<Rightarrow> waiter_id list \<Rightarrow> bool" where
  "linked wl xs \<longleftrightarrow>
     distinct xs \<and> wl_head wl = first_of xs \<and> wl_tail wl = last_of xs \<and>
     (\<forall>w \<in> set xs. wl_node wl w \<noteq> None) \<and>
     (\<forall>w n. wl_node wl w = Some n \<longrightarrow> nd_links n = links_in xs w)"

definition wl_inv :: "'a wait_list \<Rightarrow> bool" where
  "wl_inv wl \<longleftrightarrow> arena_inv (wl_nodes wl) \<and> linked wl (wl_queue wl)"

definition wl_room :: "'a wait_list \<Rightarrow> bool" where
  "wl_room wl \<longleftrightarrow> arena_room (wl_nodes wl)"

subsection \<open>The computed queue is the represented one\<close>

lemma links_in_split:
  assumes "distinct (us @ w # vs)"
  shows "links_in (us @ w # vs) w = Some \<lparr>lk_prev = last_of us, lk_next = first_of vs\<rparr>"
  using assms by (auto simp: links_in_def before_append after_append after_Cons)

lemma walk_linked:
  assumes "linked wl (us @ vs)" and "length vs \<le> k"
  shows "walk k wl (first_of vs) = vs"
  using assms
proof (induction vs arbitrary: us k)
  case Nil
  then show ?case by (cases k) auto
next
  case (Cons w vs)
  then obtain k' where k: "k = Suc k'" by (cases k) auto
  from Cons.prems(1) obtain n where n: "wl_node wl w = Some n"
    "nd_links n = Some \<lparr>lk_prev = last_of us, lk_next = first_of vs\<rparr>"
    using links_in_split [of us w vs] by (fastforce simp: linked_def)
  have "walk k' wl (first_of vs) = vs"
    using Cons.IH [of "us @ [w]" k'] Cons.prems k by simp
  with n k show ?case by simp
qed

lemma linked_length:
  assumes "linked wl xs"
  shows "length xs \<le> length (ar_slots (wl_nodes wl))"
proof -
  have "(slot_index \<circ> waiter_slot) ` set xs \<subseteq> {..<length (ar_slots (wl_nodes wl))}"
    using assms
    by (auto simp: linked_def wl_node_def arena_get_Some_iff dest!: bspec slot_at_Some_less)
  moreover have "inj_on (slot_index \<circ> waiter_slot) (set xs)"
    by (auto simp: inj_on_def)
  ultimately have "card (set xs) \<le> card {..<length (ar_slots (wl_nodes wl))}"
    by (metis card_image card_mono finite_lessThan)
  moreover have "card (set xs) = length xs"
    using assms by (simp add: linked_def distinct_card)
  ultimately show ?thesis by simp
qed

lemma linked_queue: "linked wl xs \<Longrightarrow> wl_queue wl = xs"
  using walk_linked [of wl "[]" xs] linked_length [of wl xs]
  by (simp add: wl_queue_def linked_def)

lemma wl_inv_eq: "wl_inv wl \<longleftrightarrow> arena_inv (wl_nodes wl) \<and> (\<exists>xs. linked wl xs)"
  using linked_queue by (auto simp: wl_inv_def)

lemma wl_invI: "arena_inv (wl_nodes wl) \<Longrightarrow> linked wl xs \<Longrightarrow> wl_inv wl \<and> wl_queue wl = xs"
  using linked_queue [of wl xs] by (simp add: wl_inv_def)

section \<open>Effect of the operations on the nodes\<close>

lemma wl_node_update [simp]:
  "wl_node (wl\<lparr>wl_head := h\<rparr>) = wl_node wl"
  "wl_node (wl\<lparr>wl_tail := t\<rparr>) = wl_node wl"
  by (simp_all add: wl_node_def fun_eq_iff)

lemma wl_put_node_fields [simp]:
  "wl_head (wl_put_node wl w n) = wl_head wl"
  "wl_tail (wl_put_node wl w n) = wl_tail wl"
  by (simp_all add: wl_put_node_def)

lemma wl_node_put:
  "wl_node wl w = Some m \<Longrightarrow> wl_node (wl_put_node wl w n) = (wl_node wl)(w \<mapsto> n)"
  by (auto simp: wl_node_def wl_put_node_def fun_eq_iff ar.get_put)

lemma wl_put_node_inv:
  "arena_inv (wl_nodes wl) \<Longrightarrow> wl_node wl w = Some m \<Longrightarrow> arena_inv (wl_nodes (wl_put_node wl w n))"
  by (auto simp: wl_node_def wl_put_node_def intro: ar.inv_put)

lemma wl_node_insert:
  assumes "arena_insert (wl_nodes wl) n = Some (s, nodes)"
  shows "wl_node wl (WaiterId s) = None"
    and "wl_node (wl\<lparr>wl_nodes := nodes\<rparr>) = (wl_node wl)(WaiterId s \<mapsto> n)"
  using ar.insert_fresh [OF assms] ar.get_insert [OF assms] waiter_slot_inject [of _ "WaiterId s"]
  by (auto simp: wl_node_def fun_eq_iff simp del: waiter_slot_inject)

lemma wl_node_remove:
  assumes "arena_remove (wl_nodes wl) (waiter_slot w) = Some (n, nodes)"
  shows "wl_node wl w = Some n"
    and "wl_node (wl\<lparr>wl_nodes := nodes\<rparr>) = (wl_node wl)(w := None)"
  using ar.remove_get [OF assms] ar.get_remove [OF assms]
  by (auto simp: wl_node_def fun_eq_iff)

lemma linked_node_mut_Some_iff:
  "linked_node_mut wl w f = Some wl' \<longleftrightarrow>
     (\<exists>n l. wl_node wl w = Some n \<and> nd_links n = Some l \<and>
            wl' = wl_put_node wl w (n\<lparr>nd_links := Some (f l)\<rparr>))"
  by (auto simp: linked_node_mut_def panic_simps)

text \<open>
  One step of a linked update: it succeeds on a linked node, changes that node's links
  only, and keeps the storage invariant.
\<close>

lemma linked_node_mut_step:
  assumes "wl_node wl w = Some n" and "nd_links n = Some l"
  obtains wl' where "linked_node_mut wl w f = Some wl'"
    and "wl_node wl' = (wl_node wl)(w \<mapsto> n\<lparr>nd_links := Some (f l)\<rparr>)"
    and "wl_head wl' = wl_head wl" and "wl_tail wl' = wl_tail wl"
    and "arena_inv (wl_nodes wl) \<Longrightarrow> arena_inv (wl_nodes wl')"
proof
  show "linked_node_mut wl w f = Some (wl_put_node wl w (n\<lparr>nd_links := Some (f l)\<rparr>))"
    using assms by (simp add: linked_node_mut_def)
  show "arena_inv (wl_nodes wl) \<Longrightarrow>
      arena_inv (wl_nodes (wl_put_node wl w (n\<lparr>nd_links := Some (f l)\<rparr>)))"
    using assms(1) by (rule wl_put_node_inv [rotated])
qed (use assms in \<open>auto simp: wl_node_put\<close>)

lemma linked_nodeE:
  assumes "linked wl xs" and "w \<in> set xs"
  obtains n where "wl_node wl w = Some n"
    and "nd_links n = Some \<lparr>lk_prev = before xs w, lk_next = after xs w\<rparr>"
  using assms by (fastforce simp: linked_def links_in_def)

lemma linked_links:
  "linked wl xs \<Longrightarrow> w \<in> set xs \<Longrightarrow> \<exists>n l. wl_node wl w = Some n \<and> nd_links n = Some l"
  by (auto elim: linked_nodeE)

lemma linkedI:
  assumes "distinct xs" "wl_head wl = first_of xs" "wl_tail wl = last_of xs"
    and "\<And>w. w \<in> set xs \<Longrightarrow> wl_node wl w \<noteq> None"
    and "\<And>w n. wl_node wl w = Some n \<Longrightarrow> nd_links n = links_in xs w"
  shows "linked wl xs"
  using assms by (auto simp: linked_def)

subsection \<open>Relinking a neighbour\<close>

text \<open>
  The two conditional updates the operations are made of, as functions of the node map:
  the predecessor (or the head) gets a new \<open>next\<close> link, the successor (or the tail) a new
  \<open>prev\<close> link.
\<close>

definition set_next :: "waiter_id option \<Rightarrow> waiter_id option \<Rightarrow> waiter_id \<Rightarrow> 'a node \<Rightarrow> 'a node" where
  "set_next p nx j n =
     (if p = Some j then n\<lparr>nd_links := map_option (lk_next_update (\<lambda>_. nx)) (nd_links n)\<rparr> else n)"

definition set_prev :: "waiter_id option \<Rightarrow> waiter_id option \<Rightarrow> waiter_id \<Rightarrow> 'a node \<Rightarrow> 'a node" where
  "set_prev q pv j n =
     (if q = Some j then n\<lparr>nd_links := map_option (lk_prev_update (\<lambda>_. pv)) (nd_links n)\<rparr> else n)"

lemma set_neighbour_simps [simp]:
  "nd_value (set_next p nx j n) = nd_value n" "nd_value (set_prev q pv j n) = nd_value n"
  "set_next None nx j = (\<lambda>n. n)" "set_prev None pv j = (\<lambda>n. n)"
  by (simp_all add: set_next_def set_prev_def fun_eq_iff)

lemma set_neighbour_other:
  "p \<noteq> Some j \<Longrightarrow> set_next p nx j = (\<lambda>n. n)" "q \<noteq> Some j \<Longrightarrow> set_prev q pv j = (\<lambda>n. n)"
  by (simp_all add: set_next_def set_prev_def fun_eq_iff)

lemma nd_links_set_neighbour:
  "nd_links (set_next p nx j n) =
     (if p = Some j then map_option (lk_next_update (\<lambda>_. nx)) (nd_links n) else nd_links n)"
  "nd_links (set_prev q pv j n) =
     (if q = Some j then map_option (lk_prev_update (\<lambda>_. pv)) (nd_links n) else nd_links n)"
  by (simp_all add: set_next_def set_prev_def)

lemma relink_prev:
  assumes "\<And>x. p = Some x \<Longrightarrow> \<exists>n l. wl_node wl x = Some n \<and> nd_links n = Some l"
  obtains wl' where
    "(case p of Some x \<Rightarrow> linked_node_mut wl x (lk_next_update (\<lambda>_. nx))
              | None \<Rightarrow> Some (wl\<lparr>wl_head := nx\<rparr>)) = Some wl'"
    and "wl_head wl' = (if p = None then nx else wl_head wl)" and "wl_tail wl' = wl_tail wl"
    and "\<And>j. wl_node wl' j = map_option (set_next p nx j) (wl_node wl j)"
    and "arena_inv (wl_nodes wl) \<Longrightarrow> arena_inv (wl_nodes wl')"
proof (cases p)
  case None
  then show thesis
    by (intro that [of "wl\<lparr>wl_head := nx\<rparr>"]) auto
next
  case (Some x)
  with assms obtain n l where n: "wl_node wl x = Some n" "nd_links n = Some l" by blast
  obtain wl' where wl': "linked_node_mut wl x (lk_next_update (\<lambda>_. nx)) = Some wl'"
    "wl_node wl' = (wl_node wl)(x \<mapsto> n\<lparr>nd_links := Some (l\<lparr>lk_next := nx\<rparr>)\<rparr>)"
    "wl_head wl' = wl_head wl" "wl_tail wl' = wl_tail wl"
    "arena_inv (wl_nodes wl) \<Longrightarrow> arena_inv (wl_nodes wl')"
    by (rule linked_node_mut_step [OF n, of "lk_next_update (\<lambda>_. nx)"]) blast
  show thesis
    by (rule that [of wl']) (use wl' n Some in \<open>auto simp: set_next_def set_neighbour_other\<close>)
qed

lemma relink_next:
  assumes "\<And>x. q = Some x \<Longrightarrow> \<exists>n l. wl_node wl x = Some n \<and> nd_links n = Some l"
  obtains wl' where
    "(case q of Some x \<Rightarrow> linked_node_mut wl x (lk_prev_update (\<lambda>_. pv))
              | None \<Rightarrow> Some (wl\<lparr>wl_tail := pv\<rparr>)) = Some wl'"
    and "wl_tail wl' = (if q = None then pv else wl_tail wl)" and "wl_head wl' = wl_head wl"
    and "\<And>j. wl_node wl' j = map_option (set_prev q pv j) (wl_node wl j)"
    and "arena_inv (wl_nodes wl) \<Longrightarrow> arena_inv (wl_nodes wl')"
proof (cases q)
  case None
  then show thesis
    by (intro that [of "wl\<lparr>wl_tail := pv\<rparr>"]) auto
next
  case (Some x)
  with assms obtain n l where n: "wl_node wl x = Some n" "nd_links n = Some l" by blast
  obtain wl' where wl': "linked_node_mut wl x (lk_prev_update (\<lambda>_. pv)) = Some wl'"
    "wl_node wl' = (wl_node wl)(x \<mapsto> n\<lparr>nd_links := Some (l\<lparr>lk_prev := pv\<rparr>)\<rparr>)"
    "wl_head wl' = wl_head wl" "wl_tail wl' = wl_tail wl"
    "arena_inv (wl_nodes wl) \<Longrightarrow> arena_inv (wl_nodes wl')"
    by (rule linked_node_mut_step [OF n, of "lk_prev_update (\<lambda>_. pv)"]) blast
  show thesis
    by (rule that [of wl']) (use wl' n Some in \<open>auto simp: set_prev_def set_neighbour_other\<close>)
qed

subsection \<open>Pushing\<close>

lemma links_in_snoc:
  assumes "distinct (xs @ [w])"
  shows "links_in (xs @ [w]) j =
    (if j = w then Some \<lparr>lk_prev = last_of xs, lk_next = None\<rparr>
     else map_option (\<lambda>l. if last_of xs = Some j then l\<lparr>lk_next := Some w\<rparr> else l) (links_in xs j))"
  using assms
  by (auto simp: links_in_def before_append after_append dest: last_of_in_set)

lemma links_in_Cons:
  assumes "distinct (w # xs)"
  shows "links_in (w # xs) j =
    (if j = w then Some \<lparr>lk_prev = None, lk_next = first_of xs\<rparr>
     else map_option (\<lambda>l. if first_of xs = Some j then l\<lparr>lk_prev := Some w\<rparr> else l) (links_in xs j))"
  using assms before_append [of "[w]" xs j]
  by (auto simp: links_in_def after_Cons before_notin first_of_Some_iff split: if_splits)

lemma push_back_linked:
  assumes inv: "arena_inv (wl_nodes wl)" and l: "linked wl xs"
    and ins: "arena_insert (wl_nodes wl)
      \<lparr>nd_links = Some \<lparr>lk_prev = wl_tail wl, lk_next = None\<rparr>, nd_value = v\<rparr> = Some (s, nodes)"
  obtains wl' where "push_back wl v = Some (WaiterId s, wl')"
    and "arena_inv (wl_nodes wl')" and "linked wl' (xs @ [WaiterId s])"
    and "wl_val wl' = (wl_val wl)(WaiterId s \<mapsto> v)"
proof -
  let ?w = "WaiterId s" and ?wl = "wl\<lparr>wl_nodes := nodes\<rparr>"
  note node = wl_node_insert [OF ins]
  have new: "?w \<notin> set xs" and dist: "distinct (xs @ [?w])"
    using l node(1) by (auto simp: linked_def)
  have hd: "wl_head wl = first_of xs" "wl_tail wl = last_of xs"
    using l by (auto simp: linked_def)
  obtain wl1 where wl1:
    "(case last_of xs of Some x \<Rightarrow> linked_node_mut ?wl x (lk_next_update (\<lambda>_. Some ?w))
              | None \<Rightarrow> Some (?wl\<lparr>wl_head := Some ?w\<rparr>)) = Some wl1"
    "wl_head wl1 = (if last_of xs = None then Some ?w else wl_head ?wl)"
    "\<And>j. wl_node wl1 j = map_option (set_next (last_of xs) (Some ?w) j) (wl_node ?wl j)"
    "arena_inv (wl_nodes ?wl) \<Longrightarrow> arena_inv (wl_nodes wl1)"
    by (rule relink_prev [of "last_of xs" ?wl "Some ?w"])
       (use linked_links [OF l] new in \<open>auto simp: node(2) dest!: last_of_in_set\<close>)
  let ?wl' = "wl1\<lparr>wl_tail := Some ?w\<rparr>"
  have "push_back wl v = Some (?w, ?wl')"
    using ins wl1(1) by (simp add: push_back_def hd Let_def)
  moreover have links: "nd_links m = links_in (xs @ [?w]) j" if "wl_node ?wl' j = Some m" for j m
    using that l new
    by (auto simp: wl1(3) node links_in_snoc [OF dist] nd_links_set_neighbour linked_def hd
          dest: last_of_in_set split: if_splits)
  have ex: "wl_node ?wl' j \<noteq> None" if "j \<in> set (xs @ [?w])" for j
    using that linked_links [OF l, of j] by (auto simp: wl1(3) node(2))
  have "linked ?wl' (xs @ [?w])"
    by (rule linkedI [OF dist _ _ ex links]) (auto simp: wl1(2) hd first_of_append)
  moreover have "wl_val ?wl' = (wl_val wl)(?w \<mapsto> v)"
    by (auto simp: wl_val_def wl1(3) node fun_eq_iff option.map_comp o_def)
  ultimately show thesis
    using that wl1(4) ar.inv_insert [OF inv ins] by simp
qed

lemma push_front_linked:
  assumes inv: "arena_inv (wl_nodes wl)" and l: "linked wl xs"
    and ins: "arena_insert (wl_nodes wl)
      \<lparr>nd_links = Some \<lparr>lk_prev = None, lk_next = wl_head wl\<rparr>, nd_value = v\<rparr> = Some (s, nodes)"
  obtains wl' where "push_front wl v = Some (WaiterId s, wl')"
    and "arena_inv (wl_nodes wl')" and "linked wl' (WaiterId s # xs)"
    and "wl_val wl' = (wl_val wl)(WaiterId s \<mapsto> v)"
proof -
  let ?w = "WaiterId s" and ?wl = "wl\<lparr>wl_nodes := nodes\<rparr>"
  note node = wl_node_insert [OF ins]
  have new: "?w \<notin> set xs" and dist: "distinct (?w # xs)"
    using l node(1) by (auto simp: linked_def)
  have hd: "wl_head wl = first_of xs" "wl_tail wl = last_of xs"
    using l by (auto simp: linked_def)
  obtain wl1 where wl1:
    "(case first_of xs of Some x \<Rightarrow> linked_node_mut ?wl x (lk_prev_update (\<lambda>_. Some ?w))
              | None \<Rightarrow> Some (?wl\<lparr>wl_tail := Some ?w\<rparr>)) = Some wl1"
    "wl_tail wl1 = (if first_of xs = None then Some ?w else wl_tail ?wl)"
    "\<And>j. wl_node wl1 j = map_option (set_prev (first_of xs) (Some ?w) j) (wl_node ?wl j)"
    "arena_inv (wl_nodes ?wl) \<Longrightarrow> arena_inv (wl_nodes wl1)"
    by (rule relink_next [of "first_of xs" ?wl "Some ?w"])
       (use linked_links [OF l] new in \<open>auto simp: node(2) first_of_Some_iff\<close>)
  let ?wl' = "wl1\<lparr>wl_head := Some ?w\<rparr>"
  have "push_front wl v = Some (?w, ?wl')"
    using ins wl1(1) by (simp add: push_front_def hd Let_def)
  moreover have links: "nd_links m = links_in (?w # xs) j" if "wl_node ?wl' j = Some m" for j m
    using that l new
    by (auto simp: wl1(3) node links_in_Cons [OF dist] nd_links_set_neighbour linked_def hd
          first_of_Some_iff split: if_splits)
  have ex: "wl_node ?wl' j \<noteq> None" if "j \<in> set (?w # xs)" for j
    using that linked_links [OF l, of j] by (auto simp: wl1(3) node(2))
  have "linked ?wl' (?w # xs)"
    by (rule linkedI [OF dist _ _ ex links]) (auto simp: wl1(2) hd last_of_Cons)
  moreover have "wl_val ?wl' = (wl_val wl)(?w \<mapsto> v)"
    by (auto simp: wl_val_def wl1(3) node fun_eq_iff option.map_comp o_def)
  ultimately show thesis
    using that wl1(4) ar.inv_insert [OF inv ins] by simp
qed

subsection \<open>Detaching\<close>

lemma unlink_stays:
  assumes "wl_node wl w = Some n" and "p c (nd_value n) = (False, v, c')"
  shows "unlink_waiter wl w p c = Some (None, c', wl_put_node wl w (n\<lparr>nd_value := v\<rparr>))"
  using assms by (simp add: unlink_waiter_def Let_def)

lemma put_value_linked:
  assumes "linked wl xs" and "wl_node wl w = Some n"
  shows "linked (wl_put_node wl w (n\<lparr>nd_value := v\<rparr>)) xs"
    and "wl_val (wl_put_node wl w (n\<lparr>nd_value := v\<rparr>)) = (wl_val wl)(w \<mapsto> v)"
  using assms by (auto simp: linked_def wl_node_put wl_val_def fun_eq_iff)

lemma unlink_detached:
  assumes "linked wl xs" and "w \<notin> set xs" and n: "wl_node wl w = Some n"
    and "p c (nd_value n) = (True, v, c')"
  shows "unlink_waiter wl w p c = Some (Some v, c', wl_put_node wl w (n\<lparr>nd_value := v\<rparr>))"
proof -
  have "nd_links n = None"
    using assms by (auto simp: linked_def links_in_def)
  then show ?thesis
    using assms by (cases n) (simp add: unlink_waiter_def Let_def wl_node_put)
qed

lemma links_in_remove:
  assumes "distinct (us @ w # vs)" and "j \<noteq> w"
  shows "links_in (us @ vs) j =
     map_option (\<lambda>l. l\<lparr>lk_prev := if first_of vs = Some j then last_of us else lk_prev l,
                       lk_next := if last_of us = Some j then first_of vs else lk_next l\<rparr>)
       (links_in (us @ w # vs) j)"
proof -
  have b: "before (w # vs) j = (if first_of vs = Some j then Some w else before vs j)"
    using before_append [of "[w]" vs j] assms by auto
  have a: "after (w # vs) j = after vs j"
    using assms by (simp add: after_Cons)
  have lf: "last_of us = Some j \<Longrightarrow> j \<in> set us" "first_of vs = Some j \<Longrightarrow> j \<in> set vs"
    by (auto simp: first_of_Some_iff dest: last_of_in_set)
  consider (us) "j \<in> set us" "j \<notin> set vs" | (vs) "j \<in> set vs" "j \<notin> set us"
    | (out) "j \<notin> set us" "j \<notin> set vs"
    using assms by auto
  then show ?thesis
  proof cases
    case us
    then have "first_of vs \<noteq> Some j" using lf by blast
    with us assms show ?thesis by (simp add: links_in_def before_append after_append)
  next
    case vs
    then have "last_of us \<noteq> Some j" using lf by blast
    with vs assms show ?thesis by (simp add: links_in_def before_append after_append a b)
  next
    case out
    with assms show ?thesis by (simp add: links_in_def)
  qed
qed

text \<open>Both neighbours of a detached node, relinked one after the other.\<close>

lemma relink_both:
  assumes "\<And>x. p = Some x \<or> q = Some x \<Longrightarrow> \<exists>n l. wl_node wl x = Some n \<and> nd_links n = Some l"
  obtains wl' where
    "do { wl \<leftarrow> (case p of Some x \<Rightarrow> linked_node_mut wl x (lk_next_update (\<lambda>_. q))
                         | None \<Rightarrow> Some (wl\<lparr>wl_head := q\<rparr>));
          (case q of Some x \<Rightarrow> linked_node_mut wl x (lk_prev_update (\<lambda>_. p))
                   | None \<Rightarrow> Some (wl\<lparr>wl_tail := p\<rparr>)) } = Some wl'"
    and "wl_head wl' = (if p = None then q else wl_head wl)"
    and "wl_tail wl' = (if q = None then p else wl_tail wl)"
    and "\<And>j. wl_node wl' j = map_option (set_prev q p j \<circ> set_next p q j) (wl_node wl j)"
    and "arena_inv (wl_nodes wl) \<Longrightarrow> arena_inv (wl_nodes wl')"
proof -
  obtain wl1 where wl1:
    "(case p of Some x \<Rightarrow> linked_node_mut wl x (lk_next_update (\<lambda>_. q))
              | None \<Rightarrow> Some (wl\<lparr>wl_head := q\<rparr>)) = Some wl1"
    "wl_head wl1 = (if p = None then q else wl_head wl)" "wl_tail wl1 = wl_tail wl"
    "\<And>j. wl_node wl1 j = map_option (set_next p q j) (wl_node wl j)"
    "arena_inv (wl_nodes wl) \<Longrightarrow> arena_inv (wl_nodes wl1)"
    by (rule relink_prev [of p wl q]) (use assms in auto)
  have others: "\<exists>n l. wl_node wl1 x = Some n \<and> nd_links n = Some l" if "q = Some x" for x
    using that assms [of x] by (auto simp: wl1(4) nd_links_set_neighbour)
  obtain wl2 where wl2:
    "(case q of Some x \<Rightarrow> linked_node_mut wl1 x (lk_prev_update (\<lambda>_. p))
              | None \<Rightarrow> Some (wl1\<lparr>wl_tail := p\<rparr>)) = Some wl2"
    "wl_tail wl2 = (if q = None then p else wl_tail wl1)" "wl_head wl2 = wl_head wl1"
    "\<And>j. wl_node wl2 j = map_option (set_prev q p j) (wl_node wl1 j)"
    "arena_inv (wl_nodes wl1) \<Longrightarrow> arena_inv (wl_nodes wl2)"
    by (rule relink_next [of q wl1 p, OF others]) blast+
  show thesis
    by (rule that [of wl2])
       (use wl1 wl2 in \<open>auto simp: option.map_comp\<close>)
qed

lemma unlink_linked:
  assumes inv: "arena_inv (wl_nodes wl)" and l: "linked wl (us @ w # vs)"
    and n: "wl_node wl w = Some n" and ok: "p c (nd_value n) = (True, v, c')"
  obtains wl' where "unlink_waiter wl w p c = Some (Some v, c', wl')"
    and "arena_inv (wl_nodes wl')" and "linked wl' (us @ vs)"
    and "wl_val wl' = (wl_val wl)(w \<mapsto> v)"
proof -
  let ?n = "n\<lparr>nd_value := v, nd_links := None\<rparr>"
  let ?wl = "wl_put_node wl w ?n" and ?p = "last_of us" and ?q = "first_of vs"
  have dist: "distinct (us @ w # vs)" and hd: "wl_head wl = first_of (us @ w # vs)"
    "wl_tail wl = last_of (us @ w # vs)"
    and links: "\<And>j m. wl_node wl j = Some m \<Longrightarrow> nd_links m = links_in (us @ w # vs) j"
    using l by (auto simp: linked_def)
  have lk: "nd_links n = Some \<lparr>lk_prev = ?p, lk_next = ?q\<rparr>"
    using links [OF n] links_in_split [OF dist] by simp
  have out: "?p \<noteq> Some w" "?q \<noteq> Some w"
    using dist by (auto simp: first_of_Some_iff dest: last_of_in_set)
  have nodes: "wl_node ?wl = (wl_node wl)(w \<mapsto> ?n)"
    by (rule wl_node_put [OF n])
  have others: "\<exists>n l. wl_node ?wl x = Some n \<and> nd_links n = Some l" if "?p = Some x \<or> ?q = Some x" for x
    using that linked_links [OF l, of x] dist out
    by (auto simp: nodes first_of_Some_iff dest: last_of_in_set)
  obtain wl2 where wl2:
    "do { wl \<leftarrow> (case ?p of Some x \<Rightarrow> linked_node_mut ?wl x (lk_next_update (\<lambda>_. ?q))
                         | None \<Rightarrow> Some (?wl\<lparr>wl_head := ?q\<rparr>));
          (case ?q of Some x \<Rightarrow> linked_node_mut wl x (lk_prev_update (\<lambda>_. ?p))
                   | None \<Rightarrow> Some (wl\<lparr>wl_tail := ?p\<rparr>)) } = Some wl2"
    "wl_head wl2 = (if ?p = None then ?q else wl_head ?wl)"
    "wl_tail wl2 = (if ?q = None then ?p else wl_tail ?wl)"
    "\<And>j. wl_node wl2 j = map_option (set_prev ?q ?p j \<circ> set_next ?p ?q j) (wl_node ?wl j)"
    "arena_inv (wl_nodes ?wl) \<Longrightarrow> arena_inv (wl_nodes wl2)"
    by (rule relink_both [of ?p ?q ?wl, OF others]) blast+
  have node2: "wl_node wl2 j =
      (if j = w then Some ?n else map_option (set_prev ?q ?p j \<circ> set_next ?p ?q j) (wl_node wl j))" for j
    using out by (simp add: wl2(4) nodes set_neighbour_other)
  have "unlink_waiter wl w p c = Some (Some v, c', wl2)"
    using n ok lk wl2(1) node2 [of w]
    by (auto simp: unlink_waiter_def Let_def bind_Some_iff cong: option.case_cong)
  moreover have "arena_inv (wl_nodes wl2)"
    using wl2(5) wl_put_node_inv [OF inv n] by simp
  moreover have "linked wl2 (us @ vs)"
  proof (rule linkedI)
    show "nd_links m = links_in (us @ vs) j" if m: "wl_node wl2 j = Some m" for j m
    proof (cases "j = w")
      case False
      with m obtain m0 where m0: "wl_node wl j = Some m0"
        "m = set_prev ?q ?p j (set_next ?p ?q j m0)" by (auto simp: node2)
      show ?thesis
        unfolding links_in_remove [OF dist False] links [OF m0(1), symmetric] m0(2)
        by (cases "nd_links m0") (auto simp: nd_links_set_neighbour)
    qed (use m dist in \<open>auto simp: node2 links_in_def\<close>)
    show "wl_node wl2 j \<noteq> None" if "j \<in> set (us @ vs)" for j
      using that linked_links [OF l, of j] by (auto simp: node2)
  qed (use dist in \<open>auto simp: wl2(2,3) hd first_of_append last_of_append last_of_Cons\<close>)
  moreover have "wl_val wl2 = (wl_val wl)(w \<mapsto> v)"
    by (simp add: wl_val_def node2 fun_eq_iff option.map_comp o_def)
  ultimately show thesis by (rule that)
qed

section \<open>The operations on the abstraction\<close>

lemma wl_inv_new [simp]: "wl_inv wl_new"
  and wl_queue_new [simp]: "wl_queue wl_new = []"
  and wl_val_new [simp]: "wl_val wl_new = Map.empty"
proof -
  have "linked wl_new []"
    by (simp add: linked_def wl_new_def wl_node_def)
  moreover have "arena_inv (wl_nodes wl_new)"
    by (simp add: wl_new_def)
  ultimately show "wl_inv wl_new" "wl_queue wl_new = []"
    using wl_invI by blast+
  show "wl_val wl_new = Map.empty"
    by (simp add: wl_val_def wl_node_def wl_new_def fun_eq_iff)
qed

lemma wl_queue_valid:
  assumes "wl_inv wl"
  shows "distinct (wl_queue wl)" and "w \<in> set (wl_queue wl) \<Longrightarrow> \<exists>v. wl_val wl w = Some v"
  using assms by (auto simp: wl_inv_def linked_def wl_val_def)

lemma push_back_spec:
  assumes "wl_inv wl" and "push_back wl v = Some (w, wl')"
  shows "wl_val wl w = None" and "wl_inv wl'"
    and "wl_queue wl' = wl_queue wl @ [w]" and "wl_val wl' = (wl_val wl)(w \<mapsto> v)"
proof -
  from assms(2) obtain s nodes where ins: "arena_insert (wl_nodes wl)
      \<lparr>nd_links = Some \<lparr>lk_prev = wl_tail wl, lk_next = None\<rparr>, nd_value = v\<rparr> = Some (s, nodes)"
    and w: "w = WaiterId s"
    by (auto simp: push_back_def Let_def panic_simps)
  show "wl_val wl w = None"
    using wl_node_insert(1) [OF ins] w by (simp add: wl_val_def)
  have "arena_inv (wl_nodes wl)" "linked wl (wl_queue wl)"
    using assms(1) by (auto simp: wl_inv_def)
  from push_back_linked [OF this ins]
  show "wl_inv wl'" "wl_queue wl' = wl_queue wl @ [w]" "wl_val wl' = (wl_val wl)(w \<mapsto> v)"
    using assms(2) w wl_invI by (metis option.inject prod.inject)+
qed

lemma push_front_spec:
  assumes "wl_inv wl" and "push_front wl v = Some (w, wl')"
  shows "wl_val wl w = None" and "wl_inv wl'"
    and "wl_queue wl' = w # wl_queue wl" and "wl_val wl' = (wl_val wl)(w \<mapsto> v)"
proof -
  from assms(2) obtain s nodes where ins: "arena_insert (wl_nodes wl)
      \<lparr>nd_links = Some \<lparr>lk_prev = None, lk_next = wl_head wl\<rparr>, nd_value = v\<rparr> = Some (s, nodes)"
    and w: "w = WaiterId s"
    by (auto simp: push_front_def Let_def panic_simps)
  show "wl_val wl w = None"
    using wl_node_insert(1) [OF ins] w by (simp add: wl_val_def)
  have "arena_inv (wl_nodes wl)" "linked wl (wl_queue wl)"
    using assms(1) by (auto simp: wl_inv_def)
  from push_front_linked [OF this ins]
  show "wl_inv wl'" "wl_queue wl' = w # wl_queue wl" "wl_val wl' = (wl_val wl)(w \<mapsto> v)"
    using assms(2) w wl_invI by (metis option.inject prod.inject)+
qed

lemma push_total:
  assumes "wl_inv wl" and "wl_room wl"
  shows "\<exists>w wl'. push_back wl v = Some (w, wl')" and "\<exists>w wl'. push_front wl v = Some (w, wl')"
proof -
  have *: "arena_inv (wl_nodes wl)" "linked wl (wl_queue wl)" "arena_room (wl_nodes wl)"
    using assms by (auto simp: wl_inv_def wl_room_def)
  then show "\<exists>w wl'. push_back wl v = Some (w, wl')"
    using ar.insert_total push_back_linked [OF *(1,2)] by meson
  from * show "\<exists>w wl'. push_front wl v = Some (w, wl')"
    using ar.insert_total push_front_linked [OF *(1,2)] by meson
qed

text \<open>Detaching: every answer of the predicate, on a linked and on a detached node.\<close>

lemma unlink_waiter_abs:
  assumes "wl_inv wl" and v: "wl_val wl w = Some v" and p: "p c v = (ok, v', c')"
  obtains wl' where "unlink_waiter wl w p c = Some (if ok then Some v' else None, c', wl')"
    and "wl_inv wl'" and "wl_val wl' = (wl_val wl)(w \<mapsto> v')"
    and "wl_queue wl' = (if ok then removeAll w (wl_queue wl) else wl_queue wl)"
proof -
  let ?q = "wl_queue wl"
  have inv: "arena_inv (wl_nodes wl)" and l: "linked wl ?q"
    using assms(1) by (auto simp: wl_inv_def)
  from v obtain n where n: "wl_node wl w = Some n" "nd_value n = v"
    by (auto simp: wl_val_def)
  let ?put = "wl_put_node wl w (n\<lparr>nd_value := v'\<rparr>)"
  have put: "wl_inv ?put" "wl_queue ?put = ?q" "wl_val ?put = (wl_val wl)(w \<mapsto> v')"
    using wl_invI [OF wl_put_node_inv [OF inv n(1)] put_value_linked(1) [OF l n(1)]]
      put_value_linked(2) [OF l n(1)] by auto
  consider (stay) "\<not> ok" | (detached) ok "w \<notin> set ?q" | (queued) us vs where ok "?q = us @ w # vs"
    by (metis split_list)
  then show thesis
  proof cases
    case stay
    then show thesis using that [of ?put] put unlink_stays [OF n(1), of p c v' c'] p n(2) by simp
  next
    case detached
    then show thesis
      using that [of ?put] put unlink_detached [OF l _ n(1), of p c v' c'] p n(2)
      by (simp add: removeAll_id)
  next
    case queued
    with l p n obtain wl' where wl': "unlink_waiter wl w p c = Some (Some v', c', wl')"
      "arena_inv (wl_nodes wl')" "linked wl' (us @ vs)" "wl_val wl' = (wl_val wl)(w \<mapsto> v')"
      using unlink_linked [OF inv, of us w vs n p c v' c'] by auto
    moreover have "removeAll w ?q = us @ vs"
      using l queued by (auto simp: linked_def removeAll_id)
    ultimately show thesis
      using that [of wl'] queued(1) wl_invI [OF wl'(2,3)] by simp
  qed
qed

lemma unlink_waiter_invalid: "wl_val wl w = None \<Longrightarrow> unlink_waiter wl w p c = None"
  by (simp add: wl_val_def unlink_waiter_def)

lemma wl_is_empty_iff: "wl_inv wl \<Longrightarrow> wl_is_empty wl \<longleftrightarrow> wl_queue wl = []"
  by (auto simp: wl_is_empty_def wl_inv_def linked_def)

lemma wl_head_queue: "wl_inv wl \<Longrightarrow> wl_head wl = first_of (wl_queue wl)"
  by (simp add: wl_inv_def linked_def)

lemma waiter_mut_eq: "waiter_mut wl w = wl_val wl w"
  by (cases "wl_node wl w") (simp_all add: waiter_mut_def wl_val_def)

lemma set_waiter_abs:
  assumes "wl_inv wl" and "wl_val wl w = Some v"
  obtains wl' where "set_waiter wl w v' = Some wl'" and "wl_inv wl'"
    and "wl_queue wl' = wl_queue wl" and "wl_val wl' = (wl_val wl)(w \<mapsto> v')"
proof -
  obtain n where n: "wl_node wl w = Some n"
    using assms(2) by (auto simp: wl_val_def)
  have inv: "arena_inv (wl_nodes wl)" and l: "linked wl (wl_queue wl)"
    using assms(1) by (auto simp: wl_inv_def)
  let ?put = "wl_put_node wl w (n\<lparr>nd_value := v'\<rparr>)"
  show thesis
    by (rule that [of ?put])
       (use wl_invI [OF wl_put_node_inv [OF inv n] put_value_linked(1) [OF l n]]
          put_value_linked(2) [OF l n] n in \<open>auto simp: set_waiter_def\<close>)
qed

lemma set_waiter_invalid: "wl_val wl w = None \<Longrightarrow> set_waiter wl w v = None"
  by (simp add: wl_val_def set_waiter_def)

text \<open>Removal returns the value of a detached node, and panics on a linked one.\<close>

lemma remove_unlinked_abs:
  assumes "wl_inv wl" and "wl_val wl w = Some v" and "w \<notin> set (wl_queue wl)"
  obtains wl' where "remove_unlinked_waiter wl w = Some (v, wl')" and "wl_inv wl'"
    and "wl_queue wl' = wl_queue wl" and "wl_val wl' = (wl_val wl)(w := None)"
proof -
  have inv: "arena_inv (wl_nodes wl)" and l: "linked wl (wl_queue wl)"
    using assms(1) by (auto simp: wl_inv_def)
  obtain n where n: "wl_node wl w = Some n" "nd_value n = v"
    using assms(2) by (auto simp: wl_val_def)
  then have nl: "nd_links n = None"
    using l assms(3) by (auto simp: linked_def links_in_def)
  obtain nodes where r: "arena_remove (wl_nodes wl) (waiter_slot w) = Some (n, nodes)"
    using ar.remove_total [OF inv] n(1) by (auto simp: wl_node_def)
  let ?wl = "wl\<lparr>wl_nodes := nodes\<rparr>"
  note node = wl_node_remove(2) [OF r]
  have "linked ?wl (wl_queue wl)"
    using l assms(3) by (auto simp: linked_def node)
  then have "wl_inv ?wl" "wl_queue ?wl = wl_queue wl"
    using wl_invI [of ?wl "wl_queue wl"] ar.inv_remove [OF inv r] by auto
  then show thesis
    by (intro that [of ?wl])
       (use n nl r node in \<open>auto simp: remove_unlinked_waiter_def wl_val_def fun_eq_iff\<close>)
qed

lemma remove_unlinked_panics:
  assumes "wl_inv wl" and "wl_val wl w = None \<or> w \<in> set (wl_queue wl)"
  shows "remove_unlinked_waiter wl w = None"
proof (cases "wl_node wl w")
  case (Some n)
  then have "w \<in> set (wl_queue wl)" using assms(2) by (auto simp: wl_val_def)
  then have "nd_links n \<noteq> None"
    using assms(1) Some by (auto simp: wl_inv_def linked_def links_in_def)
  with Some show ?thesis by (auto simp: remove_unlinked_waiter_def guard_def)
qed (simp add: remove_unlinked_waiter_def)

section \<open>The contract of the waiter queue\<close>

text \<open>
  What the primitives built on the waiter list rely on. \<open>queue\<close> is the list of linked
  waiters, \<open>val\<close> the values of all live nodes. Under the representation invariant each
  operation returns (it does not panic) exactly on the identifiers the law names, and acts
  as stated.
\<close>

locale waiter_queue =
  fixes inv :: "'q \<Rightarrow> bool"
    and room :: "'q \<Rightarrow> bool"
    and queue :: "'q \<Rightarrow> 'i list"
    and val :: "'q \<Rightarrow> 'i \<Rightarrow> 'v option"
    and push :: "'q \<Rightarrow> 'v \<Rightarrow> ('i \<times> 'q) option"
    and push_first :: "'q \<Rightarrow> 'v \<Rightarrow> ('i \<times> 'q) option"
    and unlink :: "'q \<Rightarrow> 'i \<Rightarrow> ('c \<Rightarrow> 'v \<Rightarrow> bool \<times> 'v \<times> 'c) \<Rightarrow> 'c \<Rightarrow> ('v option \<times> 'c \<times> 'q) option"
    and unlink_first ::
      "'q \<Rightarrow> ('c \<Rightarrow> 'v \<Rightarrow> bool \<times> 'v \<times> 'c) \<Rightarrow> 'c \<Rightarrow> (('i \<times> 'v) option \<times> 'c \<times> 'q) option"
    and setv :: "'q \<Rightarrow> 'i \<Rightarrow> 'v \<Rightarrow> 'q option"
    and remove :: "'q \<Rightarrow> 'i \<Rightarrow> ('v \<times> 'q) option"
  assumes val_finite: "finite (dom (val s))"
    and queue_distinct: "inv s \<Longrightarrow> distinct (queue s)"
    and queue_val: "inv s \<Longrightarrow> w \<in> set (queue s) \<Longrightarrow> \<exists>v. val s w = Some v"
    and push_total: "inv s \<Longrightarrow> room s \<Longrightarrow> \<exists>w s'. push s v = Some (w, s')"
    and push_first_total: "inv s \<Longrightarrow> room s \<Longrightarrow> \<exists>w s'. push_first s v = Some (w, s')"
    and push_law: "inv s \<Longrightarrow> push s v = Some (w, s') \<Longrightarrow>
      val s w = None \<and> inv s' \<and> queue s' = queue s @ [w] \<and> val s' = (val s)(w \<mapsto> v)"
    and push_first_law: "inv s \<Longrightarrow> push_first s v = Some (w, s') \<Longrightarrow>
      val s w = None \<and> inv s' \<and> queue s' = w # queue s \<and> val s' = (val s)(w \<mapsto> v)"
    and unlink_law: "inv s \<Longrightarrow> val s w = Some v \<Longrightarrow> p c v = (ok, v', c') \<Longrightarrow>
      \<exists>s'. unlink s w p c = Some (if ok then Some v' else None, c', s') \<and> inv s' \<and>
           val s' = (val s)(w \<mapsto> v') \<and>
           queue s' = (if ok then removeAll w (queue s) else queue s)"
    and unlink_invalid: "val s w = None \<Longrightarrow> unlink s w p c = None"
    and unlink_first_empty: "inv s \<Longrightarrow> queue s = [] \<Longrightarrow> unlink_first s p c = Some (None, c, s)"
    and unlink_first_Cons: "inv s \<Longrightarrow> queue s = w # q \<Longrightarrow>
      unlink_first s p c =
        map_option (\<lambda>(r, c, s). (map_option (\<lambda>v. (w, v)) r, c, s)) (unlink s w p c)"
    and setv_law: "inv s \<Longrightarrow> val s w = Some v \<Longrightarrow>
      \<exists>s'. setv s w v' = Some s' \<and> inv s' \<and> queue s' = queue s \<and> val s' = (val s)(w \<mapsto> v')"
    and setv_invalid: "val s w = None \<Longrightarrow> setv s w v' = None"
    and remove_law: "inv s \<Longrightarrow> val s w = Some v \<Longrightarrow> w \<notin> set (queue s) \<Longrightarrow>
      \<exists>s'. remove s w = Some (v, s') \<and> inv s' \<and> queue s' = queue s \<and> val s' = (val s)(w := None)"
    and remove_room: "remove s w = Some (v, s') \<Longrightarrow> room s'"
    and remove_invalid: "inv s \<Longrightarrow> val s w = None \<or> w \<in> set (queue s) \<Longrightarrow> remove s w = None"
begin

lemma unlinkD:
  assumes "inv s" and "unlink s w p c = Some (r, c', s')"
  shows "\<exists>v v' ok. val s w = Some v \<and> p c v = (ok, v', c') \<and> r = (if ok then Some v' else None) \<and>
    inv s' \<and> val s' = (val s)(w \<mapsto> v') \<and>
    queue s' = (if ok then removeAll w (queue s) else queue s)"
proof (cases "val s w")
  case None
  then show ?thesis using unlink_invalid assms(2) by simp
next
  case (Some v)
  obtain ok v' c'' where p: "p c v = (ok, v', c'')" by (cases "p c v")
  from unlink_law [where p = p and c = c, OF assms(1) Some p] p Some assms(2) show ?thesis by auto
qed

lemma unlink_firstD:
  assumes "inv s" and "unlink_first s p c = Some (r, c', s')"
  shows "(queue s = [] \<and> r = None \<and> c' = c \<and> s' = s) \<or>
    (\<exists>w q v v' ok. queue s = w # q \<and> val s w = Some v \<and> p c v = (ok, v', c') \<and>
       r = (if ok then Some (w, v') else None) \<and> inv s' \<and> val s' = (val s)(w \<mapsto> v') \<and>
       queue s' = (if ok then q else w # q))"
proof (cases "queue s")
  case Nil
  with assms show ?thesis using unlink_first_empty [OF assms(1)] by simp
next
  case (Cons w q)
  with unlink_first_Cons [OF assms(1) this, of p c] assms(2)
  obtain r0 where r0: "unlink s w p c = Some (r0, c', s')" "r = map_option (\<lambda>v. (w, v)) r0"
    by (cases "unlink s w p c") auto
  moreover have "removeAll w (queue s) = q"
    using queue_distinct [OF assms(1)] Cons by (auto simp: removeAll_id)
  moreover obtain v v' ok where "val s w = Some v" "p c v = (ok, v', c')"
    "r0 = (if ok then Some v' else None)" "inv s'" "val s' = (val s)(w \<mapsto> v')"
    "queue s' = (if ok then removeAll w (queue s) else queue s)"
    using unlinkD [OF assms(1) r0(1)] by blast
  ultimately show ?thesis
    using Cons by (cases ok) auto
qed

lemma unlink_first_total:
  assumes "inv s"
  shows "\<exists>r c' s'. unlink_first s p c = Some (r, c', s')"
proof (cases "queue s")
  case Nil
  then show ?thesis using unlink_first_empty [OF assms] by blast
next
  case (Cons w q)
  then obtain v where v: "val s w = Some v" using queue_val [OF assms, of w] by auto
  obtain ok v' c' where p: "p c v = (ok, v', c')" by (cases "p c v")
  from unlink_law [where p = p and c = c, OF assms v p] obtain s' where
    "unlink s w p c = Some (if ok then Some v' else None, c', s')" by blast
  then show ?thesis using unlink_first_Cons [OF assms Cons, of p c] by simp
qed

lemma setvD:
  assumes "inv s" and "setv s w v' = Some s'"
  shows "val s w \<noteq> None" and "inv s'" and "queue s' = queue s" and "val s' = (val s)(w \<mapsto> v')"
proof -
  show "val s w \<noteq> None" using assms(2) setv_invalid by force
  then obtain v where "val s w = Some v" by blast
  from setv_law [OF assms(1) this, of v'] assms(2)
  show "inv s'" "queue s' = queue s" "val s' = (val s)(w \<mapsto> v')" by auto
qed

lemma removeD:
  assumes "inv s" and "remove s w = Some (v, s')"
  shows "val s w = Some v" and "w \<notin> set (queue s)" and "inv s'" and "queue s' = queue s"
    and "val s' = (val s)(w := None)"
proof -
  show w: "w \<notin> set (queue s)" using assms remove_invalid by force
  have "val s w \<noteq> None" using assms remove_invalid by force
  then obtain v0 where "val s w = Some v0" by blast
  from remove_law [OF assms(1) this w] this assms(2)
  show "val s w = Some v" "inv s'" "queue s' = queue s" "val s' = (val s)(w := None)" by auto
qed

text \<open>Cancellation: detach, whatever the state of the node, then remove.\<close>

lemma unlink_remove:
  assumes "inv s" and "val s w = Some v" and "p c v = (True, v', c')"
  shows "\<exists>s1 s2. unlink s w p c = Some (Some v', c', s1) \<and> remove s1 w = Some (v', s2) \<and> inv s2 \<and>
    queue s2 = removeAll w (queue s) \<and> val s2 = (val s)(w := None)"
proof -
  obtain s1 where s1: "unlink s w p c = Some (Some v', c', s1)" "inv s1"
    "val s1 = (val s)(w \<mapsto> v')" "queue s1 = removeAll w (queue s)"
    using unlink_law [of s w v p c True v' c'] assms by auto
  then show ?thesis using remove_law [of s1 w v'] by auto
qed

end

lemma unlink_first_Cons_eq:
  assumes "wl_inv wl" and "wl_queue wl = w # q"
  shows "unlink_first_waiter wl p c =
     map_option (\<lambda>(r, c, wl). (map_option (\<lambda>v. (w, v)) r, c, wl)) (unlink_waiter wl w p c)"
  using assms wl_head_queue [OF assms(1)]
  by (cases "unlink_waiter wl w p c") (simp_all add: unlink_first_waiter_def split: prod.split)

lemma arena_remove_head: "arena_remove a sid = Some (v, a') \<Longrightarrow> ar_vacant_head a' = Some sid"
  by (auto simp: arena_remove_def panic_simps)

lemma remove_unlinked_room: "remove_unlinked_waiter wl w = Some (v, wl') \<Longrightarrow> wl_room wl'"
  by (auto simp: remove_unlinked_waiter_def wl_room_def arena_room_def panic_simps dest!: arena_remove_head)

lemma wl_val_finite: "finite (dom (wl_val wl))"
proof (rule finite_subset)
  show "dom (wl_val wl) \<subseteq> (\<lambda>k. WaiterId (SlotId (NonZero k))) ` {..< length (ar_slots (wl_nodes wl))}"
  proof
    fix w assume "w \<in> dom (wl_val wl)"
    moreover obtain k where "w = WaiterId (SlotId (NonZero k))"
      by (metis non_zero_usize.exhaust slot_id.exhaust waiter_id.exhaust)
    ultimately show "w \<in> (\<lambda>k. WaiterId (SlotId (NonZero k))) ` {..< length (ar_slots (wl_nodes wl))}"
      by (auto simp: wl_val_def wl_node_def arena_get_def slot_at_def split: option.splits if_splits)
  qed
qed simp

interpretation wq: waiter_queue wl_inv wl_room wl_queue wl_val push_back push_front
  unlink_waiter unlink_first_waiter set_waiter remove_unlinked_waiter
proof (unfold_locales, goal_cases)
  case (6 s v w s')
  from push_back_spec [OF 6] show ?case by (intro conjI)
next
  case (7 s v w s')
  from push_front_spec [OF 7] show ?case by (intro conjI)
next
  case (8 s w v p c ok v' c')
  show ?case
    by (rule unlink_waiter_abs [where p = p and c = c and c' = c', OF 8]) blast
next
  case (10 s p c)
  then show ?case by (simp add: unlink_first_waiter_def wl_head_queue)
next
  case (12 s w v v')
  show ?case
    by (rule set_waiter_abs [OF 12, of v']) blast
next
  case (14 s w v)
  show ?case
    by (rule remove_unlinked_abs [OF 14]) blast
qed (simp_all add: wl_val_finite wl_queue_valid push_total unlink_waiter_invalid unlink_first_Cons_eq
       set_waiter_invalid remove_unlinked_panics remove_unlinked_room)

text \<open>
  C7: the doubly linked list in the arena behaves as a list of waiters: unlinking by handle
  runs the caller's predicate once on the waiter's value, takes exactly that waiter out of the
  middle of the queue when the predicate agrees, keeps the order of all others, and never
  panics on a live handle.
\<close>

theorem unlink_waiter_refines_list:
  assumes "wl_inv wl" and "wl_val wl w = Some v" and "p c v = (ok, v', c')"
  shows "\<exists>wl'. unlink_waiter wl w p c = Some (if ok then Some v' else None, c', wl') \<and> wl_inv wl' \<and>
    wl_val wl' = (wl_val wl)(w \<mapsto> v') \<and>
    wl_queue wl' = (if ok then removeAll w (wl_queue wl) else wl_queue wl)"
  by (rule wq.unlink_law [where p = p and c = c, OF assms])

theorem unlink_waiter_refines_list_witness:
  "\<exists>w wl wl'. push_back wl_new (3::nat) = Some (w, wl) \<and> wl_queue wl = [w] \<and>
    unlink_waiter wl w always () = Some (Some 3, (), wl') \<and> wl_queue wl' = []"
proof -
  have "wl_room (wl_new :: nat wait_list)"
    by (simp add: wl_room_def wl_new_def arena_room_def arena_new_def usize_max_def)
  then obtain w wl where p: "push_back wl_new (3::nat) = Some (w, wl)"
    using wq.push_total [OF wl_inv_new, of "3::nat"] by auto
  from wq.push_law [OF wl_inv_new this]
  have h: "wl_inv wl" "wl_queue wl = [w]" "wl_val wl w = Some 3" by (simp_all add: wl_queue_new)
  have "always () (3::nat) = (True, 3, ())" by (simp add: always_def)
  from unlink_waiter_refines_list [where p = always and c = "()", OF h(1,3) this] p h(2)
  show ?thesis by auto
qed

end
