(* ===== verification/WakerBatch.thy ===== *)
theory WakerBatch
  imports Prelude
begin

text \<open>
  The waker batch of \<open>internal/waker_batch.rs\<close>: 32 inline cells of which a prefix is
  initialised, then a spill vector. An uninitialised cell is \<open>None\<close>, and reading one
  (undefined behaviour in the source) makes the operation \<open>None\<close>; the invariant is the
  one of the source comment, and the abstraction is the list of pushed wakers.
\<close>

definition stack_size :: usize where
  "stack_size = 32"

record waker_batch =
  wb_inline :: "waker option list"
  wb_inline_len :: usize
  wb_spilled :: "waker list"

definition wb_new :: waker_batch where
  "wb_new = \<lparr>wb_inline = replicate stack_size None, wb_inline_len = 0, wb_spilled = []\<rparr>"

definition will_spill :: "waker_batch \<Rightarrow> bool" where
  "will_spill b \<longleftrightarrow> wb_inline_len b = stack_size"

definition wb_push :: "waker_batch \<Rightarrow> waker \<Rightarrow> waker_batch option" where
  "wb_push b waker =
     (if will_spill b then Some (b\<lparr>wb_spilled := wb_spilled b @ [waker]\<rparr>)
      else do {
        guard (wb_inline_len b < length (wb_inline b));
        len \<leftarrow> checked_add (wb_inline_len b) 1;
        Some (b\<lparr>wb_inline := (wb_inline b)[wb_inline_len b := Some waker],
                wb_inline_len := len\<rparr>) })"

text \<open>Read a run of cells, each of which must be initialised.\<close>

fun read_cells :: "waker option list \<Rightarrow> waker list option" where
  "read_cells [] = Some []"
| "read_cells (cell # cells) = do { w \<leftarrow> cell; ws \<leftarrow> read_cells cells; Some (w # ws) }"

text \<open>The wakers woken, in order, and the emptied batch.\<close>

definition wb_wake_all :: "waker_batch \<Rightarrow> (waker list \<times> waker_batch) option" where
  "wb_wake_all b = do {
     let len = wb_inline_len b;
     let b = b\<lparr>wb_inline_len := 0\<rparr>;
     guard (len \<le> length (wb_inline b));
     ws \<leftarrow> read_cells (take len (wb_inline b));
     Some (ws @ wb_spilled b, b\<lparr>wb_spilled := []\<rparr>) }"

fun wb_extend :: "waker_batch \<Rightarrow> waker list \<Rightarrow> waker_batch option" where
  "wb_extend b [] = Some b"
| "wb_extend b (w # ws) = do { b \<leftarrow> wb_push b w; wb_extend b ws }"

definition wb_from_iter :: "waker list \<Rightarrow> waker_batch option" where
  "wb_from_iter ws = wb_extend wb_new ws"

text \<open>Dropping a batch drops the initialised cells, then the spill vector.\<close>

definition wb_drop :: "waker_batch \<Rightarrow> waker list option" where
  "wb_drop b = do {
     guard (wb_inline_len b \<le> length (wb_inline b));
     ws \<leftarrow> read_cells (take (wb_inline_len b) (wb_inline b));
     Some (ws @ wb_spilled b) }"

lemmas waker_batch_ops [op_defs] = stack_size_def wb_new_def will_spill_def wb_push_def
  wb_wake_all_def wb_from_iter_def wb_drop_def

section \<open>Invariant and abstraction\<close>

definition wb_inv :: "waker_batch \<Rightarrow> bool" where
  "wb_inv b \<longleftrightarrow> length (wb_inline b) = stack_size \<and> wb_inline_len b \<le> stack_size \<and>
     None \<notin> set (take (wb_inline_len b) (wb_inline b)) \<and>
     (wb_spilled b \<noteq> [] \<longrightarrow> will_spill b)"

definition wb_list :: "waker_batch \<Rightarrow> waker list" where
  "wb_list b = map the (take (wb_inline_len b) (wb_inline b)) @ wb_spilled b"

lemma read_cells_eq: "None \<notin> set cells \<Longrightarrow> read_cells cells = Some (map the cells)"
  by (induction cells) (auto simp: panic_simps)

lemma wb_new_simps [simp]: "wb_inv wb_new" "wb_list wb_new = []" "\<not> will_spill wb_new"
  by (simp_all add: wb_inv_def wb_list_def wb_new_def will_spill_def stack_size_def)

lemma will_spill_iff: "wb_inv b \<Longrightarrow> will_spill b \<longleftrightarrow> stack_size \<le> length (wb_list b)"
  by (auto simp: wb_inv_def wb_list_def will_spill_def)

lemma wb_push_spec:
  assumes "wb_inv b"
  obtains b' where "wb_push b w = Some b'" and "wb_inv b'" and "wb_list b' = wb_list b @ [w]"
proof (cases "will_spill b")
  case True
  then show thesis
    using that [of "b\<lparr>wb_spilled := wb_spilled b @ [w]\<rparr>"] assms
    by (auto simp: wb_push_def wb_inv_def wb_list_def will_spill_def)
next
  case False
  then have "wb_inline_len b < stack_size" "wb_spilled b = []"
    using assms by (auto simp: wb_inv_def will_spill_def)
  then show thesis
    using that [of "b\<lparr>wb_inline := (wb_inline b)[wb_inline_len b := Some w],
        wb_inline_len := wb_inline_len b + 1\<rparr>"] assms False
    by (simp add: wb_push_def wb_inv_def wb_list_def take_Suc_conv_app_nth guard_def
          checked_add_def usize_max_def stack_size_def)
qed

lemma wb_wake_all_spec:
  assumes "wb_inv b"
  obtains b' where "wb_wake_all b = Some (wb_list b, b')" and "wb_inv b'" and "wb_list b' = []"
  using that [of "b\<lparr>wb_inline_len := 0, wb_spilled := []\<rparr>"] assms
  by (simp add: wb_wake_all_def wb_inv_def wb_list_def read_cells_eq Let_def guard_def
        will_spill_def stack_size_def)

lemma wb_extend_spec:
  assumes "wb_inv b"
  shows "\<exists>b'. wb_extend b ws = Some b' \<and> wb_inv b' \<and> wb_list b' = wb_list b @ ws"
  using assms
proof (induction ws arbitrary: b)
  case (Cons w ws)
  obtain b1 where "wb_push b w = Some b1" "wb_inv b1" "wb_list b1 = wb_list b @ [w]"
    by (rule wb_push_spec [OF Cons.prems])
  with Cons.IH [of b1] show ?case by auto
qed simp

lemma wb_from_iter_spec:
  obtains b where "wb_from_iter ws = Some b" and "wb_inv b" and "wb_list b = ws"
  using wb_extend_spec [of wb_new ws] by (auto simp: wb_from_iter_def)

lemma wb_drop_spec: "wb_inv b \<Longrightarrow> wb_drop b = Some (wb_list b)"
  by (simp add: wb_drop_def wb_inv_def wb_list_def read_cells_eq guard_def)

text \<open>
  A batch filled from any list of wakers wakes each of them exactly once and in that
  order, across the spill from the 32 inline cells to the heap; no uninitialised cell is
  read, and the batch is then empty.
\<close>

theorem wb_push_then_wake:
  "\<exists>b b'. wb_from_iter ws = Some b \<and> wb_wake_all b = Some (ws, b') \<and> wb_inv b' \<and> wb_list b' = []"
  by (metis wb_from_iter_spec wb_wake_all_spec)

end
