(* ===== verification/Semaphore.thy ===== *)
theory Semaphore
  imports WaitList WakerBatch
begin

text \<open>
  The internal semaphore of \<open>internal/semaphore.rs\<close>, on which the public semaphore, the
  read-write lock, the bounded channels and the broadcast channel are built. Every loop over
  the permit counter is given as one caller runs it, retrying from the value a failed
  compare-and-swap returns; every region under the queue lock is one function, and a
  distribution that needs several lock acquisitions is one \<open>distribute_round\<close> for each.
\<close>

record wait_node =
  wn_needed :: usize
  wn_waker :: "waker option"

record semaphore =
  sem_available :: usize
  sem_contention :: bool
  sem_waiters :: "wait_node wait_list"

definition sem_new :: "usize \<Rightarrow> semaphore" where
  "sem_new permits = \<lparr>sem_available = permits, sem_contention = False, sem_waiters = wl_new\<rparr>"

definition available_permits :: "semaphore \<Rightarrow> usize" where
  "available_permits sem = sem_available sem"

function try_acquire_loop :: "semaphore \<Rightarrow> usize \<Rightarrow> usize \<Rightarrow> bool \<times> semaphore" where
  "try_acquire_loop sem n available =
     (if available < n then (False, sem)
      else let new = available - n in
        (case compare_exchange (sem_available sem) available new of
           (Ok _, v) \<Rightarrow> (True, sem\<lparr>sem_available := v\<rparr>)
         | (Err actual, v) \<Rightarrow> try_acquire_loop sem n actual))"
  by pat_completeness auto
termination
  by (relation "measure (\<lambda>(sem, n, available). if available = sem_available sem then 0 else 1)")
    (auto simp: compare_exchange_def split: if_splits)

definition try_acquire :: "semaphore \<Rightarrow> usize \<Rightarrow> bool \<times> semaphore" where
  "try_acquire sem n = try_acquire_loop sem n (sem_available sem)"

text \<open>A weak compare-and-swap may fail spuriously; \<open>spurious\<close> is how often it does.\<close>

function drain_permits_loop :: "nat \<Rightarrow> semaphore \<Rightarrow> usize \<Rightarrow> usize \<Rightarrow> usize \<times> semaphore" where
  "drain_permits_loop spurious sem up_to available =
     (let new = available - up_to in
      if spurious \<noteq> 0 then drain_permits_loop (spurious - 1) sem up_to (sem_available sem)
      else
        (case compare_exchange (sem_available sem) available new of
           (Ok _, v) \<Rightarrow> (min up_to available, sem\<lparr>sem_available := v\<rparr>)
         | (Err actual, v) \<Rightarrow> drain_permits_loop spurious sem up_to actual))"
  by pat_completeness auto
termination
  by (relation "measure (\<lambda>(k, sem, n, available). 2 * k + (if available = sem_available sem then 0 else 1))")
    (auto simp: compare_exchange_def split: if_splits)

definition drain_permits :: "nat \<Rightarrow> semaphore \<Rightarrow> usize \<Rightarrow> usize \<times> semaphore" where
  "drain_permits spurious sem up_to =
     (if up_to = 0 then (0, sem) else drain_permits_loop spurious sem up_to (sem_available sem))"

text \<open>
  Take the permits or enqueue a waiter for those still needed. \<open>index\<close> is the slot of the
  owning future, if there is one; the result is whether all permits were acquired.
\<close>

definition enqueue_waiter ::
  "semaphore \<Rightarrow> usize \<Rightarrow> waiter_id option option \<Rightarrow> waker option \<Rightarrow> bool \<Rightarrow>
   (bool \<times> waiter_id option option \<times> semaphore) option" where
  "enqueue_waiter sem needed index waker enqueue_last = do {
     let node = \<lparr>wn_needed = needed, wn_waker = waker\<rparr>;
     (i, waiters) \<leftarrow> (if enqueue_last then push_back (sem_waiters sem) node
                      else push_front (sem_waiters sem) node);
     index \<leftarrow> (case index of
                 Some old \<Rightarrow> do { guard (old = None); Some (Some (Some i)) }
               | None \<Rightarrow> Some None);
     Some (False, index, sem\<lparr>sem_waiters := waiters\<rparr>) }"

function acquired_or_enqueue_loop ::
  "semaphore \<Rightarrow> usize \<Rightarrow> waiter_id option option \<Rightarrow> waker option \<Rightarrow> bool \<Rightarrow> usize \<Rightarrow>
   (bool \<times> waiter_id option option \<times> semaphore) option" where
  "acquired_or_enqueue_loop sem requested index waker enqueue_last available =
     (let (needed, new) = (if available \<ge> requested then (0, available - requested)
                           else (requested - available, 0)) in
      case compare_exchange (sem_available sem) available new of
        (Err actual, v) \<Rightarrow> acquired_or_enqueue_loop sem requested index waker enqueue_last actual
      | (Ok _, v) \<Rightarrow>
          let sem = sem\<lparr>sem_available := v\<rparr> in
          if needed = 0 then Some (True, index, sem)
          else enqueue_waiter sem needed index waker enqueue_last)"
  by pat_completeness auto
termination
  by (relation "measure (\<lambda>(sem, r, i, w, l, available). if available = sem_available sem then 0 else 1)")
    (auto simp: compare_exchange_def split: if_splits)

definition acquired_or_enqueue ::
  "semaphore \<Rightarrow> usize \<Rightarrow> waiter_id option option \<Rightarrow> waker option \<Rightarrow> bool \<Rightarrow>
   (bool \<times> waiter_id option option \<times> semaphore) option" where
  "acquired_or_enqueue sem requested index waker enqueue_last = do {
     guard ((index \<noteq> None) = (waker \<noteq> None));
     acquired_or_enqueue_loop sem requested index waker enqueue_last (sem_available sem) }"

definition reduce_permits :: "semaphore \<Rightarrow> usize \<Rightarrow> semaphore option" where
  "reduce_permits sem n = do {
     (acquired, index, sem) \<leftarrow> acquired_or_enqueue sem n None None False;
     Some sem }"

text \<open>The closure of a distribution, which captures the remaining permits.\<close>

definition assign :: "(usize, wait_node) unlink_pred" where
  "assign remaining node =
     (let assigned = min (wn_needed node) remaining;
          node = node\<lparr>wn_needed := wn_needed node - assigned\<rparr>
      in (wn_needed node = 0, node, remaining - assigned))"

text \<open>Take the waker of an unlinked node, or remove the node if it has none.\<close>

definition detach ::
  "waker_batch \<Rightarrow> wait_node wait_list \<Rightarrow> waiter_id \<Rightarrow> wait_node \<Rightarrow>
   (waker_batch \<times> wait_node wait_list) option" where
  "detach batch waiters i waiter =
     (case wn_waker waiter of
        Some waker \<Rightarrow> do {
          waiters \<leftarrow> set_waiter waiters i (waiter\<lparr>wn_waker := None\<rparr>);
          batch \<leftarrow> wb_push batch waker;
          Some (batch, waiters) }
      | None \<Rightarrow> do {
          (waiter, waiters) \<leftarrow> remove_unlinked_waiter waiters i;
          Some (batch, waiters) })"

definition distribute_body ::
  "usize \<times> waker_batch \<times> wait_node wait_list \<Rightarrow>
   ((usize \<times> waker_batch \<times> wait_node wait_list) \<times> bool) option" where
  "distribute_body st = (case st of (remaining, batch, waiters) \<Rightarrow>
     if remaining > 0 \<and> \<not> will_spill batch then do {
       (r, remaining, waiters) \<leftarrow> unlink_first_waiter waiters assign remaining;
       (case r of
          None \<Rightarrow> Some ((remaining, batch, waiters), False)
        | Some (i, waiter) \<Rightarrow> do {
            (batch, waiters) \<leftarrow> detach batch waiters i waiter;
            Some ((remaining, batch, waiters), True) }) }
     else Some ((remaining, batch, waiters), False))"

definition try_update_permits ::
  "semaphore \<Rightarrow> usize \<Rightarrow> usize \<Rightarrow> ((unit, usize) result \<times> semaphore) option" where
  "try_update_permits sem expected released = do {
     new \<leftarrow> checked_add expected released;
     Some (case compare_exchange (sem_available sem) expected new of
             (Ok _, v) \<Rightarrow> (Ok (), sem\<lparr>sem_available := v\<rparr>)
           | (Err actual, v) \<Rightarrow> (Err actual, sem)) }"

function update_permits_loop :: "semaphore \<Rightarrow> usize \<Rightarrow> usize \<Rightarrow> semaphore option" where
  "update_permits_loop sem available remaining =
     (case try_update_permits sem available remaining of
        None \<Rightarrow> None
      | Some (Err actual, sem') \<Rightarrow>
          update_permits_loop (sem'\<lparr>sem_contention := True\<rparr>) actual remaining
      | Some (Ok _, sem') \<Rightarrow> Some (sem'\<lparr>sem_contention := False\<rparr>))"
  by pat_completeness auto
termination
  by (relation "measure (\<lambda>(sem, available, r). if available = sem_available sem then 0 else 1)")
    (auto simp: try_update_permits_def compare_exchange_def panic_simps split: if_splits)

definition put_back :: "semaphore \<Rightarrow> usize \<Rightarrow> semaphore option" where
  "put_back sem remaining =
     (let available = sem_available sem in
      if available = 0
      then Some (sem\<lparr>sem_available := (sem_available sem + remaining) mod (usize_max + 1)\<rparr>)
      else update_permits_loop sem available remaining)"

text \<open>One lock acquisition of \<open>distribute_permits\<close>: the wakers woken, and what remains.\<close>

definition distribute_round ::
  "semaphore \<Rightarrow> usize \<Rightarrow> (waker list \<times> usize \<times> semaphore) option" where
  "distribute_round sem remaining = do {
     (remaining, batch, waiters) \<leftarrow> loop distribute_body (remaining, wb_new, sem_waiters sem);
     let sem = sem\<lparr>sem_waiters := waiters\<rparr>;
     (remaining, sem) \<leftarrow>
       (if remaining > 0 \<and> wl_is_empty (sem_waiters sem)
        then do { sem \<leftarrow> put_back sem remaining; Some (0, sem) }
        else Some (remaining, sem));
     (woken, batch) \<leftarrow> wb_wake_all batch;
     Some (woken, remaining, sem) }"

definition distribute_permits :: "semaphore \<Rightarrow> usize \<Rightarrow> (waker list \<times> semaphore) option" where
  "distribute_permits sem remaining = do {
     (woken, remaining, sem) \<leftarrow>
       loop (\<lambda>(woken, remaining, sem). do {
               (woken', remaining, sem) \<leftarrow> distribute_round sem remaining;
               Some ((woken @ woken', remaining, sem), remaining \<noteq> 0) })
         ([], remaining, sem);
     Some (woken, sem) }"

definition sem_release_fast :: "semaphore \<Rightarrow> usize \<Rightarrow> semaphore option option" where
  "sem_release_fast sem n =
     (let available = sem_available sem in
      if available \<noteq> 0 \<and> \<not> sem_contention sem
      then (case try_update_permits sem available n of
              None \<Rightarrow> None
            | Some (Ok _, sem) \<Rightarrow> Some (Some sem)
            | Some (Err _, sem) \<Rightarrow> Some None)
      else Some None)"

definition sem_release :: "semaphore \<Rightarrow> usize \<Rightarrow> (waker list \<times> semaphore) option" where
  "sem_release sem n =
     (if n = 0 then Some ([], sem)
      else do {
        r \<leftarrow> sem_release_fast sem n;
        (case r of
           Some sem \<Rightarrow> Some ([], sem)
         | None \<Rightarrow> distribute_permits sem n) })"

definition release_with_lock :: "semaphore \<Rightarrow> usize \<Rightarrow> (waker list \<times> semaphore) option" where
  "release_with_lock sem n = (if n \<noteq> 0 then distribute_permits sem n else Some ([], sem))"

definition release_if_waiters :: "semaphore \<Rightarrow> usize \<Rightarrow> (waker list \<times> semaphore) option" where
  "release_if_waiters sem n =
     (if \<not> wl_is_empty (sem_waiters sem) then distribute_permits sem n else Some ([], sem))"

definition grant_all :: "(unit, wait_node) unlink_pred" where
  "grant_all c node = (True, node\<lparr>wn_needed := 0\<rparr>, c)"

definition notify_body ::
  "waker_batch \<times> wait_node wait_list \<Rightarrow> ((waker_batch \<times> wait_node wait_list) \<times> bool) option" where
  "notify_body st = (case st of (batch, waiters) \<Rightarrow> do {
     (r, c, waiters) \<leftarrow> unlink_first_waiter waiters grant_all ();
     (case r of
        None \<Rightarrow> Some ((batch, waiters), False)
      | Some (i, waiter) \<Rightarrow> do {
          (batch, waiters) \<leftarrow> detach batch waiters i waiter;
          Some ((batch, waiters), True) }) })"

definition sem_notify_all :: "semaphore \<Rightarrow> (waker list \<times> semaphore) option" where
  "sem_notify_all sem = do {
     (batch, waiters) \<leftarrow> loop notify_body (wb_new, sem_waiters sem);
     (woken, batch) \<leftarrow> wb_wake_all batch;
     Some (woken, sem\<lparr>sem_waiters := waiters\<rparr>) }"

section \<open>The acquisition future\<close>

record acquire =
  aq_requested :: usize
  aq_index :: "waiter_id option"

definition sem_acquire :: "usize \<Rightarrow> acquire" where
  "sem_acquire n = \<lparr>aq_requested = n, aq_index = None\<rparr>"

definition poll_once :: "semaphore \<Rightarrow> acquire \<Rightarrow> waker \<Rightarrow> (unit poll \<times> acquire \<times> semaphore) option" where
  "poll_once sem aq waker =
     (case aq_index aq of
        Some idx \<Rightarrow> do {
          node \<leftarrow> waiter_mut (sem_waiters sem) idx;
          if wn_needed node > 0 then do {
            let (old_waker, slot) = register_waker (wn_waker node) waker;
            waiters \<leftarrow> set_waiter (sem_waiters sem) idx (node\<lparr>wn_waker := slot\<rparr>);
            Some (Pending, aq, sem\<lparr>sem_waiters := waiters\<rparr>) }
          else do {
            (node, waiters) \<leftarrow> remove_unlinked_waiter (sem_waiters sem) idx;
            Some (Ready (), aq\<lparr>aq_index := None\<rparr>, sem\<lparr>sem_waiters := waiters\<rparr>) } }
      | None \<Rightarrow> do {
          (acquired, index, sem) \<leftarrow>
            acquired_or_enqueue sem (aq_requested aq) (Some (aq_index aq)) (Some waker) True;
          i \<leftarrow> index;
          Some (if acquired then Ready () else Pending, aq\<lparr>aq_index := i\<rparr>, sem) })"

text \<open>The closure of the drop, which captures how many permits had been assigned.\<close>

definition surrender :: "usize \<Rightarrow> (usize, wait_node) unlink_pred" where
  "surrender requested acquired node = (True, node\<lparr>wn_needed := 0\<rparr>, requested - wn_needed node)"

definition acquire_detach :: "semaphore \<Rightarrow> acquire \<Rightarrow> waiter_id \<Rightarrow> (usize \<times> semaphore) option" where
  "acquire_detach sem aq index = do {
     node \<leftarrow> waiter_mut (sem_waiters sem) index;
     guard (wn_needed node \<le> aq_requested aq);
     (r, acquired, waiters) \<leftarrow> unlink_waiter (sem_waiters sem) index (surrender (aq_requested aq)) 0;
     (waiter, waiters) \<leftarrow> remove_unlinked_waiter waiters index;
     Some (acquired, sem\<lparr>sem_waiters := waiters\<rparr>) }"

definition acquire_drop :: "semaphore \<Rightarrow> acquire \<Rightarrow> (waker list \<times> semaphore) option" where
  "acquire_drop sem aq =
     (case aq_index aq of
        None \<Rightarrow> Some ([], sem)
      | Some index \<Rightarrow> do {
          (acquired, sem) \<leftarrow> acquire_detach sem aq index;
          if acquired > 0 then distribute_permits sem acquired else Some ([], sem) })"

lemmas semaphore_ops [op_defs] = sem_new_def available_permits_def
  try_acquire_def drain_permits_def enqueue_waiter_def acquired_or_enqueue_def reduce_permits_def
  assign_def detach_def distribute_body_def try_update_permits_def put_back_def distribute_round_def
  distribute_permits_def sem_release_fast_def sem_release_def release_with_lock_def
  release_if_waiters_def grant_all_def notify_body_def sem_notify_all_def sem_acquire_def
  poll_once_def surrender_def acquire_detach_def acquire_drop_def

section \<open>The counter loops\<close>

declare try_acquire_loop.simps [simp del] drain_permits_loop.simps [simp del]
  acquired_or_enqueue_loop.simps [simp del] update_permits_loop.simps [simp del]

lemma try_acquire_eq:
  "try_acquire sem n =
     (if sem_available sem < n then (False, sem)
      else (True, sem\<lparr>sem_available := sem_available sem - n\<rparr>))"
  by (simp add: try_acquire_def try_acquire_loop.simps)

lemma drain_permits_eq:
  "drain_permits k sem n =
     (min n (sem_available sem), sem\<lparr>sem_available := sem_available sem - n\<rparr>)"
proof -
  have "drain_permits_loop k sem n (sem_available sem) =
     (min n (sem_available sem), sem\<lparr>sem_available := sem_available sem - n\<rparr>)"
    by (induction k; subst drain_permits_loop.simps) simp_all
  then show ?thesis by (cases "n = 0") (simp_all add: drain_permits_def)
qed

lemma acquired_or_enqueue_eq:
  "acquired_or_enqueue sem n index waker lst =
     (if (index \<noteq> None) \<noteq> (waker \<noteq> None) then None
      else if n \<le> sem_available sem
      then Some (True, index, sem\<lparr>sem_available := sem_available sem - n\<rparr>)
      else enqueue_waiter (sem\<lparr>sem_available := 0\<rparr>) (n - sem_available sem) index waker lst)"
  by (cases index; cases waker)
    (simp_all add: acquired_or_enqueue_def acquired_or_enqueue_loop.simps guard_def)

lemma try_update_eq:
  "sem_available sem + n \<le> usize_max \<Longrightarrow>
   try_update_permits sem (sem_available sem) n = Some (Ok (), sem\<lparr>sem_available := sem_available sem + n\<rparr>)"
  by (simp add: try_update_permits_def checked_add_simp)

lemma put_back_eq:
  assumes "sem_available sem + n \<le> usize_max"
  shows "put_back sem n = Some (sem\<lparr>sem_available := sem_available sem + n,
           sem_contention := (sem_available sem = 0 \<and> sem_contention sem)\<rparr>)"
  using assms try_update_eq [OF assms]
  by (simp add: put_back_def Let_def update_permits_loop.simps)

section \<open>One lock acquisition of a distribution\<close>

text \<open>The queue with the nodes it links.\<close>

definition wl_list :: "'a wait_list \<Rightarrow> (waiter_id \<times> 'a) list" where
  "wl_list wl = map (\<lambda>i. (i, the (wl_val wl i))) (wl_queue wl)"

text \<open>
  What a distribution does, on the list alone: grant from the front while there are permits
  and inline room for the wakers (\<open>k\<close>), and leave the last node with what it still needs.
\<close>

fun spend ::
  "nat \<Rightarrow> nat \<Rightarrow> (waiter_id \<times> wait_node) list \<Rightarrow>
   nat \<times> (waiter_id \<times> wait_node) list \<times> (waiter_id \<times> wait_node) list" where
  "spend r k [] = (r, [], [])"
| "spend r k ((i, n) # q) =
     (if r = 0 \<or> k = 0 then (r, [], (i, n) # q)
      else if wn_needed n \<le> r then
        (case spend (r - wn_needed n) (if wn_waker n = None then k else k - 1) q of
           (r', g, q') \<Rightarrow> (r', (i, n) # g, q'))
      else (0, [], (i, n\<lparr>wn_needed := wn_needed n - r\<rparr>) # q))"

definition wakers_of :: "(waiter_id \<times> wait_node) list \<Rightarrow> waker list" where
  "wakers_of g = List.map_filter (\<lambda>(i, n). wn_waker n) g"

definition settle ::
  "(waiter_id \<times> wait_node) list \<Rightarrow> (waiter_id \<times> wait_node) list \<Rightarrow>
   (waiter_id \<Rightarrow> wait_node option) \<Rightarrow> waiter_id \<Rightarrow> wait_node option" where
  "settle g q v i =
     (case map_of g i of
        Some n \<Rightarrow> (if wn_waker n = None then None else Some \<lparr>wn_needed = 0, wn_waker = None\<rparr>)
      | None \<Rightarrow> (case map_of q i of Some n \<Rightarrow> Some n | None \<Rightarrow> v i))"

lemma wakers_of_simps [simp]:
  "wakers_of [] = []"
  "wakers_of ((i, n) # g) = (case wn_waker n of None \<Rightarrow> wakers_of g | Some w \<Rightarrow> w # wakers_of g)"
  by (simp_all add: wakers_of_def map_filter_simps split: option.split)

lemma map_fst_wl_list [simp]: "map fst (wl_list wl) = wl_queue wl"
  by (simp add: wl_list_def comp_def)

lemma wl_list_Nil_iff [simp]: "wl_list wl = [] \<longleftrightarrow> wl_queue wl = []"
  by (simp add: wl_list_def)

lemma wl_list_Cons:
  assumes "wl_inv wl" and "wl_list wl = (i, n) # q"
  shows "wl_queue wl = i # map fst q" and "wl_val wl i = Some n"
    and "\<And>j m. (j, m) \<in> set q \<Longrightarrow> wl_val wl j = Some m \<and> j \<noteq> i"
proof -
  have mem: "wl_val wl j = Some m" if "(j, m) \<in> set (wl_list wl)" for j m
    using that wq.queue_val [OF assms(1)] by (fastforce simp: wl_list_def)
  show q: "wl_queue wl = i # map fst q"
    using arg_cong [OF assms(2), of "map fst"] by simp
  show "wl_val wl i = Some n" using mem assms(2) by simp
  show "\<And>j m. (j, m) \<in> set q \<Longrightarrow> wl_val wl j = Some m \<and> j \<noteq> i"
    using mem assms(2) wq.queue_distinct [OF assms(1)] q by force
qed

lemma wl_list_eqI:
  assumes "wl_queue wl = map fst q" and "\<And>j m. (j, m) \<in> set q \<Longrightarrow> wl_val wl j = Some m"
  shows "wl_list wl = q"
  using assms by (auto simp: wl_list_def intro!: map_idI)

lemma wl_list_map_of:
  assumes "wl_inv wl"
  shows "map_of (wl_list wl) i = (if i \<in> set (wl_queue wl) then wl_val wl i else None)"
proof -
  have "map_of (wl_list wl) i = (if i \<in> set (wl_queue wl) then Some (the (wl_val wl i)) else None)"
    unfolding wl_list_def by (induction "wl_queue wl") (auto simp: map_of_map_restrict)
  then show ?thesis
    using wq.queue_val [OF assms, of i] by auto
qed

lemma assign_eq:
  "assign r n = (if wn_needed n \<le> r then (True, n\<lparr>wn_needed := 0\<rparr>, r - wn_needed n)
     else (False, n\<lparr>wn_needed := wn_needed n - r\<rparr>, 0))"
  by (auto simp: assign_def Let_def min_def)

lemma detach_spec:
  assumes "wl_inv wl" and "wb_inv b" and "wl_val wl i = Some n" and "i \<notin> set (wl_queue wl)"
  obtains b' wl' where "detach b wl i n = Some (b', wl')" and "wl_inv wl'" and "wb_inv b'"
    and "wb_list b' = wb_list b @ wakers_of [(i, n)]" and "wl_queue wl' = wl_queue wl"
    and "wl_val wl' = (wl_val wl)(i := if wn_waker n = None then None else Some (n\<lparr>wn_waker := None\<rparr>))"
proof (cases "wn_waker n")
  case None
  obtain wl' where "remove_unlinked_waiter wl i = Some (n, wl')" "wl_inv wl'"
    "wl_queue wl' = wl_queue wl" "wl_val wl' = (wl_val wl)(i := None)"
    using wq.remove_law [OF assms(1,3,4)] by blast
  with None that assms(2) show thesis by (simp add: detach_def)
next
  case (Some w)
  obtain wl' where "set_waiter wl i (n\<lparr>wn_waker := None\<rparr>) = Some wl'" "wl_inv wl'"
    "wl_queue wl' = wl_queue wl" "wl_val wl' = (wl_val wl)(i \<mapsto> n\<lparr>wn_waker := None\<rparr>)"
    using wq.setv_law [OF assms(1,3)] by blast
  moreover obtain b' where "wb_push b w = Some b'" "wb_inv b'" "wb_list b' = wb_list b @ [w]"
    by (rule wb_push_spec [OF assms(2)])
  ultimately show thesis using Some that by (simp add: detach_def)
qed

lemma unlink_first_spec:
  assumes inv: "wl_inv wl" and q: "wl_list wl = (i, n) # q" and p: "p c n = (ok, n', c')"
  obtains wl' where "unlink_first_waiter wl p c = Some (if ok then Some (i, n') else None, c', wl')"
    and "wl_inv wl'" and "wl_val wl' = (wl_val wl)(i \<mapsto> n')"
    and "wl_list wl' = (if ok then q else (i, n') # q)"
proof -
  note c = wl_list_Cons [OF inv q]
  obtain wl' where u: "unlink_waiter wl i p c = Some (if ok then Some n' else None, c', wl')"
    "wl_inv wl'" "wl_val wl' = (wl_val wl)(i \<mapsto> n')"
    "wl_queue wl' = (if ok then removeAll i (wl_queue wl) else wl_queue wl)"
    using wq.unlink_law [where p = p and c = c, OF inv c(2) p] by blast
  have "removeAll i (wl_queue wl) = map fst q"
    using c(1) wq.queue_distinct [OF inv] by (auto simp: removeAll_id)
  then have "wl_list wl' = (if ok then q else (i, n') # q)"
    using u(3,4) c by (intro wl_list_eqI) (auto split: if_splits)
  moreover have "unlink_first_waiter wl p c = Some (if ok then Some (i, n') else None, c', wl')"
    using wq.unlink_first_Cons [OF inv c(1), of p c] u(1) by simp
  ultimately show thesis using that u(2,3) by blast
qed

text \<open>One round of the inner loop, in its three cases.\<close>

lemma body_stop: "r = 0 \<or> will_spill b \<or> wl_inv wl \<and> wl_queue wl = [] \<Longrightarrow>
  distribute_body (r, b, wl) = Some ((r, b, wl), False)"
  using wq.unlink_first_empty [of wl assign r] by (auto simp: distribute_body_def)

lemma body_partial:
  assumes "wl_inv wl" and "wl_list wl = (i, n) # q" and "0 < r" "\<not> will_spill b" "r < wn_needed n"
  obtains wl' where "distribute_body (r, b, wl) = Some ((0, b, wl'), False)" and "wl_inv wl'"
    and "wl_list wl' = (i, n\<lparr>wn_needed := wn_needed n - r\<rparr>) # q"
    and "wl_val wl' = (wl_val wl)(i \<mapsto> n\<lparr>wn_needed := wn_needed n - r\<rparr>)"
proof -
  have a: "assign r n = (False, n\<lparr>wn_needed := wn_needed n - r\<rparr>, 0)" using assms(5) by (simp add: assign_eq)
  obtain wl' where u: "unlink_first_waiter wl assign r = Some (None, 0, wl')" "wl_inv wl'"
    "wl_val wl' = (wl_val wl)(i \<mapsto> n\<lparr>wn_needed := wn_needed n - r\<rparr>)"
    "wl_list wl' = (i, n\<lparr>wn_needed := wn_needed n - r\<rparr>) # q"
    by (rule unlink_first_spec [where p = assign and c = r, OF assms(1,2) a]) simp
  with assms(3,4) that show thesis by (simp add: distribute_body_def)
qed

lemma body_grant:
  assumes "wl_inv wl" and "wb_inv b" and "wl_list wl = (i, n) # q"
    and "0 < r" "\<not> will_spill b" "wn_needed n \<le> r"
  obtains b' wl' where "distribute_body (r, b, wl) = Some ((r - wn_needed n, b', wl'), True)"
    and "wl_inv wl'" and "wb_inv b'" and "wb_list b' = wb_list b @ wakers_of [(i, n)]"
    and "wl_list wl' = q"
    and "wl_val wl' = (wl_val wl)
          (i := if wn_waker n = None then None else Some \<lparr>wn_needed = 0, wn_waker = None\<rparr>)"
proof -
  have a: "assign r n = (True, n\<lparr>wn_needed := 0\<rparr>, r - wn_needed n)" using assms(6) by (simp add: assign_eq)
  obtain wl1 where u: "unlink_first_waiter wl assign r = Some (Some (i, n\<lparr>wn_needed := 0\<rparr>), r - wn_needed n, wl1)"
    "wl_inv wl1" "wl_val wl1 = (wl_val wl)(i \<mapsto> n\<lparr>wn_needed := 0\<rparr>)" "wl_list wl1 = q"
    by (rule unlink_first_spec [where p = assign and c = r, OF assms(1,3) a]) simp
  note c = wl_list_Cons [OF assms(1,3)]
  have i: "i \<notin> set (wl_queue wl1)"
    using wq.queue_distinct [OF assms(1)] c(1) u(4) unfolding map_fst_wl_list [of wl1, symmetric]
    by simp
  obtain b' wl' where d: "detach b wl1 i (n\<lparr>wn_needed := 0\<rparr>) = Some (b', wl')" "wl_inv wl'" "wb_inv b'"
    "wb_list b' = wb_list b @ wakers_of [(i, n\<lparr>wn_needed := 0\<rparr>)]" "wl_queue wl' = wl_queue wl1"
    "wl_val wl' = (wl_val wl1)(i := if wn_waker (n\<lparr>wn_needed := 0\<rparr>) = None then None
       else Some (n\<lparr>wn_needed := 0, wn_waker := None\<rparr>))"
    by (rule detach_spec [OF u(2) assms(2) _ i]) (use u(3) in auto)
  have "wl_list wl' = q"
    using d(5,6) u(3,4) c(3) by (intro wl_list_eqI) (auto simp flip: map_fst_wl_list)
  moreover have "distribute_body (r, b, wl) = Some ((r - wn_needed n, b', wl'), True)"
    using u(1) d(1) assms(4,5) by (simp add: distribute_body_def)
  ultimately show thesis using that d(2,3,4,6) u(3) by (cases n) simp
qed

lemma settle_empty:
  assumes "\<And>i n. map_of q i = Some n \<Longrightarrow> v i = Some n"
  shows "settle [] q v = v"
  using assms by (auto simp: settle_def fun_eq_iff split: option.splits)

lemma spend_fst: "spend r k q = (r', g, q') \<Longrightarrow> map fst q = map fst g @ map fst q'"
  by (induction r k q arbitrary: g rule: spend.induct) (auto split: if_splits prod.splits)

lemma settle_Cons:
  assumes "i \<notin> set (map fst g)" and "i \<notin> set (map fst q)"
  shows "settle ((i, n) # g) q v =
    settle g q (v(i := if wn_waker n = None then None else Some \<lparr>wn_needed = 0, wn_waker = None\<rparr>))"
proof
  fix j
  have "map_of g i = None" "map_of q i = None" using assms by (auto simp: map_of_eq_None_iff)
  then show "settle ((i, n) # g) q v j =
    settle g q (v(i := if wn_waker n = None then None else Some \<lparr>wn_needed = 0, wn_waker = None\<rparr>)) j"
    by (cases "j = i") (simp_all add: settle_def split: option.splits)
qed

text \<open>The inner loop computes \<open>spend\<close>, and hands the granted wakers to the batch in order.\<close>

lemma distribute_loop:
  assumes "wl_inv wl" and "wb_inv b" and "wl_list wl = q"
    and "spend r (stack_size - length (wb_list b)) q = (r', g, q')"
  shows "\<exists>b' wl'. loop distribute_body (r, b, wl) = Some (r', b', wl') \<and> wl_inv wl' \<and> wb_inv b' \<and>
    wb_list b' = wb_list b @ wakers_of g \<and> wl_list wl' = q' \<and> wl_val wl' = settle g q' (wl_val wl)"
  using assms
proof (induction q arbitrary: r b wl g)
  case Nil
  with loop_unroll [where body = distribute_body, OF body_stop, of r b wl] settle_empty [of "[]" "wl_val wl"]
  show ?case by auto
next
  case (Cons x q)
  obtain i n where x: "x = (i, n)" by (cases x)
  note q = Cons.prems(3) [unfolded x]
  note c = wl_list_Cons [OF Cons.prems(1) q]
  have full: "stack_size - length (wb_list b) = 0 \<longleftrightarrow> will_spill b"
    using will_spill_iff [OF Cons.prems(2)] by auto
  consider "r = 0 \<or> will_spill b" | "0 < r" "\<not> will_spill b" "wn_needed n \<le> r"
    | "0 < r" "\<not> will_spill b" "r < wn_needed n" by linarith
  then show ?case
  proof cases
    case 1
    then have "r' = r" "g = []" "q' = (i, n) # q"
      using Cons.prems(4) full by (auto simp: x)
    moreover have "settle [] ((i, n) # q) (wl_val wl) = wl_val wl"
      using c(2,3) by (intro settle_empty) (auto split: if_splits dest!: map_of_SomeD)
    ultimately show ?thesis
      using loop_unroll [where body = distribute_body, OF body_stop, of r b wl] 1 Cons.prems(1,2) q by auto
  next
    case 2
    obtain b1 wl1 where s1: "distribute_body (r, b, wl) = Some ((r - wn_needed n, b1, wl1), True)"
      "wl_inv wl1" "wb_inv b1" "wb_list b1 = wb_list b @ wakers_of [(i, n)]" "wl_list wl1 = q"
      "wl_val wl1 = (wl_val wl)
          (i := if wn_waker n = None then None else Some \<lparr>wn_needed = 0, wn_waker = None\<rparr>)"
      by (rule body_grant [OF Cons.prems(1,2) q 2])
    have k: "stack_size - length (wb_list b1) =
        (if wn_waker n = None then stack_size - length (wb_list b) else stack_size - length (wb_list b) - 1)"
      using s1(4) by (auto split: option.splits)
    obtain g1 where g: "g = (i, n) # g1"
      and sp: "spend (r - wn_needed n) (stack_size - length (wb_list b1)) q = (r', g1, q')"
      using Cons.prems(4) 2 full by (auto simp: x k split: prod.splits)
    obtain b' wl' where l: "loop distribute_body (r - wn_needed n, b1, wl1) = Some (r', b', wl')"
      "wl_inv wl'" "wb_inv b'" "wb_list b' = wb_list b1 @ wakers_of g1" "wl_list wl' = q'"
      "wl_val wl' = settle g1 q' (wl_val wl1)"
      using Cons.IH [OF s1(2,3,5) sp] by blast
    have "i \<notin> set (map fst g1)" "i \<notin> set (map fst q')"
      using spend_fst [OF sp] wq.queue_distinct [OF Cons.prems(1)] c(1) by auto
    then have "settle g q' (wl_val wl) = settle g1 q' (wl_val wl1)"
      unfolding g s1(6) by (rule settle_Cons)
    then show ?thesis
      using loop_unroll [where body = distribute_body, OF s1(1)] l s1(4) g
      by (auto split: option.splits)
  next
    case 3
    obtain wl1 where s1: "distribute_body (r, b, wl) = Some ((0, b, wl1), False)" "wl_inv wl1"
      "wl_list wl1 = (i, n\<lparr>wn_needed := wn_needed n - r\<rparr>) # q"
      "wl_val wl1 = (wl_val wl)(i \<mapsto> n\<lparr>wn_needed := wn_needed n - r\<rparr>)"
      by (rule body_partial [OF Cons.prems(1) q 3])
    have r: "r' = 0" "g = []" "q' = (i, n\<lparr>wn_needed := wn_needed n - r\<rparr>) # q"
      using Cons.prems(4) 3 full by (auto simp: x)
    have "settle [] q' (wl_val wl) = wl_val wl1"
      using c(3) unfolding r(3) s1(4)
      by (fastforce simp: settle_def fun_eq_iff split: option.splits dest!: map_of_SomeD)
    then show ?thesis
      using loop_unroll [where body = distribute_body, OF s1(1)] s1 r Cons.prems(2) by auto
  qed
qed

lemma wl_is_empty_list: "wl_inv wl \<Longrightarrow> wl_is_empty wl \<longleftrightarrow> wl_list wl = []"
  by (simp add: wl_is_empty_iff)

lemma distribute_round_spec:
  assumes inv: "wl_inv (sem_waiters sem)" and sp: "spend r stack_size (wl_list (sem_waiters sem)) = (r', g, q')"
    and fits: "q' = [] \<Longrightarrow> 0 < r' \<Longrightarrow> sem_available sem + r' \<le> usize_max"
  obtains sem' where
    "distribute_round sem r = Some (wakers_of g, if q' = [] then 0 else r', sem')"
    and "wl_inv (sem_waiters sem')" and "wl_list (sem_waiters sem') = q'"
    and "wl_val (sem_waiters sem') = settle g q' (wl_val (sem_waiters sem))"
    and "sem_available sem' = sem_available sem + (if q' = [] then r' else 0)"
proof -
  obtain b wl where l: "loop distribute_body (r, wb_new, sem_waiters sem) = Some (r', b, wl)"
    "wl_inv wl" "wb_inv b" "wb_list b = wakers_of g" "wl_list wl = q'"
    "wl_val wl = settle g q' (wl_val (sem_waiters sem))"
    using distribute_loop [OF inv, of wb_new _ r r' g q'] sp by auto
  obtain b' where wk: "wb_wake_all b = Some (wakers_of g, b')"
    using wb_wake_all_spec [OF l(3)] l(4) by metis
  have e: "wl_is_empty wl \<longleftrightarrow> q' = []" using wl_is_empty_list [OF l(2)] l(5) by simp
  show thesis
  proof (cases "r' > 0 \<and> q' = []")
    case True
    let ?sem = "sem\<lparr>sem_waiters := wl\<rparr>"
    let ?sem' = "?sem\<lparr>sem_available := sem_available sem + r',
      sem_contention := (sem_available sem = 0 \<and> sem_contention sem)\<rparr>"
    have "put_back ?sem r' = Some ?sem'"
      using put_back_eq [of ?sem r'] fits True by simp
    then have "distribute_round sem r = Some (wakers_of g, 0, ?sem')"
      using True by (simp add: distribute_round_def l(1) e wk)
    with that [of ?sem'] True l show thesis by simp
  next
    case False
    then have "distribute_round sem r = Some (wakers_of g, r', sem\<lparr>sem_waiters := wl\<rparr>)"
      by (auto simp: distribute_round_def l(1) e wk)
    with that [of "sem\<lparr>sem_waiters := wl\<rparr>"] False l show thesis by auto
  qed
qed

section \<open>The whole distribution\<close>

text \<open>The reference: first come, first served, with no bound on how many are granted at once.\<close>

fun grant ::
  "nat \<Rightarrow> (waiter_id \<times> wait_node) list \<Rightarrow>
   nat \<times> (waiter_id \<times> wait_node) list \<times> (waiter_id \<times> wait_node) list" where
  "grant r [] = (r, [], [])"
| "grant r ((i, n) # q) =
     (if r = 0 then (0, [], (i, n) # q)
      else if wn_needed n \<le> r then
        (case grant (r - wn_needed n) q of (r', g, q') \<Rightarrow> (r', (i, n) # g, q'))
      else (0, [], (i, n\<lparr>wn_needed := wn_needed n - r\<rparr>) # q))"

lemma grant_fst: "grant r q = (r', g, q') \<Longrightarrow> map fst q = map fst g @ map fst q'"
  by (induction r q arbitrary: g rule: grant.induct) (auto split: if_splits prod.splits)

lemma grant_left: "grant r q = (r', g, q') \<Longrightarrow> q' = [] \<or> r' = 0"
  by (induction r q arbitrary: g rule: grant.induct) (auto split: if_splits prod.splits)

lemma grant_zero [simp]: "grant 0 q = (0, [], q)"
  by (cases q) auto

text \<open>A bounded round followed by the rest is the unbounded distribution.\<close>

lemma spend_grant:
  "spend r k q = (r1, g1, q1) \<Longrightarrow> grant r1 q1 = (r2, g2, q2) \<Longrightarrow> grant r q = (r2, g1 @ g2, q2)"
proof (induction r k q arbitrary: g1 rule: spend.induct)
  case (2 r k i n q)
  show ?case
  proof (cases "r \<noteq> 0 \<and> k \<noteq> 0 \<and> wn_needed n \<le> r")
    case True
    obtain g where "g1 = (i, n) # g"
      "spend (r - wn_needed n) (if wn_waker n = None then k else k - 1) q = (r1, g, q1)"
      using 2(2) True by (auto split: prod.splits)
    with 2 True show ?thesis by (auto split: prod.splits)
  next
    case False
    with 2(2,3) show ?thesis by (auto split: if_splits)
  qed
qed simp

text \<open>A round that leaves permits and waiters has granted someone.\<close>

lemma spend_progress:
  "spend r k q = (r', g, q') \<Longrightarrow> 0 < k \<Longrightarrow> r' \<noteq> 0 \<Longrightarrow> q' \<noteq> [] \<Longrightarrow> length q' < length q"
proof (induction r k q arbitrary: g rule: spend.induct)
  case (2 r k i n q)
  show ?case
  proof (cases "r \<noteq> 0 \<and> wn_needed n \<le> r")
    case True
    then obtain g' where "spend (r - wn_needed n) (if wn_waker n = None then k else k - 1) q = (r', g', q')"
      using 2(2,3) by (auto split: prod.splits)
    then have "length q' \<le> length q" using spend_fst [THEN arg_cong [of _ _ length]] by fastforce
    then show ?thesis by simp
  next
    case False
    with 2 show ?thesis by (auto split: if_splits)
  qed
qed simp

lemma settle_append:
  assumes "map fst q1 = map fst g2 @ map fst q2" and "distinct (map fst g1 @ map fst q1)"
  shows "settle g2 q2 (settle g1 q1 v) = settle (g1 @ g2) q2 v"
proof
  fix i
  have dom: "map_of q1 i = None \<longleftrightarrow> map_of g2 i = None \<and> map_of q2 i = None"
    using arg_cong [OF assms(1), of set] by (auto simp: map_of_eq_None_iff)
  have disj: "map_of g1 i \<noteq> None \<Longrightarrow> map_of q1 i = None"
    using assms(2) unfolding map_of_eq_None_iff by (auto simp: image_iff)
  show "settle g2 q2 (settle g1 q1 v) i = settle (g1 @ g2) q2 v i"
    using dom disj by (auto simp: settle_def map_add_def split: option.splits)
qed

lemma wakers_of_append: "wakers_of (g1 @ g2) = wakers_of g1 @ wakers_of g2"
  by (induction g1) (auto split: option.splits)

text \<open>
  The distribution is first come, first served over the whole queue, whatever the batch size:
  it grants what \<open>grant\<close> grants, wakes those waiters in queue order, leaves the queue that
  \<open>grant\<close> leaves, and gives the rest back to the counter.
\<close>

lemma distribute_permits_spec:
  assumes "wl_inv (sem_waiters sem)" and "grant r (wl_list (sem_waiters sem)) = (r', g, q')"
    and "sem_available sem + r' \<le> usize_max"
  obtains sem' where "distribute_permits sem r = Some (wakers_of g, sem')"
    and "wl_inv (sem_waiters sem')" and "wl_list (sem_waiters sem') = q'"
    and "wl_val (sem_waiters sem') = settle g q' (wl_val (sem_waiters sem))"
    and "sem_available sem' = sem_available sem + r'"
proof -
  define body where "body = (\<lambda>(woken, remaining, sem).
      do { (woken', remaining, sem) \<leftarrow> distribute_round sem remaining;
           Some ((woken @ woken', remaining, sem), remaining \<noteq> 0) })"
  have "\<exists>sem'. loop body (woken, r, sem) = Some (woken @ wakers_of g, 0, sem') \<and>
      wl_inv (sem_waiters sem') \<and> wl_list (sem_waiters sem') = q' \<and>
      wl_val (sem_waiters sem') = settle g q' (wl_val (sem_waiters sem)) \<and>
      sem_available sem' = sem_available sem + r'" for woken
    using assms
  proof (induction "length (wl_list (sem_waiters sem))" arbitrary: woken r sem g rule: less_induct)
    case less
    obtain r1 g1 q1 where sp: "spend r stack_size (wl_list (sem_waiters sem)) = (r1, g1, q1)"
      by (metis prod_cases3)
    obtain g2 where g2: "grant r1 q1 = (r', g2, q')" "g = g1 @ g2"
      using spend_grant [OF sp] less.prems(2) by (metis prod_cases3 Pair_inject)
    have r1: "r1 = r'" "q' = []" "g2 = []" if "q1 = []" using g2 that by auto
    obtain sem1 where s1: "distribute_round sem r = Some (wakers_of g1, if q1 = [] then 0 else r1, sem1)"
      "wl_inv (sem_waiters sem1)" "wl_list (sem_waiters sem1) = q1"
      "wl_val (sem_waiters sem1) = settle g1 q1 (wl_val (sem_waiters sem))"
      "sem_available sem1 = sem_available sem + (if q1 = [] then r1 else 0)"
      by (rule distribute_round_spec [OF less.prems(1) sp]) (use less.prems(3) r1 in auto)
    have step: "body (woken, r, sem) =
        Some ((woken @ wakers_of g1, if q1 = [] then 0 else r1, sem1), q1 \<noteq> [] \<and> r1 \<noteq> 0)"
      by (simp add: body_def s1(1))
    show ?case
    proof (cases "q1 \<noteq> [] \<and> r1 \<noteq> 0")
      case False
      then have "r1 = r' \<or> r1 = 0 \<and> r' = 0" "g2 = []" "q' = q1" using g2 r1 by auto
      with False show ?thesis
        using loop_unroll [where body = body, OF step] s1 g2 r1 by auto
    next
      case True
      have "length q1 < length (wl_list (sem_waiters sem))"
        using spend_progress [OF sp] True by (simp add: stack_size_def)
      then obtain sem' where l: "loop body (woken @ wakers_of g1, r1, sem1) =
            Some ((woken @ wakers_of g1) @ wakers_of g2, 0, sem')"
        "wl_inv (sem_waiters sem')" "wl_list (sem_waiters sem') = q'"
        "wl_val (sem_waiters sem') = settle g2 q' (wl_val (sem_waiters sem1))"
        "sem_available sem' = sem_available sem1 + r'"
        using less.hyps [of sem1 r1 g2 "woken @ wakers_of g1"] s1 g2 less.prems(3) True by auto
      have "settle g2 q' (settle g1 q1 (wl_val (sem_waiters sem))) = settle g q' (wl_val (sem_waiters sem))"
        unfolding g2(2) using grant_fst [OF g2(1)] spend_fst [OF sp] wq.queue_distinct [OF less.prems(1)]
        by (intro settle_append) simp_all
      then show ?thesis
        using loop_unroll [where body = body, OF step] True l s1(4,5) g2(2) by (auto simp: wakers_of_append)
    qed
  qed
  from this [of "[]"] that show thesis
    by (auto simp: distribute_permits_def body_def)
qed

text \<open>Conversely, a round that returns has not overflowed the counter.\<close>

lemma put_back_fits:
  assumes "put_back sem n = Some sem'" and "n \<le> usize_max"
  shows "sem_available sem + n \<le> usize_max"
  using assms
  by (auto simp: put_back_def Let_def update_permits_loop.simps try_update_permits_def panic_simps
      checked_add_def split: if_splits)

lemma spend_le: "spend r k q = (r', g, q') \<Longrightarrow> r' \<le> r"
proof (induction r k q arbitrary: g rule: spend.induct)
  case (2 r k i n q)
  show ?case
  proof (cases "r \<noteq> 0 \<and> k \<noteq> 0 \<and> wn_needed n \<le> r")
    case True
    then obtain g' where "spend (r - wn_needed n) (if wn_waker n = None then k else k - 1) q = (r', g', q')"
      using 2(2) by (auto split: prod.splits)
    with 2(1) True show ?thesis by fastforce
  next
    case False
    with 2(2) show ?thesis by (auto split: if_splits)
  qed
qed simp

lemma distribute_round_fits:
  assumes inv: "wl_inv (sem_waiters sem)" and r: "distribute_round sem r = Some (woken, rem, sem')"
    and b: "r \<le> usize_max" and sp: "spend r stack_size (wl_list (sem_waiters sem)) = (r', g, q')"
    and z: "q' = []" "0 < r'"
  shows "sem_available sem + r' \<le> usize_max"
proof -
  obtain b wl where l: "loop distribute_body (r, wb_new, sem_waiters sem) = Some (r', b, wl)"
    "wl_inv wl" "wl_list wl = q'"
    using distribute_loop [OF inv, of wb_new _ r r' g q'] sp by auto
  have "wl_is_empty wl" using wl_is_empty_list [OF l(2)] l(3) z by simp
  then obtain s1 where "put_back (sem\<lparr>sem_waiters := wl\<rparr>) r' = Some s1"
    using r z by (auto simp: distribute_round_def l(1) panic_simps Let_def split: if_splits)
  then show ?thesis using put_back_fits [of "sem\<lparr>sem_waiters := wl\<rparr>" r' s1] spend_le [OF sp] b by simp
qed

lemma distribute_round_cases:
  assumes inv: "wl_inv (sem_waiters sem)" and r: "distribute_round sem r = Some (woken, rem, sem')"
    and b: "r \<le> usize_max"
  obtains r' g q' where "spend r stack_size (wl_list (sem_waiters sem)) = (r', g, q')"
    and "woken = wakers_of g" and "rem = (if q' = [] then 0 else r')"
    and "wl_inv (sem_waiters sem')" and "wl_list (sem_waiters sem') = q'"
    and "wl_val (sem_waiters sem') = settle g q' (wl_val (sem_waiters sem))"
    and "sem_available sem' = sem_available sem + (if q' = [] then r' else 0)"
proof -
  obtain r' g q' where sp: "spend r stack_size (wl_list (sem_waiters sem)) = (r', g, q')"
    by (metis prod_cases3)
  show thesis
    by (rule distribute_round_spec [OF inv sp distribute_round_fits [OF inv r b sp]]) (use that [OF sp] r in auto)
qed

text \<open>\<open>notify_all\<close> empties the queue and wakes every waiter, in order.\<close>

lemma notify_loop:
  assumes "wl_inv wl" and "wb_inv b" and "wl_list wl = q"
  shows "\<exists>b' wl'. loop notify_body (b, wl) = Some (b', wl') \<and> wl_inv wl' \<and> wb_inv b' \<and>
    wb_list b' = wb_list b @ wakers_of q \<and> wl_list wl' = [] \<and> wl_val wl' = settle q [] (wl_val wl)"
  using assms
proof (induction q arbitrary: b wl)
  case Nil
  then have "notify_body (b, wl) = Some ((b, wl), False)"
    using wq.unlink_first_empty [of wl grant_all "()"] by (simp add: notify_body_def)
  from loop_unroll [where body = notify_body, OF this] Nil settle_empty [of "[]" "wl_val wl"]
  show ?case by auto
next
  case (Cons x q)
  obtain i n where x: "x = (i, n)" by (cases x)
  note q = Cons.prems(3) [unfolded x]
  note c = wl_list_Cons [OF Cons.prems(1) q]
  have a: "grant_all () n = (True, n\<lparr>wn_needed := 0\<rparr>, ())" by (simp add: grant_all_def)
  obtain wl1 where u: "unlink_first_waiter wl grant_all () = Some (Some (i, n\<lparr>wn_needed := 0\<rparr>), (), wl1)"
    "wl_inv wl1" "wl_val wl1 = (wl_val wl)(i \<mapsto> n\<lparr>wn_needed := 0\<rparr>)" "wl_list wl1 = q"
    by (rule unlink_first_spec [where p = grant_all and c = "()", OF Cons.prems(1) q a]) simp
  have i: "i \<notin> set (wl_queue wl1)"
    using wq.queue_distinct [OF Cons.prems(1)] c(1) u(4) unfolding map_fst_wl_list [of wl1, symmetric]
    by simp
  obtain b1 wl2 where d: "detach b wl1 i (n\<lparr>wn_needed := 0\<rparr>) = Some (b1, wl2)" "wl_inv wl2" "wb_inv b1"
    "wb_list b1 = wb_list b @ wakers_of [(i, n\<lparr>wn_needed := 0\<rparr>)]" "wl_queue wl2 = wl_queue wl1"
    "wl_val wl2 = (wl_val wl1)(i := if wn_waker (n\<lparr>wn_needed := 0\<rparr>) = None then None
       else Some (n\<lparr>wn_needed := 0, wn_waker := None\<rparr>))"
    by (rule detach_spec [OF u(2) Cons.prems(2) _ i]) (use u(3) in auto)
  have l2: "wl_list wl2 = q"
    using d(5,6) u(3,4) c(3) by (intro wl_list_eqI) (auto simp flip: map_fst_wl_list)
  have step: "notify_body (b, wl) = Some ((b1, wl2), True)"
    using u(1) d(1) by (simp add: notify_body_def)
  obtain b' wl' where l: "loop notify_body (b1, wl2) = Some (b', wl')" "wl_inv wl'" "wb_inv b'"
    "wb_list b' = wb_list b1 @ wakers_of q" "wl_list wl' = []" "wl_val wl' = settle q [] (wl_val wl2)"
    using Cons.IH [OF d(2,3) l2] by blast
  have v2: "wl_val wl2 = (wl_val wl)
      (i := if wn_waker n = None then None else Some \<lparr>wn_needed = 0, wn_waker = None\<rparr>)"
    using d(6) u(3) by (cases n) simp
  have "i \<notin> set (map fst q)" using wq.queue_distinct [OF Cons.prems(1)] c(1) by simp
  then have "settle ((i, n) # q) [] (wl_val wl) = settle q [] (wl_val wl2)"
    unfolding v2 by (intro settle_Cons) simp_all
  then show ?case
    using loop_unroll [where body = notify_body, OF step] l d(4) x by (auto split: option.splits)
qed

lemma sem_notify_all_spec:
  assumes "wl_inv (sem_waiters sem)"
  obtains wl where "sem_notify_all sem = Some (wakers_of (wl_list (sem_waiters sem)), sem\<lparr>sem_waiters := wl\<rparr>)"
    and "wl_inv wl" and "wl_list wl = []"
    and "wl_val wl = settle (wl_list (sem_waiters sem)) [] (wl_val (sem_waiters sem))"
proof -
  obtain b wl where l: "loop notify_body (wb_new, sem_waiters sem) = Some (b, wl)" "wl_inv wl" "wb_inv b"
    "wb_list b = wakers_of (wl_list (sem_waiters sem))" "wl_list wl = []"
    "wl_val wl = settle (wl_list (sem_waiters sem)) [] (wl_val (sem_waiters sem))"
    using notify_loop [OF assms wb_new_simps(1) refl] by auto
  obtain b' where "wb_wake_all b = Some (wb_list b, b')" by (rule wb_wake_all_spec [OF l(3)])
  then show thesis using that [of wl] l by (simp add: sem_notify_all_def)
qed

section \<open>When a distribution panics\<close>

text \<open>
  While the queue is empty unless no permit is available, a distribution panics exactly when it
  puts back permits that overflow the counter.
\<close>

lemma grant_le: "grant r q = (r', g, q') \<Longrightarrow> r' \<le> r"
  by (induction r q arbitrary: g rule: grant.induct) (fastforce split: if_splits prod.splits)+

lemma distribute_round_panic_iff:
  assumes inv: "wl_inv (sem_waiters sem)" and z: "wl_queue (sem_waiters sem) \<noteq> [] \<Longrightarrow> sem_available sem = 0"
    and b: "r \<le> usize_max"
  shows "distribute_round sem r = None \<longleftrightarrow>
    0 < r \<and> wl_queue (sem_waiters sem) = [] \<and> usize_max < sem_available sem + r"
proof -
  obtain r' g q' where sp: "spend r stack_size (wl_list (sem_waiters sem)) = (r', g, q')"
    by (metis prod_cases3)
  show ?thesis
  proof (cases "0 < r \<and> wl_queue (sem_waiters sem) = [] \<and> usize_max < sem_available sem + r")
    case True
    then have "r' = r" "q' = []" using sp by (auto simp: wl_list_def)
    have "distribute_round sem r = None"
    proof (cases "distribute_round sem r")
      case (Some x)
      obtain woken rem sem' where "x = (woken, rem, sem')" by (cases x)
      with Some have "distribute_round sem r = Some (woken, rem, sem')" by simp
      from distribute_round_fits [OF inv this b sp \<open>q' = []\<close>] True \<open>r' = r\<close> show ?thesis by simp
    qed simp
    with True show ?thesis by simp
  next
    case False
    have "sem_available sem + r' \<le> usize_max" if "q' = []" "0 < r'"
    proof (cases "wl_queue (sem_waiters sem) = []")
      case True
      then have "r' = r" using sp by (auto simp: wl_list_def)
      with True False that(2) show ?thesis by simp
    qed (use z spend_le [OF sp] b in simp)
    then obtain x where "distribute_round sem r = Some x"
      using distribute_round_spec [OF inv sp] by metis
    with False show ?thesis by simp
  qed
qed

lemma distribute_permits_panic_iff:
  assumes inv: "wl_inv (sem_waiters sem)" and z: "wl_queue (sem_waiters sem) \<noteq> [] \<Longrightarrow> sem_available sem = 0"
    and b: "0 < r" "r \<le> usize_max"
  shows "distribute_permits sem r = None \<longleftrightarrow>
    wl_queue (sem_waiters sem) = [] \<and> usize_max < sem_available sem + r"
proof (cases "wl_queue (sem_waiters sem) = [] \<and> usize_max < sem_available sem + r")
  case True
  then have "distribute_round sem r = None" using distribute_round_panic_iff [OF inv z b(2)] b(1) by simp
  then have "distribute_permits sem r = None" unfolding distribute_permits_def by (subst loop.simps) simp
  with True show ?thesis by simp
next
  case False
  obtain r' g q' where g: "grant r (wl_list (sem_waiters sem)) = (r', g, q')" by (metis prod_cases3)
  have "sem_available sem + r' \<le> usize_max"
  proof (cases "wl_queue (sem_waiters sem) = []")
    case True
    then have "r' = r" using g by (simp add: wl_list_def)
    with True False show ?thesis by simp
  qed (use z grant_le [OF g] b(2) in simp)
  then obtain x where "distribute_permits sem r = Some x" using distribute_permits_spec [OF inv g] by metis
  with False show ?thesis by simp
qed

section \<open>What a distribution promises\<close>

text \<open>
  C4: releasing permits under the lock is first come, first served over the whole queue:
  the batching into rounds of 32 wakers does not show. The waiters that \<open>grant\<close> grants are
  woken in queue order, the rest of the queue is what it leaves, and only permits that
  nobody waits for go back to the counter.
\<close>

theorem distribute_permits_fifo:
  assumes "wl_inv (sem_waiters sem)" and "grant r (wl_list (sem_waiters sem)) = (r', g, q')"
    and "sem_available sem + r' \<le> usize_max"
  shows "\<exists>sem'. distribute_permits sem r = Some (wakers_of g, sem') \<and>
    wl_inv (sem_waiters sem') \<and> wl_list (sem_waiters sem') = q' \<and>
    sem_available sem' = sem_available sem + r' \<and> (q' = [] \<or> r' = 0)"
proof -
  obtain sem' where "distribute_permits sem r = Some (wakers_of g, sem')" "wl_inv (sem_waiters sem')"
    "wl_list (sem_waiters sem') = q'" "sem_available sem' = sem_available sem + r'"
    by (rule distribute_permits_spec [OF assms])
  with grant_left [OF assms(2)] show ?thesis by blast
qed

text \<open>Two waiters, who need one and three permits.\<close>

definition demo_queue :: "wait_node wait_list option" where
  "demo_queue = do {
     (i, wl) \<leftarrow> push_back wl_new \<lparr>wn_needed = 1, wn_waker = Some 7\<rparr>;
     (j, wl) \<leftarrow> push_back wl \<lparr>wn_needed = 3, wn_waker = Some 8\<rparr>;
     Some wl }"

theorem distribute_permits_fifo_witness:
  "\<exists>wl sem' j. demo_queue = Some wl \<and>
     distribute_permits \<lparr>sem_available = 0, sem_contention = False, sem_waiters = wl\<rparr> 2 = Some ([7], sem') \<and>
     wl_list (sem_waiters sem') = [(j, \<lparr>wn_needed = 2, wn_waker = Some 8\<rparr>)] \<and> sem_available sem' = 0"
proof -
  obtain i j wl1 wl where p: "push_back wl_new \<lparr>wn_needed = 1, wn_waker = Some 7\<rparr> = Some (i, wl1)"
    "push_back wl1 \<lparr>wn_needed = 3, wn_waker = Some 8\<rparr> = Some (j, wl)"
    by (simp add: op_defs)
  note l1 = wq.push_law [OF wl_inv_new p(1)]
  note l2 = wq.push_law [OF conjunct1 [OF conjunct2 [OF l1]] p(2)]
  have "i \<noteq> j" using l1 l2 by auto
  then have "wl_list wl = [(i, \<lparr>wn_needed = 1, wn_waker = Some 7\<rparr>), (j, \<lparr>wn_needed = 3, wn_waker = Some 8\<rparr>)]"
    using l1 l2 by (simp add: wl_list_def wl_queue_new)
  with distribute_permits_fifo [of "\<lparr>sem_available = 0, sem_contention = False, sem_waiters = wl\<rparr>" 2 0
      "[(i, \<lparr>wn_needed = 1, wn_waker = Some 7\<rparr>)]" "[(j, \<lparr>wn_needed = 2, wn_waker = Some 8\<rparr>)]"] l2 p
  show ?thesis by (auto simp: demo_queue_def)
qed

end
