(* ===== verification/SemaphoreSystem.thy ===== *)
theory SemaphoreSystem
  imports Semaphore
begin

text \<open>
  The internal semaphore shared by any number of acquisition futures and of threads that
  acquire, reduce and release permits. A distribution gives up the lock between its rounds,
  so a thread in the middle of one carries the permits still in its hand. The invariant says
  who owns which node of the queue, that a granted future has been woken, that no permit is
  available while someone waits, and that permits are conserved.
\<close>

text \<open>
  A future carries the waker of its last poll and how many wakers had been woken by then.
  The last five fields count permits: those a caller acquired, those removed by
  \<open>reduce_permits\<close>, those released, and those that \<open>notify_all\<close> made up.
\<close>

type_synonym acquires = "nat \<Rightarrow> (acquire \<times> waker \<times> nat) option"

record sem_sys =
  ss_sem :: semaphore
  ss_futs :: acquires
  ss_dist :: "nat \<Rightarrow> usize option"
  ss_woken :: "waker list"
  ss_total :: nat
  ss_acquired :: nat
  ss_reduced :: nat
  ss_released :: nat
  ss_gifted :: nat

abbreviation ss_waiters :: "sem_sys \<Rightarrow> wait_node wait_list" where
  "ss_waiters s \<equiv> sem_waiters (ss_sem s)"

definition sem_init :: "usize \<Rightarrow> sem_sys" where
  "sem_init permits = \<lparr>ss_sem = sem_new permits, ss_futs = Map.empty, ss_dist = Map.empty,
     ss_woken = [], ss_total = permits, ss_acquired = 0, ss_reduced = 0, ss_released = 0,
     ss_gifted = 0\<rparr>"

text \<open>What all waiters in the queue still need.\<close>

definition queue_needs :: "wait_node wait_list \<Rightarrow> nat" where
  "queue_needs wl = (\<Sum>(i, n)\<leftarrow>wl_list wl. wn_needed n)"

text \<open>The outcome of one lock acquisition of a distribution by thread \<open>t\<close>.\<close>

definition after_round :: "nat \<Rightarrow> waker list \<Rightarrow> usize \<Rightarrow> semaphore \<Rightarrow> sem_sys \<Rightarrow> sem_sys" where
  "after_round t woken remaining sem s = s\<lparr>ss_sem := sem, ss_woken := ss_woken s @ woken,
     ss_dist := (ss_dist s)(t := if remaining = 0 then None else Some remaining)\<rparr>"

inductive sem_step :: "sem_sys \<Rightarrow> sem_sys \<Rightarrow> bool" where
  try_acquire: "try_acquire (ss_sem s) n = (True, sem) \<Longrightarrow>
    sem_step s (s\<lparr>ss_sem := sem, ss_acquired := ss_acquired s + n\<rparr>)"
| drain: "drain_permits spurious (ss_sem s) n = (m, sem) \<Longrightarrow>
    sem_step s (s\<lparr>ss_sem := sem, ss_acquired := ss_acquired s + m\<rparr>)"
| reduce: "reduce_permits (ss_sem s) n = Some sem \<Longrightarrow>
    sem_step s (s\<lparr>ss_sem := sem, ss_reduced := ss_reduced s + n\<rparr>)"
| acquire: "ss_futs s f = None \<Longrightarrow> n \<le> usize_max \<Longrightarrow>
    sem_step s (s\<lparr>ss_futs := (ss_futs s)(f \<mapsto> (sem_acquire n, 0, 0))\<rparr>)"
| poll_pending: "ss_futs s f = Some (aq, w0, m0) \<Longrightarrow>
    poll_once (ss_sem s) aq w = Some (Pending, aq', sem) \<Longrightarrow>
    sem_step s (s\<lparr>ss_sem := sem, ss_futs := (ss_futs s)(f \<mapsto> (aq', w, length (ss_woken s)))\<rparr>)"
| poll_ready: "ss_futs s f = Some (aq, w0, m0) \<Longrightarrow>
    poll_once (ss_sem s) aq w = Some (Ready (), aq', sem) \<Longrightarrow>
    sem_step s (s\<lparr>ss_sem := sem, ss_futs := (ss_futs s)(f \<mapsto> (aq', w, length (ss_woken s))),
      ss_acquired := ss_acquired s + aq_requested aq\<rparr>)"
| drop_bare: "ss_futs s f = Some (aq, w0, m0) \<Longrightarrow> aq_index aq = None \<Longrightarrow>
    sem_step s (s\<lparr>ss_futs := (ss_futs s)(f := None)\<rparr>)"
| drop_empty: "ss_futs s f = Some (aq, w0, m0) \<Longrightarrow> aq_index aq = Some i \<Longrightarrow>
    acquire_detach (ss_sem s) aq i = Some (0, sem) \<Longrightarrow>
    sem_step s (s\<lparr>ss_sem := sem, ss_futs := (ss_futs s)(f := None)\<rparr>)"
| drop_assigned: "ss_futs s f = Some (aq, w0, m0) \<Longrightarrow> aq_index aq = Some i \<Longrightarrow>
    acquire_detach (ss_sem s) aq i = Some (acquired, sem) \<Longrightarrow> acquired > 0 \<Longrightarrow>
    ss_dist s t = None \<Longrightarrow> distribute_round sem acquired = Some (woken, remaining, sem') \<Longrightarrow>
    sem_step s (after_round t woken remaining sem' (s\<lparr>ss_futs := (ss_futs s)(f := None)\<rparr>))"
| release_fast: "n \<noteq> 0 \<Longrightarrow> n \<le> usize_max \<Longrightarrow> sem_release_fast (ss_sem s) n = Some (Some sem) \<Longrightarrow>
    sem_step s (s\<lparr>ss_sem := sem, ss_released := ss_released s + n\<rparr>)"
| release_slow: "n \<noteq> 0 \<Longrightarrow> n \<le> usize_max \<Longrightarrow> ss_dist s t = None \<Longrightarrow>
    distribute_round (ss_sem s) n = Some (woken, remaining, sem) \<Longrightarrow>
    sem_step s (after_round t woken remaining sem (s\<lparr>ss_released := ss_released s + n\<rparr>))"
| round: "ss_dist s t = Some n \<Longrightarrow> distribute_round (ss_sem s) n = Some (woken, remaining, sem) \<Longrightarrow>
    sem_step s (after_round t woken remaining sem s)"
| notify_all: "sem_notify_all (ss_sem s) = Some (woken, sem) \<Longrightarrow>
    sem_step s (s\<lparr>ss_sem := sem, ss_woken := ss_woken s @ woken,
      ss_gifted := ss_gifted s + queue_needs (ss_waiters s)\<rparr>)"

section \<open>The invariant\<close>

text \<open>
  The node of a future: queued with the waker of its last poll while permits are missing,
  otherwise unlinked, complete, and woken since that poll.
\<close>

definition node_ok :: "wait_node wait_list \<Rightarrow> waker list \<Rightarrow> acquire \<Rightarrow> waker \<Rightarrow> nat \<Rightarrow> waiter_id \<Rightarrow> bool" where
  "node_ok wl woken aq w m i \<longleftrightarrow> m \<le> length woken \<and>
     (\<exists>n. wl_val wl i = Some n \<and> wn_needed n \<le> aq_requested aq \<and>
     (if i \<in> set (wl_queue wl) then 0 < wn_needed n \<and> wn_waker n = Some w
      else wn_needed n = 0 \<and> wn_waker n = None \<and> w \<in> set (drop m woken)))"

definition owner :: "acquires \<Rightarrow> nat \<Rightarrow> waiter_id \<Rightarrow> bool" where
  "owner F f i \<longleftrightarrow> (\<exists>aq w m. F f = Some (aq, w, m) \<and> aq_index aq = Some i)"

definition nodes_ok :: "wait_node wait_list \<Rightarrow> acquires \<Rightarrow> waker list \<Rightarrow> bool" where
  "nodes_ok wl F woken \<longleftrightarrow> wl_inv wl \<and>
     (\<forall>f aq w m i. F f = Some (aq, w, m) \<longrightarrow> aq_index aq = Some i \<longrightarrow> node_ok wl woken aq w m i) \<and>
     (\<forall>f g i. owner F f i \<longrightarrow> owner F g i \<longrightarrow> f = g) \<and>
     (\<forall>i n. wl_val wl i = Some n \<longrightarrow>
        (\<exists>f. owner F f i) \<or> i \<in> set (wl_queue wl) \<and> wn_waker n = None \<and> 0 < wn_needed n)"

definition reserved :: "acquire \<times> waker \<times> nat \<Rightarrow> nat" where
  "reserved x = (case fst x of aq \<Rightarrow> if aq_index aq = None then 0 else aq_requested aq)"

definition conserved :: "sem_sys \<Rightarrow> bool" where
  "conserved s \<longleftrightarrow> finite (dom (ss_futs s)) \<and> finite (dom (ss_dist s)) \<and>
     (\<forall>f aq w m. ss_futs s f = Some (aq, w, m) \<longrightarrow> aq_requested aq \<le> usize_max) \<and>
     (\<forall>t n. ss_dist s t = Some n \<longrightarrow> n \<le> usize_max) \<and>
     sem_available (ss_sem s) + msum reserved (ss_futs s) + msum (\<lambda>n. n) (ss_dist s) +
       ss_acquired s + ss_reduced s =
     ss_total s + ss_released s + ss_gifted s + queue_needs (ss_waiters s)"

definition sem_inv :: "sem_sys \<Rightarrow> bool" where
  "sem_inv s \<longleftrightarrow> nodes_ok (ss_waiters s) (ss_futs s) (ss_woken s) \<and>
     (wl_queue (ss_waiters s) \<noteq> [] \<longrightarrow> sem_available (ss_sem s) = 0) \<and> conserved s"

lemma sem_init_inv: "sem_inv (sem_init n)"
  by (simp add: sem_inv_def sem_init_def sem_new_def nodes_ok_def owner_def conserved_def
      queue_needs_def wl_list_def wl_inv_new wl_queue_new wl_val_new)

section \<open>Who owns which node\<close>

lemma nodes_okD:
  assumes "nodes_ok wl F wk"
  shows "wl_inv wl"
    and "F f = Some (aq, w, m) \<Longrightarrow> aq_index aq = Some i \<Longrightarrow> node_ok wl wk aq w m i"
    and "owner F f i \<Longrightarrow> owner F g i \<Longrightarrow> f = g"
    and "wl_val wl i = Some n \<Longrightarrow>
      (\<exists>f. owner F f i) \<or> i \<in> set (wl_queue wl) \<and> wn_waker n = None \<and> 0 < wn_needed n"
  using assms unfolding nodes_ok_def by blast+

lemma owner_upd:
  "owner (F(f := x)) g i \<longleftrightarrow>
     (if g = f then (\<exists>aq w m. x = Some (aq, w, m) \<and> aq_index aq = Some i) else owner F g i)"
  by (auto simp: owner_def)

text \<open>The prefix of the queue that a distribution grants, and what it leaves of the rest.\<close>

definition trimmed :: "(waiter_id \<times> wait_node) \<Rightarrow> (waiter_id \<times> wait_node) \<Rightarrow> bool" where
  "trimmed x y \<longleftrightarrow> fst y = fst x \<and> wn_waker (snd y) = wn_waker (snd x) \<and>
     wn_needed (snd y) \<le> wn_needed (snd x) \<and> (0 < wn_needed (snd x) \<longrightarrow> 0 < wn_needed (snd y))"

lemma trimmed_refl [simp]: "trimmed x x"
  by (simp add: trimmed_def)

lemma spend_split:
  "spend r k q = (r', g, q') \<Longrightarrow> \<exists>q0. q = g @ q0 \<and> list_all2 trimmed q0 q'"
proof (induction r k q arbitrary: g rule: spend.induct)
  case (2 r k i n q)
  show ?case
  proof (cases "r \<noteq> 0 \<and> k \<noteq> 0 \<and> wn_needed n \<le> r")
    case True
    then obtain g' where "g = (i, n) # g'"
      "spend (r - wn_needed n) (if wn_waker n = None then k else k - 1) q = (r', g', q')"
      using 2(2) by (auto split: prod.splits)
    with 2(1) True show ?thesis by auto
  next
    case False
    with 2(2) show ?thesis
      by (auto simp: trimmed_def list_all2_refl split: if_splits intro!: exI [of _ "(i, n) # q"])
  qed
qed simp

lemma spend_needs:
  "spend r k q = (r', g, q') \<Longrightarrow>
   r + (\<Sum>(i, n)\<leftarrow>q'. wn_needed n) = r' + (\<Sum>(i, n)\<leftarrow>q. wn_needed n)"
proof (induction r k q arbitrary: g rule: spend.induct)
  case (2 r k i n q)
  show ?case
  proof (cases "r \<noteq> 0 \<and> k \<noteq> 0 \<and> wn_needed n \<le> r")
    case True
    then obtain g' where "spend (r - wn_needed n) (if wn_waker n = None then k else k - 1) q = (r', g', q')"
      using 2(2) by (auto split: prod.splits)
    with 2(1) True show ?thesis by fastforce
  next
    case False
    with 2(2) show ?thesis by (auto split: if_splits)
  qed
qed simp

lemma wakers_of_mem: "(i, n) \<in> set g \<Longrightarrow> wn_waker n = Some w \<Longrightarrow> w \<in> set (wakers_of g)"
  by (induction g) (auto split: option.splits)

lemma list_all2_in: "list_all2 R xs ys \<Longrightarrow> x \<in> set xs \<Longrightarrow> \<exists>y\<in>set ys. R x y"
  by (induction rule: list_all2_induct) auto

lemma settle_values:
  assumes inv: "wl_inv wl" "wl_inv wl'" and q: "wl_list wl = g @ q0" and l: "list_all2 trimmed q0 q'"
    and q': "wl_list wl' = q'" and v: "wl_val wl' = settle g q' (wl_val wl)"
  shows "i \<notin> set (wl_queue wl) \<Longrightarrow> wl_val wl' i = wl_val wl i \<and> i \<notin> set (wl_queue wl')"
    and "i \<in> set (wl_queue wl) \<Longrightarrow> wl_val wl i = Some n \<Longrightarrow>
      (i, n) \<in> set g \<and> i \<notin> set (wl_queue wl') \<and>
        wl_val wl' i = (if wn_waker n = None then None else Some \<lparr>wn_needed = 0, wn_waker = None\<rparr>) \<or>
      i \<in> set (wl_queue wl') \<and> (\<exists>m. wl_val wl' i = Some m \<and> trimmed (i, n) (i, m))"
proof -
  have fst: "map fst q' = map fst q0"
    using l by (induction rule: list_all2_induct) (auto simp: trimmed_def)
  have queue: "wl_queue wl = map fst g @ map fst q0" "wl_queue wl' = map fst q0"
    using arg_cong [OF q, of "map fst"] arg_cong [OF q', of "map fst"] fst by simp_all
  have dis: "distinct (map fst g @ map fst q0)"
    using wq.queue_distinct [OF inv(1)] queue by simp
  show "wl_val wl' i = wl_val wl i \<and> i \<notin> set (wl_queue wl')" if "i \<notin> set (wl_queue wl)"
  proof -
    have "map_of g i = None" "map_of q' i = None"
      using that queue fst unfolding map_of_eq_None_iff by (auto simp flip: set_map)
    with that queue show ?thesis by (simp add: v settle_def)
  qed
  assume i: "i \<in> set (wl_queue wl)" "wl_val wl i = Some n"
  then have mem: "map_of (g @ q0) i = Some n"
    using wl_list_map_of [OF inv(1), of i] q by simp
  show "(i, n) \<in> set g \<and> i \<notin> set (wl_queue wl') \<and>
        wl_val wl' i = (if wn_waker n = None then None else Some \<lparr>wn_needed = 0, wn_waker = None\<rparr>) \<or>
      i \<in> set (wl_queue wl') \<and> (\<exists>m. wl_val wl' i = Some m \<and> trimmed (i, n) (i, m))"
  proof (cases "map_of g i")
    case (Some n')
    then have g: "n' = n" "(i, n) \<in> set g"
      using mem by (auto simp: map_add_def dest: map_of_SomeD)
    then have "i \<notin> set (map fst q0)" using dis by force
    with g Some queue show ?thesis by (simp add: v settle_def)
  next
    case None
    then have q0: "map_of q0 i = Some n" using mem by (simp add: map_add_def)
    obtain y where y: "y \<in> set q'" "trimmed (i, n) y"
      using list_all2_in [OF l map_of_SomeD [OF q0]] by blast
    obtain m where m: "y = (i, m)"
      using y(2) unfolding trimmed_def by (metis fst_conv prod.collapse)
    have "distinct (map fst q')" using dis fst by simp
    then have "map_of q' i = Some m" using y m by simp
    moreover have "i \<in> set (wl_queue wl')"
      using map_of_SomeD [OF q0] queue by force
    ultimately show ?thesis using None y m by (simp add: v settle_def)
  qed
qed

text \<open>A distribution keeps the ownership, and wakes exactly the futures it grants.\<close>

lemma nodes_ok_settle:
  assumes ok: "nodes_ok wl F wk" and inv: "wl_inv wl'" and q: "wl_list wl = g @ q0"
    and l: "list_all2 trimmed q0 q'" and q': "wl_list wl' = q'"
    and v: "wl_val wl' = settle g q' (wl_val wl)"
  shows "nodes_ok wl' F (wk @ wakers_of g)"
  unfolding nodes_ok_def
proof (intro conjI allI impI)
  note vals = settle_values [OF nodes_okD(1) [OF ok] inv q l q' v]
  show "wl_inv wl'" by fact
  show "f = h" if "owner F f i" "owner F h i" for f h i using nodes_okD(3) [OF ok that] .
  fix f aq w m i
  assume f: "F f = Some (aq, w, m)" "aq_index aq = Some i"
  then have n: "node_ok wl wk aq w m i" by (rule nodes_okD(2) [OF ok])
  then obtain n where n: "wl_val wl i = Some n" "m \<le> length wk" "wn_needed n \<le> aq_requested aq"
    and c: "if i \<in> set (wl_queue wl) then 0 < wn_needed n \<and> wn_waker n = Some w
            else wn_needed n = 0 \<and> wn_waker n = None \<and> w \<in> set (drop m wk)"
    by (auto simp: node_ok_def)
  show "node_ok wl' (wk @ wakers_of g) aq w m i"
  proof (cases "i \<in> set (wl_queue wl)")
    case True
    from vals(2) [OF True n(1)] show ?thesis
    proof (elim disjE)
      assume "(i, n) \<in> set g \<and> i \<notin> set (wl_queue wl') \<and>
        wl_val wl' i = (if wn_waker n = None then None else Some \<lparr>wn_needed = 0, wn_waker = None\<rparr>)"
      then show ?thesis using True c n(2) wakers_of_mem [of i n g w] by (simp add: node_ok_def)
    next
      assume "i \<in> set (wl_queue wl') \<and> (\<exists>m. wl_val wl' i = Some m \<and> trimmed (i, n) (i, m))"
      then show ?thesis using True c n(2,3) by (auto simp: node_ok_def trimmed_def)
    qed
  next
    case False
    with vals(1) [OF False] n c show ?thesis by (auto simp: node_ok_def)
  qed
next
  fix i n'
  note vals = settle_values [OF nodes_okD(1) [OF ok] inv q l q' v]
  assume v': "wl_val wl' i = Some n'"
  show "(\<exists>f. owner F f i) \<or> i \<in> set (wl_queue wl') \<and> wn_waker n' = None \<and> 0 < wn_needed n'"
  proof (cases "i \<in> set (wl_queue wl)")
    case True
    then obtain n where n: "wl_val wl i = Some n"
      using wq.queue_val [OF nodes_okD(1) [OF ok]] by blast
    from nodes_okD(4) [OF ok n] vals(2) [OF True n] v' show ?thesis
      by (auto simp: trimmed_def split: if_splits)
  next
    case False
    with vals(1) [OF False] v' nodes_okD(4) [OF ok, of i n'] show ?thesis by auto
  qed
qed

lemma owner_val: "nodes_ok wl F wk \<Longrightarrow> owner F f i \<Longrightarrow> \<exists>n. wl_val wl i = Some n"
  unfolding owner_def using nodes_okD(2) [of wl F wk f] by (force simp: node_ok_def)

text \<open>Nodes and ownership seen from the other nodes: nothing changes for them.\<close>

lemma node_ok_other:
  assumes "node_ok wl wk aq w m j" and "wl_val wl' j = wl_val wl j"
    and "j \<in> set (wl_queue wl') \<longleftrightarrow> j \<in> set (wl_queue wl)"
  shows "node_ok wl' wk aq w m j"
  using assms by (simp add: node_ok_def)

lemma nodes_ok_enqueue:
  assumes ok: "nodes_ok wl F wk" and inv: "wl_inv wl'" and i: "wl_val wl i = None"
    and q: "set (wl_queue wl') = insert i (set (wl_queue wl))"
    and v: "wl_val wl' = (wl_val wl)(i \<mapsto> \<lparr>wn_needed = k, wn_waker = Some w\<rparr>)"
    and f: "\<And>i. \<not> owner F f i" and k: "0 < k" "k \<le> aq_requested aq"
  shows "nodes_ok wl' (F(f \<mapsto> (aq\<lparr>aq_index := Some i\<rparr>, w, length wk))) wk"
proof -
  have fresh: "\<not> owner F g i" for g using owner_val [OF ok] i by fastforce
  have ni: "i \<notin> set (wl_queue wl)" using wq.queue_val [OF nodes_okD(1) [OF ok]] i by fastforce
  have other: "node_ok wl' wk a x m j" if "F g = Some (a, x, m)" "aq_index a = Some j" for g a x m j
  proof -
    have "j \<noteq> i" using fresh that by (auto simp: owner_def)
    then show ?thesis
      using node_ok_other [OF nodes_okD(2) [OF ok that]] q v by simp
  qed
  show ?thesis
    unfolding nodes_ok_def
  proof (intro conjI allI impI)
    show "g = h" if "owner (F(f \<mapsto> (aq\<lparr>aq_index := Some i\<rparr>, w, length wk))) g j"
      "owner (F(f \<mapsto> (aq\<lparr>aq_index := Some i\<rparr>, w, length wk))) h j" for g h j
      using that fresh nodes_okD(3) [OF ok] by (auto simp: owner_upd split: if_splits)
    show "(\<exists>g. owner (F(f \<mapsto> (aq\<lparr>aq_index := Some i\<rparr>, w, length wk))) g j) \<or>
        j \<in> set (wl_queue wl') \<and> wn_waker n = None \<and> 0 < wn_needed n"
      if "wl_val wl' j = Some n" for j n
    proof (cases "j = i")
      case True
      then show ?thesis by (auto simp: owner_upd)
    next
      case False
      then have "wl_val wl j = Some n" using that v by simp
      from nodes_okD(4) [OF ok this] show ?thesis
      proof (elim disjE exE)
        fix g
        assume g: "owner F g j"
        then have "g \<noteq> f" using f by auto
        with g show ?thesis by (auto simp: owner_upd)
      qed (use q in simp)
    qed
    show "node_ok wl' wk a x m j"
      if "(F(f \<mapsto> (aq\<lparr>aq_index := Some i\<rparr>, w, length wk))) g = Some (a, x, m)" "aq_index a = Some j"
      for g a x m j
      using that other k q v by (cases "g = f") (auto simp: node_ok_def)
  qed fact
qed

lemma nodes_ok_debt:
  assumes ok: "nodes_ok wl F wk" and inv: "wl_inv wl'" and i: "wl_val wl i = None"
    and q: "set (wl_queue wl') = insert i (set (wl_queue wl))"
    and v: "wl_val wl' = (wl_val wl)(i \<mapsto> \<lparr>wn_needed = k, wn_waker = None\<rparr>)" and k: "0 < k"
  shows "nodes_ok wl' F wk"
  unfolding nodes_ok_def
proof (intro conjI allI impI)
  have fresh: "\<not> owner F g i" for g using owner_val [OF ok] i by fastforce
  show "node_ok wl' wk a x m j" if "F g = Some (a, x, m)" "aq_index a = Some j" for g a x m j
  proof -
    have "j \<noteq> i" using fresh that by (auto simp: owner_def)
    then show ?thesis
      using node_ok_other [OF nodes_okD(2) [OF ok that]] q v by simp
  qed
  show "f = g" if "owner F f i" "owner F g i" for f g i using nodes_okD(3) [OF ok that] .
  show "(\<exists>g. owner F g j) \<or> j \<in> set (wl_queue wl') \<and> wn_waker n = None \<and> 0 < wn_needed n"
    if "wl_val wl' j = Some n" for j n
    using that nodes_okD(4) [OF ok, of j n] q k unfolding v by (auto split: if_splits)
qed fact

lemma nodes_ok_rewake:
  assumes ok: "nodes_ok wl F wk" and inv: "wl_inv wl'" and f: "F f = Some (aq, w0, m0)" "aq_index aq = Some i"
    and n: "wl_val wl i = Some n" "0 < wn_needed n"
    and q: "wl_queue wl' = wl_queue wl" and v: "wl_val wl' = (wl_val wl)(i \<mapsto> n\<lparr>wn_waker := Some w\<rparr>)"
  shows "nodes_ok wl' (F(f \<mapsto> (aq, w, length wk))) wk"
proof -
  have same: "owner (F(f \<mapsto> (aq, w, length wk))) g j \<longleftrightarrow> owner F g j" for g j
    using f by (auto simp: owner_def)
  have own: "owner F f i" using f by (simp add: owner_def)
  have here: "i \<in> set (wl_queue wl)" "wn_needed n \<le> aq_requested aq"
    using nodes_okD(2) [OF ok f] n by (auto simp: node_ok_def split: if_splits)
  show ?thesis
    unfolding nodes_ok_def same
  proof (intro conjI allI impI)
    show "f = g" if "owner F f i" "owner F g i" for f g i using nodes_okD(3) [OF ok that] .
    show "(\<exists>g. owner F g j) \<or> j \<in> set (wl_queue wl') \<and> wn_waker x = None \<and> 0 < wn_needed x"
      if "wl_val wl' j = Some x" for j x
      using that nodes_okD(4) [OF ok, of j x] own unfolding v q by (auto split: if_splits)
    show "node_ok wl' wk a x m j"
      if a: "(F(f \<mapsto> (aq, w, length wk))) g = Some (a, x, m)" "aq_index a = Some j" for g a x m j
    proof (cases "g = f")
      case True
      with a f here n q v show ?thesis by (auto simp: node_ok_def)
    next
      case False
      then have g: "F g = Some (a, x, m)" using a(1) by simp
      then have "j \<noteq> i" using False own nodes_okD(3) [OF ok own, of g] a(2) by (auto simp: owner_def)
      then show ?thesis using node_ok_other [OF nodes_okD(2) [OF ok g a(2)]] q v by simp
    qed
  qed fact
qed

lemma nodes_ok_remove:
  assumes ok: "nodes_ok wl F wk" and inv: "wl_inv wl'" and f: "owner F f i"
    and q: "wl_queue wl' = removeAll i (wl_queue wl)" and v: "wl_val wl' = (wl_val wl)(i := None)"
  shows "nodes_ok wl' (F(f := None)) wk"
proof -
  have other: "j \<noteq> i" if "owner F g j" "g \<noteq> f" for g j
    using nodes_okD(3) [OF ok f, of g] that by auto
  show ?thesis
    unfolding nodes_ok_def
  proof (intro conjI allI impI)
    show "g = h" if "owner (F(f := None)) g j" "owner (F(f := None)) h j" for g h j
      using that nodes_okD(3) [OF ok] by (auto simp: owner_upd split: if_splits)
    show "(\<exists>g. owner (F(f := None)) g j) \<or> j \<in> set (wl_queue wl') \<and> wn_waker x = None \<and> 0 < wn_needed x"
      if h: "wl_val wl' j = Some x" for j x
    proof -
      have "j \<noteq> i" "wl_val wl j = Some x" using h v by (auto split: if_splits)
      moreover have "\<not> owner F f j" using f \<open>j \<noteq> i\<close> by (auto simp: owner_def)
      ultimately show ?thesis
        using nodes_okD(4) [OF ok, of j x] q by (auto simp: owner_upd)
    qed
    show "node_ok wl' wk a x m j" if a: "(F(f := None)) g = Some (a, x, m)" "aq_index a = Some j"
      for g a x m j
    proof -
      have g: "F g = Some (a, x, m)" "g \<noteq> f" using a by (auto split: if_splits)
      moreover from g(1) a(2) have "owner F g j" by (auto simp: owner_def)
      ultimately have "j \<noteq> i" using other by blast
      then show ?thesis using node_ok_other [OF nodes_okD(2) [OF ok g(1) a(2)]] q v by simp
    qed
  qed fact
qed

lemma nodes_ok_bare:
  assumes ok: "nodes_ok wl F wk" and "\<And>i. \<not> owner F f i"
    and "x = None \<or> (\<exists>aq w m. x = Some (aq, w, m) \<and> aq_index aq = None)"
  shows "nodes_ok wl (F(f := x)) wk"
proof -
  have same: "owner (F(f := x)) g j \<longleftrightarrow> owner F g j" for g j
    using assms(2,3) by (auto simp: owner_upd)
  show ?thesis
    using ok assms(3) unfolding nodes_ok_def same by (auto split: if_splits)
qed

section \<open>What the queue still needs\<close>

lemma queue_needs_sum:
  "wl_inv wl \<Longrightarrow> queue_needs wl = (\<Sum>i\<in>set (wl_queue wl). wn_needed (the (wl_val wl i)))"
  by (simp add: queue_needs_def wl_list_def comp_def sum_list_distinct_conv_sum_set wq.queue_distinct)

lemma queue_needs_insert:
  assumes "wl_inv wl" "wl_inv wl'" and "wl_val wl i = None"
    and "set (wl_queue wl') = insert i (set (wl_queue wl))" and "wl_val wl' = (wl_val wl)(i \<mapsto> n)"
  shows "queue_needs wl' = queue_needs wl + wn_needed n"
proof -
  have ni: "i \<notin> set (wl_queue wl)" using wq.queue_val [OF assms(1)] assms(3) by fastforce
  then have "(\<Sum>j\<in>set (wl_queue wl). wn_needed (the (wl_val wl' j))) =
      (\<Sum>j\<in>set (wl_queue wl). wn_needed (the (wl_val wl j)))"
    using assms(5) by (intro sum.cong) auto
  with ni show ?thesis using assms by (simp add: queue_needs_sum)
qed

lemma queue_needs_update:
  assumes "wl_inv wl" "wl_inv wl'" and "wl_val wl i = Some n" and "wl_queue wl' = wl_queue wl"
    and "wl_val wl' = (wl_val wl)(i \<mapsto> n')" and "wn_needed n' = wn_needed n"
  shows "queue_needs wl' = queue_needs wl"
  unfolding queue_needs_sum [OF assms(1)] queue_needs_sum [OF assms(2)] using assms
  by (intro sum.cong) auto

lemma queue_needs_remove:
  assumes "wl_inv wl" "wl_inv wl'" and "wl_val wl i = Some n" and "wl_queue wl' = removeAll i (wl_queue wl)"
    and "wl_val wl' = (wl_val wl)(i := None)"
  shows "queue_needs wl' + (if i \<in> set (wl_queue wl) then wn_needed n else 0) = queue_needs wl"
proof -
  have "queue_needs wl' = (\<Sum>j\<in>set (wl_queue wl) - {i}. wn_needed (the (wl_val wl j)))"
    unfolding queue_needs_sum [OF assms(2)] using assms by (intro sum.cong) auto
  then show ?thesis
    using assms by (auto simp: queue_needs_sum sum.remove [of "set (wl_queue wl)" i])
qed

section \<open>The operations on the queue\<close>

lemma enqueue_waiter_cases:
  assumes "wl_inv (sem_waiters sem)" and "enqueue_waiter sem k index waker lst = Some (r, index', sem')"
  obtains i wl where "\<not> r" and "index' = map_option (\<lambda>_. Some i) index" and "sem' = sem\<lparr>sem_waiters := wl\<rparr>"
    and "wl_inv wl" and "wl_val (sem_waiters sem) i = None"
    and "wl_val wl = (wl_val (sem_waiters sem))(i \<mapsto> \<lparr>wn_needed = k, wn_waker = waker\<rparr>)"
    and "wl_queue wl = (if lst then wl_queue (sem_waiters sem) @ [i] else i # wl_queue (sem_waiters sem))"
proof -
  let ?n = "\<lparr>wn_needed = k, wn_waker = waker\<rparr>"
  obtain i wl where p: "(if lst then push_back (sem_waiters sem) ?n else push_front (sem_waiters sem) ?n) = Some (i, wl)"
    and r: "\<not> r" "index' = map_option (\<lambda>_. Some i) index" "sem' = sem\<lparr>sem_waiters := wl\<rparr>"
    using assms(2) by (cases index) (auto simp: enqueue_waiter_def panic_simps Let_def)
  show thesis
    using that [OF r] p wq.push_law [OF assms(1), of ?n i wl] wq.push_first_law [OF assms(1), of ?n i wl]
    by (cases lst) auto
qed

text \<open>A poll has four outcomes: taken at once, enqueued, still waiting, granted before.\<close>

lemma poll_once_cases:
  assumes inv: "wl_inv (sem_waiters sem)" and p: "poll_once sem aq w = Some (res, aq', sem')"
  obtains
    (taken) "aq_index aq = None" "aq_requested aq \<le> sem_available sem" "res = Ready ()"
      "sem' = sem\<lparr>sem_available := sem_available sem - aq_requested aq\<rparr>" "aq' = aq\<lparr>aq_index := None\<rparr>"
  | (enqueued) i wl where "aq_index aq = None" "sem_available sem < aq_requested aq" "res = Pending"
      "aq' = aq\<lparr>aq_index := Some i\<rparr>" "sem' = sem\<lparr>sem_available := 0, sem_waiters := wl\<rparr>" "wl_inv wl"
      "wl_val (sem_waiters sem) i = None"
      "wl_val wl = (wl_val (sem_waiters sem))
         (i \<mapsto> \<lparr>wn_needed = aq_requested aq - sem_available sem, wn_waker = Some w\<rparr>)"
      "wl_queue wl = wl_queue (sem_waiters sem) @ [i]"
  | (waiting) i n wl where "aq_index aq = Some i" "wl_val (sem_waiters sem) i = Some n" "0 < wn_needed n"
      "res = Pending" "aq' = aq" "sem' = sem\<lparr>sem_waiters := wl\<rparr>" "wl_inv wl"
      "wl_queue wl = wl_queue (sem_waiters sem)"
      "wl_val wl = (wl_val (sem_waiters sem))(i \<mapsto> n\<lparr>wn_waker := Some w\<rparr>)"
  | (granted) i n wl where "aq_index aq = Some i" "wl_val (sem_waiters sem) i = Some n" "wn_needed n = 0"
      "res = Ready ()" "sem' = sem\<lparr>sem_waiters := wl\<rparr>" "wl_inv wl" "i \<notin> set (wl_queue (sem_waiters sem))"
      "wl_queue wl = wl_queue (sem_waiters sem)" "wl_val wl = (wl_val (sem_waiters sem))(i := None)"
      "aq' = aq\<lparr>aq_index := None\<rparr>"
proof (cases "aq_index aq")
  case None
  show thesis
  proof (cases "aq_requested aq \<le> sem_available sem")
    case True
    with p None show thesis
      by (intro taken) (auto simp: poll_once_def acquired_or_enqueue_eq panic_simps)
  next
    case False
    then obtain r index where e: "enqueue_waiter (sem\<lparr>sem_available := 0\<rparr>)
        (aq_requested aq - sem_available sem) (Some None) (Some w) True = Some (r, index, sem')"
      and i: "(\<exists>i. index = Some i \<and> res = (if r then Ready () else Pending) \<and> aq' = aq\<lparr>aq_index := i\<rparr>)"
      using p None by (auto simp: poll_once_def acquired_or_enqueue_eq panic_simps)
    show thesis
      by (rule enqueue_waiter_cases [OF _ e]) (use inv i None False in \<open>auto intro!: enqueued\<close>)
  qed
next
  case (Some i)
  then obtain n where n: "wl_val (sem_waiters sem) i = Some n"
    using p by (auto simp: poll_once_def waiter_mut_eq panic_simps)
  show thesis
  proof (cases "0 < wn_needed n")
    case True
    obtain wl where "set_waiter (sem_waiters sem) i (n\<lparr>wn_waker := Some w\<rparr>) = Some wl" "wl_inv wl"
      "wl_queue wl = wl_queue (sem_waiters sem)"
      "wl_val wl = (wl_val (sem_waiters sem))(i \<mapsto> n\<lparr>wn_waker := Some w\<rparr>)"
      using wq.setv_law [OF inv n] by blast
    moreover obtain old where "register_waker (wn_waker n) w = (old, Some w)"
      using register_waker_slot [of "wn_waker n" w] by (metis prod.collapse)
    ultimately show thesis
      using p Some n True
      by (intro waiting [of i n wl]) (auto simp: poll_once_def waiter_mut_eq panic_simps)
  next
    case False
    then obtain n' wl where r: "remove_unlinked_waiter (sem_waiters sem) i = Some (n', wl)"
      and q: "res = Ready ()" "sem' = sem\<lparr>sem_waiters := wl\<rparr>" "aq' = aq\<lparr>aq_index := None\<rparr>"
      using p Some n by (auto simp: poll_once_def waiter_mut_eq panic_simps)
    have ni: "i \<notin> set (wl_queue (sem_waiters sem))"
      using wq.remove_invalid [OF inv, of i] r by auto
    from wq.remove_law [OF inv n ni] r q Some n False ni show thesis
      by (intro granted [of i n wl]) auto
  qed
qed

lemma acquire_detach_cases:
  assumes inv: "wl_inv (sem_waiters sem)" and d: "acquire_detach sem aq i = Some (acquired, sem')"
  obtains n wl where "wl_val (sem_waiters sem) i = Some n" and "wn_needed n \<le> aq_requested aq"
    and "acquired = aq_requested aq - wn_needed n" and "sem' = sem\<lparr>sem_waiters := wl\<rparr>" and "wl_inv wl"
    and "wl_queue wl = removeAll i (wl_queue (sem_waiters sem))"
    and "wl_val wl = (wl_val (sem_waiters sem))(i := None)"
proof -
  let ?p = "surrender (aq_requested aq)"
  obtain n r wl1 n' wl where h: "wl_val (sem_waiters sem) i = Some n" "wn_needed n \<le> aq_requested aq"
    "unlink_waiter (sem_waiters sem) i ?p 0 = Some (r, acquired, wl1)"
    "remove_unlinked_waiter wl1 i = Some (n', wl)" "sem' = sem\<lparr>sem_waiters := wl\<rparr>"
    using d by (auto simp: acquire_detach_def waiter_mut_eq panic_simps)
  have "?p 0 n = (True, n\<lparr>wn_needed := 0\<rparr>, aq_requested aq - wn_needed n)" by (simp add: surrender_def)
  from wq.unlink_law [where p = ?p and c = 0, OF inv h(1) this] h(3)
  have u: "acquired = aq_requested aq - wn_needed n" "wl_inv wl1"
    "wl_val wl1 = (wl_val (sem_waiters sem))(i \<mapsto> n\<lparr>wn_needed := 0\<rparr>)"
    "wl_queue wl1 = removeAll i (wl_queue (sem_waiters sem))" by auto
  have "wl_val wl1 i = Some (n\<lparr>wn_needed := 0\<rparr>)" "i \<notin> set (wl_queue wl1)" using u by auto
  from wq.remove_law [OF u(2) this] h(4) u that [OF h(1,2) u(1) h(5)] show thesis by auto
qed

text \<open>One lock acquisition of a distribution keeps the books.\<close>

lemma round_ok:
  assumes ok: "nodes_ok (sem_waiters sem) F wk" and d: "distribute_round sem r = Some (woken, rem, sem')"
    and b: "r \<le> usize_max"
  shows "nodes_ok (sem_waiters sem') F (wk @ woken)"
    and "sem_available sem + r + queue_needs (sem_waiters sem') =
         sem_available sem' + rem + queue_needs (sem_waiters sem)"
    and "wl_queue (sem_waiters sem') \<noteq> [] \<Longrightarrow>
         sem_available sem' = sem_available sem \<and> wl_queue (sem_waiters sem) \<noteq> []"
    and "rem \<le> usize_max"
proof -
  obtain r' g q' where sp: "spend r stack_size (wl_list (sem_waiters sem)) = (r', g, q')"
    and w: "woken = wakers_of g" "rem = (if q' = [] then 0 else r')"
    and s': "wl_inv (sem_waiters sem')" "wl_list (sem_waiters sem') = q'"
      "wl_val (sem_waiters sem') = settle g q' (wl_val (sem_waiters sem))"
      "sem_available sem' = sem_available sem + (if q' = [] then r' else 0)"
    by (rule distribute_round_cases [OF nodes_okD(1) [OF ok] d b])
  obtain q0 where "wl_list (sem_waiters sem) = g @ q0" "list_all2 trimmed q0 q'"
    using spend_split [OF sp] by blast
  then show "nodes_ok (sem_waiters sem') F (wk @ woken)"
    unfolding w(1) using nodes_ok_settle [OF ok s'(1)] s'(2,3) by blast
  show "sem_available sem + r + queue_needs (sem_waiters sem') =
         sem_available sem' + rem + queue_needs (sem_waiters sem)"
    using spend_needs [OF sp] s'(2,4) w(2) by (simp add: queue_needs_def)
  show "rem \<le> usize_max" using w(2) spend_le [OF sp] b by simp
  assume "wl_queue (sem_waiters sem') \<noteq> []"
  then have "q' \<noteq> []" using s'(2) wl_list_Nil_iff by metis
  moreover have "map fst (wl_list (sem_waiters sem)) = map fst g @ map fst q'" by (rule spend_fst [OF sp])
  ultimately show "sem_available sem' = sem_available sem \<and> wl_queue (sem_waiters sem) \<noteq> []"
    using s'(4) by auto
qed

text \<open>A thread's round within the whole system, once the permits it hands out are accounted for.\<close>

lemma after_round_inv:
  assumes ok: "nodes_ok (sem_waiters sem) (ss_futs s) (ss_woken s)"
    and z: "wl_queue (sem_waiters sem) \<noteq> [] \<Longrightarrow> sem_available sem = 0"
    and c: "conserved (s\<lparr>ss_sem := sem, ss_dist := (ss_dist s)(t \<mapsto> r)\<rparr>)"
    and d: "distribute_round sem r = Some (woken, rem, sem')"
  shows "sem_inv (after_round t woken rem sem' s)"
proof -
  have fin: "finite (dom (ss_dist s))"
    and "\<forall>u n. ((ss_dist s)(t \<mapsto> r)) u = Some n \<longrightarrow> n \<le> usize_max"
    using c by (simp_all add: conserved_def del: fun_upd_apply)
  then have b: "r \<le> usize_max" by (metis fun_upd_same)
  let ?D = "(ss_dist s)(t := None)"
  have D: "msum (\<lambda>n. n) ((ss_dist s)(t := if rem = 0 then None else Some rem)) = msum (\<lambda>n. n) ?D + rem"
    "msum (\<lambda>n. n) ((ss_dist s)(t \<mapsto> r)) = msum (\<lambda>n. n) ?D + r"
    using fin msum_insert [of ?D t "\<lambda>n. n" rem] msum_insert [of ?D t "\<lambda>n. n" r] by auto
  have "conserved (after_round t woken rem sem' s)"
    using c round_ok(2,4) [OF ok d b] D
    by (auto simp: conserved_def after_round_def split: if_splits)
  then show ?thesis
    using round_ok(1,3) [OF ok d b] z by (auto simp: sem_inv_def after_round_def)
qed

section \<open>Every step keeps the invariant\<close>

lemma reserved_simps [simp]:
  "reserved (aq, w, m) = (if aq_index aq = None then 0 else aq_requested aq)"
  by (simp add: reserved_def)

lemma conserved_futs:
  assumes "conserved s" and "ss_futs s f = Some (aq, w, m)"
  shows "msum reserved ((ss_futs s)(f := None)) + reserved (aq, w, m) = msum reserved (ss_futs s)"
    and "msum reserved ((ss_futs s)(f \<mapsto> x)) + reserved (aq, w, m) = msum reserved (ss_futs s) + reserved x"
    and "aq_requested aq \<le> usize_max"
  using assms msum_delete [of "ss_futs s" f _ reserved] msum_update [of "ss_futs s" f _ reserved x]
  by (auto simp: conserved_def)

lemma sem_poll_inv:
  assumes inv: "sem_inv s" and f: "ss_futs s f = Some (aq, w0, m0)"
    and p: "poll_once (ss_sem s) aq w = Some (res, aq', sem)"
  shows "res = Pending \<Longrightarrow>
      sem_inv (s\<lparr>ss_sem := sem, ss_futs := (ss_futs s)(f \<mapsto> (aq', w, length (ss_woken s)))\<rparr>)"
    and "res = Ready () \<Longrightarrow>
      sem_inv (s\<lparr>ss_sem := sem, ss_futs := (ss_futs s)(f \<mapsto> (aq', w, length (ss_woken s))),
        ss_acquired := ss_acquired s + aq_requested aq\<rparr>)"
proof -
  have ok: "nodes_ok (ss_waiters s) (ss_futs s) (ss_woken s)" and c: "conserved s"
    and z: "wl_queue (ss_waiters s) \<noteq> [] \<Longrightarrow> sem_available (ss_sem s) = 0"
    using inv by (auto simp: sem_inv_def)
  note wi = nodes_okD(1) [OF ok] and cf = conserved_futs [OF c f]
  have own: "owner (ss_futs s) f i \<longleftrightarrow> aq_index aq = Some i" for i using f by (auto simp: owner_def)
  show "sem_inv (s\<lparr>ss_sem := sem, ss_futs := (ss_futs s)(f \<mapsto> (aq', w, length (ss_woken s)))\<rparr>)"
    if "res = Pending"
    using wi p
  proof (cases rule: poll_once_cases)
    case (enqueued i wl)
    have "nodes_ok wl ((ss_futs s)(f \<mapsto> (aq\<lparr>aq_index := Some i\<rparr>, w, length (ss_woken s)))) (ss_woken s)"
      using enqueued by (intro nodes_ok_enqueue [OF ok]) (auto simp: own)
    moreover have "queue_needs wl = queue_needs (ss_waiters s) + (aq_requested aq - sem_available (ss_sem s))"
      using queue_needs_insert [OF wi enqueued(6,7) _ enqueued(8)] enqueued(9) by simp
    ultimately show ?thesis
      using enqueued(1-5) c cf(2) [of "(aq', w, length (ss_woken s))"] cf(3)
      by (auto simp: sem_inv_def conserved_def)
  next
    case (waiting i n wl)
    have "nodes_ok wl ((ss_futs s)(f \<mapsto> (aq, w, length (ss_woken s)))) (ss_woken s)"
      using waiting by (intro nodes_ok_rewake [OF ok _ f]) auto
    moreover have "queue_needs wl = queue_needs (ss_waiters s)"
      using queue_needs_update [OF wi waiting(7,2,8,9)] by simp
    ultimately show ?thesis
      using waiting(1,5,6,8) c z cf(2) [of "(aq', w, length (ss_woken s))"] cf(3)
      by (auto simp: sem_inv_def conserved_def)
  qed (use that in auto)
  show "sem_inv (s\<lparr>ss_sem := sem, ss_futs := (ss_futs s)(f \<mapsto> (aq', w, length (ss_woken s))),
        ss_acquired := ss_acquired s + aq_requested aq\<rparr>)" if "res = Ready ()"
    using wi p
  proof (cases rule: poll_once_cases)
    case taken
    have "nodes_ok (ss_waiters s) ((ss_futs s)(f \<mapsto> (aq', w, length (ss_woken s)))) (ss_woken s)"
      using taken by (intro nodes_ok_bare [OF ok]) (auto simp: own)
    then show ?thesis
      using taken c z cf(2) [of "(aq', w, length (ss_woken s))"] cf(3) by (auto simp: sem_inv_def conserved_def)
  next
    case (granted i n wl)
    have "nodes_ok wl ((ss_futs s)(f := None)) (ss_woken s)"
      using granted by (intro nodes_ok_remove [OF ok]) (auto simp: own)
    from nodes_ok_bare [OF this, of f "Some (aq', w, length (ss_woken s))"] granted
    have "nodes_ok wl ((ss_futs s)(f \<mapsto> (aq', w, length (ss_woken s)))) (ss_woken s)"
      by (simp add: owner_upd)
    moreover have "queue_needs wl = queue_needs (ss_waiters s)"
      using queue_needs_remove [OF wi granted(6,2)] granted by auto
    ultimately show ?thesis
      using granted c z cf(2) [of "(aq', w, length (ss_woken s))"] cf(3) by (auto simp: sem_inv_def conserved_def)
  qed (use that in auto)
qed

lemma sem_detach_inv:
  assumes inv: "sem_inv s" and f: "ss_futs s f = Some (aq, w0, m0)" "aq_index aq = Some i"
    and d: "acquire_detach (ss_sem s) aq i = Some (acquired, sem)"
  shows "nodes_ok (sem_waiters sem) ((ss_futs s)(f := None)) (ss_woken s)"
    and "wl_queue (sem_waiters sem) \<noteq> [] \<Longrightarrow> sem_available sem = 0"
    and "ss_dist s t = None \<Longrightarrow>
      conserved (s\<lparr>ss_futs := (ss_futs s)(f := None), ss_sem := sem, ss_dist := (ss_dist s)(t \<mapsto> acquired)\<rparr>)"
    and "acquired = 0 \<Longrightarrow> conserved (s\<lparr>ss_sem := sem, ss_futs := (ss_futs s)(f := None)\<rparr>)"
proof -
  have ok: "nodes_ok (ss_waiters s) (ss_futs s) (ss_woken s)" and c: "conserved s"
    and z: "wl_queue (ss_waiters s) \<noteq> [] \<Longrightarrow> sem_available (ss_sem s) = 0"
    using inv by (auto simp: sem_inv_def)
  note wi = nodes_okD(1) [OF ok] and cf = conserved_futs [OF c f(1)]
  obtain n wl where h: "wl_val (ss_waiters s) i = Some n" "wn_needed n \<le> aq_requested aq"
    "acquired = aq_requested aq - wn_needed n" "sem = (ss_sem s)\<lparr>sem_waiters := wl\<rparr>" "wl_inv wl"
    "wl_queue wl = removeAll i (wl_queue (ss_waiters s))" "wl_val wl = (wl_val (ss_waiters s))(i := None)"
    by (rule acquire_detach_cases [OF wi d])
  have own: "owner (ss_futs s) f i" using f by (auto simp: owner_def)
  show "nodes_ok (sem_waiters sem) ((ss_futs s)(f := None)) (ss_woken s)"
    using nodes_ok_remove [OF ok h(5) own h(6,7)] h(4) by simp
  show "sem_available sem = 0" if "wl_queue (sem_waiters sem) \<noteq> []"
    using that z h(4,6) by (cases "wl_queue (ss_waiters s)") auto
  have "node_ok (ss_waiters s) (ss_woken s) aq w0 m0 i" by (rule nodes_okD(2) [OF ok f])
  then have "i \<notin> set (wl_queue (ss_waiters s)) \<Longrightarrow> wn_needed n = 0"
    using h(1) by (auto simp: node_ok_def)
  then have q: "queue_needs wl + wn_needed n = queue_needs (ss_waiters s)"
    using queue_needs_remove [OF wi h(5,1,6,7)] by (auto split: if_splits)
  show "conserved (s\<lparr>ss_futs := (ss_futs s)(f := None), ss_sem := sem, ss_dist := (ss_dist s)(t \<mapsto> acquired)\<rparr>)"
    if "ss_dist s t = None"
    using c cf(1,3) q h(2-4) f(2) that by (auto simp: conserved_def msum_insert)
  show "conserved (s\<lparr>ss_sem := sem, ss_futs := (ss_futs s)(f := None)\<rparr>)" if "acquired = 0"
    using c cf(1) q h(2-4) f(2) that by (auto simp: conserved_def)
qed

lemma sem_release_fast_cases:
  assumes "sem_release_fast sem n = Some (Some sem')"
  shows "sem_available sem \<noteq> 0" and "sem' = sem\<lparr>sem_available := sem_available sem + n\<rparr>"
  using assms
  by (auto simp: sem_release_fast_def Let_def try_update_permits_def panic_simps compare_exchange_def
      split: if_splits option.splits result.splits prod.splits)

lemma sem_reduce_inv:
  assumes inv: "sem_inv s" and r: "reduce_permits (ss_sem s) n = Some sem"
  shows "sem_inv (s\<lparr>ss_sem := sem, ss_reduced := ss_reduced s + n\<rparr>)"
proof -
  have ok: "nodes_ok (ss_waiters s) (ss_futs s) (ss_woken s)" and c: "conserved s"
    and z: "wl_queue (ss_waiters s) \<noteq> [] \<Longrightarrow> sem_available (ss_sem s) = 0"
    using inv by (auto simp: sem_inv_def)
  note wi = nodes_okD(1) [OF ok]
  show ?thesis
  proof (cases "n \<le> sem_available (ss_sem s)")
    case True
    then have "sem = (ss_sem s)\<lparr>sem_available := sem_available (ss_sem s) - n\<rparr>"
      using r by (auto simp: reduce_permits_def acquired_or_enqueue_eq)
    then show ?thesis using True ok c z by (auto simp: sem_inv_def conserved_def)
  next
    case False
    then obtain x y where e: "enqueue_waiter ((ss_sem s)\<lparr>sem_available := 0\<rparr>)
        (n - sem_available (ss_sem s)) None None False = Some (x, y, sem)"
      using r by (auto simp: reduce_permits_def acquired_or_enqueue_eq panic_simps)
    show ?thesis
    proof (rule enqueue_waiter_cases [OF _ e])
      fix i wl
      assume h: "sem = (ss_sem s)\<lparr>sem_available := 0\<rparr>\<lparr>sem_waiters := wl\<rparr>" "wl_inv wl"
        "wl_val (sem_waiters ((ss_sem s)\<lparr>sem_available := 0\<rparr>)) i = None"
        "wl_val wl = (wl_val (sem_waiters ((ss_sem s)\<lparr>sem_available := 0\<rparr>)))
           (i \<mapsto> \<lparr>wn_needed = n - sem_available (ss_sem s), wn_waker = None\<rparr>)"
        "wl_queue wl = (if False then wl_queue (sem_waiters ((ss_sem s)\<lparr>sem_available := 0\<rparr>)) @ [i]
           else i # wl_queue (sem_waiters ((ss_sem s)\<lparr>sem_available := 0\<rparr>)))"
      then have "nodes_ok wl (ss_futs s) (ss_woken s)"
        using False by (intro nodes_ok_debt [OF ok]) auto
      moreover have "queue_needs wl = queue_needs (ss_waiters s) + (n - sem_available (ss_sem s))"
        using queue_needs_insert [OF wi h(2), of i] h(3-5) by simp
      ultimately show ?thesis using h(1) c False by (auto simp: sem_inv_def conserved_def)
    qed (use wi in simp)
  qed
qed

lemma sem_notify_inv:
  assumes inv: "sem_inv s" and r: "sem_notify_all (ss_sem s) = Some (woken, sem)"
  shows "sem_inv (s\<lparr>ss_sem := sem, ss_woken := ss_woken s @ woken,
      ss_gifted := ss_gifted s + queue_needs (ss_waiters s)\<rparr>)"
proof -
  have ok: "nodes_ok (ss_waiters s) (ss_futs s) (ss_woken s)" and c: "conserved s"
    using inv by (auto simp: sem_inv_def)
  obtain wl where h: "sem_notify_all (ss_sem s) = Some (wakers_of (wl_list (ss_waiters s)), (ss_sem s)\<lparr>sem_waiters := wl\<rparr>)"
    "wl_inv wl" "wl_list wl = []" "wl_val wl = settle (wl_list (ss_waiters s)) [] (wl_val (ss_waiters s))"
    by (rule sem_notify_all_spec [OF nodes_okD(1) [OF ok]])
  have "nodes_ok wl (ss_futs s) (ss_woken s @ wakers_of (wl_list (ss_waiters s)))"
    by (rule nodes_ok_settle [OF ok h(2) _ _ h(3,4), of "[]"]) simp_all
  moreover have "wl_queue wl = []" "queue_needs wl = 0" using h(3) unfolding queue_needs_def by (metis wl_list_Nil_iff, simp only: list.map sum_list.Nil)
  ultimately show ?thesis using h(1) r c by (auto simp: sem_inv_def conserved_def)
qed

lemma sem_step_inv: "sem_step s s' \<Longrightarrow> sem_inv s \<Longrightarrow> sem_inv s'"
proof (induction rule: sem_step.induct)
  case (try_acquire s n sem)
  then show ?case
    by (auto simp: try_acquire_eq sem_inv_def conserved_def split: if_splits)
next
  case (drain k s n m sem)
  then show ?case by (auto simp: drain_permits_eq sem_inv_def conserved_def)
next
  case (acquire s f n)
  then have "nodes_ok (ss_waiters s) ((ss_futs s)(f \<mapsto> (sem_acquire n, 0, 0))) (ss_woken s)"
    by (intro nodes_ok_bare) (auto simp: sem_inv_def owner_def sem_acquire_def)
  with acquire show ?case
    by (auto simp: sem_inv_def conserved_def msum_insert sem_acquire_def)
next
  case (drop_bare s f aq w0 m0)
  then have "nodes_ok (ss_waiters s) ((ss_futs s)(f := None)) (ss_woken s)"
    by (intro nodes_ok_bare) (auto simp: sem_inv_def owner_def)
  with drop_bare conserved_futs(1) [of s f aq w0 m0] show ?case
    by (auto simp: sem_inv_def conserved_def)
next
  case (drop_empty s f aq w0 m0 i sem)
  with sem_detach_inv(1,2,4) [OF drop_empty(4,1,2,3)] show ?case by (simp add: sem_inv_def)
next
  case (drop_assigned s f aq w0 m0 i acquired sem t woken remaining sem')
  note d = sem_detach_inv [OF drop_assigned(7,1,2,3)]
  show ?case
    using d(1,2) d(3) [OF drop_assigned(5)] drop_assigned(6) by (intro after_round_inv) simp_all
next
  case (release_fast n s sem)
  then show ?case
    using sem_release_fast_cases [OF release_fast(3)] by (auto simp: sem_inv_def conserved_def)
next
  case (release_slow n s t woken remaining sem)
  then show ?case
    by (intro after_round_inv) (auto simp: sem_inv_def conserved_def msum_insert)
next
  case (round s t n woken remaining sem)
  then have "s\<lparr>ss_sem := ss_sem s, ss_dist := (ss_dist s)(t \<mapsto> n)\<rparr> = s"
    by (simp add: fun_upd_idem)
  with round show ?case by (intro after_round_inv) (simp_all add: sem_inv_def)
qed (simp_all add: sem_poll_inv sem_reduce_inv sem_notify_inv)

lemma sem_reach_inv: "sem_step\<^sup>*\<^sup>* (sem_init n) s \<Longrightarrow> sem_inv s"
  by (induction rule: rtranclp_induct) (auto intro: sem_init_inv sem_step_inv)

section \<open>No call panics\<close>

lemma sem_poll_total:
  assumes inv: "sem_inv s" and f: "ss_futs s f = Some (aq, w0, m0)" and "wl_room (ss_waiters s)"
  shows "\<exists>x. poll_once (ss_sem s) aq w = Some x"
proof (cases "aq_index aq")
  case None
  obtain i wl where "push_back (ss_waiters s)
      \<lparr>wn_needed = aq_requested aq - sem_available (ss_sem s), wn_waker = Some w\<rparr> = Some (i, wl)"
    using wq.push_total [OF _ assms(3)] nodes_okD(1) inv by (meson sem_inv_def)
  with None show ?thesis
    by (simp add: poll_once_def acquired_or_enqueue_eq enqueue_waiter_def)
next
  case (Some i)
  have ok: "nodes_ok (ss_waiters s) (ss_futs s) (ss_woken s)" using inv by (simp add: sem_inv_def)
  then obtain n where n: "wl_val (ss_waiters s) i = Some n"
    "if i \<in> set (wl_queue (ss_waiters s)) then 0 < wn_needed n else wn_needed n = 0"
    using nodes_okD(2) [OF ok f Some] by (auto simp: node_ok_def split: if_splits)
  obtain old where r: "register_waker (wn_waker n) w = (old, Some w)"
    using register_waker_slot [of "wn_waker n" w] by (metis prod.collapse)
  show ?thesis
  proof (cases "0 < wn_needed n")
    case True
    obtain wl where "set_waiter (ss_waiters s) i (n\<lparr>wn_waker := Some w\<rparr>) = Some wl"
      using wq.setv_law [OF nodes_okD(1) [OF ok] n(1)] by blast
    with True Some n r show ?thesis by (simp add: poll_once_def waiter_mut_eq)
  next
    case False
    then obtain wl where "remove_unlinked_waiter (ss_waiters s) i = Some (n, wl)"
      using wq.remove_law [OF nodes_okD(1) [OF ok] n(1)] n(2) by (auto split: if_splits)
    with False Some n show ?thesis by (simp add: poll_once_def waiter_mut_eq)
  qed
qed

lemma sem_detach_total:
  assumes inv: "sem_inv s" and f: "ss_futs s f = Some (aq, w0, m0)" "aq_index aq = Some i"
  shows "\<exists>x. acquire_detach (ss_sem s) aq i = Some x"
proof -
  have ok: "nodes_ok (ss_waiters s) (ss_futs s) (ss_woken s)" using inv by (simp add: sem_inv_def)
  obtain n where n: "wl_val (ss_waiters s) i = Some n" "wn_needed n \<le> aq_requested aq"
    using nodes_okD(2) [OF ok f] by (auto simp: node_ok_def)
  let ?p = "surrender (aq_requested aq)"
  have "?p 0 n = (True, n\<lparr>wn_needed := 0\<rparr>, aq_requested aq - wn_needed n)" by (simp add: surrender_def)
  then obtain wl where u: "unlink_waiter (ss_waiters s) i ?p 0 =
      Some (Some (n\<lparr>wn_needed := 0\<rparr>), aq_requested aq - wn_needed n, wl)"
    "wl_inv wl" "wl_val wl = (wl_val (ss_waiters s))(i \<mapsto> n\<lparr>wn_needed := 0\<rparr>)"
    "wl_queue wl = removeAll i (wl_queue (ss_waiters s))"
    using wq.unlink_law [where p = ?p and c = 0, OF nodes_okD(1) [OF ok] n(1)] by fastforce
  have "wl_val wl i = Some (n\<lparr>wn_needed := 0\<rparr>)" "i \<notin> set (wl_queue wl)" using u by auto
  from wq.remove_law [OF u(2) this] n u(1) show ?thesis
    by (auto simp: acquire_detach_def waiter_mut_eq)
qed

text \<open>
  Dropping a future redistributes what it had been assigned; the counter overflows only when
  nobody waits, since no permit is available while somebody does.
\<close>

lemma sem_drop_panic_iff:
  assumes inv: "sem_inv s" and f: "ss_futs s f = Some (aq, w0, m0)"
  shows "acquire_drop (ss_sem s) aq = None \<longleftrightarrow>
    aq_index aq \<noteq> None \<and> 0 < aq_requested aq \<and> wl_queue (ss_waiters s) = [] \<and>
    usize_max < sem_available (ss_sem s) + aq_requested aq"
proof (cases "aq_index aq")
  case (Some i)
  have ok: "nodes_ok (ss_waiters s) (ss_futs s) (ss_woken s)" and c: "conserved s"
    and z: "wl_queue (ss_waiters s) \<noteq> [] \<Longrightarrow> sem_available (ss_sem s) = 0"
    using inv by (auto simp: sem_inv_def)
  obtain acquired sem where d: "acquire_detach (ss_sem s) aq i = Some (acquired, sem)"
    using sem_detach_total [OF inv f Some] by auto
  obtain n wl where h: "wl_val (ss_waiters s) i = Some n" "acquired = aq_requested aq - wn_needed n"
    "sem = (ss_sem s)\<lparr>sem_waiters := wl\<rparr>" "wl_inv wl" "wl_queue wl = removeAll i (wl_queue (ss_waiters s))"
    by (rule acquire_detach_cases [OF nodes_okD(1) [OF ok] d])
  have b: "aq_requested aq \<le> usize_max" by (rule conserved_futs(3) [OF c f])
  have "i \<notin> set (wl_queue (ss_waiters s)) \<Longrightarrow> wn_needed n = 0"
    using nodes_okD(2) [OF ok f Some] h(1) by (auto simp: node_ok_def)
  then have e: "wl_queue (ss_waiters s) = [] \<Longrightarrow> acquired = aq_requested aq" using h(2) by simp
  have "distribute_permits sem acquired = None \<longleftrightarrow> wl_queue wl = [] \<and> usize_max < sem_available (ss_sem s) + acquired"
    if "0 < acquired"
    using distribute_permits_panic_iff [of sem acquired] that h b sem_detach_inv(2) [OF inv f Some d] by simp
  then show ?thesis
    using Some d e z h(2,5) b by (cases "wl_queue (ss_waiters s) = []") (auto simp: acquire_drop_def)
qed (simp add: acquire_drop_def)

lemma sem_round_panic_iff:
  assumes inv: "sem_inv s" and t: "ss_dist s t = Some r"
  shows "distribute_round (ss_sem s) r = None \<longleftrightarrow>
    0 < r \<and> wl_queue (ss_waiters s) = [] \<and> usize_max < sem_available (ss_sem s) + r"
  using inv t
  by (intro distribute_round_panic_iff) (auto simp: sem_inv_def conserved_def dest: nodes_okD(1))

text \<open>The permits in the system bound what can be put back on the counter.\<close>

lemma sem_budget:
  assumes inv: "sem_inv s" and b: "ss_total s + ss_released s + ss_gifted s \<le> usize_max + ss_acquired s + ss_reduced s"
    and q: "wl_queue (ss_waiters s) = []"
  shows "ss_futs s f = Some (aq, w, m) \<Longrightarrow> aq_index aq \<noteq> None \<Longrightarrow> sem_available (ss_sem s) + aq_requested aq \<le> usize_max"
    and "ss_dist s t = Some r \<Longrightarrow> sem_available (ss_sem s) + r \<le> usize_max"
proof -
  have c: "conserved s" using inv by (simp add: sem_inv_def)
  have "queue_needs (ss_waiters s) = 0" using q by (simp add: queue_needs_def wl_list_def)
  with c b have a: "sem_available (ss_sem s) + msum reserved (ss_futs s) + msum (\<lambda>n. n) (ss_dist s) \<le> usize_max"
    by (simp add: conserved_def)
  show "sem_available (ss_sem s) + aq_requested aq \<le> usize_max"
    if "ss_futs s f = Some (aq, w, m)" "aq_index aq \<noteq> None"
    using msum_ge [of "ss_futs s" f _ reserved] that a c by (fastforce simp: conserved_def)
  show "sem_available (ss_sem s) + r \<le> usize_max" if "ss_dist s t = Some r"
    using msum_ge [of "ss_dist s" t r "\<lambda>n. n"] that a c by (simp add: conserved_def)
qed

section \<open>A concrete run\<close>

text \<open>
  A semaphore with no permits: a future asks for one and parks with waker 7, then another
  thread releases one.
\<close>

definition demo_id :: waiter_id where
  "demo_id = WaiterId (SlotId (NonZero 0))"

definition demo_parked :: "wait_node wait_list" where
  "demo_parked = \<lparr>wl_head = Some demo_id, wl_tail = Some demo_id, wl_nodes = \<lparr>ar_slots =
     [Occupied \<lparr>nd_links = Some \<lparr>lk_prev = None, lk_next = None\<rparr>,
        nd_value = \<lparr>wn_needed = 1, wn_waker = Some 7\<rparr>\<rparr>], ar_vacant_head = None, ar_len = 1\<rparr>\<rparr>"

definition demo_granted :: "wait_node wait_list" where
  "demo_granted = \<lparr>wl_head = None, wl_tail = None, wl_nodes = \<lparr>ar_slots =
     [Occupied \<lparr>nd_links = None, nd_value = \<lparr>wn_needed = 0, wn_waker = None\<rparr>\<rparr>],
     ar_vacant_head = None, ar_len = 1\<rparr>\<rparr>"

definition demo_sys :: "wait_node wait_list \<Rightarrow> waker list \<Rightarrow> nat \<Rightarrow> sem_sys" where
  "demo_sys wl woken released = \<lparr>ss_sem = \<lparr>sem_available = 0, sem_contention = False, sem_waiters = wl\<rparr>,
     ss_futs = [0 \<mapsto> (\<lparr>aq_requested = 1, aq_index = Some demo_id\<rparr>, 7, 0)], ss_dist = Map.empty,
     ss_woken = woken, ss_total = 0, ss_acquired = 0, ss_reduced = 0, ss_released = released,
     ss_gifted = 0\<rparr>"

lemma demo_poll:
  "poll_once (sem_new 0) (sem_acquire 1) 7 =
     Some (Pending, \<lparr>aq_requested = 1, aq_index = Some demo_id\<rparr>,
       \<lparr>sem_available = 0, sem_contention = False, sem_waiters = demo_parked\<rparr>)"
  by (simp add: op_defs acquired_or_enqueue_loop.simps demo_parked_def demo_id_def)

lemma demo_loop:
  "loop distribute_body (1, wb_new, demo_parked) =
     Some (0, wb_new\<lparr>wb_inline := (wb_inline wb_new)[0 := Some 7], wb_inline_len := 1\<rparr>, demo_granted)"
proof -
  let ?b = "wb_new\<lparr>wb_inline := (wb_inline wb_new)[0 := Some 7], wb_inline_len := 1\<rparr>"
  have "distribute_body (1, wb_new, demo_parked) = Some ((0, ?b, demo_granted), True)"
    by (simp add: op_defs demo_parked_def demo_granted_def demo_id_def)
  from loop_unroll [where body = distribute_body, OF this]
  have "loop distribute_body (1, wb_new, demo_parked) = loop distribute_body (0, ?b, demo_granted)"
    by simp
  also have "\<dots> = Some (0, ?b, demo_granted)"
    by (simp add: loop.simps [of distribute_body] distribute_body_def)
  finally show ?thesis .
qed

lemma demo_round:
  "distribute_round \<lparr>sem_available = 0, sem_contention = False, sem_waiters = demo_parked\<rparr> 1 =
     Some ([7], 0, \<lparr>sem_available = 0, sem_contention = False, sem_waiters = demo_granted\<rparr>)"
  unfolding distribute_round_def
  by (simp add: demo_loop [unfolded One_nat_def]) (simp add: op_defs take_Suc hd_conv_nth)

lemma demo_reach_parked: "sem_step\<^sup>*\<^sup>* (sem_init 0) (demo_sys demo_parked [] 0)"
proof -
  let ?s = "(sem_init 0)\<lparr>ss_futs := [0 \<mapsto> (sem_acquire 1, 0, 0)]\<rparr>"
  have "sem_step (sem_init 0) ?s"
    using sem_step.acquire [of "sem_init 0" 0 1] by (simp add: sem_init_def usize_max_def)
  moreover have "sem_step ?s (demo_sys demo_parked [] 0)"
    using sem_step.poll_pending [of ?s 0 "sem_acquire 1" 0 0 7] demo_poll
    by (simp add: sem_init_def demo_sys_def)
  ultimately show ?thesis by (meson run_step rtranclp.rtrancl_refl)
qed

lemma demo_reach_granted: "sem_step\<^sup>*\<^sup>* (sem_init 0) (demo_sys demo_granted [7] 1)"
proof -
  have "sem_step (demo_sys demo_parked [] 0) (demo_sys demo_granted [7] 1)"
    using sem_step.release_slow [of 1 "demo_sys demo_parked [] 0" 0] demo_round
    by (simp add: demo_sys_def after_round_def usize_max_def)
  with demo_reach_parked show ?thesis by (rule run_step)
qed

section \<open>What the semaphore promises\<close>

text \<open>
  C1: through every interleaving of acquisitions, reductions, releases, cancellations and
  notifications, the permits available, those reserved by parked futures, those in the hand
  of a distributing thread and those handed out or removed add up to the initial permits,
  those released and made up, and what the queue is still owed.
\<close>

theorem sem_conserves_permits:
  assumes "sem_step\<^sup>*\<^sup>* (sem_init n) s"
  shows "sem_available (ss_sem s) + msum reserved (ss_futs s) + msum (\<lambda>n. n) (ss_dist s) +
      ss_acquired s + ss_reduced s =
    ss_total s + ss_released s + ss_gifted s + queue_needs (ss_waiters s)"
  using sem_reach_inv [OF assms] by (simp add: sem_inv_def conserved_def)

theorem sem_conserves_permits_witness:
  "sem_step\<^sup>*\<^sup>* (sem_init 0) (demo_sys demo_granted [7] 1) \<and>
   msum reserved (ss_futs (demo_sys demo_granted [7] 1)) =
   1 + queue_needs (ss_waiters (demo_sys demo_granted [7] 1))"
  using demo_reach_granted sem_conserves_permits [OF demo_reach_granted]
  by (simp add: demo_sys_def)

text \<open>
  C2: a parked future whose permits have all been assigned is off the queue, has been woken by the
  waker of its last poll after that poll, and its next poll returns ready; as long as permits are
  missing it is queued, its node keeps the waker of its last poll, and its next poll is pending.
\<close>

theorem sem_granted_is_woken:
  assumes "sem_step\<^sup>*\<^sup>* (sem_init n) s" and "ss_futs s f = Some (aq, w, m)" and "aq_index aq = Some i"
  shows "\<exists>node. wl_val (ss_waiters s) i = Some node \<and>
    (if wn_needed node = 0
     then i \<notin> set (wl_queue (ss_waiters s)) \<and> w \<in> set (drop m (ss_woken s)) \<and>
       (\<exists>aq' sem. poll_once (ss_sem s) aq w' = Some (Ready (), aq', sem))
     else i \<in> set (wl_queue (ss_waiters s)) \<and> wn_waker node = Some w \<and>
       (\<exists>sem. poll_once (ss_sem s) aq w' = Some (Pending, aq, sem)))"
proof -
  have ok: "nodes_ok (ss_waiters s) (ss_futs s) (ss_woken s)"
    using sem_reach_inv [OF assms(1)] by (simp add: sem_inv_def)
  note wi = nodes_okD(1) [OF ok]
  obtain x where x: "wl_val (ss_waiters s) i = Some x"
    "if i \<in> set (wl_queue (ss_waiters s)) then 0 < wn_needed x \<and> wn_waker x = Some w
     else wn_needed x = 0 \<and> wn_waker x = None \<and> w \<in> set (drop m (ss_woken s))"
    using nodes_okD(2) [OF ok assms(2,3)] by (auto simp: node_ok_def)
  show ?thesis
  proof (cases "wn_needed x = 0")
    case True
    with x(2) have q: "i \<notin> set (wl_queue (ss_waiters s))" by auto
    obtain wl where "remove_unlinked_waiter (ss_waiters s) i = Some (x, wl)"
      using wq.remove_law [OF wi x(1) q] by blast
    with x q True assms(3) show ?thesis by (simp add: poll_once_def waiter_mut_eq)
  next
    case False
    with x(2) have q: "i \<in> set (wl_queue (ss_waiters s))" "wn_waker x = Some w" by (auto split: if_splits)
    obtain wl where "set_waiter (ss_waiters s) i (x\<lparr>wn_waker := Some w'\<rparr>) = Some wl"
      using wq.setv_law [OF wi x(1)] by blast
    with x(1) q False assms(3) show ?thesis
      by (simp add: poll_once_def waiter_mut_eq register_waker_eq Let_def)
  qed
qed

theorem sem_granted_is_woken_witness:
  "sem_step\<^sup>*\<^sup>* (sem_init 0) (demo_sys demo_granted [7] 1) \<and>
   (\<exists>aq' sem. poll_once (ss_sem (demo_sys demo_granted [7] 1))
      \<lparr>aq_requested = 1, aq_index = Some demo_id\<rparr> 8 = Some (Ready (), aq', sem)) \<and>
   (\<exists>sem. poll_once (ss_sem (demo_sys demo_parked [] 0))
      \<lparr>aq_requested = 1, aq_index = Some demo_id\<rparr> 8 = Some (Pending, \<lparr>aq_requested = 1, aq_index = Some demo_id\<rparr>, sem))"
  using demo_reach_granted
    sem_granted_is_woken [OF demo_reach_granted, of 0 "\<lparr>aq_requested = 1, aq_index = Some demo_id\<rparr>" 7 0 demo_id 8]
    sem_granted_is_woken [OF demo_reach_parked, of 0 "\<lparr>aq_requested = 1, aq_index = Some demo_id\<rparr>" 7 0 demo_id 8]
  by (simp add: demo_sys_def demo_granted_def demo_parked_def demo_id_def wl_queue_def op_defs)

text \<open>While any waiter is linked in the queue, no permit is available for a newcomer to take.\<close>

theorem sem_no_barging:
  assumes "sem_step\<^sup>*\<^sup>* (sem_init n) s" and "wl_queue (ss_waiters s) \<noteq> []" and "k > 0"
  shows "try_acquire (ss_sem s) k = (False, ss_sem s)"
  using sem_reach_inv [OF assms(1)] assms(2,3) by (simp add: sem_inv_def try_acquire_eq)

theorem sem_no_barging_witness:
  "sem_step\<^sup>*\<^sup>* (sem_init 0) (demo_sys demo_parked [] 0) \<and>
   try_acquire (ss_sem (demo_sys demo_parked [] 0)) 1 =
     (False, ss_sem (demo_sys demo_parked [] 0))"
  using demo_reach_parked sem_no_barging [OF demo_reach_parked, of 1]
  by (simp add: demo_sys_def demo_parked_def demo_id_def wl_queue_def op_defs)

text \<open>
  C3: when an acquisition future panics. Polling it never does while the node table has room.
  Dropping it, which gives its permits to the queue or back to the counter, panics exactly when
  permits were assigned to it, nobody waits, and the counter would overflow; a later round of a
  distribution panics exactly then as well. Neither can happen as long as the permits in the
  system, that is those created and not handed out or removed, fit a \<open>usize\<close>.
\<close>

theorem sem_future_panics_on_overflow:
  assumes "sem_step\<^sup>*\<^sup>* (sem_init n) s" and "ss_futs s f = Some (aq, w, m)"
  shows "(wl_room (ss_waiters s) \<longrightarrow> poll_once (ss_sem s) aq w' \<noteq> None) \<and>
    (acquire_drop (ss_sem s) aq = None \<longleftrightarrow>
       aq_index aq \<noteq> None \<and> 0 < aq_requested aq \<and> wl_queue (ss_waiters s) = [] \<and>
       usize_max < sem_available (ss_sem s) + aq_requested aq) \<and>
    (\<forall>t r. ss_dist s t = Some r \<longrightarrow>
       (distribute_round (ss_sem s) r = None \<longleftrightarrow>
          0 < r \<and> wl_queue (ss_waiters s) = [] \<and> usize_max < sem_available (ss_sem s) + r)) \<and>
    (ss_total s + ss_released s + ss_gifted s \<le> usize_max + ss_acquired s + ss_reduced s \<longrightarrow>
       acquire_drop (ss_sem s) aq \<noteq> None \<and>
       (\<forall>t r. ss_dist s t = Some r \<longrightarrow> distribute_round (ss_sem s) r \<noteq> None))"
proof -
  have inv: "sem_inv s" by (rule sem_reach_inv [OF assms(1)])
  note drop = sem_drop_panic_iff [OF inv assms(2)] and rnd = sem_round_panic_iff [OF inv]
  have "acquire_drop (ss_sem s) aq \<noteq> None \<and> (\<forall>t r. ss_dist s t = Some r \<longrightarrow> distribute_round (ss_sem s) r \<noteq> None)"
    if b: "ss_total s + ss_released s + ss_gifted s \<le> usize_max + ss_acquired s + ss_reduced s"
    using drop rnd sem_budget [OF inv b] assms(2) by (meson leD)
  then show ?thesis using sem_poll_total [OF inv assms(2), of w'] drop rnd by blast
qed

text \<open>
  With a permit assigned to a future and all others of a \<open>usize\<close> released, dropping the future
  panics; dropping it before that does not.
\<close>

lemma demo_overflow:
  obtains s where "sem_step\<^sup>*\<^sup>* (sem_init 0) s" and "ss_futs s = ss_futs (demo_sys demo_granted [7] 1)"
    and "wl_queue (ss_waiters s) = []" and "sem_available (ss_sem s) = usize_max"
proof -
  let ?s = "demo_sys demo_granted [7] 1"
  have e: "wl_list (ss_waiters ?s) = []" by (simp add: demo_sys_def demo_granted_def wl_queue_def op_defs)
  have i: "wl_inv (ss_waiters ?s)"
    using sem_reach_inv [OF demo_reach_granted] nodes_okD(1) by (auto simp: sem_inv_def)
  have "spend usize_max stack_size (wl_list (ss_waiters ?s)) = (usize_max, [], [])" unfolding e by simp
  then obtain sem where r: "distribute_round (ss_sem ?s) usize_max = Some ([], 0, sem)"
    "wl_list (sem_waiters sem) = []" "sem_available sem = usize_max"
    by (rule distribute_round_spec [OF i]) (auto simp: demo_sys_def)
  have "sem_step ?s (after_round 0 [] 0 sem (?s\<lparr>ss_released := ss_released ?s + usize_max\<rparr>))"
    by (rule sem_step.release_slow [OF _ _ _ r(1)]) (simp_all add: demo_sys_def usize_max_def)
  from run_step [OF demo_reach_granted this] show thesis by (rule that) (use r(2,3) in \<open>simp_all add: after_round_def\<close>)
qed

theorem sem_future_panics_on_overflow_witness:
  "acquire_drop (ss_sem (demo_sys demo_granted [7] 1)) \<lparr>aq_requested = 1, aq_index = Some demo_id\<rparr> \<noteq> None \<and>
   (\<exists>s. sem_step\<^sup>*\<^sup>* (sem_init 0) s \<and> ss_futs s 0 = Some (\<lparr>aq_requested = 1, aq_index = Some demo_id\<rparr>, 7, 0) \<and>
      acquire_drop (ss_sem s) \<lparr>aq_requested = 1, aq_index = Some demo_id\<rparr> = None)"
proof -
  let ?aq = "\<lparr>aq_requested = 1, aq_index = Some demo_id\<rparr>"
  obtain s where s: "sem_step\<^sup>*\<^sup>* (sem_init 0) s" "ss_futs s 0 = Some (?aq, 7, 0)"
    "wl_queue (ss_waiters s) = []" "sem_available (ss_sem s) = usize_max"
    by (rule demo_overflow) (simp add: demo_sys_def)
  have "acquire_drop (ss_sem s) ?aq = None"
    using sem_future_panics_on_overflow [OF s(1,2), of 8] s(3,4) by simp
  moreover have "acquire_drop (ss_sem (demo_sys demo_granted [7] 1)) ?aq \<noteq> None"
    using sem_future_panics_on_overflow [OF demo_reach_granted, of 0 ?aq 7 0 8] by (simp add: demo_sys_def usize_max_def)
  ultimately show ?thesis using s(1,2) by blast
qed

end
