(* ===== verification/WakerSet.thy ===== *)
theory WakerSet
  imports Arena WakerBatch
begin

text \<open>
  The waker registrations of \<open>internal/wakerset.rs\<close>: an arena of wakers, addressed by
  tokens that the waiting futures keep. The abstraction is the map from live tokens to
  wakers; the locale \<open>waker_registry\<close> is the contract of the primitives that wake all
  their waiters at once (latch, barrier, wait group, phaser, watch, completion, broadcast).
\<close>

datatype waker_token = WakerToken slot_id

fun token_slot :: "waker_token \<Rightarrow> slot_id" where
  "token_slot (WakerToken s) = s"

lemma token_slot_inject [simp]: "token_slot a = token_slot b \<longleftrightarrow> a = b"
  by (cases a; cases b) auto

record waker_set =
  ws_wakers :: "waker arena"

definition ws_new :: waker_set where
  "ws_new = \<lparr>ws_wakers = arena_new\<rparr>"

definition ws_with_capacity :: "usize \<Rightarrow> waker_set" where
  "ws_with_capacity capacity = \<lparr>ws_wakers = arena_with_capacity capacity\<rparr>"

definition ws_take_all :: "waker_set \<Rightarrow> (waker_batch \<times> waker_set) option" where
  "ws_take_all ws =
     (if arena_is_empty (ws_wakers ws) then Some (wb_new, ws)
      else do {
        let (wakers, a) = arena_take_all (ws_wakers ws);
        batch \<leftarrow> wb_from_iter wakers;
        Some (batch, ws\<lparr>ws_wakers := a\<rparr>) })"

text \<open>\<open>wake_all\<close> consumes the set: the wakers woken, in slot order.\<close>

definition ws_wake_all :: "waker_set \<Rightarrow> waker list" where
  "ws_wake_all ws = arena_into_iter (ws_wakers ws)"

text \<open>The retired waker, the token and the set after a registration.\<close>

definition ws_register ::
  "waker_set \<Rightarrow> waker_token option \<Rightarrow> waker \<Rightarrow>
   (waker option \<times> waker_token option \<times> waker_set) option" where
  "ws_register ws token waker =
     (case token of
        Some t \<Rightarrow> do {
          current \<leftarrow> arena_get (ws_wakers ws) (token_slot t);
          if will_wake current waker then Some (None, token, ws)
          else Some (Some current, token,
                 ws\<lparr>ws_wakers := arena_put (ws_wakers ws) (token_slot t) waker\<rparr>) }
      | None \<Rightarrow> do {
          (s, a) \<leftarrow> arena_insert (ws_wakers ws) waker;
          Some (None, Some (WakerToken s), ws\<lparr>ws_wakers := a\<rparr>) })"

definition ws_unregister ::
  "waker_set \<Rightarrow> waker_token option \<Rightarrow>
   (waker option \<times> waker_token option \<times> waker_set) option" where
  "ws_unregister ws token =
     (case token of
        Some t \<Rightarrow> do {
          (w, a) \<leftarrow> arena_remove (ws_wakers ws) (token_slot t);
          Some (Some w, None, ws\<lparr>ws_wakers := a\<rparr>) }
      | None \<Rightarrow> Some (None, None, ws))"

lemmas waker_set_ops [op_defs] = ws_new_def ws_with_capacity_def ws_take_all_def ws_wake_all_def
  ws_register_def ws_unregister_def

section \<open>Abstraction\<close>

definition ws_inv :: "waker_set \<Rightarrow> bool" where
  "ws_inv ws \<longleftrightarrow> arena_inv (ws_wakers ws)"

definition ws_room :: "waker_set \<Rightarrow> bool" where
  "ws_room ws \<longleftrightarrow> arena_room (ws_wakers ws)"

definition ws_regs :: "waker_set \<Rightarrow> waker_token \<Rightarrow> waker option" where
  "ws_regs ws t = arena_get (ws_wakers ws) (token_slot t)"

lemma ws_new_simps [simp]: "ws_inv ws_new" "ws_regs ws_new = Map.empty"
  by (simp_all add: ws_inv_def ws_new_def ws_regs_def fun_eq_iff)

lemma ws_with_capacity_eq [simp]: "ws_with_capacity n = ws_new"
  by (simp add: ws_with_capacity_def ws_new_def arena_with_capacity_def arena_new_def)

lemma ran_ws_regs: "ran (ws_regs ws) = ran (arena_get (ws_wakers ws))"
  unfolding ran_def ws_regs_def by (metis token_slot.simps)

lemma ws_regs_empty_iff: "ws_regs ws = Map.empty \<longleftrightarrow> arena_get (ws_wakers ws) = Map.empty"
  unfolding ws_regs_def fun_eq_iff by (metis token_slot.simps)

lemma set_ws_wake_all: "set (ws_wake_all ws) = ran (ws_regs ws)"
  by (simp add: ws_wake_all_def arena_into_iter_def set_arena_values ran_ws_regs)

lemma length_ws_wake_all: "ws_inv ws \<Longrightarrow> length (ws_wake_all ws) = ar_len (ws_wakers ws)"
  by (simp add: ws_inv_def arena_inv_def ws_wake_all_def arena_into_iter_def)

lemma ws_register_new:
  assumes "ws_inv ws" and "ws_register ws None w = Some (r, t', ws')"
  shows "r = None" and "\<exists>t. t' = Some t \<and> ws_regs ws t = None \<and> ws_regs ws' = (ws_regs ws)(t \<mapsto> w)"
    and "ws_inv ws'"
proof -
  from assms(2) obtain s a where ins: "arena_insert (ws_wakers ws) w = Some (s, a)"
    and r: "r = None" "t' = Some (WakerToken s)" "ws' = ws\<lparr>ws_wakers := a\<rparr>"
    by (auto simp: ws_register_def panic_simps)
  show "r = None" by fact
  show "\<exists>t. t' = Some t \<and> ws_regs ws t = None \<and> ws_regs ws' = (ws_regs ws)(t \<mapsto> w)"
    using ar.insert_fresh [OF ins] ar.get_insert [OF ins] r token_slot_inject [of _ "WakerToken s"]
    by (auto simp: ws_regs_def fun_eq_iff simp del: token_slot_inject)
  show "ws_inv ws'"
    using ar.inv_insert [OF _ ins] assms(1) r by (simp add: ws_inv_def)
qed

lemma ws_register_again:
  assumes "ws_inv ws" and "ws_regs ws t = Some v"
  obtains ws' where "ws_register ws (Some t) w = Some (if v = w then None else Some v, Some t, ws')"
    and "ws_inv ws'" and "ws_regs ws' = (ws_regs ws)(t \<mapsto> w)"
proof (cases "v = w")
  case True
  then show thesis
    using that [of ws] assms by (auto simp: ws_register_def ws_regs_def will_wake_def fun_eq_iff)
next
  case False
  let ?ws = "ws\<lparr>ws_wakers := arena_put (ws_wakers ws) (token_slot t) w\<rparr>"
  have g: "arena_get (ws_wakers ws) (token_slot t) = Some v"
    using assms(2) by (simp add: ws_regs_def)
  show thesis
    using that [of ?ws] False g ar.inv_put [OF _ g] ar.get_put [OF g] assms(1)
    by (auto simp: ws_register_def ws_inv_def ws_regs_def will_wake_def fun_eq_iff)
qed

lemma ws_register_stale: "ws_regs ws t = None \<Longrightarrow> ws_register ws (Some t) w = None"
  by (simp add: ws_register_def ws_regs_def)

lemma ws_register_total: "ws_inv ws \<Longrightarrow> ws_room ws \<Longrightarrow> \<exists>x. ws_register ws None w = Some x"
  using ar.insert_total [of "ws_wakers ws" w]
  by (auto simp: ws_register_def ws_inv_def ws_room_def)

lemma ws_unregister_valid:
  assumes "ws_inv ws" and "ws_regs ws t = Some v"
  obtains ws' where "ws_unregister ws (Some t) = Some (Some v, None, ws')"
    and "ws_inv ws'" and "ws_regs ws' = (ws_regs ws)(t := None)"
proof -
  obtain a where r: "arena_remove (ws_wakers ws) (token_slot t) = Some (v, a)"
    using ar.remove_total assms by (fastforce simp: ws_inv_def ws_regs_def)
  show thesis
    using that [of "ws\<lparr>ws_wakers := a\<rparr>"] r ar.inv_remove [OF _ r] ar.get_remove [OF r] assms(1)
    by (auto simp: ws_unregister_def ws_inv_def ws_regs_def fun_eq_iff)
qed

lemma ws_unregister_stale: "ws_regs ws t = None \<Longrightarrow> ws_unregister ws (Some t) = None"
  using ar.remove_invalid [of "ws_wakers ws" "token_slot t"]
  by (simp add: ws_unregister_def ws_regs_def)

lemma ws_take_all_spec:
  assumes "ws_inv ws"
  obtains b ws' where "ws_take_all ws = Some (b, ws')" and "wb_inv b"
    and "wb_list b = ws_wake_all ws" and "ws_inv ws'" and "ws_regs ws' = Map.empty"
proof (cases "arena_is_empty (ws_wakers ws)")
  case True
  then have "arena_get (ws_wakers ws) = Map.empty"
    using assms by (simp add: ws_inv_def arena_is_empty_iff)
  moreover have "ws_wake_all ws = []"
    using length_ws_wake_all [OF assms] True by (simp add: arena_is_empty_def)
  ultimately show thesis
    using that [of wb_new ws] True assms by (simp add: ws_take_all_def ws_regs_empty_iff)
next
  case False
  obtain b where b: "wb_from_iter (slot_values (ar_slots (ws_wakers ws))) = Some b" "wb_inv b"
    "wb_list b = slot_values (ar_slots (ws_wakers ws))"
    by (rule wb_from_iter_spec)
  let ?ws = "ws\<lparr>ws_wakers := snd (arena_take_all (ws_wakers ws))\<rparr>"
  have "ws_take_all ws = Some (b, ?ws)"
    using False b by (simp add: ws_take_all_def arena_take_all_def)
  then show thesis
    using that [of b ?ws] b(2,3)
    by (simp add: ws_wake_all_def arena_into_iter_def ws_inv_def arena_inv_take_all ws_regs_empty_iff)
qed

section \<open>The contract of the registrations\<close>

text \<open>
  What a client of the set relies on. \<open>owned s P\<close> says that the registrations of the
  set are exactly those of the parked futures \<open>P\<close>, each with its own token and its last
  waker; the client lemmas carry it through the four operations.
\<close>

locale waker_registry =
  fixes inv :: "'s \<Rightarrow> bool"
    and room :: "'s \<Rightarrow> bool"
    and regs :: "'s \<Rightarrow> 't \<Rightarrow> waker option"
    and register :: "'s \<Rightarrow> 't option \<Rightarrow> waker \<Rightarrow> (waker option \<times> 't option \<times> 's) option"
    and unregister :: "'s \<Rightarrow> 't option \<Rightarrow> (waker option \<times> 't option \<times> 's) option"
    and take_all :: "'s \<Rightarrow> (waker_batch \<times> 's) option"
  assumes register_total: "inv s \<Longrightarrow> room s \<Longrightarrow> \<exists>x. register s None w = Some x"
    and register_new: "inv s \<Longrightarrow> register s None w = Some (r, t', s') \<Longrightarrow>
      r = None \<and> inv s' \<and> (\<exists>t. t' = Some t \<and> regs s t = None \<and> regs s' = (regs s)(t \<mapsto> w))"
    and register_again: "inv s \<Longrightarrow> regs s t = Some v \<Longrightarrow>
      \<exists>s'. register s (Some t) w = Some (if v = w then None else Some v, Some t, s') \<and>
           inv s' \<and> regs s' = (regs s)(t \<mapsto> w)"
    and register_stale: "regs s t = None \<Longrightarrow> register s (Some t) w = None"
    and unregister_valid: "inv s \<Longrightarrow> regs s t = Some v \<Longrightarrow>
      \<exists>s'. unregister s (Some t) = Some (Some v, None, s') \<and> inv s' \<and> regs s' = (regs s)(t := None)"
    and unregister_stale: "regs s t = None \<Longrightarrow> unregister s (Some t) = None"
    and take_all_law: "inv s \<Longrightarrow>
      \<exists>b s'. take_all s = Some (b, s') \<and> wb_inv b \<and> set (wb_list b) = ran (regs s) \<and>
             inv s' \<and> regs s' = Map.empty"
begin

definition owned :: "'s \<Rightarrow> ('f \<Rightarrow> ('t \<times> waker) option) \<Rightarrow> bool" where
  "owned s P \<longleftrightarrow> inv s \<and>
     (\<forall>t w. regs s t = Some w \<longleftrightarrow> (\<exists>f. P f = Some (t, w))) \<and>
     (\<forall>f g t v w. P f = Some (t, v) \<longrightarrow> P g = Some (t, w) \<longrightarrow> f = g)"

lemma owned_inv: "owned s P \<Longrightarrow> inv s"
  by (simp add: owned_def)

lemma owned_regs: "owned s P \<Longrightarrow> P f = Some (t, w) \<Longrightarrow> regs s t = Some w"
  by (auto simp: owned_def)

lemma owned_empty: "inv s \<Longrightarrow> regs s = Map.empty \<Longrightarrow> owned s Map.empty"
  by (simp add: owned_def)

lemma park_new:
  assumes o: "owned s P" and f: "P f = None" and r: "register s None w = Some (r, t', s')"
  obtains t where "t' = Some t" and "r = None" and "owned s' (P(f \<mapsto> (t, w)))"
proof -
  obtain t where t: "t' = Some t" "regs s t = None" "regs s' = (regs s)(t \<mapsto> w)" "r = None" "inv s'"
    using register_new [OF owned_inv [OF o] r] by blast
  have fresh: "\<And>g v. P g \<noteq> Some (t, v)"
    using o t(2) by (auto dest: owned_regs)
  have "owned s' (P(f \<mapsto> (t, w)))"
    unfolding owned_def
  proof (intro conjI allI impI)
    show "(regs s' u = Some v) = (\<exists>g. (P(f \<mapsto> (t, w))) g = Some (u, v))" for u v
    proof (cases "u = t")
      case True
      then show ?thesis using t(3) fresh by auto
    next
      case False
      have "P g = Some (u, v) \<Longrightarrow> g \<noteq> f" for g using f by auto
      then have "(\<exists>g. (P(f \<mapsto> (t, w))) g = Some (u, v)) \<longleftrightarrow> (\<exists>g. P g = Some (u, v))"
        using False by (auto split: if_splits)
      then show ?thesis using False t(3) o by (simp add: owned_def)
    qed
    show "g = h" if "(P(f \<mapsto> (t, w))) g = Some (u, x)" "(P(f \<mapsto> (t, w))) h = Some (u, y)"
      for g h u x y
      using that o fresh unfolding owned_def by (auto split: if_splits)
  qed (use t in simp)
  with t that show thesis by blast
qed

lemma park_again:
  assumes o: "owned s P" and f: "P f = Some (t, v)"
  obtains s' where "register s (Some t) w = Some (if v = w then None else Some v, Some t, s')"
    and "owned s' (P(f \<mapsto> (t, w)))"
proof -
  obtain s' where s': "register s (Some t) w = Some (if v = w then None else Some v, Some t, s')"
    "inv s'" "regs s' = (regs s)(t \<mapsto> w)"
    using register_again [OF owned_inv [OF o] owned_regs [OF o f]] by blast
  have only: "g = f" if "P g = Some (t, x)" for g x
    using o f that unfolding owned_def by blast
  have "owned s' (P(f \<mapsto> (t, w)))"
    unfolding owned_def
  proof (intro conjI allI impI)
    show "(regs s' u = Some x) = (\<exists>g. (P(f \<mapsto> (t, w))) g = Some (u, x))" for u x
    proof (cases "u = t")
      case True
      then show ?thesis using s'(3) only by (auto split: if_splits)
    next
      case False
      then have "P g = Some (u, x) \<Longrightarrow> g \<noteq> f" for g using f by auto
      then have "(\<exists>g. (P(f \<mapsto> (t, w))) g = Some (u, x)) \<longleftrightarrow> (\<exists>g. P g = Some (u, x))"
        using False by (auto split: if_splits)
      then show ?thesis using False s'(3) o by (simp add: owned_def)
    qed
    show "g = h" if "(P(f \<mapsto> (t, w))) g = Some (u, x)" "(P(f \<mapsto> (t, w))) h = Some (u, y)"
      for g h u x y
      using that o only unfolding owned_def by (auto split: if_splits)
  qed (use s' in simp)
  with s' that show thesis by blast
qed

text \<open>Both cases at once: the token the future passes is the one it owns, if any.\<close>

lemma park:
  assumes o: "owned s P" and r: "register s (map_option fst (P f)) w = Some (r, t', s')"
  obtains t where "t' = Some t" and "owned s' (P(f \<mapsto> (t, w)))"
proof (cases "P f")
  case None
  then show thesis using park_new [OF o None, of w r t' s'] r that by auto
next
  case (Some p)
  then obtain t v where p: "P f = Some (t, v)" by (cases p) auto
  show thesis by (rule park_again [OF o p, of w]) (use r p that in auto)
qed

lemma park_total:
  assumes "owned s P" and "P f = None \<Longrightarrow> room s"
  shows "\<exists>r t s'. register s (map_option fst (P f)) w = Some (r, Some t, s')"
proof (cases "P f")
  case None
  then show ?thesis
    using register_total [OF owned_inv [OF assms(1)] assms(2) [OF None], of w]
      register_new [OF owned_inv [OF assms(1)]] by fastforce
next
  case (Some p)
  then obtain t v where p: "P f = Some (t, v)" by (cases p) auto
  show ?thesis by (rule park_again [OF assms(1) p, of w]) (use p in auto)
qed

lemma unpark:
  assumes o: "owned s P" and f: "P f = Some (t, v)"
  obtains s' where "unregister s (Some t) = Some (Some v, None, s')" and "owned s' (P(f := None))"
proof -
  obtain s' where s': "unregister s (Some t) = Some (Some v, None, s')" "inv s'"
    "regs s' = (regs s)(t := None)"
    using unregister_valid [OF owned_inv [OF o] owned_regs [OF o f]] by blast
  have only: "g = f" if "P g = Some (t, x)" for g x
    using o f that unfolding owned_def by blast
  have "owned s' (P(f := None))"
    unfolding owned_def
  proof (intro conjI allI impI)
    show "(regs s' u = Some x) = (\<exists>g. (P(f := None)) g = Some (u, x))" for u x
    proof (cases "u = t")
      case True
      then show ?thesis using s'(3) only by (auto split: if_splits)
    next
      case False
      then have "P g = Some (u, x) \<Longrightarrow> g \<noteq> f" for g using f by auto
      then have "(\<exists>g. (P(f := None)) g = Some (u, x)) \<longleftrightarrow> (\<exists>g. P g = Some (u, x))"
        using False by (auto split: if_splits)
      then show ?thesis using False s'(3) o by (simp add: owned_def)
    qed
    show "g = h" if "(P(f := None)) g = Some (u, x)" "(P(f := None)) h = Some (u, y)" for g h u x y
      using that o unfolding owned_def by (auto split: if_splits)
  qed (use s' in simp)
  with s' that show thesis by blast
qed

lemma wake:
  assumes "owned s P"
  obtains b s' where "take_all s = Some (b, s')" and "wb_inv b"
    and "set (wb_list b) = {w. \<exists>f t. P f = Some (t, w)}" and "inv s'" and "owned s' Map.empty"
proof -
  obtain b s' where b: "take_all s = Some (b, s')" "wb_inv b" "set (wb_list b) = ran (regs s)"
    "inv s'" "regs s' = Map.empty"
    using take_all_law [OF owned_inv [OF assms]] by blast
  moreover have "ran (regs s) = {w. \<exists>f t. P f = Some (t, w)}"
    using assms unfolding owned_def ran_def by blast
  ultimately show thesis using that by (simp add: owned_empty)
qed

end

interpretation reg: waker_registry ws_inv ws_room ws_regs ws_register ws_unregister ws_take_all
proof (unfold_locales, goal_cases)
  case (1 s w)
  then show ?case by (rule ws_register_total)
next
  case (2 s w r t' s')
  then show ?case using ws_register_new [OF 2] by blast
next
  case (3 s t v w)
  then show ?case by (rule ws_register_again) blast
next
  case (5 s t v)
  then show ?case by (rule ws_unregister_valid) blast
next
  case (7 s)
  then show ?case by (rule ws_take_all_spec) (auto simp: set_ws_wake_all)
qed (rule ws_register_stale ws_unregister_stale; assumption)+

text \<open>Replacing the whole set, as \<open>mem::take\<close> does, wakes and forgets every parked future.\<close>

lemma owned_wake_all:
  assumes "reg.owned s P"
  shows "set (ws_wake_all s) = {w. \<exists>f t. P f = Some (t, w)}"
  using assms unfolding reg.owned_def set_ws_wake_all ran_def by blast

lemma owned_new [simp]: "reg.owned ws_new Map.empty"
  by (rule reg.owned_empty) simp_all

end
