(* ===== verification/Barrier.thy ===== *)
theory Barrier
  imports WakerSet "HOL-Library.Word"
begin

text \<open>
  The barrier of \<open>barrier/mod.rs\<close>. Every access is under the state lock, so an operation is
  a function on the state; \<open>barrier_step\<close> interleaves the calls of any number of
  participants, and the invariant ties the generation to the number of arrivals.
\<close>

record barrier_state =
  ba_arrived :: "32 word"
  ba_generation :: usize
  ba_waiters :: waker_set

record barrier =
  ba_n :: "32 word"
  ba_state :: barrier_state

definition barrier_new :: "32 word \<Rightarrow> barrier" where
  "barrier_new n =
     (let n = if n > 0 then n else 1 in
      \<lparr>ba_n = n, ba_state = \<lparr>ba_arrived = 0, ba_generation = 0,
        ba_waiters = ws_with_capacity (unat (n - 1))\<rparr>\<rparr>)"

text \<open>
  The arrival half of \<open>wait\<close>: \<open>None\<close> is the leader, which returns at once, \<open>Some g\<close> a
  follower that goes on to wait for generation \<open>g\<close>; with the wakers woken, in order.
\<close>

definition barrier_wait :: "barrier \<Rightarrow> (usize option \<times> waker list \<times> barrier) option" where
  "barrier_wait b = do {
     let st = ba_state b;
     let generation = ba_generation st;
     guard (ba_arrived st \<noteq> - 1);
     let st = st\<lparr>ba_arrived := ba_arrived st + 1\<rparr>;
     if ba_arrived st = ba_n b then do {
       let st = st\<lparr>ba_arrived := 0\<rparr>;
       next_generation \<leftarrow> checked_add (ba_generation st) 1;
       let st = st\<lparr>ba_generation := next_generation\<rparr>;
       (wakers, ws) \<leftarrow> ws_take_all (ba_waiters st);
       (woken, wakers) \<leftarrow> wb_wake_all wakers;
       Some (None, woken, b\<lparr>ba_state := st\<lparr>ba_waiters := ws\<rparr>\<rparr>) }
     else Some (Some generation, [], b\<lparr>ba_state := st\<rparr>) }"

text \<open>\<open>BarrierWait\<close>: the generation it waits for and its token.\<close>

definition barrier_wait_poll ::
  "barrier \<Rightarrow> usize \<Rightarrow> waker_token option \<Rightarrow> waker \<Rightarrow>
   (unit poll \<times> waker_token option \<times> barrier) option" where
  "barrier_wait_poll b generation token waker =
     (let st = ba_state b in
      if generation < ba_generation st then Some (Ready (), None, b)
      else do {
        (retired_waker, token, ws) \<leftarrow> ws_register (ba_waiters st) token waker;
        Some (Pending, token, b\<lparr>ba_state := st\<lparr>ba_waiters := ws\<rparr>\<rparr>) })"

definition barrier_wait_drop :: "barrier \<Rightarrow> usize \<Rightarrow> waker_token option \<Rightarrow> barrier option" where
  "barrier_wait_drop b generation token =
     (if token = None then Some b
      else let st = ba_state b in
        if generation \<noteq> ba_generation st then Some b
        else do {
          (removed_waker, token, ws) \<leftarrow> ws_unregister (ba_waiters st) token;
          Some (b\<lparr>ba_state := st\<lparr>ba_waiters := ws\<rparr>\<rparr>) })"

lemmas barrier_ops [op_defs] = barrier_new_def barrier_wait_def barrier_wait_poll_def
  barrier_wait_drop_def

section \<open>Participants\<close>

text \<open>
  A follower is its generation and its token, beside which stands the waker of its last
  poll; \<open>bs_started\<close> counts the calls of \<open>wait\<close>, \<open>bs_leaders\<close> those that led.
\<close>

type_synonym followers = "nat \<Rightarrow> (usize \<times> (waker_token \<times> waker) option) option"

record barrier_sys =
  bs_barrier :: barrier
  bs_futs :: followers
  bs_started :: nat
  bs_leaders :: nat
  bs_woken :: "waker list"

abbreviation bs_state :: "barrier_sys \<Rightarrow> barrier_state" where
  "bs_state s \<equiv> ba_state (bs_barrier s)"

definition barrier_init :: "32 word \<Rightarrow> barrier_sys" where
  "barrier_init n = \<lparr>bs_barrier = barrier_new n, bs_futs = Map.empty, bs_started = 0,
     bs_leaders = 0, bs_woken = []\<rparr>"

inductive barrier_step :: "barrier_sys \<Rightarrow> barrier_sys \<Rightarrow> bool" where
  lead: "barrier_wait (bs_barrier s) = Some (None, woken, b) \<Longrightarrow>
    barrier_step s (s\<lparr>bs_barrier := b, bs_started := bs_started s + 1,
      bs_leaders := bs_leaders s + 1, bs_woken := bs_woken s @ woken\<rparr>)"
| follow: "barrier_wait (bs_barrier s) = Some (Some g, woken, b) \<Longrightarrow> bs_futs s f = None \<Longrightarrow>
    barrier_step s (s\<lparr>bs_barrier := b, bs_futs := (bs_futs s)(f \<mapsto> (g, None)),
      bs_started := bs_started s + 1, bs_woken := bs_woken s @ woken\<rparr>)"
| poll: "bs_futs s f = Some (g, k) \<Longrightarrow>
    barrier_wait_poll (bs_barrier s) g (map_option fst k) w = Some (res, tok, b) \<Longrightarrow>
    barrier_step s (s\<lparr>bs_barrier := b,
      bs_futs := (bs_futs s)(f \<mapsto> (g, map_option (\<lambda>t. (t, w)) tok))\<rparr>)"
| drop: "bs_futs s f = Some (g, k) \<Longrightarrow>
    barrier_wait_drop (bs_barrier s) g (map_option fst k) = Some b \<Longrightarrow>
    barrier_step s (s\<lparr>bs_barrier := b, bs_futs := (bs_futs s)(f := None)\<rparr>)"

definition current :: "usize \<Rightarrow> followers \<Rightarrow> nat \<Rightarrow> (waker_token \<times> waker) option" where
  "current gen F f = (case F f of Some (g, k) \<Rightarrow> if g = gen then k else None | None \<Rightarrow> None)"

definition barrier_inv :: "barrier_sys \<Rightarrow> bool" where
  "barrier_inv s \<longleftrightarrow> ba_arrived (bs_state s) < ba_n (bs_barrier s) \<and>
     bs_started s = ba_generation (bs_state s) * unat (ba_n (bs_barrier s)) + unat (ba_arrived (bs_state s)) \<and>
     bs_leaders s = ba_generation (bs_state s) \<and>
     reg.owned (ba_waiters (bs_state s)) (current (ba_generation (bs_state s)) (bs_futs s)) \<and>
     (\<forall>f g k. bs_futs s f = Some (g, k) \<longrightarrow> g \<le> ba_generation (bs_state s)) \<and>
     (\<forall>f g t w. bs_futs s f = Some (g, Some (t, w)) \<longrightarrow> g < ba_generation (bs_state s) \<longrightarrow>
        w \<in> set (bs_woken s))"

lemma current_upd [simp]:
  "current gen (F(f := x)) =
     (current gen F)(f := (case x of Some (g, k) \<Rightarrow> if g = gen then k else None | None \<Rightarrow> None))"
  by (auto simp: current_def fun_eq_iff)

lemma current_Some_iff: "current gen F f = Some p \<longleftrightarrow> F f = Some (gen, Some p)"
  by (auto simp: current_def split: option.splits)

lemma current_here: "F f = Some (gen, k) \<Longrightarrow> current gen F f = k"
  by (simp add: current_def)

lemma barrier_init_inv: "barrier_inv (barrier_init n)"
proof -
  have "current 0 Map.empty = Map.empty" by (simp add: current_def fun_eq_iff)
  moreover have "0 < n" if "n \<noteq> 0" for n :: "32 word" using that word_neq_0_conv by blast
  ultimately show ?thesis
    by (auto simp: barrier_inv_def barrier_init_def barrier_new_def Let_def)
qed

lemma unat_Suc: "a < n \<Longrightarrow> unat (a + 1) = unat a + 1" for a n :: "32 word"
  by (metis (no_types, lifting) add.commute add_0 inc_i inc_le unat_plus_simple unsigned_0
      unsigned_1 word_gt_0)

text \<open>The two outcomes of an arrival, and that there is no third.\<close>

lemma barrier_wait_cases:
  assumes inv: "barrier_inv s" and w: "barrier_wait (bs_barrier s) = Some (r, woken, b)"
  obtains
    (lead) ws where "r = None" and "unat (ba_arrived (bs_state s)) + 1 = unat (ba_n (bs_barrier s))"
      and "b = (bs_barrier s)\<lparr>ba_state := \<lparr>ba_arrived = 0,
                ba_generation = ba_generation (bs_state s) + 1, ba_waiters = ws\<rparr>\<rparr>"
      and "set woken = {w. \<exists>f t. current (ba_generation (bs_state s)) (bs_futs s) f = Some (t, w)}"
      and "reg.owned ws (Map.empty :: nat \<Rightarrow> (waker_token \<times> waker) option)"
  | (follow) "r = Some (ba_generation (bs_state s))"
      and "unat (ba_arrived (bs_state s)) + 1 < unat (ba_n (bs_barrier s))" and "woken = []"
      and "b = (bs_barrier s)\<lparr>ba_state := (bs_state s)\<lparr>ba_arrived := ba_arrived (bs_state s) + 1\<rparr>\<rparr>"
proof -
  let ?st = "bs_state s" and ?n = "ba_n (bs_barrier s)"
  have lt: "ba_arrived ?st < ?n"
    and o: "reg.owned (ba_waiters ?st) (current (ba_generation ?st) (bs_futs s))"
    using inv by (simp_all add: barrier_inv_def)
  have suc: "unat (ba_arrived ?st + 1) = unat (ba_arrived ?st) + 1" by (rule unat_Suc [OF lt])
  show thesis
  proof (cases "ba_arrived ?st + 1 = ?n")
    case True
    obtain bt ws where ta: "ws_take_all (ba_waiters ?st) = Some (bt, ws)" "wb_inv bt"
      "set (wb_list bt) = {w. \<exists>f t. current (ba_generation ?st) (bs_futs s) f = Some (t, w)}"
      "ws_inv ws" "reg.owned ws (Map.empty :: nat \<Rightarrow> (waker_token \<times> waker) option)"
      by (rule reg.wake [OF o])
    obtain bt' where "wb_wake_all bt = Some (wb_list bt, bt')"
      by (rule wb_wake_all_spec [OF ta(2)])
    with True ta w suc lt show thesis
      by (intro lead [of ws]) (auto simp: barrier_wait_def Let_def panic_simps)
  next
    case False
    have "unat (ba_arrived ?st) + 1 < unat ?n"
      using False suc lt by (metis word_less_nat_alt Suc_eq_plus1 Suc_lessI unsigned_word_eqI)
    with False w show thesis
      by (intro follow) (auto simp: barrier_wait_def Let_def panic_simps)
  qed
qed

lemma barrier_lead_inv:
  assumes lead: "barrier_wait (bs_barrier s) = Some (None, woken, b)" "barrier_inv s"
  shows "barrier_inv (s\<lparr>bs_barrier := b, bs_started := bs_started s + 1,
      bs_leaders := bs_leaders s + 1, bs_woken := bs_woken s @ woken\<rparr>)"
proof -
  show ?thesis
  proof (rule barrier_wait_cases [OF lead(2,1)])
    fix ws
    assume h: "unat (ba_arrived (bs_state s)) + 1 = unat (ba_n (bs_barrier s))"
      and b: "b = (bs_barrier s)\<lparr>ba_state := \<lparr>ba_arrived = 0,
                ba_generation = ba_generation (bs_state s) + 1, ba_waiters = ws\<rparr>\<rparr>"
      and woken: "set woken = {w. \<exists>f t. current (ba_generation (bs_state s)) (bs_futs s) f = Some (t, w)}"
      and o: "reg.owned ws (Map.empty :: nat \<Rightarrow> (waker_token \<times> waker) option)"
    have old: "g \<le> ba_generation (bs_state s)" if "bs_futs s f = Some (g, k)" for f g k
      using lead(2) that by (auto simp: barrier_inv_def)
    then have "current (ba_generation (bs_state s) + 1) (bs_futs s) = Map.empty"
      by (fastforce simp: current_def fun_eq_iff split: option.splits)
    moreover have "w \<in> set (bs_woken s @ woken)" if "bs_futs s f = Some (g, Some (t, w))" for f g t w
      using that old [OF that] lead(2) woken
      by (cases "g = ba_generation (bs_state s)") (auto simp: barrier_inv_def current_Some_iff)
    moreover have "0 < ba_n (bs_barrier s)"
      using h by (simp add: word_less_nat_alt)
    ultimately show ?thesis
      using lead(2) h o old
      by (auto simp: barrier_inv_def b le_Suc_eq)
  qed simp_all
qed

lemma barrier_follow_inv:
  assumes follow: "barrier_wait (bs_barrier s) = Some (Some g, woken, b)" "bs_futs s f = None"
    "barrier_inv s"
  shows "barrier_inv (s\<lparr>bs_barrier := b, bs_futs := (bs_futs s)(f \<mapsto> (g, None)),
      bs_started := bs_started s + 1, bs_woken := bs_woken s @ woken\<rparr>)"
proof -
  show ?thesis
  proof (rule barrier_wait_cases [OF follow(3,1)])
    assume h: "unat (ba_arrived (bs_state s)) + 1 < unat (ba_n (bs_barrier s))"
      and g: "Some g = Some (ba_generation (bs_state s))" and w: "woken = []"
      and b: "b = (bs_barrier s)\<lparr>ba_state := (bs_state s)\<lparr>ba_arrived := ba_arrived (bs_state s) + 1\<rparr>\<rparr>"
    have "ba_arrived (bs_state s) < ba_n (bs_barrier s)"
      using follow(3) by (simp add: barrier_inv_def)
    note suc = unat_Suc [OF this]
    have "(current (ba_generation (bs_state s)) (bs_futs s))(f := None) =
        current (ba_generation (bs_state s)) (bs_futs s)"
      using follow(2) by (auto simp: current_def fun_eq_iff)
    then show ?thesis
      using follow(2,3) h g w suc by (auto simp: barrier_inv_def b word_less_nat_alt)
  qed simp_all
qed

lemma barrier_poll_inv:
  assumes poll: "bs_futs s f = Some (g, k)"
    "barrier_wait_poll (bs_barrier s) g (map_option fst k) w = Some (res, tok, b)" "barrier_inv s"
  shows "barrier_inv (s\<lparr>bs_barrier := b,
      bs_futs := (bs_futs s)(f \<mapsto> (g, map_option (\<lambda>t. (t, w)) tok))\<rparr>)"
proof -
  have g: "g \<le> ba_generation (bs_state s)" and
    o: "reg.owned (ba_waiters (bs_state s)) (current (ba_generation (bs_state s)) (bs_futs s))"
    using poll(1,3) by (auto simp: barrier_inv_def)
  show ?thesis
  proof (cases "g = ba_generation (bs_state s)")
    case True
    obtain r ws where reg: "ws_register (ba_waiters (bs_state s)) (map_option fst k) w = Some (r, tok, ws)"
      and b: "b = (bs_barrier s)\<lparr>ba_state := (bs_state s)\<lparr>ba_waiters := ws\<rparr>\<rparr>"
      using poll(2) True by (auto simp: barrier_wait_poll_def Let_def panic_simps)
    have k: "current (ba_generation (bs_state s)) (bs_futs s) f = k"
      using poll(1) True by (simp add: current_here)
    obtain t where "tok = Some t"
      and "reg.owned ws ((current (ba_generation (bs_state s)) (bs_futs s))(f \<mapsto> (t, w)))"
      by (rule reg.park [OF o reg [folded k]])
    then show ?thesis using poll(3) True g by (auto simp: barrier_inv_def b)
  next
    case False
    then have "b = bs_barrier s" "tok = None" using g poll(2) by (auto simp: barrier_wait_poll_def Let_def)
    moreover have "(current (ba_generation (bs_state s)) (bs_futs s))(f := None) =
        current (ba_generation (bs_state s)) (bs_futs s)"
      using poll(1) False by (auto simp: current_def fun_eq_iff)
    ultimately show ?thesis using poll(3) False g by (auto simp: barrier_inv_def)
  qed
qed

lemma barrier_drop_inv:
  assumes drop: "bs_futs s f = Some (g, k)"
    "barrier_wait_drop (bs_barrier s) g (map_option fst k) = Some b" "barrier_inv s"
  shows "barrier_inv (s\<lparr>bs_barrier := b, bs_futs := (bs_futs s)(f := None)\<rparr>)"
proof -
  have o: "reg.owned (ba_waiters (bs_state s)) (current (ba_generation (bs_state s)) (bs_futs s))"
    using drop(3) by (auto simp: barrier_inv_def)
  show ?thesis
  proof (cases "g = ba_generation (bs_state s) \<and> k \<noteq> None")
    case True
    then obtain t w where k: "k = Some (t, w)" "current (ba_generation (bs_state s)) (bs_futs s) f = Some (t, w)"
      using drop(1) by (auto simp: current_here)
    obtain ws where ws: "ws_unregister (ba_waiters (bs_state s)) (Some t) = Some (Some w, None, ws)"
      "reg.owned ws ((current (ba_generation (bs_state s)) (bs_futs s))(f := None))"
      by (rule reg.unpark [OF o k(2)])
    then have "b = (bs_barrier s)\<lparr>ba_state := (bs_state s)\<lparr>ba_waiters := ws\<rparr>\<rparr>"
      using drop(2) True k(1) by (auto simp: barrier_wait_drop_def Let_def)
    then show ?thesis using drop(3) ws(2) by (auto simp: barrier_inv_def)
  next
    case False
    then have "b = bs_barrier s" using drop(2) by (auto simp: barrier_wait_drop_def Let_def split: if_splits)
    moreover have "(current (ba_generation (bs_state s)) (bs_futs s))(f := None) =
        current (ba_generation (bs_state s)) (bs_futs s)"
      using drop(1) False by (cases k) (auto simp: current_def fun_eq_iff)
    ultimately show ?thesis using drop(3) by (auto simp: barrier_inv_def)
  qed
qed

lemma barrier_step_inv: "barrier_step s s' \<Longrightarrow> barrier_inv s \<Longrightarrow> barrier_inv s'"
  by (induction rule: barrier_step.induct)
    (rule barrier_lead_inv barrier_follow_inv barrier_poll_inv barrier_drop_inv; assumption)+

lemma barrier_reach_inv: "barrier_step\<^sup>*\<^sup>* (barrier_init n) s \<Longrightarrow> barrier_inv s"
  by (induction rule: rtranclp_induct) (auto intro: barrier_init_inv barrier_step_inv)

section \<open>What the barrier promises\<close>

lemma barrier_participants: "0 < unat (ba_n (bs_barrier s))" if "barrier_inv s"
proof -
  have "unat (ba_arrived (bs_state s)) < unat (ba_n (bs_barrier s))"
    using that by (simp add: barrier_inv_def word_less_nat_alt)
  then show ?thesis by simp
qed

text \<open>A follower is released exactly when its generation has had all its arrivals.\<close>

lemma barrier_poll_ready_iff:
  assumes "barrier_inv s" and "bs_futs s f = Some (g, k)"
    and "barrier_wait_poll (bs_barrier s) g (map_option fst k) w = Some (res, tok, b)"
  shows "res = Ready () \<longleftrightarrow> (g + 1) * unat (ba_n (bs_barrier s)) \<le> bs_started s"
proof -
  let ?n = "unat (ba_n (bs_barrier s))" and ?gen = "ba_generation (bs_state s)"
  have st: "bs_started s = ?gen * ?n + unat (ba_arrived (bs_state s))"
    and lt: "unat (ba_arrived (bs_state s)) < ?n"
    using assms(1) by (simp_all add: barrier_inv_def word_less_nat_alt)
  have "res = Ready () \<longleftrightarrow> g < ?gen"
    using assms(3) by (auto simp: barrier_wait_poll_def Let_def panic_simps split: if_splits)
  also have "\<dots> \<longleftrightarrow> g + 1 \<le> bs_started s div ?n"
    using lt by (simp add: st div_mult_self3 Suc_le_eq)
  also have "\<dots> \<longleftrightarrow> (g + 1) * ?n \<le> bs_started s"
    using lt by (intro less_eq_div_iff_mult_less_eq) simp
  finally show ?thesis .
qed

lemma barrier_wait_total:
  assumes "barrier_inv s" and "ba_generation (bs_state s) < usize_max"
  shows "\<exists>x. barrier_wait (bs_barrier s) = Some x"
proof -
  let ?st = "bs_state s"
  have lt: "ba_arrived ?st < ba_n (bs_barrier s)" and o: "ws_inv (ba_waiters ?st)"
    using assms(1) by (auto simp: barrier_inv_def dest: reg.owned_inv)
  then have "ba_arrived ?st \<noteq> - 1" by auto
  moreover obtain bt ws where "ws_take_all (ba_waiters ?st) = Some (bt, ws)" "wb_inv bt"
    using ws_take_all_spec [OF o] by blast
  moreover from this(2) obtain bt' where "wb_wake_all bt = Some (wb_list bt, bt')"
    by (rule wb_wake_all_spec)
  ultimately show ?thesis
    using assms(2) by (auto simp: barrier_wait_def Let_def checked_add_def)
qed

lemma barrier_poll_total:
  assumes "barrier_inv s" and "bs_futs s f = Some (g, k)" and "ws_room (ba_waiters (bs_state s))"
  shows "\<exists>x. barrier_wait_poll (bs_barrier s) g (map_option fst k) w = Some x"
proof (cases "g < ba_generation (bs_state s)")
  case False
  then have "g = ba_generation (bs_state s)" using assms(1,2) by (fastforce simp: barrier_inv_def)
  then have "current (ba_generation (bs_state s)) (bs_futs s) f = k"
    using assms(2) by (simp add: current_here)
  then show ?thesis
    using False reg.park_total [of "ba_waiters (bs_state s)" _ f w] assms(1,3)
    by (fastforce simp: barrier_wait_poll_def Let_def barrier_inv_def)
qed (simp add: barrier_wait_poll_def)

lemma barrier_drop_total:
  assumes "barrier_inv s" and "bs_futs s f = Some (g, k)"
  shows "\<exists>b. barrier_wait_drop (bs_barrier s) g (map_option fst k) = Some b"
proof (cases "g = ba_generation (bs_state s) \<and> k \<noteq> None")
  case True
  then obtain t w where k: "k = Some (t, w)"
    and c: "current (ba_generation (bs_state s)) (bs_futs s) f = Some (t, w)"
    using assms(2) by (auto simp: current_here)
  have o: "reg.owned (ba_waiters (bs_state s)) (current (ba_generation (bs_state s)) (bs_futs s))"
    using assms(1) by (simp add: barrier_inv_def)
  show ?thesis
    by (rule reg.unpark [OF o c]) (simp add: barrier_wait_drop_def Let_def k)
qed (auto simp: barrier_wait_drop_def Let_def)

section \<open>A concrete run\<close>

text \<open>A barrier of two: a follower arrives and parks with waker 7, then a leader arrives.\<close>

definition demo_token :: waker_token where
  "demo_token = WakerToken (SlotId (NonZero 0))"

definition demo_barrier :: "32 word \<Rightarrow> usize \<Rightarrow> waker slot list \<Rightarrow> barrier" where
  "demo_barrier arrived generation slots = \<lparr>ba_n = 2, ba_state = \<lparr>ba_arrived = arrived,
     ba_generation = generation, ba_waiters =
     \<lparr>ws_wakers = \<lparr>ar_slots = slots, ar_vacant_head = None, ar_len = length slots\<rparr>\<rparr>\<rparr>\<rparr>"

definition demo_follower :: "barrier \<Rightarrow> nat \<Rightarrow> waker list \<Rightarrow> barrier_sys" where
  "demo_follower b leaders woken = \<lparr>bs_barrier = b, bs_futs = [0 \<mapsto> (0, Some (demo_token, 7))],
     bs_started = 1 + leaders, bs_leaders = leaders, bs_woken = woken\<rparr>"

lemma demo_arrive: "barrier_wait (barrier_new 2) = Some (Some 0, [], demo_barrier 1 0 [])"
  by (simp add: op_defs demo_barrier_def)

lemma demo_park:
  "barrier_wait_poll (demo_barrier 1 0 []) 0 None 7 =
     Some (Pending, Some demo_token, demo_barrier 1 0 [Occupied 7])"
  by (simp add: op_defs demo_barrier_def demo_token_def)

lemma demo_lead:
  "barrier_wait (demo_barrier 1 0 [Occupied 7]) = Some (None, [7], demo_barrier 0 1 [])"
  by (simp add: op_defs demo_barrier_def map_filter_simps take_Suc hd_conv_nth)

lemma demo_reach_follower:
  "barrier_step\<^sup>*\<^sup>* (barrier_init 2) (demo_follower (demo_barrier 1 0 [Occupied 7]) 0 [])"
proof -
  let ?s = "\<lparr>bs_barrier = demo_barrier 1 0 [], bs_futs = [0 \<mapsto> (0, None)], bs_started = 1,
    bs_leaders = 0, bs_woken = []\<rparr>"
  have "barrier_step (barrier_init 2) ?s"
    using barrier_step.follow [of "barrier_init 2" 0 "[]" "demo_barrier 1 0 []" 0] demo_arrive
    by (simp add: barrier_init_def)
  moreover have "barrier_step ?s (demo_follower (demo_barrier 1 0 [Occupied 7]) 0 [])"
    using barrier_step.poll [of ?s 0 0 None 7] demo_park by (simp add: demo_follower_def)
  ultimately show ?thesis by (meson run_step rtranclp.rtrancl_refl)
qed

lemma demo_reach_released:
  "barrier_step\<^sup>*\<^sup>* (barrier_init 2) (demo_follower (demo_barrier 0 1 []) 1 [7])"
proof -
  have "barrier_step (demo_follower (demo_barrier 1 0 [Occupied 7]) 0 [])
      (demo_follower (demo_barrier 0 1 []) 1 [7])"
    using barrier_step.lead [of "demo_follower (demo_barrier 1 0 [Occupied 7]) 0 []"] demo_lead
    by (simp add: demo_follower_def)
  with demo_reach_follower show ?thesis by (rule run_step)
qed

section \<open>Properties\<close>

text \<open>
  However arrivals, polls and cancellations interleave, the calls of \<open>wait\<close> so far are
  exactly the completed generations times the group size plus those arrived in the current
  one, which never reach the group size, and every generation has had exactly one leader.
\<close>

theorem barrier_counts_generations:
  assumes "barrier_step\<^sup>*\<^sup>* (barrier_init n) s"
  shows "bs_started s = ba_generation (bs_state s) * unat (ba_n (bs_barrier s)) + unat (ba_arrived (bs_state s)) \<and>
    ba_arrived (bs_state s) < ba_n (bs_barrier s) \<and> bs_leaders s = ba_generation (bs_state s)"
  using barrier_reach_inv [OF assms] by (simp add: barrier_inv_def)

theorem barrier_counts_generations_witness:
  "barrier_step\<^sup>*\<^sup>* (barrier_init 2) (demo_follower (demo_barrier 0 1 []) 1 [7]) \<and>
   bs_leaders (demo_follower (demo_barrier 0 1 []) 1 [7]) = 1"
  using demo_reach_released barrier_counts_generations [OF demo_reach_released]
  by (simp add: demo_follower_def demo_barrier_def)

text \<open>
  C8: a follower's poll is ready exactly when the group of its generation is complete, that
  is when the calls of \<open>wait\<close> have reached the end of that generation; and a follower whose
  generation is complete has had its last waker woken.
\<close>

theorem barrier_releases_exactly_on_completion:
  assumes "barrier_step\<^sup>*\<^sup>* (barrier_init n) s" and "bs_futs s f = Some (g, k)"
    and "barrier_wait_poll (bs_barrier s) g (map_option fst k) w = Some (res, tok, b)"
  shows "(res = Ready () \<longleftrightarrow> (g + 1) * unat (ba_n (bs_barrier s)) \<le> bs_started s) \<and>
    (res = Ready () \<longrightarrow> (\<forall>t v. k = Some (t, v) \<longrightarrow> v \<in> set (bs_woken s)))"
proof -
  have inv: "barrier_inv s" by (rule barrier_reach_inv [OF assms(1)])
  have "g < ba_generation (bs_state s)" if "res = Ready ()"
    using assms(3) that by (auto simp: barrier_wait_poll_def Let_def panic_simps split: if_splits)
  then show ?thesis
    using barrier_poll_ready_iff [OF inv assms(2,3)] inv assms(2) by (auto simp: barrier_inv_def)
qed

theorem barrier_releases_exactly_on_completion_witness:
  "barrier_wait_poll (demo_barrier 0 1 []) 0 (Some demo_token) 9 = Some (Ready (), None, demo_barrier 0 1 []) \<and>
   (7::waker) \<in> set (bs_woken (demo_follower (demo_barrier 0 1 []) 1 [7]))"
proof -
  have p: "barrier_wait_poll (demo_barrier 0 1 []) 0 (Some demo_token) 9 = Some (Ready (), None, demo_barrier 0 1 [])"
    by (simp add: op_defs demo_barrier_def)
  with barrier_releases_exactly_on_completion [OF demo_reach_released, of 0 0 "Some (demo_token, 7)" 9]
  show ?thesis by (simp add: demo_follower_def)
qed

text \<open>
  No interleaving leads to a panic: an arrival returns below the last generation number,
  a poll returns while the waker table has room, and a drop always returns.
\<close>

theorem barrier_no_panic:
  assumes "barrier_step\<^sup>*\<^sup>* (barrier_init n) s" and "bs_futs s f = Some (g, k)"
  shows "(ba_generation (bs_state s) < usize_max \<longrightarrow> barrier_wait (bs_barrier s) \<noteq> None) \<and>
    (ws_room (ba_waiters (bs_state s)) \<longrightarrow> barrier_wait_poll (bs_barrier s) g (map_option fst k) w \<noteq> None) \<and>
    barrier_wait_drop (bs_barrier s) g (map_option fst k) \<noteq> None"
  using barrier_wait_total barrier_poll_total [OF _ assms(2)] barrier_drop_total [OF _ assms(2)]
    barrier_reach_inv [OF assms(1)] by (metis not_None_eq)

theorem barrier_no_panic_witness:
  "barrier_wait_drop (demo_barrier 1 0 [Occupied 7]) 0 (Some demo_token) \<noteq> None"
  using barrier_no_panic [OF demo_reach_follower, of 0 0 "Some (demo_token, 7)"]
  by (simp add: demo_follower_def)

end
