(* ===== verification/Phaser.thy ===== *)
theory Phaser
  imports WakerSet "HOL-Library.Word"
begin

text \<open>
  The phaser of \<open>phaser/mod.rs\<close>: a wrapping phase number, the registered and the
  unarrived parties, and the waiters of the current phase, all under one lock. A
  participant is its \<open>pending\<close> phase; \<open>phaser_step\<close> interleaves participants, bulk
  registrations and observers.
\<close>

datatype closed_error = Closed

record phaser =
  ph_phase :: "64 word"
  ph_closed :: bool
  ph_registered :: usize
  ph_unarrived :: usize
  ph_waiters :: waker_set

definition advance_if_ready :: "phaser \<Rightarrow> (waker_batch \<times> phaser) option" where
  "advance_if_ready st =
     (if ph_closed st \<or> ph_unarrived st \<noteq> 0 then Some (wb_new, st)
      else do {
        let st = st\<lparr>ph_phase := ph_phase st + 1\<rparr>;
        let st = st\<lparr>ph_unarrived := ph_registered st\<rparr>;
        (wakers, ws) \<leftarrow> ws_take_all (ph_waiters st);
        Some (wakers, st\<lparr>ph_waiters := ws\<rparr>) })"

definition completion :: "phaser \<Rightarrow> 64 word \<Rightarrow> (64 word, closed_error) result poll" where
  "completion st observed =
     (if ph_phase st \<noteq> observed then Ready (Ok (ph_phase st))
      else if ph_closed st then Ready (Err Closed)
      else Pending)"

definition phaser_new :: phaser where
  "phaser_new = \<lparr>ph_phase = 0, ph_closed = False, ph_registered = 0, ph_unarrived = 0,
     ph_waiters = ws_new\<rparr>"

text \<open>Operations that notify return the wakers woken, in order.\<close>

definition phaser_close :: "phaser \<Rightarrow> waker list \<times> phaser" where
  "phaser_close st =
     (if ph_closed st then ([], st)
      else let st = st\<lparr>ph_closed := True\<rparr> in
        (ws_wake_all (ph_waiters st), st\<lparr>ph_waiters := ws_new\<rparr>))"

definition registered_parties :: "phaser \<Rightarrow> usize" where
  "registered_parties st = ph_registered st"

definition arrived_parties :: "phaser \<Rightarrow> usize option" where
  "arrived_parties st = checked_sub (ph_registered st) (ph_unarrived st)"

definition unarrived_parties :: "phaser \<Rightarrow> usize" where
  "unarrived_parties st = ph_unarrived st"

definition do_register :: "phaser \<Rightarrow> usize \<Rightarrow> ((unit, closed_error) result \<times> phaser) option" where
  "do_register st parties =
     (if ph_closed st then Some (Err Closed, st)
      else do {
        registered \<leftarrow> checked_add (ph_registered st) parties;
        let st = st\<lparr>ph_registered := registered\<rparr>;
        unarrived \<leftarrow> checked_add (ph_unarrived st) parties;
        Some (Ok (), st\<lparr>ph_unarrived := unarrived\<rparr>) })"

text \<open>A participant: its pending phase, and whether it is still registered.\<close>

record participant =
  pp_pending :: "64 word option"
  pp_registered :: bool

definition participant_new :: participant where
  "participant_new = \<lparr>pp_pending = None, pp_registered = True\<rparr>"

definition register_one :: "phaser \<Rightarrow> ((participant, closed_error) result \<times> phaser) option" where
  "register_one st = do {
     (r, st) \<leftarrow> do_register st 1;
     Some (case r of Ok _ \<Rightarrow> Ok participant_new | Err e \<Rightarrow> Err e, st) }"

text \<open>A bulk registration yields an iterator, which is the number of participants left in it.\<close>

definition phaser_register ::
  "phaser \<Rightarrow> usize \<Rightarrow> ((usize, closed_error) result \<times> phaser) option" where
  "phaser_register st parties = do {
     (r, st) \<leftarrow> do_register st parties;
     Some (case r of Ok _ \<Rightarrow> Ok parties | Err e \<Rightarrow> Err e, st) }"

definition participants_next :: "usize \<Rightarrow> participant option \<times> usize" where
  "participants_next remaining =
     (if remaining = 0 then (None, remaining) else (Some participant_new, remaining - 1))"

definition notify :: "waker_batch \<times> phaser \<Rightarrow> (waker list \<times> phaser) option" where
  "notify r = do { (woken, wakers) \<leftarrow> wb_wake_all (fst r); Some (woken, snd r) }"

definition participants_drop :: "phaser \<Rightarrow> usize \<Rightarrow> (waker list \<times> phaser) option" where
  "participants_drop st remaining =
     (if remaining = 0 then Some ([], st)
      else do {
        registered \<leftarrow> checked_sub (ph_registered st) remaining;
        let st = st\<lparr>ph_registered := registered\<rparr>;
        unarrived \<leftarrow> checked_sub (ph_unarrived st) remaining;
        let st = st\<lparr>ph_unarrived := unarrived\<rparr>;
        r \<leftarrow> advance_if_ready st;
        notify r })"

definition phaser_arrive ::
  "phaser \<Rightarrow> participant \<Rightarrow>
   ((64 word, closed_error) result \<times> participant \<times> waker list \<times> phaser) option" where
  "phaser_arrive st p =
     (if ph_closed st then Some (Err Closed, p, [], st)
      else do {
        let phase = ph_phase st;
        unarrived \<leftarrow> (if pp_pending p \<noteq> Some phase then checked_sub (ph_unarrived st) 1
                      else Some (ph_unarrived st));
        let st = st\<lparr>ph_unarrived := unarrived\<rparr>;
        let p = p\<lparr>pp_pending := Some phase\<rparr>;
        r \<leftarrow> advance_if_ready st;
        (woken, st) \<leftarrow> notify r;
        Some (Ok phase, p, woken, st) })"

text \<open>
  The two ends of a participant's \<open>wait\<close>: the phase it goes on to observe, arriving first if
  nothing is pending, and what it does with the outcome of that wait.
\<close>

definition participant_wait ::
  "phaser \<Rightarrow> participant \<Rightarrow>
   ((64 word, closed_error) result \<times> participant \<times> waker list \<times> phaser) option" where
  "participant_wait st p =
     (case pp_pending p of
        Some phase \<Rightarrow> Some (Ok phase, p, [], st)
      | None \<Rightarrow> phaser_arrive st p)"

definition participant_waited ::
  "participant \<Rightarrow> (64 word, closed_error) result \<Rightarrow> (64 word, closed_error) result \<times> participant" where
  "participant_waited p r =
     (case r of Ok phase \<Rightarrow> (Ok phase, p\<lparr>pp_pending := None\<rparr>) | Err e \<Rightarrow> (Err e, p))"

definition do_deregister ::
  "phaser \<Rightarrow> participant \<Rightarrow>
   ((64 word, closed_error) result \<times> participant \<times> waker list \<times> phaser) option" where
  "do_deregister st p = do {
     let p = p\<lparr>pp_registered := False\<rparr>;
     registered \<leftarrow> checked_sub (ph_registered st) 1;
     let st = st\<lparr>ph_registered := registered\<rparr>;
     unarrived \<leftarrow> (if pp_pending p \<noteq> Some (ph_phase st) then checked_sub (ph_unarrived st) 1
                   else Some (ph_unarrived st));
     let st = st\<lparr>ph_unarrived := unarrived\<rparr>;
     let result = (if ph_closed st then Err Closed else Ok (ph_phase st));
     r \<leftarrow> advance_if_ready st;
     (woken, st) \<leftarrow> notify r;
     Some (result, p, woken, st) }"

definition participant_drop :: "phaser \<Rightarrow> participant \<Rightarrow> (waker list \<times> phaser) option" where
  "participant_drop st p =
     (if pp_registered p then do { (result, p, woken, st) \<leftarrow> do_deregister st p; Some (woken, st) }
      else Some ([], st))"

text \<open>\<open>PhaserWait\<close>: the observed phase and the token.\<close>

definition phaser_wait_poll ::
  "phaser \<Rightarrow> 64 word \<Rightarrow> waker_token option \<Rightarrow> waker \<Rightarrow>
   ((64 word, closed_error) result poll \<times> waker_token option \<times> phaser) option" where
  "phaser_wait_poll st observed token waker =
     (if is_ready (completion st observed) then Some (completion st observed, None, st)
      else do {
        (retired, token, ws) \<leftarrow> ws_register (ph_waiters st) token waker;
        Some (Pending, token, st\<lparr>ph_waiters := ws\<rparr>) })"

definition phaser_wait_drop :: "phaser \<Rightarrow> 64 word \<Rightarrow> waker_token option \<Rightarrow> phaser option" where
  "phaser_wait_drop st observed token =
     (if token = None then Some st
      else if is_ready (completion st observed) then Some st
      else do {
        (retired, token, ws) \<leftarrow> ws_unregister (ph_waiters st) token;
        Some (st\<lparr>ph_waiters := ws\<rparr>) })"

lemmas phaser_ops [op_defs] = advance_if_ready_def completion_def phaser_new_def phaser_close_def
  registered_parties_def arrived_parties_def unarrived_parties_def do_register_def participant_new_def
  register_one_def phaser_register_def participants_next_def notify_def participants_drop_def
  phaser_arrive_def participant_wait_def participant_waited_def do_deregister_def participant_drop_def
  phaser_wait_poll_def phaser_wait_drop_def

section \<open>Participants and observers\<close>

text \<open>
  \<open>ps_epoch\<close> counts the phases completed without wrapping; a parked observer carries the
  epoch it parked in and the waker of its last poll beside its token.
\<close>

type_synonym observers = "nat \<Rightarrow> (64 word \<times> nat \<times> (waker_token \<times> waker) option) option"

record phaser_sys =
  ps_st :: phaser
  ps_parts :: "nat \<Rightarrow> participant option"
  ps_groups :: "nat \<Rightarrow> usize option"
  ps_waits :: observers
  ps_epoch :: nat
  ps_woken :: "waker list"

definition phaser_init :: phaser_sys where
  "phaser_init = \<lparr>ps_st = phaser_new, ps_parts = Map.empty, ps_groups = Map.empty,
     ps_waits = Map.empty, ps_epoch = 0, ps_woken = []\<rparr>"

text \<open>The state after an operation that may have completed the phase.\<close>

definition publish :: "phaser_sys \<Rightarrow> phaser \<Rightarrow> waker list \<Rightarrow> phaser_sys" where
  "publish s st woken = s\<lparr>ps_st := st, ps_woken := ps_woken s @ woken,
     ps_epoch := (if ph_phase st = ph_phase (ps_st s) then ps_epoch s else ps_epoch s + 1)\<rparr>"

inductive phaser_step :: "phaser_sys \<Rightarrow> phaser_sys \<Rightarrow> bool" where
  one: "register_one (ps_st s) = Some (Ok p, st) \<Longrightarrow> ps_parts s i = None \<Longrightarrow>
    phaser_step s (s\<lparr>ps_st := st, ps_parts := (ps_parts s)(i \<mapsto> p)\<rparr>)"
| bulk: "phaser_register (ps_st s) n = Some (Ok m, st) \<Longrightarrow> ps_groups s j = None \<Longrightarrow>
    phaser_step s (s\<lparr>ps_st := st, ps_groups := (ps_groups s)(j \<mapsto> m)\<rparr>)"
| yield: "ps_groups s j = Some n \<Longrightarrow> participants_next n = (Some p, m) \<Longrightarrow> ps_parts s i = None \<Longrightarrow>
    phaser_step s (s\<lparr>ps_groups := (ps_groups s)(j \<mapsto> m), ps_parts := (ps_parts s)(i \<mapsto> p)\<rparr>)"
| drop_group: "ps_groups s j = Some n \<Longrightarrow> participants_drop (ps_st s) n = Some (woken, st) \<Longrightarrow>
    phaser_step s ((publish s st woken)\<lparr>ps_groups := (ps_groups s)(j := None)\<rparr>)"
| arrive: "ps_parts s i = Some p \<Longrightarrow> phaser_arrive (ps_st s) p = Some (r, q, woken, st) \<Longrightarrow>
    phaser_step s ((publish s st woken)\<lparr>ps_parts := (ps_parts s)(i \<mapsto> q)\<rparr>)"
| waited: "ps_parts s i = Some p \<Longrightarrow> pp_pending p = Some observed \<Longrightarrow>
    completion (ps_st s) observed = Ready r \<Longrightarrow> participant_waited p r = (r', q) \<Longrightarrow>
    phaser_step s (s\<lparr>ps_parts := (ps_parts s)(i \<mapsto> q)\<rparr>)"
| drop_part: "ps_parts s i = Some p \<Longrightarrow> participant_drop (ps_st s) p = Some (woken, st) \<Longrightarrow>
    phaser_step s ((publish s st woken)\<lparr>ps_parts := (ps_parts s)(i := None)\<rparr>)"
| close: "phaser_close (ps_st s) = (woken, st) \<Longrightarrow> phaser_step s (publish s st woken)"
| observe: "ps_waits s f = None \<Longrightarrow>
    phaser_step s (s\<lparr>ps_waits := (ps_waits s)(f \<mapsto> (observed, ps_epoch s, None))\<rparr>)"
| poll: "ps_waits s f = Some (observed, e, k) \<Longrightarrow>
    phaser_wait_poll (ps_st s) observed (map_option fst k) w = Some (res, tok, st) \<Longrightarrow>
    phaser_step s (s\<lparr>ps_st := st,
      ps_waits := (ps_waits s)(f \<mapsto> (observed, ps_epoch s, map_option (\<lambda>t. (t, w)) tok))\<rparr>)"
| drop_wait: "ps_waits s f = Some (observed, e, k) \<Longrightarrow>
    phaser_wait_drop (ps_st s) observed (map_option fst k) = Some st \<Longrightarrow>
    phaser_step s (s\<lparr>ps_st := st, ps_waits := (ps_waits s)(f := None)\<rparr>)"

section \<open>The counts\<close>

definition has_arrived :: "64 word \<Rightarrow> participant \<Rightarrow> bool" where
  "has_arrived phase p \<longleftrightarrow> pp_pending p = Some phase"

text \<open>
  The registered parties are the participants and those not yet yielded; the unarrived ones
  are those of them whose pending phase is not the current one. A pending phase is the
  current one or the one before, so a stale one is never mistaken for an arrival.
\<close>

definition counts_ok :: "phaser \<Rightarrow> (nat \<Rightarrow> participant option) \<Rightarrow> (nat \<Rightarrow> usize option) \<Rightarrow> bool" where
  "counts_ok st parts groups \<longleftrightarrow> finite (dom parts) \<and> finite (dom groups) \<and>
     ph_registered st = msum (\<lambda>p. 1) parts + msum (\<lambda>n. n) groups \<and>
     ph_unarrived st =
       msum (\<lambda>p. if has_arrived (ph_phase st) p then 0 else 1) parts + msum (\<lambda>n. n) groups \<and>
     ph_registered st \<le> usize_max \<and>
     (\<forall>i p. parts i = Some p \<longrightarrow> pp_registered p \<and>
        pp_pending p \<in> {None, Some (ph_phase st), Some (ph_phase st - 1)})"

lemma word64_Suc_neq [simp]: "(x::64 word) + 1 \<noteq> x" "x \<noteq> x + 1" "x - 1 \<noteq> x"
  by simp_all

text \<open>Completing the phase turns every arrival into a stale one.\<close>

lemma advance_counts:
  assumes c: "counts_ok st parts groups" and a: "advance_if_ready st = Some (b, st')"
  shows "counts_ok st' parts groups"
proof (cases "ph_closed st \<or> ph_unarrived st \<noteq> 0")
  case True
  with assms show ?thesis by (auto simp: advance_if_ready_def)
next
  case False
  then obtain ws where st': "st' = st\<lparr>ph_phase := ph_phase st + 1, ph_unarrived := ph_registered st,
      ph_waiters := ws\<rparr>"
    using a by (auto simp: advance_if_ready_def panic_simps)
  have fin: "finite (dom parts)" using c by (simp add: counts_ok_def)
  have "msum (\<lambda>p. if has_arrived (ph_phase st) p then 0 else 1) parts = 0"
    using c False by (simp add: counts_ok_def)
  then have all: "pp_pending p = Some (ph_phase st)" if "parts i = Some p" for i p
    using that unfolding msum_zero_iff [OF fin] by (auto simp: has_arrived_def split: if_splits)
  then have "msum (\<lambda>p. if has_arrived (ph_phase st + 1) p then 0 else 1) parts = msum (\<lambda>p. 1) parts"
    by (intro msum_cong) (auto simp: has_arrived_def)
  with c all show ?thesis by (auto simp: counts_ok_def st')
qed

lemma notify_eq: "wb_inv b \<Longrightarrow> notify (b, st) = Some (wb_list b, st)"
  by (rule wb_wake_all_spec) (auto simp: notify_def)

lemma advance_eq:
  assumes "ws_inv (ph_waiters st)"
  obtains b st' where "advance_if_ready st = Some (b, st')" and "wb_inv b"
    and "notify (b, st') = Some (wb_list b, st')"
proof (cases "ph_closed st \<or> ph_unarrived st \<noteq> 0")
  case True
  then show thesis
    using that [of wb_new st] notify_eq [of wb_new st] by (simp add: advance_if_ready_def)
next
  case False
  obtain b ws where b: "ws_take_all (ph_waiters st) = Some (b, ws)" "wb_inv b"
    by (rule ws_take_all_spec [OF assms])
  then have "advance_if_ready st = Some (b, st\<lparr>ph_phase := ph_phase st + 1,
      ph_unarrived := ph_registered st, ph_waiters := ws\<rparr>)"
    using False by (simp add: advance_if_ready_def)
  with that b(2) notify_eq show thesis by blast
qed

lemma notify_snd: "notify r = Some (woken, st) \<Longrightarrow> st = snd r"
  by (auto simp: notify_def panic_simps)

lemma counts_finite:
  assumes "counts_ok st parts groups"
  shows "finite (dom parts)" and "finite (dom groups)"
  using assms by (simp_all add: counts_ok_def)

lemma counts_register:
  assumes c: "counts_ok st parts groups" and r: "do_register st n = Some (Ok x, st')"
  shows "groups j = None \<Longrightarrow> counts_ok st' parts (groups(j \<mapsto> n))"
    and "n = 1 \<Longrightarrow> parts i = None \<Longrightarrow> counts_ok st' (parts(i \<mapsto> participant_new)) groups"
proof -
  from r have st': "st' = st\<lparr>ph_registered := ph_registered st + n, ph_unarrived := ph_unarrived st + n\<rparr>"
    "ph_registered st + n \<le> usize_max"
    by (auto simp: do_register_def panic_simps split: if_splits)
  show "counts_ok st' parts (groups(j \<mapsto> n))" if "groups j = None"
    using c st' that by (auto simp: counts_ok_def msum_insert)
  show "counts_ok st' (parts(i \<mapsto> participant_new)) groups" if "n = 1" "parts i = None"
    using c st' that by (auto simp: counts_ok_def msum_insert participant_new_def has_arrived_def)
qed

lemma counts_yield:
  assumes c: "counts_ok st parts groups" and "groups j = Some n" and "parts i = None"
    and "participants_next n = (Some p, m)"
  shows "counts_ok st (parts(i \<mapsto> p)) (groups(j \<mapsto> m))"
proof -
  have n: "n = m + 1" "p = participant_new"
    using assms(4) by (auto simp: participants_next_def split: if_splits)
  have "msum (\<lambda>n. n) (groups(j \<mapsto> m)) + 1 = msum (\<lambda>n. n) groups"
    using msum_update [OF counts_finite(2) [OF c] assms(2), of "\<lambda>n. n" m] n by simp
  then show ?thesis
    using c assms(3) n
    by (auto simp: counts_ok_def msum_insert participant_new_def has_arrived_def)
qed

lemma counts_drop_group:
  assumes c: "counts_ok st parts groups" and "groups j = Some n"
    and d: "participants_drop st n = Some (woken, st')"
  shows "counts_ok st' parts (groups(j := None))"
proof (cases "n = 0")
  case True
  then show ?thesis
    using c d msum_delete [OF counts_finite(2) [OF c] assms(2), of "\<lambda>n. n"]
    by (auto simp: participants_drop_def counts_ok_def)
next
  case False
  let ?st = "st\<lparr>ph_registered := ph_registered st - n, ph_unarrived := ph_unarrived st - n\<rparr>"
  obtain r where "advance_if_ready ?st = Some r" "notify r = Some (woken, st')"
    using d False by (auto simp: participants_drop_def panic_simps Let_def)
  moreover have "counts_ok ?st parts (groups(j := None))"
    using c msum_delete [OF counts_finite(2) [OF c] assms(2), of "\<lambda>n. n"]
    by (auto simp: counts_ok_def)
  ultimately show ?thesis
    using advance_counts notify_snd by (metis prod.collapse)
qed

lemma counts_arrive:
  assumes c: "counts_ok st parts groups" and i: "parts i = Some p"
    and d: "phaser_arrive st p = Some (r, q, woken, st')"
  shows "counts_ok st' (parts(i \<mapsto> q)) groups"
proof (cases "ph_closed st")
  case True
  then show ?thesis using c d i by (auto simp: phaser_arrive_def fun_upd_idem)
next
  case False
  define n where "n = (if has_arrived (ph_phase st) p then 0 else (1::nat))"
  let ?st = "st\<lparr>ph_unarrived := ph_unarrived st - n\<rparr>"
  obtain x where x: "advance_if_ready ?st = Some x" "notify x = Some (woken, st')"
    and q: "q = p\<lparr>pp_pending := Some (ph_phase st)\<rparr>"
    using d False
    by (cases "has_arrived (ph_phase st) p")
      (auto simp: phaser_arrive_def panic_simps Let_def n_def has_arrived_def split: if_splits)
  have "counts_ok ?st (parts(i \<mapsto> q)) groups"
    using c i q msum_update [OF counts_finite(1) [OF c] i, of "\<lambda>p. 1" q]
      msum_update [OF counts_finite(1) [OF c] i, of "\<lambda>p. if has_arrived (ph_phase st) p then 0 else 1" q]
    by (auto simp: counts_ok_def n_def has_arrived_def)
  then show ?thesis
    using advance_counts x notify_snd by (metis prod.collapse)
qed

lemma counts_waited:
  assumes c: "counts_ok st parts groups" and i: "parts i = Some p" "pp_pending p = Some obs"
    and "completion st obs = Ready r" and "participant_waited p r = (r', q)"
  shows "counts_ok st (parts(i \<mapsto> q)) groups"
proof (cases r)
  case (Ok x)
  then have "obs \<noteq> ph_phase st" and q: "q = p\<lparr>pp_pending := None\<rparr>"
    using assms(4,5) by (auto simp: completion_def participant_waited_def split: if_splits)
  then show ?thesis
    using c i msum_update [OF counts_finite(1) [OF c] i(1), of "\<lambda>p. 1" q]
      msum_update [OF counts_finite(1) [OF c] i(1), of "\<lambda>p. if has_arrived (ph_phase st) p then 0 else 1" q]
    by (auto simp: counts_ok_def has_arrived_def)
next
  case (Err e)
  then show ?thesis using assms by (auto simp: participant_waited_def fun_upd_idem)
qed

lemma counts_drop_part:
  assumes c: "counts_ok st parts groups" and i: "parts i = Some p"
    and d: "participant_drop st p = Some (woken, st')"
  shows "counts_ok st' (parts(i := None)) groups"
proof -
  define n where "n = (if has_arrived (ph_phase st) p then 0 else (1::nat))"
  let ?st = "st\<lparr>ph_registered := ph_registered st - 1, ph_unarrived := ph_unarrived st - n\<rparr>"
  have "pp_registered p" using c i by (simp add: counts_ok_def)
  then obtain x where x: "advance_if_ready ?st = Some x" "notify x = Some (woken, st')"
    using d
    by (cases "has_arrived (ph_phase st) p")
      (auto simp: participant_drop_def do_deregister_def panic_simps Let_def n_def has_arrived_def
        split: if_splits)
  have "counts_ok ?st (parts(i := None)) groups"
    using c i msum_delete [OF counts_finite(1) [OF c] i, of "\<lambda>p. 1"]
      msum_delete [OF counts_finite(1) [OF c] i, of "\<lambda>p. if has_arrived (ph_phase st) p then 0 else 1"]
    by (auto simp: counts_ok_def n_def)
  then show ?thesis
    using advance_counts x notify_snd by (metis prod.collapse)
qed

section \<open>The observers\<close>

definition parked_at :: "nat \<Rightarrow> observers \<Rightarrow> nat \<Rightarrow> (waker_token \<times> waker) option" where
  "parked_at epoch W f = (case W f of Some (obs, e, k) \<Rightarrow> if e = epoch then k else None | None \<Rightarrow> None)"

definition waits_ok :: "phaser \<Rightarrow> nat \<Rightarrow> observers \<Rightarrow> waker list \<Rightarrow> bool" where
  "waits_ok st epoch W woken \<longleftrightarrow> ph_phase st = of_nat epoch \<and>
     (if ph_closed st then ph_waiters st = ws_new else reg.owned (ph_waiters st) (parked_at epoch W)) \<and>
     (\<forall>f obs e t w. W f = Some (obs, e, Some (t, w)) \<longrightarrow>
        obs = of_nat e \<and> e \<le> epoch \<and> (e < epoch \<or> ph_closed st \<longrightarrow> w \<in> set woken))"

lemma parked_at_upd [simp]:
  "parked_at epoch (W(f := x)) = (parked_at epoch W)
     (f := (case x of Some (obs, e, k) \<Rightarrow> if e = epoch then k else None | None \<Rightarrow> None))"
  by (auto simp: parked_at_def fun_eq_iff)

lemma parked_at_Some_iff: "parked_at epoch W f = Some p \<longleftrightarrow> (\<exists>obs. W f = Some (obs, epoch, Some p))"
  by (auto simp: parked_at_def split: option.splits)

lemma waits_ok_ws_inv: "waits_ok st epoch W woken \<Longrightarrow> ws_inv (ph_waiters st)"
  by (auto simp: waits_ok_def dest: reg.owned_inv split: if_splits)

text \<open>A completed phase wakes every observer parked in it.\<close>

lemma advance_waits:
  assumes w: "waits_ok st epoch W woken" and a: "advance_if_ready st = Some (b, st')"
    and n: "notify (b, st') = Some (new, st'')"
  shows "waits_ok st'' (if ph_phase st'' = ph_phase st then epoch else epoch + 1) W (woken @ new)"
proof (cases "ph_closed st \<or> ph_unarrived st \<noteq> 0")
  case True
  then have "st'' = st" using a n by (auto simp: advance_if_ready_def dest: notify_snd)
  then show ?thesis using w by (auto simp: waits_ok_def)
next
  case False
  then have o: "reg.owned (ph_waiters st) (parked_at epoch W)" using w by (simp add: waits_ok_def)
  obtain b' ws where ta: "ws_take_all (ph_waiters st) = Some (b', ws)" "wb_inv b'"
    "set (wb_list b') = {w. \<exists>f t. parked_at epoch W f = Some (t, w)}"
    "ws_inv ws" "reg.owned ws (Map.empty :: nat \<Rightarrow> (waker_token \<times> waker) option)"
    by (rule reg.wake [OF o])
  have st'': "st'' = st\<lparr>ph_phase := ph_phase st + 1, ph_unarrived := ph_registered st, ph_waiters := ws\<rparr>"
    and b: "b = b'"
    using a n False ta(1) by (auto simp: advance_if_ready_def dest: notify_snd)
  have new: "new = wb_list b" using n notify_eq [of b st'] ta(2) b by simp
  have "parked_at (epoch + 1) W f \<noteq> Some (t, x)" for f t x
    using w by (force simp: waits_ok_def parked_at_Some_iff)
  then have "parked_at (epoch + 1) W = Map.empty"
    by (metis ext not_None_eq surj_pair)
  moreover have "w \<in> set (woken @ new)" if "W f = Some (obs, e, Some (t, w))" for f obs e t w
    using w that ta(3) unfolding new b
    by (cases "e = epoch") (fastforce simp: waits_ok_def parked_at_Some_iff)+
  ultimately show ?thesis
    using w False ta(5) by (auto simp: waits_ok_def st'' le_Suc_eq)
qed

lemma waits_ok_counts:
  assumes "waits_ok st epoch W woken"
    and "ph_phase st' = ph_phase st" "ph_closed st' = ph_closed st" "ph_waiters st' = ph_waiters st"
  shows "waits_ok st' epoch W woken"
  using assms by (simp add: waits_ok_def)

definition phaser_inv :: "phaser_sys \<Rightarrow> bool" where
  "phaser_inv s \<longleftrightarrow> counts_ok (ps_st s) (ps_parts s) (ps_groups s) \<and>
     (ps_epoch s < 2 ^ 64 \<longrightarrow> waits_ok (ps_st s) (ps_epoch s) (ps_waits s) (ps_woken s))"

lemma of_nat_eq_64: "a < 2 ^ 64 \<Longrightarrow> b < 2 ^ 64 \<Longrightarrow> (of_nat a :: 64 word) = of_nat b \<longleftrightarrow> a = b"
  by (simp add: word_of_nat_eq_iff take_bit_eq_mod)

text \<open>What the operations that may complete the phase have in common.\<close>

definition advances :: "phaser \<Rightarrow> waker list \<Rightarrow> phaser \<Rightarrow> bool" where
  "advances st woken st' \<longleftrightarrow> woken = [] \<and> st' = st \<or>
     (\<exists>st1 r. ph_phase st1 = ph_phase st \<and> ph_closed st1 = ph_closed st \<and> ph_waiters st1 = ph_waiters st \<and>
        advance_if_ready st1 = Some r \<and> notify r = Some (woken, st'))"

lemma advancesI:
  "advance_if_ready st1 = Some r \<Longrightarrow> notify r = Some (woken, st') \<Longrightarrow> ph_phase st1 = ph_phase st \<Longrightarrow>
   ph_closed st1 = ph_closed st \<Longrightarrow> ph_waiters st1 = ph_waiters st \<Longrightarrow> advances st woken st'"
  unfolding advances_def by blast

lemma advances_refl: "advances st [] st"
  by (simp add: advances_def)

lemma op_advances:
  "participants_drop st n = Some (woken, st') \<Longrightarrow> advances st woken st'"
  "phaser_arrive st p = Some (x, q, woken, st') \<Longrightarrow> advances st woken st'"
  "participant_drop st p = Some (woken, st') \<Longrightarrow> advances st woken st'"
  by (auto simp: participants_drop_def phaser_arrive_def participant_drop_def do_deregister_def
      panic_simps Let_def split: if_splits intro: advancesI advances_refl)

lemma advances_waits:
  assumes "waits_ok st epoch W woken" and "advances st new st'"
  shows "waits_ok st' (if ph_phase st' = ph_phase st then epoch else epoch + 1) W (woken @ new)"
proof (cases "new = [] \<and> st' = st")
  case False
  then obtain st1 b st2 where h: "ph_phase st1 = ph_phase st" "ph_closed st1 = ph_closed st"
    "ph_waiters st1 = ph_waiters st" "advance_if_ready st1 = Some (b, st2)"
    "notify (b, st2) = Some (new, st')"
    using assms(2) unfolding advances_def by auto
  have "waits_ok st1 epoch W woken" by (rule waits_ok_counts [OF assms(1) h(1-3)])
  from advance_waits [OF this h(4,5)] h(1) show ?thesis by simp
qed (use assms in simp)

lemma close_waits:
  assumes "waits_ok st epoch W woken" and "phaser_close st = (new, st')"
  shows "waits_ok st' epoch W (woken @ new)" and "ph_phase st' = ph_phase st"
proof -
  show "ph_phase st' = ph_phase st"
    using assms(2) by (auto simp: phaser_close_def Let_def split: if_splits)
  show "waits_ok st' epoch W (woken @ new)"
  proof (cases "ph_closed st")
    case True
    with assms show ?thesis by (auto simp: phaser_close_def)
  next
    case False
    then have o: "reg.owned (ph_waiters st) (parked_at epoch W)" and
      st': "st' = st\<lparr>ph_closed := True, ph_waiters := ws_new\<rparr>" "new = ws_wake_all (ph_waiters st)"
      using assms by (auto simp: waits_ok_def phaser_close_def Let_def)
    have "w \<in> set (woken @ new)" if "W f = Some (obs, e, Some (t, w))" for f obs e t w
      using assms(1) that owned_wake_all [OF o] unfolding st'(2)
      by (cases "e = epoch") (fastforce simp: waits_ok_def parked_at_Some_iff)+
    then show ?thesis using assms(1) by (auto simp: waits_ok_def st'(1))
  qed
qed

lemma poll_waits:
  assumes w: "waits_ok st epoch W woken" and b: "epoch < 2 ^ 64" and f: "W f = Some (obs, e, k)"
    and p: "phaser_wait_poll st obs (map_option fst k) wk = Some (res, tok, st')"
  shows "waits_ok st' epoch (W(f \<mapsto> (obs, epoch, map_option (\<lambda>t. (t, wk)) tok))) woken"
proof (cases "is_ready (completion st obs)")
  case True
  then have r: "st' = st" "tok = None" using p by (auto simp: phaser_wait_poll_def)
  have "obs \<noteq> ph_phase st \<or> ph_closed st" using True by (auto simp: completion_def split: if_splits)
  then have "ph_closed st \<or> parked_at epoch W f = None"
    using w f by (cases k) (auto simp: waits_ok_def parked_at_def split: if_splits)
  then show ?thesis using w r by (cases "ph_closed st") (auto simp: waits_ok_def fun_upd_idem)
next
  case False
  then have obs: "obs = of_nat epoch" and nc: "\<not> ph_closed st"
    using w by (auto simp: completion_def waits_ok_def split: if_splits)
  have k: "parked_at epoch W f = k"
  proof (cases k)
    case (Some x)
    then have "obs = of_nat e" "e \<le> epoch" using w f by (cases x; force simp: waits_ok_def)+
    then show ?thesis using f b obs of_nat_eq_64 [of e epoch] by (simp add: parked_at_def)
  qed (use f in \<open>simp add: parked_at_def\<close>)
  obtain r ws where reg: "ws_register (ph_waiters st) (map_option fst k) wk = Some (r, tok, ws)"
    and st': "st' = st\<lparr>ph_waiters := ws\<rparr>"
    using p False by (auto simp: phaser_wait_poll_def panic_simps)
  have o: "reg.owned (ph_waiters st) (parked_at epoch W)" using w nc by (simp add: waits_ok_def)
  obtain t where "tok = Some t" "reg.owned ws ((parked_at epoch W)(f \<mapsto> (t, wk)))"
    by (rule reg.park [OF o reg [folded k]])
  then show ?thesis using w nc obs by (auto simp: waits_ok_def st')
qed

lemma waits_live:
  assumes w: "waits_ok st epoch W woken" and b: "epoch < 2 ^ 64" and f: "W f = Some (obs, e, Some k)"
    and "\<not> is_ready (completion st obs)"
  shows "\<not> ph_closed st" and "parked_at epoch W f = Some k"
proof -
  have obs: "obs = of_nat epoch" and nc: "\<not> ph_closed st"
    using w assms(4) by (auto simp: completion_def waits_ok_def split: if_splits)
  show "\<not> ph_closed st" by fact
  have "obs = of_nat e" "e \<le> epoch" using w f by (cases k; force simp: waits_ok_def)+
  then show "parked_at epoch W f = Some k"
    using f b obs of_nat_eq_64 [of e epoch] by (simp add: parked_at_def)
qed

lemma drop_waits:
  assumes w: "waits_ok st epoch W woken" and b: "epoch < 2 ^ 64" and f: "W f = Some (obs, e, k)"
    and p: "phaser_wait_drop st obs (map_option fst k) = Some st'"
  shows "waits_ok st' epoch (W(f := None)) woken"
proof (cases "k \<noteq> None \<and> \<not> is_ready (completion st obs)")
  case True
  then obtain t x where k: "k = Some (t, x)" by auto
  have c: "parked_at epoch W f = Some (t, x)" and nc: "\<not> ph_closed st"
    using waits_live [OF w b, of f obs e "(t, x)"] f k True by auto
  have o: "reg.owned (ph_waiters st) (parked_at epoch W)" using w nc by (simp add: waits_ok_def)
  obtain ws where "ws_unregister (ph_waiters st) (Some t) = Some (Some x, None, ws)"
    "reg.owned ws ((parked_at epoch W)(f := None))"
    by (rule reg.unpark [OF o c])
  moreover from this have "st' = st\<lparr>ph_waiters := ws\<rparr>"
    using p True k by (auto simp: phaser_wait_drop_def)
  ultimately show ?thesis using w nc by (auto simp: waits_ok_def)
next
  case False
  then have "st' = st" using p by (auto simp: phaser_wait_drop_def split: if_splits)
  moreover have "ph_closed st \<or> parked_at epoch W f = None"
    using False w f by (cases k) (auto simp: waits_ok_def parked_at_def completion_def split: if_splits)
  ultimately show ?thesis using w by (cases "ph_closed st") (auto simp: waits_ok_def fun_upd_idem)
qed

lemma do_register_waits:
  assumes "waits_ok st epoch W woken" and "do_register st n = Some (r, st')"
  shows "waits_ok st' epoch W woken"
  using assms by (auto simp: do_register_def panic_simps waits_ok_def split: if_splits)

lemma register_one_Ok:
  assumes "register_one st = Some (Ok p, st')"
  shows "do_register st 1 = Some (Ok (), st')" and "p = participant_new"
proof -
  obtain r where "do_register st 1 = Some (r, st')"
    and "(case r of Ok u \<Rightarrow> Ok participant_new | Err e \<Rightarrow> Err e) = Ok p"
    using assms by (auto simp: register_one_def bind_Some_iff)
  then show "do_register st 1 = Some (Ok (), st')" and "p = participant_new" by (cases r; simp)+
qed

lemma phaser_register_Ok:
  assumes "phaser_register st n = Some (Ok m, st')"
  shows "do_register st n = Some (Ok (), st')" and "m = n"
proof -
  obtain r where "do_register st n = Some (r, st')" and "(case r of Ok u \<Rightarrow> Ok n | Err e \<Rightarrow> Err e) = Ok m"
    using assms by (auto simp: phaser_register_def bind_Some_iff)
  then show "do_register st n = Some (Ok (), st')" and "m = n" by (cases r; simp)+
qed

lemma observe_waits:
  assumes "waits_ok st epoch W woken" and "W f = None"
  shows "waits_ok st epoch (W(f \<mapsto> (obs, epoch, None))) woken"
proof -
  have "parked_at epoch W f = None" using assms(2) by (simp add: parked_at_def)
  then show ?thesis using assms(1) by (auto simp: waits_ok_def fun_upd_idem split: if_splits)
qed

lemma phaser_step_waits:
  "phaser_step s s' \<Longrightarrow> ps_epoch s < 2 ^ 64 \<Longrightarrow>
   waits_ok (ps_st s) (ps_epoch s) (ps_waits s) (ps_woken s) \<Longrightarrow>
   waits_ok (ps_st s') (ps_epoch s') (ps_waits s') (ps_woken s')"
proof (induction rule: phaser_step.induct)
  case (one s p st i)
  then show ?case using do_register_waits [OF _ register_one_Ok(1) [OF one(1)]] by simp
next
  case (bulk s n m st j)
  then show ?case using do_register_waits [OF _ phaser_register_Ok(1) [OF bulk(1)]] by simp
next
  case (drop_group s j n woken st)
  then show ?case using advances_waits [OF drop_group(4) op_advances(1) [OF drop_group(2)]] by (simp add: publish_def)
next
  case (arrive s i p r q woken st)
  then show ?case using advances_waits [OF arrive(4) op_advances(2) [OF arrive(2)]] by (simp add: publish_def)
next
  case (drop_part s i p woken st)
  then show ?case using advances_waits [OF drop_part(4) op_advances(3) [OF drop_part(2)]] by (simp add: publish_def)
next
  case (close s woken st)
  then show ?case using close_waits [OF close(3,1)] by (simp add: publish_def)
next
  case (observe s f obs)
  then show ?case using observe_waits [OF observe(3,1)] by (simp del: fun_upd_apply)
next
  case (poll s f obs e k w res tok st)
  then show ?case using poll_waits [OF poll(4,3,1,2)] by (simp del: fun_upd_apply)
next
  case (drop_wait s f obs e k st)
  then show ?case using drop_waits [OF drop_wait(4,3,1,2)] by (simp del: fun_upd_apply)
qed simp_all

lemma counts_ok_same:
  assumes "counts_ok st parts groups"
    and "ph_phase st' = ph_phase st" "ph_registered st' = ph_registered st" "ph_unarrived st' = ph_unarrived st"
  shows "counts_ok st' parts groups"
  using assms by (simp add: counts_ok_def)

lemma phaser_step_counts:
  "phaser_step s s' \<Longrightarrow> counts_ok (ps_st s) (ps_parts s) (ps_groups s) \<Longrightarrow>
   counts_ok (ps_st s') (ps_parts s') (ps_groups s')"
proof (induction rule: phaser_step.induct)
  case (one s p st i)
  then show ?case
    using counts_register(2) [OF one(3) register_one_Ok(1) [OF one(1)] refl one(2)]
      register_one_Ok(2) [OF one(1)] by (simp del: fun_upd_apply)
next
  case (bulk s n m st j)
  then show ?case
    using counts_register(1) [OF bulk(3) phaser_register_Ok(1) [OF bulk(1)] bulk(2)]
      phaser_register_Ok(2) [OF bulk(1)] by (simp del: fun_upd_apply)
next
  case (close s woken st)
  then show ?case
    by (auto simp: publish_def phaser_close_def Let_def split: if_splits elim!: counts_ok_same)
next
  case (poll s f obs e k w res tok st)
  then show ?case
    by (auto simp: phaser_wait_poll_def panic_simps split: if_splits elim!: counts_ok_same)
next
  case (drop_wait s f obs e k st)
  then show ?case
    by (auto simp: phaser_wait_drop_def panic_simps split: if_splits elim!: counts_ok_same)
qed (simp_all add: publish_def counts_yield counts_drop_group counts_arrive counts_waited
      counts_drop_part del: fun_upd_apply)

lemma phaser_epoch_mono: "phaser_step s s' \<Longrightarrow> ps_epoch s \<le> ps_epoch s'"
  by (induction rule: phaser_step.induct) (auto simp: publish_def)

lemma phaser_step_inv: "phaser_step s s' \<Longrightarrow> phaser_inv s \<Longrightarrow> phaser_inv s'"
  using phaser_step_counts phaser_step_waits phaser_epoch_mono unfolding phaser_inv_def
  by (meson le_less_trans)

lemma phaser_init_inv: "phaser_inv phaser_init"
proof -
  have "parked_at 0 Map.empty = Map.empty" by (simp add: parked_at_def fun_eq_iff)
  then show ?thesis
    by (auto simp: phaser_inv_def phaser_init_def phaser_new_def counts_ok_def waits_ok_def)
qed

lemma phaser_reach_inv: "phaser_step\<^sup>*\<^sup>* phaser_init s \<Longrightarrow> phaser_inv s"
  by (induction rule: rtranclp_induct) (auto intro: phaser_init_inv phaser_step_inv)

section \<open>What the phaser promises\<close>

lemma counts_bounds:
  assumes c: "counts_ok st parts groups"
  shows "ph_unarrived st \<le> ph_registered st"
    and "parts i = Some p \<Longrightarrow> \<not> has_arrived (ph_phase st) p \<Longrightarrow> 1 \<le> ph_unarrived st"
    and "parts i = Some p \<Longrightarrow> 1 \<le> ph_registered st"
    and "groups j = Some n \<Longrightarrow> n \<le> ph_unarrived st"
proof -
  note fin = counts_finite [OF c]
  show "ph_unarrived st \<le> ph_registered st"
    using c msum_mono [of parts "\<lambda>p. if has_arrived (ph_phase st) p then 0 else 1" "\<lambda>p. 1"]
    by (simp add: counts_ok_def)
  show "1 \<le> ph_unarrived st" if "parts i = Some p" "\<not> has_arrived (ph_phase st) p"
    using c that msum_ge [OF fin(1) that(1), of "\<lambda>p. if has_arrived (ph_phase st) p then 0 else 1"]
    by (simp add: counts_ok_def)
  show "1 \<le> ph_registered st" if "parts i = Some p"
    using c that msum_ge [OF fin(1) that, of "\<lambda>p. 1"] by (simp add: counts_ok_def)
  show "n \<le> ph_unarrived st" if "groups j = Some n"
    using c that msum_ge [OF fin(2) that, of "\<lambda>n. n"] by (simp add: counts_ok_def)
qed

text \<open>No subtraction underflows: a participant that counts is counted.\<close>

lemma phaser_arrive_total:
  assumes "counts_ok st parts groups" and "parts i = Some p" and "ws_inv (ph_waiters st)"
  shows "\<exists>x. phaser_arrive st p = Some x"
proof -
  let ?n = "if has_arrived (ph_phase st) p then 0 else 1"
  obtain b st' where "advance_if_ready (st\<lparr>ph_unarrived := ph_unarrived st - ?n\<rparr>) = Some (b, st')"
    "notify (b, st') = Some (wb_list b, st')"
    by (rule advance_eq [of "st\<lparr>ph_unarrived := ph_unarrived st - ?n\<rparr>"]) (use assms(3) in simp)
  then show ?thesis
    using counts_bounds(2) [OF assms(1,2)]
    by (cases "has_arrived (ph_phase st) p")
      (auto simp: phaser_arrive_def has_arrived_def Let_def checked_sub_simp)
qed

lemma participant_drop_total:
  assumes "counts_ok st parts groups" and "parts i = Some p" and "ws_inv (ph_waiters st)"
  shows "\<exists>x. participant_drop st p = Some x"
proof -
  let ?n = "if has_arrived (ph_phase st) p then 0 else 1"
  let ?st = "st\<lparr>ph_registered := ph_registered st - 1, ph_unarrived := ph_unarrived st - ?n\<rparr>"
  obtain b st' where "advance_if_ready ?st = Some (b, st')" "notify (b, st') = Some (wb_list b, st')"
    by (rule advance_eq [of ?st]) (use assms(3) in simp)
  then show ?thesis
    using counts_bounds(2,3) [OF assms(1,2)]
    by (cases "has_arrived (ph_phase st) p")
      (auto simp: participant_drop_def do_deregister_def has_arrived_def Let_def checked_sub_simp)
qed

lemma participants_drop_total:
  assumes "counts_ok st parts groups" and "groups j = Some n" and "ws_inv (ph_waiters st)"
  shows "\<exists>x. participants_drop st n = Some x"
proof -
  let ?st = "st\<lparr>ph_registered := ph_registered st - n, ph_unarrived := ph_unarrived st - n\<rparr>"
  obtain b st' where "advance_if_ready ?st = Some (b, st')" "notify (b, st') = Some (wb_list b, st')"
    by (rule advance_eq [of ?st]) (use assms(3) in simp)
  moreover have "n \<le> ph_unarrived st" "n \<le> ph_registered st"
    using counts_bounds(4) [OF assms(1,2)] counts_bounds(1) [OF assms(1)] by simp_all
  ultimately show ?thesis
    by (auto simp: participants_drop_def Let_def checked_sub_simp)
qed

text \<open>The phase moves on with an arrival exactly when nobody else is still to come.\<close>

lemma phaser_arrive_advances_iff:
  assumes c: "counts_ok st parts groups" and i: "parts i = Some p"
    and a: "phaser_arrive st p = Some (Ok phase, q, woken, st')"
  shows "phase = ph_phase st" and "q = p\<lparr>pp_pending := Some phase\<rparr>"
    and "ph_phase st' = (if (\<forall>k r. parts k = Some r \<longrightarrow> k = i \<or> has_arrived phase r) \<and>
           (\<forall>j n. groups j = Some n \<longrightarrow> n = 0) then phase + 1 else phase)"
proof -
  define n where "n = (if has_arrived (ph_phase st) p then 0 else (1::nat))"
  obtain x where x: "advance_if_ready (st\<lparr>ph_unarrived := ph_unarrived st - n\<rparr>) = Some x"
    "notify x = Some (woken, st')" and nc: "\<not> ph_closed st"
    and ph: "phase = ph_phase st" "q = p\<lparr>pp_pending := Some (ph_phase st)\<rparr>"
    using a by (cases "has_arrived (ph_phase st) p")
      (auto simp: phaser_arrive_def panic_simps Let_def n_def has_arrived_def split: if_splits)
  show "phase = ph_phase st" and "q = p\<lparr>pp_pending := Some phase\<rparr>" using ph by simp_all
  let ?f = "\<lambda>p. if has_arrived (ph_phase st) p then 0 else (1::nat)"
  note fin = counts_finite [OF c]
  have "ph_unarrived st - n = msum ?f (parts(i := None)) + msum (\<lambda>n. n) groups"
    using c msum_delete [OF fin(1) i, of ?f] by (simp add: counts_ok_def n_def)
  then have "ph_unarrived st - n = 0 \<longleftrightarrow> (\<forall>k r. parts k = Some r \<longrightarrow> k = i \<or> has_arrived phase r) \<and>
      (\<forall>j n. groups j = Some n \<longrightarrow> n = 0)"
    using fin ph by (auto simp: msum_zero_iff split: if_splits)
  moreover have "ph_phase st' = (if ph_unarrived st - n = 0 then phase + 1 else phase)"
    using x nc ph by (auto simp: advance_if_ready_def panic_simps dest!: notify_snd split: if_splits)
  ultimately show "ph_phase st' = (if (\<forall>k r. parts k = Some r \<longrightarrow> k = i \<or> has_arrived phase r) \<and>
           (\<forall>j n. groups j = Some n \<longrightarrow> n = 0) then phase + 1 else phase)"
    by simp
qed

section \<open>A concrete run\<close>

text \<open>One participant registers, an observer parks with waker 7, the participant arrives.\<close>

definition demo_phaser :: "64 word \<Rightarrow> waker slot list \<Rightarrow> phaser" where
  "demo_phaser phase slots = \<lparr>ph_phase = phase, ph_closed = False, ph_registered = 1, ph_unarrived = 1,
     ph_waiters = \<lparr>ws_wakers = \<lparr>ar_slots = slots, ar_vacant_head = None, ar_len = length slots\<rparr>\<rparr>\<rparr>"

definition demo_observed :: "participant \<Rightarrow> phaser \<Rightarrow> nat \<Rightarrow> waker list \<Rightarrow> phaser_sys" where
  "demo_observed p st epoch woken = \<lparr>ps_st = st, ps_parts = [0 \<mapsto> p], ps_groups = Map.empty,
     ps_waits = [0 \<mapsto> (0, 0, Some (WakerToken (SlotId (NonZero 0)), 7))], ps_epoch = epoch, ps_woken = woken\<rparr>"

lemma demo_arrival:
  "phaser_arrive (demo_phaser 0 [Occupied 7]) participant_new =
     Some (Ok 0, participant_new\<lparr>pp_pending := Some 0\<rparr>, [7], demo_phaser 1 [])"
  by (simp add: op_defs demo_phaser_def map_filter_simps take_Suc hd_conv_nth)

lemma demo_reach_observed:
  "phaser_step\<^sup>*\<^sup>* phaser_init (demo_observed participant_new (demo_phaser 0 [Occupied 7]) 0 [])"
proof -
  let ?s1 = "phaser_init\<lparr>ps_st := demo_phaser 0 [], ps_parts := [0 \<mapsto> participant_new]\<rparr>"
  let ?s2 = "?s1\<lparr>ps_waits := [0 \<mapsto> (0, 0, None)]\<rparr>"
  have "register_one phaser_new = Some (Ok participant_new, demo_phaser 0 [])"
    by (simp add: op_defs demo_phaser_def)
  then have "phaser_step phaser_init ?s1"
    using phaser_step.one [of phaser_init participant_new "demo_phaser 0 []" 0] by (simp add: phaser_init_def)
  moreover have "phaser_step ?s1 ?s2"
    using phaser_step.observe [of ?s1 0 0] by (simp add: phaser_init_def)
  moreover have "phaser_wait_poll (demo_phaser 0 []) 0 None 7 =
      Some (Pending, Some (WakerToken (SlotId (NonZero 0))), demo_phaser 0 [Occupied 7])"
    by (simp add: op_defs demo_phaser_def)
  then have "phaser_step ?s2 (demo_observed participant_new (demo_phaser 0 [Occupied 7]) 0 [])"
    using phaser_step.poll [of ?s2 0 0 0 None 7] by (simp add: phaser_init_def demo_observed_def)
  ultimately show ?thesis by (meson run_step rtranclp.rtrancl_refl)
qed

lemma demo_reach_advanced:
  "phaser_step\<^sup>*\<^sup>* phaser_init
     (demo_observed (participant_new\<lparr>pp_pending := Some 0\<rparr>) (demo_phaser 1 []) 1 [7])"
proof -
  have "phaser_step (demo_observed participant_new (demo_phaser 0 [Occupied 7]) 0 [])
     (demo_observed (participant_new\<lparr>pp_pending := Some 0\<rparr>) (demo_phaser 1 []) 1 [7])"
    using phaser_step.arrive [of "demo_observed participant_new (demo_phaser 0 [Occupied 7]) 0 []" 0] demo_arrival
    by (simp add: demo_observed_def publish_def demo_phaser_def)
  with demo_reach_observed show ?thesis by (rule run_step)
qed

section \<open>Properties\<close>

text \<open>
  C11: the party counts are exact in every reachable state: the registered parties are the
  live participants and the unyielded ones, and the unarrived parties are those of them whose
  pending phase is not the current one.
\<close>

theorem phaser_counts_parties:
  assumes "phaser_step\<^sup>*\<^sup>* phaser_init s"
  shows "ph_registered (ps_st s) = msum (\<lambda>p. 1) (ps_parts s) + msum (\<lambda>n. n) (ps_groups s) \<and>
    ph_unarrived (ps_st s) =
      msum (\<lambda>p. if has_arrived (ph_phase (ps_st s)) p then 0 else 1) (ps_parts s) + msum (\<lambda>n. n) (ps_groups s) \<and>
    arrived_parties (ps_st s) = Some (ph_registered (ps_st s) - ph_unarrived (ps_st s))"
proof -
  have c: "counts_ok (ps_st s) (ps_parts s) (ps_groups s)"
    using phaser_reach_inv [OF assms] by (simp add: phaser_inv_def)
  then show ?thesis
    using counts_bounds(1) [OF c] by (simp add: counts_ok_def arrived_parties_def checked_sub_def)
qed

theorem phaser_counts_parties_witness:
  "ph_unarrived (ps_st (demo_observed participant_new (demo_phaser 0 [Occupied 7]) 0 [])) =
   msum (\<lambda>p. if has_arrived 0 p then 0 else 1) [0::nat \<mapsto> participant_new]"
  using phaser_counts_parties [OF demo_reach_observed]
  by (simp add: demo_observed_def demo_phaser_def)

text \<open>
  C12: an arrival completes the phase exactly when it is the last one missing: every other
  participant has arrived and no registered participant is still unyielded.
\<close>

theorem phaser_advances_on_last_arrival:
  assumes "phaser_step\<^sup>*\<^sup>* phaser_init s" and "ps_parts s i = Some p"
    and "phaser_arrive (ps_st s) p = Some (Ok phase, q, woken, st')"
  shows "phase = ph_phase (ps_st s) \<and> q = p\<lparr>pp_pending := Some phase\<rparr> \<and>
    ph_phase st' = (if (\<forall>k r. ps_parts s k = Some r \<longrightarrow> k = i \<or> has_arrived phase r) \<and>
       (\<forall>j n. ps_groups s j = Some n \<longrightarrow> n = 0) then phase + 1 else phase)"
proof -
  have c: "counts_ok (ps_st s) (ps_parts s) (ps_groups s)"
    using phaser_reach_inv [OF assms(1)] by (simp add: phaser_inv_def)
  from phaser_arrive_advances_iff [OF c assms(2,3)] show ?thesis by blast
qed

theorem phaser_advances_on_last_arrival_witness:
  "phaser_arrive (demo_phaser 0 [Occupied 7]) participant_new =
     Some (Ok 0, participant_new\<lparr>pp_pending := Some 0\<rparr>, [7], demo_phaser 1 []) \<and>
   ph_phase (demo_phaser 1 []) = 1"
  using demo_arrival phaser_advances_on_last_arrival [OF demo_reach_observed, of 0 participant_new]
  by (simp add: demo_observed_def)

text \<open>
  C13: as long as the phase number has not wrapped around, an observer that parked in a phase
  completed or closed since has had the waker of its last poll woken.
\<close>

theorem phaser_wakes_observers:
  assumes "phaser_step\<^sup>*\<^sup>* phaser_init s" and "ps_epoch s < 2 ^ 64"
    and "ps_waits s f = Some (observed, e, Some (t, w))"
    and "is_ready (completion (ps_st s) observed)"
  shows "w \<in> set (ps_woken s)"
proof -
  have w: "waits_ok (ps_st s) (ps_epoch s) (ps_waits s) (ps_woken s)"
    using phaser_reach_inv [OF assms(1)] assms(2) by (simp add: phaser_inv_def)
  then have "observed = of_nat e" "e \<le> ps_epoch s" "ph_phase (ps_st s) = of_nat (ps_epoch s)"
    "e < ps_epoch s \<or> ph_closed (ps_st s) \<Longrightarrow> w \<in> set (ps_woken s)"
    using assms(3) by (force simp: waits_ok_def)+
  with assms(4) show ?thesis
    by (cases "e = ps_epoch s") (auto simp: completion_def split: if_splits)
qed

theorem phaser_wakes_observers_witness:
  "is_ready (completion (demo_phaser 1 []) 0) \<and>
   (7::waker) \<in> set (ps_woken (demo_observed (participant_new\<lparr>pp_pending := Some 0\<rparr>) (demo_phaser 1 []) 1 [7]))"
  using phaser_wakes_observers [OF demo_reach_advanced, of 0 0 0 "WakerToken (SlotId (NonZero 0))" 7]
  by (simp add: demo_observed_def demo_phaser_def completion_def)

end
