(* ===== verification/ZeroGate.thy ===== *)
theory ZeroGate
  imports WakerSet
begin

text \<open>
  The gate shared by \<open>internal/countdown.rs\<close> and \<open>waitgroup/mod.rs\<close>: an atomic
  counter whose zero is terminal, beside a locked waker set. The counter is changed outside
  the lock, so the development keeps the two apart: \<open>gate_step\<close> interleaves single loads,
  read-modify-writes and lock regions of any number of threads. A thread's counter program
  is a parameter \<open>cstep\<close>; the countdown and the wait group each provide theirs.
\<close>

record 'c gate =
  gt_count :: 'c
  gt_waiters :: waker_set

datatype 'p after = Continue 'p | Return | Notify

text \<open>
  Program points of one thread: inside a counter program, about to notify, and the points of
  \<open>poll_wait\<close> and \<open>unregister\<close> before the lock, after it, and after the second check.
\<close>

datatype 'p gate_pc =
    Count 'p
  | Wake_All
  | Poll nat waker
  | Poll_Lock nat waker
  | Poll_Check nat waker
  | Poll_Register nat waker
  | Drop_Lock nat
  | Drop_Check nat
  | Drop_Unregister nat

fun uses :: "'p gate_pc \<Rightarrow> nat option" where
  "uses (Count p) = None"
| "uses Wake_All = None"
| "uses (Poll f w) = Some f"
| "uses (Poll_Lock f w) = Some f"
| "uses (Poll_Check f w) = Some f"
| "uses (Poll_Register f w) = Some f"
| "uses (Drop_Lock f) = Some f"
| "uses (Drop_Check f) = Some f"
| "uses (Drop_Unregister f) = Some f"

fun holds_lock :: "'p gate_pc \<Rightarrow> bool" where
  "holds_lock (Poll_Check f w) = True"
| "holds_lock (Poll_Register f w) = True"
| "holds_lock (Drop_Check f) = True"
| "holds_lock (Drop_Unregister f) = True"
| "holds_lock _ = False"

fun committed :: "'p gate_pc \<Rightarrow> bool" where
  "committed (Poll_Register f w) = True"
| "committed (Drop_Unregister f) = True"
| "committed _ = False"

fun dropping :: "'p gate_pc \<Rightarrow> bool" where
  "dropping (Drop_Lock f) = True"
| "dropping (Drop_Check f) = True"
| "dropping (Drop_Unregister f) = True"
| "dropping _ = False"

text \<open>
  A live future is its token; beside the token stands the waker of the poll that left it,
  which the code does not store. \<open>sy_taken\<close> and \<open>sy_woken\<close> record the notification.
\<close>

record ('p, 'c) gate_sys =
  sy_gate :: "'c gate"
  sy_lock :: "nat option"
  sy_pc :: "nat \<Rightarrow> 'p gate_pc option"
  sy_fut :: "nat \<Rightarrow> (waker_token \<times> waker) option option"
  sy_taken :: bool
  sy_woken :: "waker list"

abbreviation sy_count :: "('p, 'c) gate_sys \<Rightarrow> 'c" where
  "sy_count s \<equiv> gt_count (sy_gate s)"

abbreviation sy_waiters :: "('p, 'c) gate_sys \<Rightarrow> waker_set" where
  "sy_waiters s \<equiv> gt_waiters (sy_gate s)"

definition busy :: "('p, 'c) gate_sys \<Rightarrow> nat \<Rightarrow> bool" where
  "busy s f \<longleftrightarrow> (\<exists>t p. sy_pc s t = Some p \<and> uses p = Some f)"

definition set_pc :: "nat \<Rightarrow> 'p gate_pc option \<Rightarrow> ('p, 'c) gate_sys \<Rightarrow> ('p, 'c) gate_sys" where
  "set_pc t p s = s\<lparr>sy_pc := (sy_pc s)(t := p)\<rparr>"

definition set_fut ::
  "nat \<Rightarrow> (waker_token \<times> waker) option option \<Rightarrow> ('p, 'c) gate_sys \<Rightarrow> ('p, 'c) gate_sys" where
  "set_fut f x s = s\<lparr>sy_fut := (sy_fut s)(f := x)\<rparr>"

definition set_waiters :: "waker_set \<Rightarrow> ('p, 'c) gate_sys \<Rightarrow> ('p, 'c) gate_sys" where
  "set_waiters ws s = s\<lparr>sy_gate := (sy_gate s)\<lparr>gt_waiters := ws\<rparr>\<rparr>"

definition set_count :: "'c \<Rightarrow> ('p, 'c) gate_sys \<Rightarrow> ('p, 'c) gate_sys" where
  "set_count c s = s\<lparr>sy_gate := (sy_gate s)\<lparr>gt_count := c\<rparr>\<rparr>"

definition set_lock :: "nat option \<Rightarrow> ('p, 'c) gate_sys \<Rightarrow> ('p, 'c) gate_sys" where
  "set_lock l s = s\<lparr>sy_lock := l\<rparr>"

lemmas gate_sets = set_pc_def set_fut_def set_waiters_def set_count_def set_lock_def

definition gate_init :: "'c::zero \<Rightarrow> ('p, 'c) gate_sys" where
  "gate_init c = \<lparr>sy_gate = \<lparr>gt_count = c, gt_waiters = ws_new\<rparr>, sy_lock = None,
     sy_pc = Map.empty, sy_fut = Map.empty, sy_taken = (c = 0), sy_woken = []\<rparr>"

fun after_pc :: "'p after \<Rightarrow> 'p gate_pc option" where
  "after_pc (Continue p) = Some (Count p)"
| "after_pc Return = None"
| "after_pc Notify = Some Wake_All"

inductive gate_step ::
  "('p \<Rightarrow> 'c::zero \<Rightarrow> 'c \<Rightarrow> 'p after \<Rightarrow> bool) \<Rightarrow> ('p, 'c) gate_sys \<Rightarrow> ('p, 'c) gate_sys \<Rightarrow> bool"
  for cstep where
  call: "sy_pc s t = None \<Longrightarrow> gate_step cstep s (set_pc t (Some (Count p)) s)"
| count: "sy_pc s t = Some (Count p) \<Longrightarrow> cstep p (sy_count s) c a \<Longrightarrow>
    gate_step cstep s (set_pc t (after_pc a) (set_count c s))"
| wake_all: "sy_pc s t = Some Wake_All \<Longrightarrow> sy_lock s = None \<Longrightarrow>
    gate_step cstep s (set_pc t None (set_waiters ws_new
      (s\<lparr>sy_taken := True, sy_woken := sy_woken s @ ws_wake_all (sy_waiters s)\<rparr>)))"
| spawn: "sy_fut s f = None \<Longrightarrow> gate_step cstep s (set_fut f (Some None) s)"
| poll: "sy_pc s t = None \<Longrightarrow> sy_fut s f \<noteq> None \<Longrightarrow> \<not> busy s f \<Longrightarrow>
    gate_step cstep s (set_pc t (Some (Poll f w)) s)"
| poll_fast: "sy_pc s t = Some (Poll f w) \<Longrightarrow> sy_count s = 0 \<Longrightarrow>
    gate_step cstep s (set_pc t None (set_fut f (Some None) s))"
| poll_slow: "sy_pc s t = Some (Poll f w) \<Longrightarrow> sy_count s \<noteq> 0 \<Longrightarrow>
    gate_step cstep s (set_pc t (Some (Poll_Lock f w)) s)"
| poll_lock: "sy_pc s t = Some (Poll_Lock f w) \<Longrightarrow> sy_lock s = None \<Longrightarrow>
    gate_step cstep s (set_pc t (Some (Poll_Check f w)) (set_lock (Some t) s))"
| poll_zero: "sy_pc s t = Some (Poll_Check f w) \<Longrightarrow> sy_count s = 0 \<Longrightarrow>
    gate_step cstep s (set_pc t None (set_lock None (set_fut f (Some None) s)))"
| poll_nonzero: "sy_pc s t = Some (Poll_Check f w) \<Longrightarrow> sy_count s \<noteq> 0 \<Longrightarrow>
    gate_step cstep s (set_pc t (Some (Poll_Register f w)) s)"
| poll_register: "sy_pc s t = Some (Poll_Register f w) \<Longrightarrow> sy_fut s f = Some k \<Longrightarrow>
    ws_register (sy_waiters s) (map_option fst k) w = Some (r, Some tok, ws) \<Longrightarrow>
    gate_step cstep s
      (set_pc t None (set_lock None (set_waiters ws (set_fut f (Some (Some (tok, w))) s))))"
| drop_bare: "sy_fut s f = Some None \<Longrightarrow> \<not> busy s f \<Longrightarrow> gate_step cstep s (set_fut f None s)"
| drop_token: "sy_pc s t = None \<Longrightarrow> sy_fut s f = Some (Some k) \<Longrightarrow> \<not> busy s f \<Longrightarrow>
    gate_step cstep s (set_pc t (Some (Drop_Lock f)) s)"
| drop_lock: "sy_pc s t = Some (Drop_Lock f) \<Longrightarrow> sy_lock s = None \<Longrightarrow>
    gate_step cstep s (set_pc t (Some (Drop_Check f)) (set_lock (Some t) s))"
| drop_zero: "sy_pc s t = Some (Drop_Check f) \<Longrightarrow> sy_count s = 0 \<Longrightarrow>
    gate_step cstep s (set_pc t None (set_lock None (set_fut f None s)))"
| drop_nonzero: "sy_pc s t = Some (Drop_Check f) \<Longrightarrow> sy_count s \<noteq> 0 \<Longrightarrow>
    gate_step cstep s (set_pc t (Some (Drop_Unregister f)) s)"
| drop_unregister: "sy_pc s t = Some (Drop_Unregister f) \<Longrightarrow> sy_fut s f = Some (Some k) \<Longrightarrow>
    ws_unregister (sy_waiters s) (Some (fst k)) = Some (r, None, ws) \<Longrightarrow>
    gate_step cstep s (set_pc t None (set_lock None (set_waiters ws (set_fut f None s))))"

text \<open>The parked futures: those that hold a token, with the waker they left.\<close>

type_synonym futures = "nat \<Rightarrow> (waker_token \<times> waker) option option"

definition parked :: "futures \<Rightarrow> nat \<Rightarrow> (waker_token \<times> waker) option" where
  "parked F f = (case F f of Some k \<Rightarrow> k | None \<Rightarrow> None)"

section \<open>The invariant\<close>

text \<open>A future is used by one thread at a time, is live then, and is parked while it is dropped.\<close>

definition user :: "(nat \<Rightarrow> 'p gate_pc option) \<Rightarrow> nat \<Rightarrow> nat option" where
  "user pc t = (case pc t of Some p \<Rightarrow> uses p | None \<Rightarrow> None)"

definition dropper :: "(nat \<Rightarrow> 'p gate_pc option) \<Rightarrow> nat \<Rightarrow> bool" where
  "dropper pc t = (case pc t of Some p \<Rightarrow> dropping p | None \<Rightarrow> False)"

definition pcs_ok :: "(nat \<Rightarrow> 'p gate_pc option) \<Rightarrow> futures \<Rightarrow> bool" where
  "pcs_ok pc F \<longleftrightarrow>
     (\<forall>t u f. user pc t = Some f \<longrightarrow> user pc u = Some f \<longrightarrow> t = u) \<and>
     (\<forall>t f. user pc t = Some f \<longrightarrow> F f \<noteq> None \<and> (dropper pc t \<longrightarrow> parked F f \<noteq> None))"

text \<open>The lock is held by the one thread inside its region; past the second check nothing is taken.\<close>

definition holders :: "(nat \<Rightarrow> 'p gate_pc option) \<Rightarrow> nat set" where
  "holders pc = {t. case pc t of Some p \<Rightarrow> holds_lock p | None \<Rightarrow> False}"

definition committers :: "(nat \<Rightarrow> 'p gate_pc option) \<Rightarrow> nat set" where
  "committers pc = {t. case pc t of Some p \<Rightarrow> committed p | None \<Rightarrow> False}"

definition notifiers :: "(nat \<Rightarrow> 'p gate_pc option) \<Rightarrow> nat set" where
  "notifiers pc = {t. pc t = Some Wake_All}"

definition lock_ok :: "nat option \<Rightarrow> (nat \<Rightarrow> 'p gate_pc option) \<Rightarrow> bool \<Rightarrow> bool" where
  "lock_ok l pc taken \<longleftrightarrow> holders pc = set_option l \<and> (taken \<longrightarrow> committers pc = {})"

text \<open>Between the zero transition and the notification exactly one thread owes it.\<close>

definition wake_ok :: "'c::zero \<Rightarrow> (nat \<Rightarrow> 'p gate_pc option) \<Rightarrow> bool \<Rightarrow> bool" where
  "wake_ok c pc taken \<longleftrightarrow> (taken \<longrightarrow> c = 0) \<and>
     (if c = 0 \<and> \<not> taken then (\<exists>t. notifiers pc = {t}) else notifiers pc = {})"

text \<open>
  Before the notification the registrations cover the parked futures, and are exactly those
  while the counter is not zero; futures that saw zero may have left theirs behind.
\<close>

definition covers ::
  "(nat \<Rightarrow> (waker_token \<times> waker) option) \<Rightarrow> 'c::zero \<Rightarrow> (nat \<Rightarrow> 'p gate_pc option) \<Rightarrow> futures \<Rightarrow> bool"
  where
  "covers P c pc F \<longleftrightarrow> parked F \<subseteq>\<^sub>m P \<and> (c \<noteq> 0 \<longrightarrow> P = parked F) \<and>
     (\<forall>t\<in>committers pc. \<forall>f. user pc t = Some f \<longrightarrow> P f = parked F f)"

definition regs_ok ::
  "waker_set \<Rightarrow> 'c::zero \<Rightarrow> (nat \<Rightarrow> 'p gate_pc option) \<Rightarrow> futures \<Rightarrow> bool \<Rightarrow> waker list \<Rightarrow> bool" where
  "regs_ok ws c pc F taken woken \<longleftrightarrow>
     (if taken then ws = ws_new \<and> (\<forall>f t w. parked F f = Some (t, w) \<longrightarrow> w \<in> set woken)
      else woken = [] \<and> (\<exists>P. reg.owned ws P \<and> covers P c pc F))"

definition gate_inv :: "('p, 'c::zero) gate_sys \<Rightarrow> bool" where
  "gate_inv s \<longleftrightarrow> pcs_ok (sy_pc s) (sy_fut s) \<and> lock_ok (sy_lock s) (sy_pc s) (sy_taken s) \<and>
     wake_ok (sy_count s) (sy_pc s) (sy_taken s) \<and>
     regs_ok (sy_waiters s) (sy_count s) (sy_pc s) (sy_fut s) (sy_taken s) (sy_woken s)"

lemma parked_empty [simp]: "parked Map.empty = Map.empty"
  by (simp add: parked_def fun_eq_iff)

lemma parked_upd [simp]:
  "parked (F(f := x)) = (parked F)(f := (case x of Some k \<Rightarrow> k | None \<Rightarrow> None))"
  by (auto simp: parked_def fun_eq_iff)

lemma user_upd [simp]:
  "user (pc(t := x)) = (user pc)(t := (case x of Some p \<Rightarrow> uses p | None \<Rightarrow> None))"
  "dropper (pc(t := x)) = (dropper pc)(t := (case x of Some p \<Rightarrow> dropping p | None \<Rightarrow> False))"
  by (auto simp: user_def dropper_def fun_eq_iff)

lemma user_here:
  "sy_pc s t = Some p \<Longrightarrow> user (sy_pc s) t = uses p \<and> dropper (sy_pc s) t = dropping p"
  "sy_pc s t = None \<Longrightarrow> user (sy_pc s) t = None \<and> \<not> dropper (sy_pc s) t"
  by (simp_all add: user_def dropper_def)

lemma parked_here: "sy_fut s f = Some k \<Longrightarrow> parked (sy_fut s) f = k"
  by (simp add: parked_def)

lemma busy_user: "busy s f \<longleftrightarrow> (\<exists>t. user (sy_pc s) t = Some f)"
  by (auto simp: busy_def user_def split: option.splits)

lemma points_upd [simp]:
  "holders (pc(t := x)) =
     (if (case x of Some p \<Rightarrow> holds_lock p | None \<Rightarrow> False) then insert t (holders pc) else holders pc - {t})"
  "committers (pc(t := x)) =
     (if (case x of Some p \<Rightarrow> committed p | None \<Rightarrow> False) then insert t (committers pc) else committers pc - {t})"
  "notifiers (pc(t := x)) = (if x = Some Wake_All then insert t (notifiers pc) else notifiers pc - {t})"
  by (auto simp: holders_def committers_def notifiers_def)

lemma points_here:
  "sy_pc s t = Some p \<Longrightarrow> (t \<in> holders (sy_pc s) \<longleftrightarrow> holds_lock p) \<and>
     (t \<in> committers (sy_pc s) \<longleftrightarrow> committed p) \<and> (t \<in> notifiers (sy_pc s) \<longleftrightarrow> p = Wake_All)"
  "sy_pc s t = None \<Longrightarrow> t \<notin> holders (sy_pc s) \<and> t \<notin> committers (sy_pc s) \<and> t \<notin> notifiers (sy_pc s)"
  by (simp_all add: holders_def committers_def notifiers_def)

lemma committers_hold: "committers pc \<subseteq> holders pc"
proof -
  have "committed p \<Longrightarrow> holds_lock p" for p :: "'a gate_pc" by (cases p) auto
  then show ?thesis by (auto simp: committers_def holders_def split: option.splits)
qed

lemma gate_init_inv: "gate_inv (gate_init c)"
  by (auto simp: gate_inv_def gate_init_def pcs_ok_def user_def lock_ok_def wake_ok_def regs_ok_def
        covers_def holders_def committers_def notifiers_def intro!: exI [of _ Map.empty])

lemma after_pc_uses [simp]:
  "(case after_pc a of Some p \<Rightarrow> uses p | None \<Rightarrow> None) = None"
  "\<not> (case after_pc a of Some p \<Rightarrow> dropping p | None \<Rightarrow> False)"
  "\<not> (case after_pc a of Some p \<Rightarrow> holds_lock p | None \<Rightarrow> False)"
  "\<not> (case after_pc a of Some p \<Rightarrow> committed p | None \<Rightarrow> False)"
  by (cases a; simp)+

lemma after_pc_wake: "after_pc a = Some Wake_All \<longleftrightarrow> a = Notify"
  by (cases a) auto

lemma pcs_ok_step:
  "gate_step cstep s s' \<Longrightarrow> pcs_ok (sy_pc s) (sy_fut s) \<Longrightarrow> pcs_ok (sy_pc s') (sy_fut s')"
  by (induction rule: gate_step.induct)
    (auto simp: pcs_ok_def gate_sets busy_user dest: user_here parked_here, force)

lemma lock_ok_stay:
  assumes "lock_ok l pc k" and "t \<in> holders pc \<longleftrightarrow> (case x of Some p \<Rightarrow> holds_lock p | None \<Rightarrow> False)"
    and "(case x of Some p \<Rightarrow> committed p | None \<Rightarrow> False) \<longrightarrow> \<not> k"
  shows "lock_ok l (pc(t := x)) k"
  using assms unfolding lock_ok_def points_upd by auto

lemma lock_ok_acquire:
  "lock_ok None pc k \<Longrightarrow> holds_lock p \<Longrightarrow> \<not> committed p \<Longrightarrow> lock_ok (Some t) (pc(t \<mapsto> p)) k"
  unfolding lock_ok_def points_upd by auto

lemma lock_ok_release: "lock_ok l pc k \<Longrightarrow> t \<in> holders pc \<Longrightarrow> lock_ok None (pc(t := None)) k"
  unfolding lock_ok_def points_upd by (cases l) auto

lemma lock_ok_step:
  "gate_step cstep s s' \<Longrightarrow> wake_ok (sy_count s) (sy_pc s) (sy_taken s) \<Longrightarrow>
   lock_ok (sy_lock s) (sy_pc s) (sy_taken s) \<Longrightarrow> lock_ok (sy_lock s') (sy_pc s') (sy_taken s')"
proof (induction rule: gate_step.induct)
  case (wake_all s t)
  then show ?case
    using committers_hold [of "sy_pc s"]
    by (simp add: lock_ok_def gate_sets del: fun_upd_apply)
qed (simp_all add: gate_sets lock_ok_stay lock_ok_acquire lock_ok_release points_here wake_ok_def
      del: fun_upd_apply)

lemma map_le_Some: "m \<subseteq>\<^sub>m n \<Longrightarrow> m f = Some x \<Longrightarrow> n f = Some x"
  by (auto simp: map_le_def dom_def)

lemma map_le_upd: "m \<subseteq>\<^sub>m n \<Longrightarrow> m(f \<mapsto> x) \<subseteq>\<^sub>m n(f \<mapsto> x)"
  by (auto simp: map_le_def dom_def)

lemma map_le_minus_upd: "m \<subseteq>\<^sub>m n \<Longrightarrow> m(f := None) \<subseteq>\<^sub>m n(f := None)"
  by (auto simp: map_le_def dom_def)

text \<open>The registrations through the moves of a thread and the changes of a future.\<close>

lemma regs_ok_move:
  assumes "regs_ok ws c pc F k wk" and "(case x of Some p \<Rightarrow> committed p | None \<Rightarrow> False) \<longrightarrow> c \<noteq> 0"
  shows "regs_ok ws c (pc(t := x)) F k wk"
  using assms unfolding regs_ok_def covers_def by (auto split: if_splits)

lemma regs_ok_count:
  assumes "regs_ok ws c pc F k wk" and "c = 0 \<longrightarrow> c' = 0"
  shows "regs_ok ws c' pc F k wk"
  using assms unfolding regs_ok_def covers_def by (auto split: if_splits)

lemma regs_ok_bare:
  assumes "regs_ok ws c pc F k wk" and "parked F f = None" and "x = None \<or> x = Some None"
  shows "regs_ok ws c pc (F(f := x)) k wk"
proof -
  have "parked (F(f := x)) = parked F"
    using assms(2,3) by (auto simp: fun_eq_iff)
  then show ?thesis using assms(1) unfolding regs_ok_def covers_def by simp
qed

text \<open>A future that saw zero leaves its registration to the notification.\<close>

lemma regs_ok_zero:
  assumes "regs_ok ws c pc F k wk" and "c = 0" and "\<And>t. t \<in> committers pc \<Longrightarrow> user pc t \<noteq> Some f"
    and "x = None \<or> x = Some None"
  shows "regs_ok ws c pc (F(f := x)) k wk"
proof (cases k)
  case True
  then show ?thesis using assms(1,4) unfolding regs_ok_def by (auto split: if_splits)
next
  case False
  then obtain P where P: "reg.owned ws P" "covers P c pc F" and w: "wk = []"
    using assms(1) unfolding regs_ok_def by auto
  have "parked (F(f := x)) = (parked F)(f := None)" using assms(4) by auto
  then have "covers P c pc (F(f := x))"
    using P(2) assms(2,3) unfolding covers_def by (auto simp: map_le_def)
  with P w False show ?thesis unfolding regs_ok_def by auto
qed

lemma committer_alone:
  assumes "lock_ok l pc k" and "t \<in> committers pc"
  shows "committers (pc(t := None)) = {}" and "\<not> k"
proof -
  have "holders pc = {t}"
    using assms committers_hold [of pc] unfolding lock_ok_def by (cases l) auto
  then show "committers (pc(t := None)) = {}"
    using committers_hold [of pc] unfolding points_upd by auto
  show "\<not> k" using assms unfolding lock_ok_def by auto
qed

lemma regs_ok_committed:
  assumes "regs_ok ws c pc F False wk" and "t \<in> committers pc" and "user pc t = Some f"
  obtains P where "reg.owned ws P" and "P f = parked F f" and "parked F \<subseteq>\<^sub>m P"
    and "c \<noteq> 0 \<Longrightarrow> P = parked F" and "wk = []"
  using assms unfolding regs_ok_def covers_def by auto

lemma regs_ok_register:
  assumes r: "regs_ok ws c pc F False wk" and t: "t \<in> committers pc" "user pc t = Some f"
    and alone: "committers (pc(t := None)) = {}"
    and reg: "ws_register ws (map_option fst (parked F f)) w = Some (r, Some tok, ws')"
  shows "regs_ok ws' c (pc(t := None)) (F(f \<mapsto> Some (tok, w))) False wk"
proof -
  obtain P where P: "reg.owned ws P" "P f = parked F f" "parked F \<subseteq>\<^sub>m P"
    "c \<noteq> 0 \<Longrightarrow> P = parked F" "wk = []"
    by (rule regs_ok_committed [OF r t]) blast
  have "reg.owned ws' (P(f \<mapsto> (tok, w)))"
    by (rule reg.park [OF P(1) reg [folded P(2)]]) simp
  moreover have "covers (P(f \<mapsto> (tok, w))) c (pc(t := None)) (F(f \<mapsto> Some (tok, w)))"
    using map_le_upd [OF P(3)] P(4) unfolding covers_def alone by simp
  ultimately show ?thesis using P(5) unfolding regs_ok_def by auto
qed

lemma regs_ok_unregister:
  assumes r: "regs_ok ws c pc F False wk" and t: "t \<in> committers pc" "user pc t = Some f"
    and alone: "committers (pc(t := None)) = {}" and f: "parked F f = Some (tok, w)"
    and unreg: "ws_unregister ws (Some tok) = Some (x, None, ws')"
  shows "regs_ok ws' c (pc(t := None)) (F(f := None)) False wk"
proof -
  obtain P where P: "reg.owned ws P" "P f = parked F f" "parked F \<subseteq>\<^sub>m P"
    "c \<noteq> 0 \<Longrightarrow> P = parked F" "wk = []"
    by (rule regs_ok_committed [OF r t]) blast
  have "P f = Some (tok, w)" using P(2) f by simp
  then have "reg.owned ws' (P(f := None))"
    by (rule reg.unpark [OF P(1)]) (use unreg in simp)
  moreover have "covers (P(f := None)) c (pc(t := None)) (F(f := None))"
    using map_le_minus_upd [OF P(3)] P(4) unfolding covers_def alone by simp
  ultimately show ?thesis using P(5) unfolding regs_ok_def by auto
qed

lemma regs_ok_leave:
  assumes inv: "gate_inv s" and t: "sy_pc s t = Some p" "uses p = Some f" and "sy_count s = 0"
    and "x = None \<or> x = Some None"
  shows "regs_ok (sy_waiters s) (sy_count s) ((sy_pc s)(t := None)) ((sy_fut s)(f := x))
           (sy_taken s) (sy_woken s)"
proof (rule regs_ok_zero)
  show "regs_ok (sy_waiters s) (sy_count s) ((sy_pc s)(t := None)) (sy_fut s) (sy_taken s) (sy_woken s)"
    using inv by (intro regs_ok_move) (simp_all add: gate_inv_def)
  show "user ((sy_pc s)(t := None)) u \<noteq> Some f" if "u \<in> committers ((sy_pc s)(t := None))" for u
    using inv user_here(1) [OF t(1)] t(2) that unfolding gate_inv_def pcs_ok_def
    by (metis fun_upd_apply option.distinct(1) user_upd(1) option.case(1))
qed fact+

lemma gate_inv_committed:
  assumes inv: "gate_inv s" and t: "sy_pc s t = Some p" "committed p" "uses p = Some f"
  shows "t \<in> committers (sy_pc s)" and "user (sy_pc s) t = Some f"
    and "committers ((sy_pc s)(t := None)) = {}" and "\<not> sy_taken s"
    and "regs_ok (sy_waiters s) (sy_count s) (sy_pc s) (sy_fut s) False (sy_woken s)"
proof -
  show c: "t \<in> committers (sy_pc s)" and "user (sy_pc s) t = Some f"
    using points_here(1) [OF t(1)] user_here(1) [OF t(1)] t by auto
  have l: "lock_ok (sy_lock s) (sy_pc s) (sy_taken s)"
    using inv by (simp add: gate_inv_def)
  show "committers ((sy_pc s)(t := None)) = {}" and k: "\<not> sy_taken s"
    using committer_alone [OF l c] .
  show "regs_ok (sy_waiters s) (sy_count s) (sy_pc s) (sy_fut s) False (sy_woken s)"
    using inv k by (simp add: gate_inv_def)
qed

lemma gate_inv_owned:
  assumes "gate_inv s" and "sy_pc s t = Some p" and "committed p" and "uses p = Some f"
  shows "\<exists>P. reg.owned (sy_waiters s) P \<and> P f = parked (sy_fut s) f"
  by (rule regs_ok_committed [OF gate_inv_committed(5,1,2) [OF assms]]) blast

lemma gate_inv_live:
  assumes "gate_inv s" and "sy_pc s t = Some p" and "uses p = Some f"
  shows "\<exists>k. sy_fut s f = Some k" and "dropping p \<Longrightarrow> \<exists>tok w. sy_fut s f = Some (Some (tok, w))"
proof -
  have h: "sy_fut s f \<noteq> None" "dropping p \<longrightarrow> parked (sy_fut s) f \<noteq> None"
    using assms user_here(1) [OF assms(2)] unfolding gate_inv_def pcs_ok_def by metis+
  then show "\<exists>k. sy_fut s f = Some k" by auto
  show "\<exists>tok w. sy_fut s f = Some (Some (tok, w))" if "dropping p"
    using h that by (auto simp: parked_def)
qed

text \<open>
  What a counter program promises: zero is terminal, and the step that reaches it is the one
  that goes on to notify.
\<close>

locale zero_gate =
  fixes cstep :: "'p \<Rightarrow> 'c::zero \<Rightarrow> 'c \<Rightarrow> 'p after \<Rightarrow> bool"
  assumes terminal: "cstep p 0 c a \<Longrightarrow> c = 0 \<and> a \<noteq> Notify"
    and notifies: "cstep p c c' a \<Longrightarrow> c \<noteq> 0 \<Longrightarrow> c' = 0 \<longleftrightarrow> a = Notify"
begin

lemma wake_ok_step:
  "gate_step cstep s s' \<Longrightarrow> wake_ok (sy_count s) (sy_pc s) (sy_taken s) \<Longrightarrow>
   wake_ok (sy_count s') (sy_pc s') (sy_taken s')"
proof (induction rule: gate_step.induct)
  case (count s t p c a)
  then have "t \<notin> notifiers (sy_pc s)" by (simp add: points_here)
  then show ?case
    using terminal [of p c a] notifies [OF count(2)] count
    by (cases "sy_count s = 0")
      (simp_all add: wake_ok_def gate_sets after_pc_wake del: fun_upd_apply)
next
  case (wake_all s t)
  then show ?case
    using points_here(1) [OF wake_all(1)]
    by (auto simp: wake_ok_def gate_sets split: if_splits simp del: fun_upd_apply)
qed (simp_all add: wake_ok_def gate_sets points_here del: fun_upd_apply)

lemma regs_ok_step:
  "gate_step cstep s s' \<Longrightarrow> gate_inv s \<Longrightarrow>
   regs_ok (sy_waiters s') (sy_count s') (sy_pc s') (sy_fut s') (sy_taken s') (sy_woken s')"
proof (induction rule: gate_step.induct)
  case (count s t p c a)
  then have "sy_count s = 0 \<longrightarrow> c = 0" using terminal [of p c a] by auto
  then show ?case
    using count regs_ok_count [of "sy_waiters s" "sy_count s" "sy_pc s" "sy_fut s" _ _ c]
    by (simp add: gate_inv_def gate_sets regs_ok_move del: fun_upd_apply)
next
  case (wake_all s t)
  then have "\<not> sy_taken s"
    using points_here(1) [OF wake_all(1)] by (auto simp: gate_inv_def wake_ok_def)
  then obtain P where P: "reg.owned (sy_waiters s) P" "parked (sy_fut s) \<subseteq>\<^sub>m P"
    using wake_all by (auto simp: gate_inv_def regs_ok_def covers_def)
  have "w \<in> set (ws_wake_all (sy_waiters s))" if "parked (sy_fut s) f = Some (tok, w)" for f tok w
    using owned_wake_all [OF P(1)] map_le_Some [OF P(2) that] by auto
  then show ?case by (auto simp: regs_ok_def gate_sets)
next
  case (poll_fast s t f w)
  then show ?case
    using regs_ok_leave [OF poll_fast(3,1) _ poll_fast(2)] by (simp add: gate_sets del: fun_upd_apply)
next
  case (poll_zero s t f w)
  then show ?case
    using regs_ok_leave [OF poll_zero(3,1) _ poll_zero(2)] by (simp add: gate_sets del: fun_upd_apply)
next
  case (drop_zero s t f)
  then show ?case
    using regs_ok_leave [OF drop_zero(3,1) _ drop_zero(2)] by (simp add: gate_sets del: fun_upd_apply)
next
  case (poll_register s t f w k r tok ws)
  then show ?case
    using regs_ok_register [OF gate_inv_committed(5,1,2,3) [OF poll_register(4,1)]]
      gate_inv_committed(4) [OF poll_register(4,1)] parked_here [OF poll_register(2)]
    by (simp add: gate_sets del: fun_upd_apply points_upd)
next
  case (drop_unregister s t f k r ws)
  then show ?case
    using regs_ok_unregister [OF gate_inv_committed(5,1,2,3) [OF drop_unregister(4,1)]]
      gate_inv_committed(4) [OF drop_unregister(4,1)] parked_here [OF drop_unregister(2)]
    by (cases k) (simp add: gate_sets del: fun_upd_apply points_upd)
qed (simp_all add: gate_sets gate_inv_def regs_ok_move regs_ok_bare parked_def del: fun_upd_apply)

lemma inv_step: "gate_step cstep s s' \<Longrightarrow> gate_inv s \<Longrightarrow> gate_inv s'"
  using pcs_ok_step lock_ok_step wake_ok_step regs_ok_step unfolding gate_inv_def by blast

lemma inv_reach: "(gate_step cstep)\<^sup>*\<^sup>* (gate_init c) s \<Longrightarrow> gate_inv s"
  by (induction rule: rtranclp_induct) (auto intro: gate_init_inv inv_step)

text \<open>
  Once the counter is zero and the thread that made it zero has notified, every future that
  is still parked has had its last waker woken.
\<close>

lemma no_lost_wakeup:
  assumes "(gate_step cstep)\<^sup>*\<^sup>* (gate_init c) s" and "sy_count s = 0"
    and "\<And>t. sy_pc s t \<noteq> Some Wake_All" and "sy_fut s f = Some (Some (tok, w))"
  shows "w \<in> set (sy_woken s)"
proof -
  have inv: "gate_inv s" by (rule inv_reach [OF assms(1)])
  have "notifiers (sy_pc s) = {}" using assms(3) by (simp add: notifiers_def)
  then have "sy_taken s"
    using inv assms(2) by (auto simp: gate_inv_def wake_ok_def split: if_splits)
  then show ?thesis
    using inv parked_here [OF assms(4)] by (auto simp: gate_inv_def regs_ok_def)
qed

text \<open>The token a future passes to the set is always live, so neither call panics.\<close>

lemma register_safe:
  assumes "(gate_step cstep)\<^sup>*\<^sup>* (gate_init c) s" and "sy_pc s t = Some (Poll_Register f w)"
    and "sy_fut s f = Some None \<Longrightarrow> ws_room (sy_waiters s)"
  shows "\<exists>s'. gate_step cstep s s'"
proof -
  have inv: "gate_inv s" by (rule inv_reach [OF assms(1)])
  obtain k where k: "sy_fut s f = Some k"
    using gate_inv_live [OF inv assms(2)] by auto
  obtain P where P: "reg.owned (sy_waiters s) P" "P f = k"
    using gate_inv_owned [OF inv assms(2)] parked_here [OF k] by auto
  obtain r tok ws where "ws_register (sy_waiters s) (map_option fst k) w = Some (r, Some tok, ws)"
    using reg.park_total [OF P(1), of f w] P(2) assms(3) k by auto
  then show ?thesis using poll_register [OF assms(2) k] by blast
qed

lemma unregister_safe:
  assumes "(gate_step cstep)\<^sup>*\<^sup>* (gate_init c) s" and "sy_pc s t = Some (Drop_Unregister f)"
  shows "\<exists>s'. gate_step cstep s s'"
proof -
  have inv: "gate_inv s" by (rule inv_reach [OF assms(1)])
  obtain tok w where k: "sy_fut s f = Some (Some (tok, w))"
    using gate_inv_live [OF inv assms(2)] by auto
  obtain P where P: "reg.owned (sy_waiters s) P" "P f = Some (tok, w)"
    using gate_inv_owned [OF inv assms(2)] parked_here [OF k] by auto
  obtain ws where "ws_unregister (sy_waiters s) (Some tok) = Some (Some w, None, ws)"
    by (rule reg.unpark [OF P]) blast
  then show ?thesis using drop_unregister [OF assms(2) k] by auto
qed

text \<open>Nothing is deadlocked: whoever holds the lock, or wants it while it is free, can step.\<close>

lemma lock_progress:
  assumes r: "(gate_step cstep)\<^sup>*\<^sup>* (gate_init c) s" and l: "sy_lock s = Some t"
    and room: "ws_room (sy_waiters s)"
  shows "\<exists>p. sy_pc s t = Some p \<and> holds_lock p \<and> (\<exists>s'. gate_step cstep s s')"
proof -
  have "t \<in> holders (sy_pc s)"
    using inv_reach [OF r] l by (simp add: gate_inv_def lock_ok_def)
  then obtain p where p: "sy_pc s t = Some p" "holds_lock p"
    by (auto simp: holders_def split: option.splits)
  have "\<exists>s'. gate_step cstep s s'"
  proof (cases p)
    case (Poll_Check f w)
    then show ?thesis
      using p poll_zero [of s t f w] poll_nonzero [of s t f w] by (cases "sy_count s = 0") blast+
  next
    case (Poll_Register f w)
    then show ?thesis using register_safe [OF r] p room by blast
  next
    case (Drop_Check f)
    then show ?thesis
      using p drop_zero [of s t f] drop_nonzero [of s t f] by (cases "sy_count s = 0") blast+
  next
    case (Drop_Unregister f)
    then show ?thesis using unregister_safe [OF r] p by blast
  qed (use p in auto)
  with p show ?thesis by blast
qed

end

end
