(* ===== verification/Countdown.thy ===== *)
theory Countdown
  imports ZeroGate "HOL-Library.Word"
begin

text \<open>
  The countdown of \<open>internal/countdown.rs\<close> and its client \<open>latch/mod.rs\<close>. The
  operations are given as a single caller runs them; \<open>dec_step\<close> is the compare-and-swap
  loop of \<open>decrement\<close> one atomic access at a time, which the gate of \<open>ZeroGate\<close>
  interleaves with every other thread.
\<close>

type_synonym countdown = "32 word gate"

definition cd_new :: "32 word \<Rightarrow> countdown" where
  "cd_new count = \<lparr>gt_count = count, gt_waiters = ws_new\<rparr>"

definition cd_state :: "countdown \<Rightarrow> 32 word" where
  "cd_state cd = gt_count cd"

text \<open>A weak compare-and-swap may fail although the value matches (\<open>spurious\<close>).\<close>

definition cd_cas_state ::
  "bool \<Rightarrow> 32 word \<Rightarrow> 32 word \<Rightarrow> 32 word \<Rightarrow> (unit, 32 word) result \<times> 32 word" where
  "cd_cas_state spurious state current new =
     (if state = current \<and> \<not> spurious then (Ok (), new) else (Err state, state))"

definition cd_wake_all :: "countdown \<Rightarrow> waker list \<times> countdown" where
  "cd_wake_all cd = (ws_wake_all (gt_waiters cd), cd\<lparr>gt_waiters := ws_new\<rparr>)"

definition cd_try_wait :: "countdown \<Rightarrow> (unit, 32 word) result" where
  "cd_try_wait cd = (if cd_state cd = 0 then Ok () else Err (cd_state cd))"

definition cd_poll_wait ::
  "countdown \<Rightarrow> waker_token option \<Rightarrow> waker \<Rightarrow> (unit poll \<times> waker_token option \<times> countdown) option"
  where
  "cd_poll_wait cd token waker =
     (if cd_try_wait cd = Ok () then Some (Ready (), None, cd)
      else if cd_state cd = 0 then Some (Ready (), None, cd)
      else do {
        (retired_waker, token, waiters) \<leftarrow> ws_register (gt_waiters cd) token waker;
        Some (Pending, token, cd\<lparr>gt_waiters := waiters\<rparr>) })"

definition cd_unregister ::
  "countdown \<Rightarrow> waker_token option \<Rightarrow> (waker_token option \<times> countdown) option" where
  "cd_unregister cd token =
     (if token = None then Some (token, cd)
      else if cd_state cd = 0 then Some (None, cd)
      else do {
        (removed_waker, token, waiters) \<leftarrow> ws_unregister (gt_waiters cd) token;
        Some (token, cd\<lparr>gt_waiters := waiters\<rparr>) })"

definition saturating_sub :: "32 word \<Rightarrow> 32 word \<Rightarrow> 32 word" where
  "saturating_sub a b = (if b \<le> a then a - b else 0)"

datatype dec_pc = Dec_Load "32 word" | Dec_Loop "32 word" "32 word"

inductive dec_step :: "dec_pc \<Rightarrow> 32 word \<Rightarrow> 32 word \<Rightarrow> dec_pc after \<Rightarrow> bool" where
  load: "dec_step (Dec_Load n) c c (Continue (Dec_Loop n c))"
| zero: "cnt = 0 \<Longrightarrow> dec_step (Dec_Loop n cnt) c c Return"
| cas_ok: "cnt \<noteq> 0 \<Longrightarrow> new = saturating_sub cnt n \<Longrightarrow> cd_cas_state spurious c cnt new = (Ok (), c') \<Longrightarrow>
    dec_step (Dec_Loop n cnt) c c' (if new = 0 then Notify else Return)"
| cas_err: "cnt \<noteq> 0 \<Longrightarrow> new = saturating_sub cnt n \<Longrightarrow> cd_cas_state spurious c cnt new = (Err x, c') \<Longrightarrow>
    dec_step (Dec_Loop n cnt) c c' (Continue (Dec_Loop n x))"

text \<open>
  \<open>decrement\<close> run by one caller, with a given number of spurious failures of its
  compare-and-swap: whether it made the transition to zero, and the countdown after it.
\<close>

function cd_decrement_loop :: "nat \<Rightarrow> countdown \<Rightarrow> 32 word \<Rightarrow> 32 word \<Rightarrow> bool \<times> countdown" where
  "cd_decrement_loop spurious cd n cnt =
     (if cnt = 0 then (False, cd)
      else let new_cnt = saturating_sub cnt n in
        (case cd_cas_state (spurious \<noteq> 0) (cd_state cd) cnt new_cnt of
           (Ok _, c) \<Rightarrow> (new_cnt = 0, cd\<lparr>gt_count := c\<rparr>)
         | (Err x, c) \<Rightarrow> cd_decrement_loop (spurious - 1) cd n x))"
  by pat_completeness auto
termination
  by (relation "measure (\<lambda>(k, cd, n, cnt). k + (if cnt = cd_state cd then 0 else 1))")
    (auto simp: cd_cas_state_def split: if_splits)

definition cd_decrement :: "nat \<Rightarrow> countdown \<Rightarrow> 32 word \<Rightarrow> bool \<times> countdown" where
  "cd_decrement spurious cd n = cd_decrement_loop spurious cd n (cd_state cd)"

section \<open>Latch\<close>

type_synonym latch = countdown

definition latch_new :: "32 word \<Rightarrow> latch" where
  "latch_new count = cd_new count"

definition latch_count :: "latch \<Rightarrow> 32 word" where
  "latch_count l = cd_state l"

text \<open>The wakers woken by a call, in order.\<close>

definition count_down :: "nat \<Rightarrow> latch \<Rightarrow> waker list \<times> latch" where
  "count_down spurious l =
     (case cd_decrement spurious l 1 of
        (True, l) \<Rightarrow> cd_wake_all l
      | (False, l) \<Rightarrow> ([], l))"

definition arrive :: "nat \<Rightarrow> latch \<Rightarrow> 32 word \<Rightarrow> waker list \<times> latch" where
  "arrive spurious l n =
     (if n \<noteq> 0 then
        (case cd_decrement spurious l n of
           (True, l) \<Rightarrow> cd_wake_all l
         | (False, l) \<Rightarrow> ([], l))
      else ([], l))"

definition latch_try_wait :: "latch \<Rightarrow> (unit, 32 word) result" where
  "latch_try_wait l = cd_try_wait l"

text \<open>\<open>LatchWait\<close> starts with no token; its poll and its drop are those of the countdown.\<close>

definition latch_wait_poll ::
  "latch \<Rightarrow> waker_token option \<Rightarrow> waker \<Rightarrow> (unit poll \<times> waker_token option \<times> latch) option" where
  "latch_wait_poll l token waker = cd_poll_wait l token waker"

definition latch_wait_drop :: "latch \<Rightarrow> waker_token option \<Rightarrow> latch option" where
  "latch_wait_drop l token = map_option snd (cd_unregister l token)"

lemmas countdown_ops [op_defs] = cd_new_def cd_state_def cd_cas_state_def cd_wake_all_def
  cd_try_wait_def cd_poll_wait_def cd_unregister_def cd_decrement_def latch_new_def latch_count_def
  count_down_def arrive_def latch_try_wait_def latch_wait_poll_def latch_wait_drop_def

section \<open>The counter\<close>

lemma unat_saturating_sub: "unat (saturating_sub a b) = unat a - unat b"
  by (simp add: saturating_sub_def unat_sub word_le_nat_alt)

lemma saturating_sub_zero_iff: "saturating_sub a b = 0 \<longleftrightarrow> a \<le> b"
  by (simp add: unat_saturating_sub word_le_nat_alt flip: unat_eq_0)

declare cd_decrement_loop.simps [simp del]

text \<open>However often the swap fails, one call subtracts once, and reports the zero transition.\<close>

lemma cd_decrement_eq:
  "cd_decrement k cd n =
     (cd_state cd \<noteq> 0 \<and> cd_state cd \<le> n, cd\<lparr>gt_count := saturating_sub (cd_state cd) n\<rparr>)"
proof -
  have "cd_decrement_loop k cd n (cd_state cd) =
      (cd_state cd \<noteq> 0 \<and> cd_state cd \<le> n, cd\<lparr>gt_count := saturating_sub (cd_state cd) n\<rparr>)"
    by (induction k; subst cd_decrement_loop.simps)
      (auto simp: cd_cas_state_def saturating_sub_zero_iff cd_state_def Let_def saturating_sub_def)
  then show ?thesis by (simp add: cd_decrement_def)
qed

lemma arrive_eq:
  "arrive k l n =
     (if n \<noteq> 0 \<and> latch_count l \<noteq> 0 \<and> latch_count l \<le> n
      then (ws_wake_all (gt_waiters l), \<lparr>gt_count = 0, gt_waiters = ws_new\<rparr>)
      else ([], l\<lparr>gt_count := saturating_sub (latch_count l) n\<rparr>))"
  by (cases l) (auto simp: arrive_def cd_decrement_eq cd_wake_all_def latch_count_def cd_state_def
      saturating_sub_def)

lemma count_down_eq: "count_down k l = arrive k l 1"
  by (simp add: count_down_def arrive_def)

fun arrive_all :: "latch \<Rightarrow> (nat \<times> 32 word) list \<Rightarrow> latch" where
  "arrive_all l [] = l"
| "arrive_all l ((k, n) # ns) = arrive_all (snd (arrive k l n)) ns"

lemma arrive_all_count:
  "unat (latch_count (arrive_all l ns)) = unat (latch_count l) - (\<Sum>(k, n)\<leftarrow>ns. unat n)"
proof (induction l ns rule: arrive_all.induct)
  case (2 l k n ns)
  have "unat (latch_count (snd (arrive k l n))) = unat (latch_count l) - unat n"
    by (auto simp: arrive_eq latch_count_def cd_state_def unat_saturating_sub word_le_nat_alt)
  with 2 show ?case by simp
qed simp

section \<open>Every interleaving\<close>

inductive_cases dec_loadE: "dec_step (Dec_Load n) c c' a"
inductive_cases dec_loopE: "dec_step (Dec_Loop n cnt) c c' a"

lemma dec_step_swap: "cd_cas_state sp c cnt new = (Ok (), c') \<longleftrightarrow> c = cnt \<and> \<not> sp \<and> c' = new"
  "cd_cas_state sp c cnt new = (Err x, c') \<Longrightarrow> c' = c \<and> x = c"
  by (auto simp: cd_cas_state_def split: if_splits)

interpretation cd: zero_gate dec_step
proof
  show "c = 0 \<and> a \<noteq> Notify" if "dec_step p 0 c a" for p c a
    using that by (cases p) (auto elim!: dec_loadE dec_loopE simp: dec_step_swap(1) dest: dec_step_swap(2))
  show "c' = 0 \<longleftrightarrow> a = Notify" if "dec_step p c c' a" "c \<noteq> 0" for p c c' a
    using that by (cases p) (auto elim!: dec_loadE dec_loopE simp: dec_step_swap(1) dest: dec_step_swap(2))
qed

text \<open>A swap that succeeds subtracts from the value it replaces, never from a stale one.\<close>

lemma dec_step_effect:
  "dec_step p c c' a \<Longrightarrow> c' = c \<or> (\<exists>n. p = Dec_Loop n c \<and> c' = saturating_sub c n)"
  by (cases p) (auto elim!: dec_loadE dec_loopE simp: dec_step_swap(1) dest: dec_step_swap(2))

text \<open>
  The poll of a single caller is a run of the interleaved one: the steps of \<open>poll_wait\<close>
  taken one after another lead to the state the whole call returns.
\<close>

lemma cd_poll_wait_run:
  assumes pc: "sy_pc s t = Some (Poll f w)" and l: "sy_lock s = None" and f: "sy_fut s f = Some k"
    and call: "cd_poll_wait (sy_gate s) (map_option fst k) w = Some (res, tok', cd')"
  shows "(gate_step cstep)\<^sup>*\<^sup>* s
    (s\<lparr>sy_gate := cd', sy_pc := (sy_pc s)(t := None),
       sy_fut := (sy_fut s)(f \<mapsto> map_option (\<lambda>tok. (tok, w)) tok')\<rparr>)"
proof (cases "sy_count s = 0")
  case True
  then have "res = Ready ()" "tok' = None" "cd' = sy_gate s"
    using call by (simp_all add: cd_poll_wait_def cd_try_wait_def cd_state_def)
  then show ?thesis
    using r_into_rtranclp [of "gate_step cstep", OF poll_fast [OF pc True]]
    by (cases s) (simp add: gate_sets)
next
  case False
  then obtain r ws where reg: "ws_register (sy_waiters s) (map_option fst k) w = Some (r, tok', ws)"
    and r: "cd' = (sy_gate s)\<lparr>gt_waiters := ws\<rparr>"
    using call by (auto simp: cd_poll_wait_def cd_try_wait_def cd_state_def panic_simps)
  then obtain tok where tok: "tok' = Some tok"
    by (cases k) (auto simp: ws_register_def panic_simps split: if_splits)
  define s1 where "s1 = set_pc t (Some (Poll_Lock f w)) s"
  define s2 where "s2 = set_pc t (Some (Poll_Check f w)) (set_lock (Some t) s1)"
  define s3 where "s3 = set_pc t (Some (Poll_Register f w)) s2"
  have "gate_step cstep s s1" using poll_slow [OF pc False] by (simp add: s1_def)
  moreover have "gate_step cstep s1 s2"
    unfolding s2_def by (rule poll_lock) (simp_all add: s1_def gate_sets l)
  moreover have "gate_step cstep s2 s3"
    unfolding s3_def by (rule poll_nonzero) (simp_all add: s2_def s1_def gate_sets False)
  moreover have "gate_step cstep s3
      (set_pc t None (set_lock None (set_waiters ws (set_fut f (Some (Some (tok, w))) s3))))"
    using f reg tok by (intro poll_register) (simp_all add: s3_def s2_def s1_def gate_sets)
  ultimately have "(gate_step cstep)\<^sup>*\<^sup>* s
      (set_pc t None (set_lock None (set_waiters ws (set_fut f (Some (Some (tok, w))) s3))))"
    by (meson converse_rtranclp_into_rtranclp r_into_rtranclp)
  then show ?thesis
    using l by (cases s) (simp add: s3_def s2_def s1_def gate_sets r tok)
qed

section \<open>A concrete run\<close>

text \<open>A latch of one: a future parks with waker 7, then a thread counts down and notifies.\<close>

definition demo_gate :: "countdown \<Rightarrow> dec_pc gate_pc option \<Rightarrow> bool \<Rightarrow> waker list \<Rightarrow> (dec_pc, 32 word) gate_sys" where
  "demo_gate cd pc taken woken = \<lparr>sy_gate = cd, sy_lock = None, sy_pc = (\<lambda>t. None)(0 := pc),
     sy_fut = [0 \<mapsto> Some (WakerToken (SlotId (NonZero 0)), 7)], sy_taken = taken, sy_woken = woken\<rparr>"

definition demo_waiters :: waker_set where
  "demo_waiters = \<lparr>ws_wakers = \<lparr>ar_slots = [Occupied 7], ar_vacant_head = None, ar_len = 1\<rparr>\<rparr>"

lemma demo_gate_poll:
  "cd_poll_wait (cd_new 1) None 7 =
     Some (Pending, Some (WakerToken (SlotId (NonZero 0))), \<lparr>gt_count = 1, gt_waiters = demo_waiters\<rparr>)"
  by (simp add: op_defs demo_waiters_def)

lemma demo_gate_parked:
  "(gate_step dec_step)\<^sup>*\<^sup>* (gate_init 1)
     (demo_gate \<lparr>gt_count = 1, gt_waiters = demo_waiters\<rparr> None False [])"
proof -
  let ?s1 = "set_fut 0 (Some None) (gate_init 1)"
  let ?s2 = "set_pc 0 (Some (Poll 0 7)) ?s1"
  have "gate_step dec_step (gate_init 1) ?s1"
    by (rule gate_step.spawn) (simp add: gate_init_def)
  moreover have "gate_step dec_step ?s1 ?s2"
    by (rule gate_step.poll) (simp_all add: gate_init_def set_fut_def busy_def)
  moreover have "(gate_step dec_step)\<^sup>*\<^sup>* ?s2
      (demo_gate \<lparr>gt_count = 1, gt_waiters = demo_waiters\<rparr> None False [])"
    using cd_poll_wait_run [of ?s2 0 0 7 None, where cstep = dec_step] demo_gate_poll
    by (simp add: gate_init_def gate_sets demo_gate_def cd_new_def)
  ultimately show ?thesis by (meson converse_rtranclp_into_rtranclp)
qed

lemma demo_gate_open:
  "(gate_step dec_step)\<^sup>*\<^sup>* (gate_init 1) (demo_gate \<lparr>gt_count = 0, gt_waiters = ws_new\<rparr> None True [7])"
proof -
  let ?g = "\<lparr>gt_count = 1, gt_waiters = demo_waiters\<rparr>" and ?z = "\<lparr>gt_count = 0, gt_waiters = demo_waiters\<rparr>"
  have "gate_step dec_step (demo_gate ?g None False []) (demo_gate ?g (Some (Count (Dec_Load 1))) False [])"
    using gate_step.call [of "demo_gate ?g None False []" 0] by (simp add: demo_gate_def gate_sets)
  moreover have "gate_step dec_step (demo_gate ?g (Some (Count (Dec_Load 1))) False [])
      (demo_gate ?g (Some (Count (Dec_Loop 1 1))) False [])"
    using gate_step.count [of "demo_gate ?g (Some (Count (Dec_Load 1))) False []" 0 "Dec_Load 1" dec_step 1
        "Continue (Dec_Loop 1 1)"] dec_step.load [of 1 1]
    by (simp add: demo_gate_def gate_sets)
  moreover have "dec_step (Dec_Loop 1 1) 1 0 Notify"
    using dec_step.cas_ok [of 1 0 1 False 1 0] by (simp add: saturating_sub_def cd_cas_state_def)
  then have "gate_step dec_step (demo_gate ?g (Some (Count (Dec_Loop 1 1))) False [])
      (demo_gate ?z (Some Wake_All) False [])"
    using gate_step.count [of "demo_gate ?g (Some (Count (Dec_Loop 1 1))) False []" 0 "Dec_Loop 1 1" dec_step 0 Notify]
    by (simp add: demo_gate_def gate_sets)
  moreover have "gate_step dec_step (demo_gate ?z (Some Wake_All) False [])
      (demo_gate \<lparr>gt_count = 0, gt_waiters = ws_new\<rparr> None True [7])"
    using gate_step.wake_all [of "demo_gate ?z (Some Wake_All) False []" 0]
    by (simp add: demo_gate_def gate_sets demo_waiters_def ws_wake_all_def arena_into_iter_def
        slot_values_def map_filter_simps)
  ultimately show ?thesis using demo_gate_parked by (meson run_step)
qed

section \<open>Properties\<close>

text \<open>
  C9: no interleaving of the atomic accesses and lock regions of any number of threads loses
  a wakeup: once the count is zero and the thread that made it so has notified, every future
  still holding a registration has had the waker of its last poll woken.
\<close>

theorem latch_no_lost_wakeup:
  assumes "(gate_step dec_step)\<^sup>*\<^sup>* (gate_init c) s" and "sy_count s = 0"
    and "\<forall>t. sy_pc s t \<noteq> Some Wake_All" and "sy_fut s f = Some (Some (tok, w))"
  shows "w \<in> set (sy_woken s)"
  using cd.no_lost_wakeup [OF assms(1,2) _ assms(4)] assms(3) by blast

theorem latch_no_lost_wakeup_witness:
  "(gate_step dec_step)\<^sup>*\<^sup>* (gate_init 1) (demo_gate \<lparr>gt_count = 0, gt_waiters = ws_new\<rparr> None True [7]) \<and>
   (7::waker) \<in> set (sy_woken (demo_gate \<lparr>gt_count = 0, gt_waiters = ws_new\<rparr> None True [7]))"
  using demo_gate_open
    latch_no_lost_wakeup [OF demo_gate_open, of 0 "WakerToken (SlotId (NonZero 0))" 7]
  by (simp add: demo_gate_def)

text \<open>
  The waiter lock never stays held and no token is stale when it is used: in every
  reachable state the holder of the lock is inside its region and can take its next step, so
  registering and unregistering under the lock never panic.
\<close>

theorem latch_lock_holder_progresses:
  assumes "(gate_step dec_step)\<^sup>*\<^sup>* (gate_init c) s" and "sy_lock s = Some t" and "ws_room (sy_waiters s)"
  shows "\<exists>p. sy_pc s t = Some p \<and> holds_lock p \<and> (\<exists>s'. gate_step dec_step s s')"
  by (rule cd.lock_progress [OF assms])

theorem latch_lock_holder_progresses_witness:
  "\<exists>s :: (dec_pc, 32 word) gate_sys. (gate_step dec_step)\<^sup>*\<^sup>* (gate_init 1) s \<and> sy_lock s = Some 0 \<and>
     (\<exists>s'. gate_step dec_step s s')"
proof -
  let ?g = "demo_gate \<lparr>gt_count = 1, gt_waiters = demo_waiters\<rparr> None False []"
  let ?s1 = "set_pc 0 (Some (Drop_Lock 0)) ?g"
  let ?s2 = "set_pc 0 (Some (Drop_Check 0)) (set_lock (Some 0) ?s1)"
  have "gate_step dec_step ?g ?s1"
    by (rule gate_step.drop_token) (simp_all add: demo_gate_def busy_def)
  moreover have "gate_step dec_step ?s1 ?s2"
    by (rule gate_step.drop_lock) (simp_all add: demo_gate_def gate_sets)
  ultimately have r: "(gate_step dec_step)\<^sup>*\<^sup>* (gate_init 1) ?s2"
    using demo_gate_parked by (meson run_step)
  have "sy_lock ?s2 = Some 0" "ws_room (sy_waiters ?s2)"
    by (simp_all add: demo_gate_def gate_sets demo_waiters_def ws_room_def arena_room_def usize_max_def)
  with latch_lock_holder_progresses [OF r] r show ?thesis by blast
qed

text \<open>
  Arrivals of any weights, with any number of spurious failures of their swaps, leave
  the count at the initial one minus their sum, stopping at zero and never wrapping.
\<close>

theorem latch_counts_arrivals:
  "unat (latch_count (arrive_all (latch_new c) ns)) = unat c - (\<Sum>(k, n)\<leftarrow>ns. unat n)"
  by (simp add: arrive_all_count) (simp add: op_defs)

end
