(* ===== verification/WaitGroup.thy ===== *)
theory WaitGroup
  imports ZeroGate
begin

text \<open>
  The wait group of \<open>waitgroup/mod.rs\<close>: a handle count and the locked waker set. Handles
  are counted with \<open>fetch_add\<close> and \<open>fetch_sub\<close>, so a counter program is one atomic
  access; a live handle keeps the count above zero, which \<open>wg_step\<close> tracks.
\<close>

type_synonym wg_state = "nat gate"

definition wg_state_new :: wg_state where
  "wg_state_new = \<lparr>gt_count = 1, gt_waiters = ws_new\<rparr>"

text \<open>The count is as wide as the strong count of the shared allocation, which every handle owns.\<close>

definition register_handle :: "wg_state \<Rightarrow> wg_state" where
  "register_handle st = st\<lparr>gt_count := (gt_count st + 1) mod (usize_max + 1)\<rparr>"

definition release_handle :: "wg_state \<Rightarrow> (waker list \<times> wg_state) option" where
  "release_handle st = do {
     let previous = gt_count st;
     guard (previous > 0);
     let st = st\<lparr>gt_count := previous - 1\<rparr>;
     if previous \<noteq> 1 then Some ([], st)
     else Some (ws_wake_all (gt_waiters st), st\<lparr>gt_waiters := ws_new\<rparr>) }"

definition wg_poll_wait ::
  "wg_state \<Rightarrow> waker_token option \<Rightarrow> waker \<Rightarrow> (unit poll \<times> waker_token option \<times> wg_state) option"
  where
  "wg_poll_wait st token waker =
     (if gt_count st = 0 then Some (Ready (), None, st)
      else if gt_count st = 0 then Some (Ready (), None, st)
      else do {
        (retired_waker, token, waiters) \<leftarrow> ws_register (gt_waiters st) token waker;
        Some (Pending, token, st\<lparr>gt_waiters := waiters\<rparr>) })"

definition wg_unregister ::
  "wg_state \<Rightarrow> waker_token option \<Rightarrow> (waker_token option \<times> wg_state) option" where
  "wg_unregister st token =
     (if token = None then Some (token, st)
      else if gt_count st = 0 then Some (None, st)
      else do {
        (removed_waker, token, waiters) \<leftarrow> ws_unregister (gt_waiters st) token;
        Some (token, st\<lparr>gt_waiters := waiters\<rparr>) })"

text \<open>
  A handle is whether it still owns the state: \<open>into_future\<close> takes it, and the drop that
  follows finds nothing to release.
\<close>

type_synonym wait_group = bool

definition wg_new :: "wait_group \<times> wg_state" where
  "wg_new = (True, wg_state_new)"

definition wg_clone :: "wait_group \<Rightarrow> wg_state \<Rightarrow> (wait_group \<times> wg_state) option" where
  "wg_clone h st = do { guard h; Some (True, register_handle st) }"

definition wg_drop :: "wait_group \<Rightarrow> wg_state \<Rightarrow> (waker list \<times> wg_state) option" where
  "wg_drop h st = (if h then release_handle st else Some ([], st))"

text \<open>The wait future made from a handle has no token; the handle itself is then dropped empty.\<close>

definition wg_into_future ::
  "wait_group \<Rightarrow> wg_state \<Rightarrow> (waker_token option \<times> waker list \<times> wg_state) option" where
  "wg_into_future h st = do {
     guard h;
     (woken, st) \<leftarrow> release_handle st;
     (woken', st) \<leftarrow> wg_drop False st;
     Some (None, woken @ woken', st) }"

definition wait_clone :: "waker_token option \<Rightarrow> waker_token option" where
  "wait_clone token = None"

definition wait_poll ::
  "wg_state \<Rightarrow> waker_token option \<Rightarrow> waker \<Rightarrow> (unit poll \<times> waker_token option \<times> wg_state) option"
  where
  "wait_poll st token waker = wg_poll_wait st token waker"

definition wait_drop :: "wg_state \<Rightarrow> waker_token option \<Rightarrow> wg_state option" where
  "wait_drop st token = map_option snd (wg_unregister st token)"

lemmas wait_group_ops [op_defs] = wg_state_new_def register_handle_def release_handle_def
  wg_poll_wait_def wg_unregister_def wg_new_def wg_clone_def wg_drop_def wg_into_future_def
  wait_clone_def wait_poll_def wait_drop_def

section \<open>The handle count\<close>

text \<open>Handles are cloned and released in any order; the state counts the live ones.\<close>

datatype wg_op = Clone | Release

fun wg_run :: "nat \<Rightarrow> wg_state \<Rightarrow> wg_op list \<Rightarrow> (nat \<times> waker list \<times> wg_state) option" where
  "wg_run live st [] = Some (live, [], st)"
| "wg_run live st (Clone # ops) =
     (if live = 0 then None else do {
        (h, st) \<leftarrow> wg_clone True st;
        wg_run (live + 1) st ops })"
| "wg_run live st (Release # ops) =
     (if live = 0 then None else do {
        (woken, st) \<leftarrow> wg_drop True st;
        (live, woken', st) \<leftarrow> wg_run (live - 1) st ops;
        Some (live, woken @ woken', st) })"

text \<open>The same, of the handles alone: \<open>None\<close> where a call would need a handle and there is none.\<close>

fun wg_live :: "nat \<Rightarrow> wg_op list \<Rightarrow> nat option" where
  "wg_live live [] = Some live"
| "wg_live live (op # ops) =
     (if live = 0 then None else wg_live (case op of Clone \<Rightarrow> live + 1 | Release \<Rightarrow> live - 1) ops)"

lemma wg_live_zero [simp]: "wg_live 0 ops = Some m \<longleftrightarrow> ops = [] \<and> m = 0"
  by (cases ops) auto

lemma register_handle_count:
  "gt_count st < usize_max \<Longrightarrow> register_handle st = st\<lparr>gt_count := gt_count st + 1\<rparr>"
  by (simp add: register_handle_def)

lemma wg_run_counts:
  assumes "wg_live live ops = Some m" and "gt_count st = live" and "live + length ops \<le> usize_max"
  shows "\<exists>woken st'. wg_run live st ops = Some (m, woken, st') \<and> gt_count st' = m \<and>
           (woken = (if m = 0 \<and> live \<noteq> 0 then ws_wake_all (gt_waiters st) else [])) \<and>
           (m \<noteq> 0 \<longrightarrow> gt_waiters st' = gt_waiters st)"
  using assms
proof (induction live st ops rule: wg_run.induct)
  case (2 live st ops)
  then have "live \<noteq> 0" by (auto split: if_splits)
  with 2 show ?case by (auto simp: wg_clone_def register_handle_count)
next
  case (3 live st ops)
  then have "live \<noteq> 0" by (auto split: if_splits)
  with 3 show ?case
  proof (cases "live = 1")
    case True
    with 3 show ?thesis by (auto simp: wg_drop_def release_handle_def Let_def)
  next
    case False
    with 3 \<open>live \<noteq> 0\<close> show ?thesis by (auto simp: wg_drop_def release_handle_def Let_def)
  qed
qed auto

section \<open>Every interleaving\<close>

text \<open>
  The two atomic accesses as counter programs. Both are reached through a live handle, so
  the count is not zero; and the guard on the strong count of the shared allocation stops a
  clone before the count could wrap.
\<close>

datatype wg_pc = Register_Handle | Release_Handle

inductive wg_cstep :: "wg_pc \<Rightarrow> nat \<Rightarrow> nat \<Rightarrow> wg_pc after \<Rightarrow> bool" where
  fetch_add: "c \<noteq> 0 \<Longrightarrow> c < usize_max \<Longrightarrow> gt_count st = c \<Longrightarrow>
    wg_cstep Register_Handle c (gt_count (register_handle st)) Return"
| fetch_sub: "gt_count st = c \<Longrightarrow> release_handle st = Some (woken, st') \<Longrightarrow>
    wg_cstep Release_Handle c (gt_count st') (if c \<noteq> 1 then Return else Notify)"

lemma wg_cstep_iff:
  "wg_cstep p c c' a \<longleftrightarrow> c \<noteq> 0 \<and>
     (case p of Register_Handle \<Rightarrow> c < usize_max \<and> c' = c + 1 \<and> a = Return
      | Release_Handle \<Rightarrow> c' = c - 1 \<and> a = (if c = 1 then Notify else Return))"
proof (cases p)
  case Register_Handle
  then show ?thesis
    by (auto simp: register_handle_count elim!: wg_cstep.cases
        intro!: fetch_add [of c "\<lparr>gt_count = c, gt_waiters = ws_new\<rparr>", simplified register_handle_count, simplified])
next
  case Release_Handle
  show ?thesis
  proof
    assume "wg_cstep p c c' a"
    then show "c \<noteq> 0 \<and> (case p of Register_Handle \<Rightarrow> c < usize_max \<and> c' = c + 1 \<and> a = Return
      | Release_Handle \<Rightarrow> c' = c - 1 \<and> a = (if c = 1 then Notify else Return))"
      using Release_Handle
      by (auto elim!: wg_cstep.cases simp: release_handle_def Let_def panic_simps split: if_splits)
  next
    assume "c \<noteq> 0 \<and> (case p of Register_Handle \<Rightarrow> c < usize_max \<and> c' = c + 1 \<and> a = Return
      | Release_Handle \<Rightarrow> c' = c - 1 \<and> a = (if c = 1 then Notify else Return))"
    then show "wg_cstep p c c' a"
      using fetch_sub [of "\<lparr>gt_count = c, gt_waiters = ws_new\<rparr>" c] Release_Handle
      by (cases "c = 1") (auto simp: release_handle_def Let_def)
  qed
qed

interpretation wg: zero_gate wg_cstep
  by unfold_locales (auto simp: wg_cstep_iff split: wg_pc.splits if_splits)

section \<open>Properties\<close>

text \<open>
  C10: the handle count is exactly the number of live handles through every sequence of
  clones and releases, no release finds it at zero, and the wakers are woken by the release
  of the last handle and by no other.
\<close>

theorem wait_group_counts_handles:
  assumes "wg_live live ops = Some m" and "gt_count st = live" and "live + length ops \<le> usize_max"
  shows "\<exists>woken st'. wg_run live st ops = Some (m, woken, st') \<and> gt_count st' = m \<and>
    woken = (if m = 0 \<and> live \<noteq> 0 then ws_wake_all (gt_waiters st) else [])"
  using wg_run_counts [OF assms] by blast

theorem wait_group_counts_handles_witness:
  "\<exists>woken st'. wg_run 1 wg_state_new [Clone, Release, Release] = Some (0, woken, st') \<and> gt_count st' = 0"
  using wait_group_counts_handles [of 1 "[Clone, Release, Release]" 0 wg_state_new]
  by (auto simp: wg_state_new_def usize_max_def)

end
