(* ===== verification/Waiters.thy ===== *)
theory Waiters
  imports WaitList
begin

text \<open>
  What the clients of the wait list have in common: each pending future owns at most one node,
  a linked node holds the waker of its owner's last poll, and a node that has been taken off
  the queue has had that waker woken since. The laws are stated once, over the queue interface
  of the wait list and over \<open>view\<close>, which reads the waker a node still holds.
\<close>

definition opt_list :: "'a option \<Rightarrow> 'a list" where
  "opt_list x = (case x of Some y \<Rightarrow> [y] | None \<Rightarrow> [])"

lemma opt_list_simps [simp]: "opt_list None = []" "opt_list (Some y) = [y]"
  by (simp_all add: opt_list_def)

text \<open>
  A future's registration: its node, the waker of its last poll, and how many wake-ups had been
  delivered by then.
\<close>

type_synonym 'i registration = "'i \<times> waker \<times> nat"

type_synonym wait_futures = "nat \<Rightarrow> waiter_id registration option option"

definition regs_of :: "('f \<Rightarrow> 'r option option) \<Rightarrow> 'f \<Rightarrow> 'r option" where
  "regs_of F f = (case F f of Some k \<Rightarrow> k | None \<Rightarrow> None)"

lemma regs_of_simps [simp]:
  "regs_of (F(f := Some k)) = (regs_of F)(f := k)" "regs_of (F(f := None)) = (regs_of F)(f := None)"
  "regs_of Map.empty = (\<lambda>f. None)"
  by (auto simp: regs_of_def)

lemma regs_of_live [simp]: "F f = Some k \<Longrightarrow> regs_of F f = k" "F f = None \<Longrightarrow> regs_of F f = None"
  by (simp_all add: regs_of_def)

lemma fun_upd_regs_of: "F f = Some None \<Longrightarrow> (regs_of F)(f := None) = regs_of F"
  "F f = None \<Longrightarrow> (regs_of F)(f := None) = regs_of F"
  by (auto simp: regs_of_def)

text \<open>Every registered future has been woken since its last poll.\<close>

definition woken_all :: "('f \<Rightarrow> 'i registration option) \<Rightarrow> waker list \<Rightarrow> bool" where
  "woken_all P woken \<longleftrightarrow> (\<forall>f i w m. P f = Some (i, w, m) \<longrightarrow> m \<le> length woken \<and> w \<in> set (drop m woken))"

lemma woken_all_more: "woken_all P woken \<Longrightarrow> woken_all P (woken @ ws)"
  by (force simp: woken_all_def)

lemma woken_all_clear: "woken_all P woken \<Longrightarrow> woken_all (P(f := None)) woken"
  by (auto simp: woken_all_def)

locale waiter_owners = waiter_queue inv room queue val push push_first unlink unlink_first setv remove
  for inv :: "'q \<Rightarrow> bool"
    and room :: "'q \<Rightarrow> bool"
    and queue :: "'q \<Rightarrow> 'i list"
    and val :: "'q \<Rightarrow> 'i \<Rightarrow> 'v option"
    and push :: "'q \<Rightarrow> 'v \<Rightarrow> ('i \<times> 'q) option"
    and push_first :: "'q \<Rightarrow> 'v \<Rightarrow> ('i \<times> 'q) option"
    and unlink :: "'q \<Rightarrow> 'i \<Rightarrow> (unit \<Rightarrow> 'v \<Rightarrow> bool \<times> 'v \<times> unit) \<Rightarrow> unit \<Rightarrow> ('v option \<times> unit \<times> 'q) option"
    and unlink_first ::
      "'q \<Rightarrow> (unit \<Rightarrow> 'v \<Rightarrow> bool \<times> 'v \<times> unit) \<Rightarrow> unit \<Rightarrow> (('i \<times> 'v) option \<times> unit \<times> 'q) option"
    and setv :: "'q \<Rightarrow> 'i \<Rightarrow> 'v \<Rightarrow> 'q option"
    and remove :: "'q \<Rightarrow> 'i \<Rightarrow> ('v \<times> 'q) option" +
  fixes view :: "'v \<Rightarrow> waker option"
begin

definition node_state :: "'q \<Rightarrow> waker list \<Rightarrow> 'i registration \<Rightarrow> bool" where
  "node_state s woken r = (case r of (i, w, m) \<Rightarrow> m \<le> length woken \<and>
     (\<exists>v. val s i = Some v \<and>
        (if i \<in> set (queue s) then view v = Some w else view v = None \<and> w \<in> set (drop m woken))))"

definition owned :: "'q \<Rightarrow> ('f \<Rightarrow> 'i registration option) \<Rightarrow> waker list \<Rightarrow> bool" where
  "owned s P woken \<longleftrightarrow> inv s \<and> (\<forall>f r. P f = Some r \<longrightarrow> node_state s woken r) \<and>
     (\<forall>f g i x y. P f = Some (i, x) \<longrightarrow> P g = Some (i, y) \<longrightarrow> f = g) \<and>
     (\<forall>i. val s i \<noteq> None \<longrightarrow> (\<exists>f x. P f = Some (i, x)))"

text \<open>The nodes taken off the queue and not yet collected by their owners.\<close>

definition held :: "'q \<Rightarrow> nat" where
  "held s = card (dom (val s) - set (queue s))"

lemma owned_inv: "owned s P woken \<Longrightarrow> inv s"
  by (simp add: owned_def)

lemma owned_only: "owned s P woken \<Longrightarrow> P f = Some (i, x) \<Longrightarrow> P g = Some (i, y) \<Longrightarrow> g = f"
  unfolding owned_def by blast

lemma owned_state: "owned s P woken \<Longrightarrow> P f = Some r \<Longrightarrow> node_state s woken r"
  unfolding owned_def by blast

lemma owned_empty: "inv s \<Longrightarrow> val s = Map.empty \<Longrightarrow> owned s (\<lambda>f. None) woken"
  by (simp add: owned_def)

lemma node_state_more: "node_state s woken r \<Longrightarrow> node_state s (woken @ ws) r"
  by (auto simp: node_state_def split: prod.splits if_splits)

lemma owned_more: "owned s P woken \<Longrightarrow> owned s P (woken @ ws)"
  by (simp add: owned_def node_state_more)

lemma owned_queued:
  assumes "owned s P woken" and "P f = Some (i, w, m)" and "i \<in> set (queue s)"
  shows "\<exists>v. val s i = Some v \<and> view v = Some w"
  using owned_state [OF assms(1,2)] assms(3) by (auto simp: node_state_def)

lemma owned_taken:
  assumes "owned s P woken" and "P f = Some (i, w, m)" and "i \<notin> set (queue s)"
  shows "\<exists>v. val s i = Some v \<and> view v = None" and "w \<in> set (drop m woken)"
  using owned_state [OF assms(1,2)] assms(3) by (auto simp: node_state_def)

lemma owned_view:
  assumes "owned s P woken" and "P f = Some (i, w, m)" and "val s i = Some v"
  shows "view v = (if i \<in> set (queue s) then Some w else None)"
  using owned_state [OF assms(1,2)] assms(3) by (auto simp: node_state_def split: if_splits)

lemma owned_val:
  assumes "owned s P woken" and "P f = Some (i, x)"
  obtains v where "val s i = Some v"
  using owned_state [OF assms] by (auto simp: node_state_def split: prod.splits)

lemma owned_no_owner:
  assumes "owned s (\<lambda>f. None) woken"
  shows "queue s = []" and "val s = Map.empty"
proof -
  show v: "val s = Map.empty" using assms by (force simp: owned_def)
  have "inv s" using assms by (rule owned_inv)
  then have "\<And>i. i \<notin> set (queue s)" using queue_val v by fastforce
  then show "queue s = []" by (cases "queue s") auto
qed

lemma queue_owner:
  assumes "owned s P woken" and "i \<in> set (queue s)"
  obtains f w m where "P f = Some (i, w, m)"
proof -
  from assms have "val s i \<noteq> None" using queue_val [OF owned_inv [OF assms(1)]] by auto
  then obtain f x where "P f = Some (i, x)" using assms(1) by (auto simp: owned_def)
  then show thesis using that by (cases x) blast
qed

section \<open>Changing one node\<close>

text \<open>
  One rule for all the operations: the value of one node changes, or appears, or disappears, and
  the other nodes keep their value and their place in or out of the queue.
\<close>

lemma owned_change:
  assumes o: "owned s P woken" and "inv s'"
    and other: "\<And>j. j \<noteq> i \<Longrightarrow> val s' j = val s j \<and> (j \<in> set (queue s') \<longleftrightarrow> j \<in> set (queue s))"
    and mine: "\<And>g x. P g = Some (i, x) \<Longrightarrow> g = f"
    and before: "\<And>j x. P f = Some (j, x) \<Longrightarrow> j = i"
    and now: "case k of None \<Rightarrow> val s' i = None | Some r \<Rightarrow> fst r = i \<and> node_state s' woken' r"
    and more: "woken' = woken @ ws"
  shows "owned s' (P(f := k)) woken'"
  unfolding owned_def
proof (intro conjI allI impI)
  have keep: "node_state s' woken' r" if "P g = Some r" "g \<noteq> f" for g r
  proof -
    obtain j x where r: "r = (j, x)" by (cases r)
    then have "j \<noteq> i" using mine that by blast
    with owned_state [OF o that(1)] other [of j] more node_state_more [of s woken r ws] r
    show ?thesis by (auto simp: node_state_def split: prod.splits)
  qed
  show "node_state s' woken' r" if "(P(f := k)) g = Some r" for g r
    using that now keep [of g r] by (cases "g = f") auto
  show "g = h" if "(P(f := k)) g = Some (j, x)" "(P(f := k)) h = Some (j, y)" for g h j x y
  proof (cases "g = f \<or> h = f")
    case True
    with that have "k = Some (j, x) \<or> k = Some (j, y)" by auto
    then have "j = i" using now by auto
    then show ?thesis using that mine True by (metis fun_upd_other)
  next
    case False
    then show ?thesis using that owned_only [OF o, of h j y g x] by simp
  qed
  show "\<exists>g x. (P(f := k)) g = Some (j, x)" if "val s' j \<noteq> None" for j
  proof (cases "j = i")
    case True
    with that now show ?thesis by (cases k) (auto intro: exI [of _ f])
  next
    case False
    then have "val s j \<noteq> None" using that other [of j] by simp
    then obtain g x where "P g = Some (j, x)" using o unfolding owned_def by blast
    moreover have "g \<noteq> f" using calculation before False by blast
    ultimately show ?thesis by (intro exI [of _ g] exI [of _ x]) simp
  qed
qed (rule assms)

lemma park_new:
  assumes o: "owned s P woken" and f: "P f = None" and p: "push s v = Some (i, s')"
    and v: "view v = Some w"
  shows "owned s' (P(f \<mapsto> (i, w, length woken))) woken" and "queue s' = queue s @ [i]"
    and "val s' = (val s)(i \<mapsto> v)" and "held s' = held s"
proof -
  have n: "val s i = None" "inv s'" "queue s' = queue s @ [i]" "val s' = (val s)(i \<mapsto> v)"
    using push_law [OF owned_inv [OF o] p] by blast+
  show "owned s' (P(f \<mapsto> (i, w, length woken))) woken"
  proof (rule owned_change [OF o n(2), of i])
    show "g = f" if "P g = Some (i, x)" for g x
      using owned_val [OF o that] n(1) by auto
  qed (use n f v in \<open>auto simp: node_state_def\<close>)
  show "queue s' = queue s @ [i]" "val s' = (val s)(i \<mapsto> v)" by (fact n)+
  have "dom (val s') - set (queue s') = dom (val s) - set (queue s)"
    using n(1,3,4) by (auto simp: dom_def)
  then show "held s' = held s" by (simp add: held_def)
qed

lemma park_again:
  assumes o: "owned s P woken" and f: "P f = Some (i, w0, m)" and q: "i \<in> set (queue s)"
    and p: "setv s i v = Some s'" and v: "view v = Some w"
  shows "owned s' (P(f \<mapsto> (i, w, length woken))) woken" and "queue s' = queue s"
    and "val s' = (val s)(i \<mapsto> v)" and "held s' = held s"
proof -
  note n = setvD [OF owned_inv [OF o] p]
  show "owned s' (P(f \<mapsto> (i, w, length woken))) woken"
  proof (rule owned_change [OF o n(2), of i])
    show "g = f" if "P g = Some (i, x)" for g x by (rule owned_only [OF o f that])
  qed (use n f v q in \<open>auto simp: node_state_def\<close>)
  show "queue s' = queue s" "val s' = (val s)(i \<mapsto> v)" by (fact n)+
  have "dom (val s') - set (queue s') = dom (val s) - set (queue s)"
    using n q by (auto simp: dom_def)
  then show "held s' = held s" by (simp add: held_def)
qed

text \<open>Keeping the waker: the poll is recorded, nothing is written.\<close>

lemma park_same:
  assumes o: "owned s P woken" and f: "P f = Some (i, w, m)" and q: "i \<in> set (queue s)"
  shows "owned s (P(f \<mapsto> (i, w, length woken))) woken"
proof (rule owned_change [OF o owned_inv [OF o], of i])
  show "g = f" if "P g = Some (i, x)" for g x by (rule owned_only [OF o f that])
qed (use f q owned_queued [OF o f q] in \<open>auto simp: node_state_def\<close>)

lemma leave:
  assumes o: "owned s P woken" and f: "P f = Some (i, w, m)"
    and p: "\<And>v. p () v = (True, v, ())"
  obtains v s1 s' where "val s i = Some v" and "unlink s i p () = Some (Some v, (), s1)"
    and "remove s1 i = Some (v, s')" and "owned s' (P(f := None)) woken"
    and "queue s' = removeAll i (queue s)" and "val s' = (val s)(i := None)"
    and "held s' = (if i \<in> set (queue s) then held s else held s - 1)"
    and "view v = (if i \<in> set (queue s) then Some w else None)"
proof -
  obtain v where v: "val s i = Some v" by (rule owned_val [OF o f])
  obtain s1 s' where n: "unlink s i p () = Some (Some v, (), s1)" "remove s1 i = Some (v, s')"
    "inv s'" "queue s' = removeAll i (queue s)" "val s' = (val s)(i := None)"
    using unlink_remove [where p = p and c = "()", OF owned_inv [OF o] v p] by blast
  have "owned s' (P(f := None)) woken"
  proof (rule owned_change [OF o n(3), of i])
    show "g = f" if "P g = Some (i, x)" for g x by (rule owned_only [OF o f that])
  qed (use n f in auto)
  moreover have "dom (val s') - set (queue s') = dom (val s) - set (queue s) - {i}"
    using n(4,5) by auto
  then have "held s' = (if i \<in> set (queue s) then held s else held s - 1)"
    using v val_finite [of s] by (auto simp: held_def card_Diff_singleton_if)
  ultimately show thesis using that v n owned_view [OF o f v] by blast
qed

lemma collect:
  assumes o: "owned s P woken" and f: "P f = Some (i, w, m)" and q: "i \<notin> set (queue s)"
  obtains v s' where "val s i = Some v" and "view v = None"
    and "remove s i = Some (v, s')" and "owned s' (P(f := None)) woken"
    and "queue s' = queue s" and "val s' = (val s)(i := None)" and "held s = Suc (held s')"
proof -
  obtain v where v: "val s i = Some v" "view v = None" using owned_taken [OF o f q] by blast
  obtain s' where n: "remove s i = Some (v, s')" "inv s'" "queue s' = queue s"
    "val s' = (val s)(i := None)"
    using remove_law [OF owned_inv [OF o] v(1) q] by blast
  have o': "owned s' (P(f := None)) woken"
  proof (rule owned_change [OF o n(2), of i])
    show "g = f" if "P g = Some (i, x)" for g x by (rule owned_only [OF o f that])
  qed (use n f q in auto)
  have "dom (val s') - set (queue s') = dom (val s) - set (queue s) - {i}"
    using n(3,4) by auto
  moreover have "i \<in> dom (val s) - set (queue s)" using v q by auto
  ultimately have "held s = Suc (held s')"
    using val_finite [of s] card.remove [of "dom (val s) - set (queue s)" i] by (simp add: held_def)
  with o' show thesis using that v n by blast
qed

section \<open>Taking the first waiter\<close>

text \<open>
  \<open>unlink_first_waiter\<close> followed by a write to the detached node: the queue loses its head and
  the waker the node held is the one to wake.
\<close>

lemma select:
  assumes o: "owned s P woken" and p: "\<And>v. p () v = (True, g v, ())"
    and q: "queue s = i # q"
  obtains v w s1 where "val s i = Some v" and "view v = Some w"
    and "unlink_first s p () = Some (Some (i, g v), (), s1)"
    and "\<And>v'. view v' = None \<Longrightarrow> \<exists>s2. setv s1 i v' = Some s2 \<and> owned s2 P (woken @ [w]) \<and>
      queue s2 = q \<and> val s2 = (val s)(i \<mapsto> v') \<and> held s2 = Suc (held s)"
proof -
  note inv = owned_inv [OF o]
  obtain f w m where f: "P f = Some (i, w, m)" by (rule queue_owner [OF o, of i]) (use q in auto)
  then obtain v where v: "val s i = Some v" "view v = Some w" using owned_queued [OF o f] q by auto
  have d: "distinct (i # q)" using queue_distinct [OF inv] q by simp
  obtain s1 where n: "unlink s i p () = Some (Some (g v), (), s1)" "inv s1"
    "val s1 = (val s)(i \<mapsto> g v)" "queue s1 = removeAll i (queue s)"
    using unlink_law [where p = p and c = "()", OF inv v(1) p] by auto
  then have q1: "queue s1 = q" using q d by (simp add: removeAll_id)
  have "\<exists>s2. setv s1 i v' = Some s2 \<and> owned s2 P (woken @ [w]) \<and> queue s2 = q \<and>
      val s2 = (val s)(i \<mapsto> v') \<and> held s2 = Suc (held s)" if n': "view v' = None" for v'
  proof -
    have "val s1 i = Some (g v)" using n(3) by simp
    from setv_law [OF n(2) this, of v'] obtain s2 where s2: "setv s1 i v' = Some s2" "inv s2"
      "queue s2 = q" "val s2 = (val s)(i \<mapsto> v')" using q1 n(3) by auto
    have "m \<le> length woken" using owned_state [OF o f] by (simp add: node_state_def)
    then have "node_state s2 (woken @ [w]) (i, w, m)"
      using s2 d n' by (simp add: node_state_def)
    then have "owned s2 (P(f := Some (i, w, m))) (woken @ [w])"
    proof (intro owned_change [OF o s2(2), of i])
      show "h = f" if "P h = Some (i, x)" for h x by (rule owned_only [OF o f that])
    qed (use s2 q d f in auto)
    moreover have "P(f := Some (i, w, m)) = P" using f by auto
    moreover have "dom (val s2) - set (queue s2) = insert i (dom (val s) - set (queue s))"
      using s2 d q v by auto
    then have "held s2 = Suc (held s)" using q val_finite [of s] by (simp add: held_def)
    ultimately show ?thesis using s2 by auto
  qed
  moreover have "unlink_first s p () = Some (Some (i, g v), (), s1)"
    using unlink_first_Cons [OF inv q, of p "()"] n(1) by simp
  ultimately show thesis using that v by blast
qed

text \<open>The whole of it, as the clients write it: \<open>sel\<close> is what the detached node becomes.\<close>

definition take_first :: "'q \<Rightarrow> 'v \<Rightarrow> (waker option \<times> 'q) option" where
  "take_first s sel = do {
     (r, u, s) \<leftarrow> unlink_first s always ();
     (case r of
        None \<Rightarrow> Some (None, s)
      | Some (i, v) \<Rightarrow> do {
          w \<leftarrow> view v;
          s \<leftarrow> setv s i sel;
          Some (Some w, s) }) }"

lemma take_first_empty: "inv s \<Longrightarrow> queue s = [] \<Longrightarrow> take_first s sel = Some (None, s)"
  by (simp add: take_first_def unlink_first_empty)

lemma take_first_spec:
  assumes o: "owned s P woken" and n: "view sel = None"
  obtains r s' where "take_first s sel = Some (r, s')" and "owned s' P (woken @ opt_list r)"
    and "queue s' = tl (queue s)" and "r = None \<longleftrightarrow> queue s = []" and "r = None \<longrightarrow> s' = s"
    and "held s' = held s + length (opt_list r)"
    and "\<forall>w. r = Some w \<longrightarrow> (\<exists>v. val s (hd (queue s)) = Some v \<and> view v = Some w)"
    and "\<forall>j. queue s = [] \<or> j \<noteq> hd (queue s) \<longrightarrow> val s' j = val s j"
proof (cases "queue s")
  case Nil
  then show thesis using that [of None s] take_first_empty [OF owned_inv [OF o]] o by simp
next
  case (Cons i q)
  have p: "always () v = (True, v, ())" for v :: 'v by (simp add: always_def)
  obtain v w s1 where u: "val s i = Some v" "view v = Some w"
    "unlink_first s always () = Some (Some (i, v), (), s1)"
    "\<And>v'. view v' = None \<Longrightarrow> \<exists>s2. setv s1 i v' = Some s2 \<and> owned s2 P (woken @ [w]) \<and>
      queue s2 = q \<and> val s2 = (val s)(i \<mapsto> v') \<and> held s2 = Suc (held s)"
    by (rule select [where p = always, OF o p Cons]) blast
  from u(4) [OF n] obtain s2 where "setv s1 i sel = Some s2" "owned s2 P (woken @ [w])"
    "queue s2 = q" "val s2 = (val s)(i \<mapsto> sel)" "held s2 = Suc (held s)" by blast
  then show thesis using that [of "Some w" s2] u Cons by (auto simp: take_first_def)
qed

section \<open>Emptying the queue\<close>

definition wakers_in :: "'q \<Rightarrow> waker list" where
  "wakers_in s = map (\<lambda>i. the (view (the (val s i)))) (queue s)"

lemma drain:
  assumes "K s a ws"
    and K_inv: "\<And>s a ws. K s a ws \<Longrightarrow> inv s \<and> (\<forall>i\<in>set (queue s). \<exists>v w. val s i = Some v \<and> view v = Some w)"
    and stop: "\<And>s a. inv s \<Longrightarrow> queue s = [] \<Longrightarrow> body (s, a) = Some ((s, a), False)"
    and step: "\<And>s a ws i q v w. K s a ws \<Longrightarrow> queue s = i # q \<Longrightarrow> val s i = Some v \<Longrightarrow> view v = Some w \<Longrightarrow>
      \<exists>s' a'. body (s, a) = Some ((s', a'), True) \<and> K s' a' (ws @ [w]) \<and> queue s' = q \<and>
        (\<forall>j. j \<noteq> i \<longrightarrow> val s' j = val s j)"
  shows "\<exists>s' a'. loop body (s, a) = Some (s', a') \<and> K s' a' (ws @ wakers_in s) \<and> queue s' = []"
  using assms(1)
proof (induction "queue s" arbitrary: s a ws)
  case Nil
  then have "body (s, a) = Some ((s, a), False)" using stop K_inv [OF Nil.prems] by simp
  from loop_unroll [where body = body, OF this] Nil show ?case by (simp add: wakers_in_def)
next
  case (Cons i q)
  note q = Cons.hyps(2) [symmetric]
  obtain v w where v: "val s i = Some v" "view v = Some w" using K_inv [OF Cons.prems] q by auto
  obtain s' a' where n: "body (s, a) = Some ((s', a'), True)" "K s' a' (ws @ [w])" "queue s' = q"
    "\<And>j. j \<noteq> i \<Longrightarrow> val s' j = val s j" using step [OF Cons.prems q v] by blast
  have "i \<notin> set q" using queue_distinct [of s] K_inv [OF Cons.prems] q by simp
  then have "val s' j = val s j" if "j \<in> set q" for j using n(4) [of j] that by metis
  then have "map (\<lambda>j. the (view (the (val s' j)))) q = map (\<lambda>j. the (view (the (val s j)))) q" by simp
  then have "wakers_in s = w # wakers_in s'" using q n(3) v by (simp add: wakers_in_def)
  then show ?case
    using Cons.hyps(1) [OF n(3) [symmetric] n(2)] loop_unroll [where body = body, OF n(1)] by simp
qed

text \<open>A queue moved out of its owner is emptied without minding who owned the nodes.\<close>

lemma unlink_head:
  assumes "inv s" and "queue s = i # q" and "val s i = Some v"
  obtains s' where "unlink_first s always () = Some (Some (i, v), (), s')" and "inv s'" and "queue s' = q"
    and "val s' = val s"
proof -
  have "always () v = (True, v, ())" by (simp add: always_def)
  from unlink_law [where p = always and c = "()", OF assms(1,3) this] obtain s' where
    "unlink s i always () = Some (Some v, (), s')" "inv s'" "val s' = (val s)(i \<mapsto> v)"
    "queue s' = removeAll i (queue s)" by auto
  moreover have "i \<notin> set q" using queue_distinct [OF assms(1)] assms(2) by simp
  ultimately show thesis
    using that [of s'] unlink_first_Cons [OF assms(1,2), of always "()"] assms(2,3)
    by (simp add: removeAll_id fun_upd_idem)
qed

lemma take_first_inv:
  assumes "inv s" and "queue s = i # q" and "val s i = Some v" and "view v = Some w"
  obtains s' where "take_first s sel = Some (Some w, s')" and "inv s'" and "queue s' = q"
    and "val s' = (val s)(i \<mapsto> sel)"
proof -
  obtain s1 where u: "unlink_first s always () = Some (Some (i, v), (), s1)" "inv s1" "queue s1 = q" "val s1 = val s"
    by (rule unlink_head [OF assms(1,2,3)])
  then have "val s1 i = Some v" using assms(3) by simp
  from setv_law [OF u(2) this, of sel] show thesis
    using that u assms(4) by (auto simp: take_first_def)
qed

lemma drain_moved:
  assumes "inv s" and "\<forall>i\<in>set (queue s). \<exists>v w. val s i = Some v \<and> view v = Some w"
    and stop: "\<And>s a. inv s \<Longrightarrow> queue s = [] \<Longrightarrow> body (s, a) = Some ((s, a), False)"
    and step: "\<And>s a i q v w. inv s \<Longrightarrow> queue s = i # q \<Longrightarrow> val s i = Some v \<Longrightarrow> view v = Some w \<Longrightarrow>
      \<exists>s'. body (s, a) = Some ((s', a @ [w]), True) \<and> inv s' \<and> queue s' = q \<and> (\<forall>j. j \<noteq> i \<longrightarrow> val s' j = val s j)"
  shows "\<exists>s'. loop body (s, a) = Some (s', a @ wakers_in s)"
proof -
  define K where "K s b ws \<longleftrightarrow> inv s \<and> (\<forall>i\<in>set (queue s). \<exists>v w. val s i = Some v \<and> view v = Some w) \<and> b = a @ ws"
    for s b ws
  have "\<exists>s' b. loop body (s, a) = Some (s', b) \<and> K s' b ([] @ wakers_in s) \<and> queue s' = []"
  proof (rule drain [where K = K])
    fix s b ws i q v w
    assume k: "K s b ws" and q: "queue s = i # q" and v: "val s i = Some v" "view v = Some w"
    then obtain s' where s': "body (s, b) = Some ((s', b @ [w]), True)" "inv s'" "queue s' = q"
      "\<And>j. j \<noteq> i \<Longrightarrow> val s' j = val s j" using step [of s i q v w b] by (auto simp: K_def)
    have "i \<notin> set q" using queue_distinct [of s] k q by (simp add: K_def)
    then have "K s' (b @ [w]) (ws @ [w])"
      using k q s' unfolding K_def by (metis append_assoc list.set_intros(2))
    then show "\<exists>s' b'. body (s, b) = Some ((s', b'), True) \<and> K s' b' (ws @ [w]) \<and> queue s' = q \<and>
        (\<forall>j. j \<noteq> i \<longrightarrow> val s' j = val s j)" using s' by blast
  qed (use assms in \<open>auto simp: K_def\<close>)
  then show ?thesis by (auto simp: K_def)
qed

lemma owned_wakers:
  assumes "owned s P woken" and "i \<in> set (queue s)"
  shows "\<exists>v w. val s i = Some v \<and> view v = Some w"
  by (rule queue_owner [OF assms]) (use owned_queued [OF assms(1) _ assms(2)] in blast)

text \<open>Once the wakers still queued have been woken, every registered future has been.\<close>

lemma all_woken:
  assumes o: "owned s P woken"
  shows "woken_all P (woken @ wakers_in s)"
  unfolding woken_all_def
proof (intro allI impI)
  fix f i w m assume f: "P f = Some (i, w, m)"
  have m: "m \<le> length woken" using owned_state [OF o f] by (simp add: node_state_def)
  show "m \<le> length (woken @ wakers_in s) \<and> w \<in> set (drop m (woken @ wakers_in s))"
  proof (cases "i \<in> set (queue s)")
    case True
    then have "w \<in> set (wakers_in s)" using owned_queued [OF o f True] by (force simp: wakers_in_def)
    then show ?thesis using m by simp
  next
    case False
    then show ?thesis using m owned_taken(2) [OF o f False] by simp
  qed
qed

end

section \<open>Lists with one waiter\<close>

text \<open>The concrete runs use lists with at most one node, linked or detached.\<close>

definition node_id :: waiter_id where
  "node_id = WaiterId (SlotId (NonZero 0))"

definition one_waiter :: "bool \<Rightarrow> 'a \<Rightarrow> 'a wait_list" where
  "one_waiter b v = \<lparr>wl_head = (if b then Some node_id else None), wl_tail = (if b then Some node_id else None),
     wl_nodes = \<lparr>ar_slots = [Occupied \<lparr>nd_links = (if b then Some \<lparr>lk_prev = None, lk_next = None\<rparr> else None),
       nd_value = v\<rparr>], ar_vacant_head = None, ar_len = 1\<rparr>\<rparr>"

lemma one_waiter_simps:
  "push_back wl_new v = Some (node_id, one_waiter True v)"
  "unlink_first_waiter (one_waiter False v) p c = Some (None, c, one_waiter False v)"
  "waiter_mut (one_waiter b v) node_id = Some v"
  "set_waiter (one_waiter b v) node_id v' = Some (one_waiter b v')"
  "wl_queue (one_waiter b v) = (if b then [node_id] else [])"
  by (simp_all add: op_defs one_waiter_def node_id_def wl_queue_def)

lemma one_waiter_unlink:
  "p c v = (True, v', c') \<Longrightarrow>
   unlink_first_waiter (one_waiter True v) p c = Some (Some (node_id, v'), c', one_waiter False v')"
  "p c v = (True, v', c') \<Longrightarrow>
   unlink_waiter (one_waiter b v) node_id p c = Some (Some v', c', one_waiter False v')"
  by (simp_all add: op_defs one_waiter_def node_id_def)

end
