(* ===== verification/ManualResetEvent.thy ===== *)
theory ManualResetEvent
  imports Waiters WakerBatch
begin

text \<open>
  The manual-reset event of \<open>event/manual_reset.rs\<close>: a flag that writers change under the
  waiter lock and that readers may probe without it. Setting the flag releases all the waits
  registered at that moment, and a released wait stays released when the event is reset.
\<close>

section \<open>The event\<close>

record event_waiter =
  ew_notified :: bool
  ew_waker :: "waker option"

record manual_event =
  me_is_set :: bool
  me_waiters :: "event_waiter wait_list"

definition me_with_state :: "bool \<Rightarrow> manual_event" where
  "me_with_state is_set = \<lparr>me_is_set = is_set, me_waiters = wl_new\<rparr>"

definition me_new :: manual_event where
  "me_new = me_with_state False"

text \<open>The closure that \<open>set\<close> runs on each waiter, and one turn of its loop.\<close>

definition mark_notified :: "(unit, event_waiter) unlink_pred" where
  "mark_notified c waiter = (True, waiter\<lparr>ew_notified := True\<rparr>, c)"

definition me_set_body ::
  "event_waiter wait_list \<times> waker_batch \<Rightarrow> ((event_waiter wait_list \<times> waker_batch) \<times> bool) option" where
  "me_set_body st = (case st of (waiters, wakers) \<Rightarrow> do {
     (r, c, waiters) \<leftarrow> unlink_first_waiter waiters mark_notified ();
     (case r of
        None \<Rightarrow> Some ((waiters, wakers), False)
      | Some (i, waiter) \<Rightarrow> do {
          waiters \<leftarrow> set_waiter waiters i (waiter\<lparr>ew_waker := None\<rparr>);
          wakers \<leftarrow> (case ew_waker waiter of Some waker \<Rightarrow> wb_push wakers waker | None \<Rightarrow> Some wakers);
          Some ((waiters, wakers), True) }) })"

definition me_set :: "manual_event \<Rightarrow> (waker list \<times> manual_event) option" where
  "me_set ev =
     (if me_is_set ev then Some ([], ev)
      else do {
        (waiters, wakers) \<leftarrow> loop me_set_body (me_waiters ev, wb_new);
        (woken, wakers) \<leftarrow> wb_wake_all wakers;
        Some (woken, ev\<lparr>me_is_set := True, me_waiters := waiters\<rparr>) })"

definition me_reset :: "manual_event \<Rightarrow> manual_event" where
  "me_reset ev = ev\<lparr>me_is_set := False\<rparr>"

definition me_try_wait :: "manual_event \<Rightarrow> bool" where
  "me_try_wait ev = me_is_set ev"

text \<open>
  \<open>poll_wait\<close> probes the flag without the lock when the wait is unregistered; the rest runs
  under the lock, and other threads may have changed the event in between.
\<close>

definition me_poll_locked ::
  "manual_event \<Rightarrow> waiter_id option \<Rightarrow> waker \<Rightarrow> (unit poll \<times> waiter_id option \<times> manual_event) option" where
  "me_poll_locked ev waiter_id waker =
     (case waiter_id of
        Some i \<Rightarrow> do {
          waiter \<leftarrow> waiter_mut (me_waiters ev) i;
          if ew_notified waiter then do {
            (waiter, waiters) \<leftarrow> remove_unlinked_waiter (me_waiters ev) i;
            Some (Ready (), None, ev\<lparr>me_waiters := waiters\<rparr>) }
          else do {
            guard (\<not> me_is_set ev);
            waiters \<leftarrow> set_waiter (me_waiters ev) i
              (waiter\<lparr>ew_waker := snd (register_waker (ew_waker waiter) waker)\<rparr>);
            Some (Pending, Some i, ev\<lparr>me_waiters := waiters\<rparr>) } }
      | None \<Rightarrow>
          if me_is_set ev then Some (Ready (), None, ev)
          else do {
            (i, waiters) \<leftarrow> push_back (me_waiters ev) \<lparr>ew_notified = False, ew_waker = Some waker\<rparr>;
            Some (Pending, Some i, ev\<lparr>me_waiters := waiters\<rparr>) })"

definition me_poll_wait ::
  "manual_event \<Rightarrow> waiter_id option \<Rightarrow> waker \<Rightarrow> (unit poll \<times> waiter_id option \<times> manual_event) option" where
  "me_poll_wait ev waiter_id waker =
     (if waiter_id = None \<and> me_is_set ev then Some (Ready (), None, ev)
      else me_poll_locked ev waiter_id waker)"

definition me_unregister_waiter :: "manual_event \<Rightarrow> waiter_id \<Rightarrow> manual_event option" where
  "me_unregister_waiter ev i = do {
     (_, _, waiters) \<leftarrow> unlink_waiter (me_waiters ev) i always ();
     (waiter, waiters) \<leftarrow> remove_unlinked_waiter waiters i;
     Some (ev\<lparr>me_waiters := waiters\<rparr>) }"

definition me_wait_drop :: "manual_event \<Rightarrow> waiter_id option \<Rightarrow> manual_event option" where
  "me_wait_drop ev waiter = (case waiter of Some i \<Rightarrow> me_unregister_waiter ev i | None \<Rightarrow> Some ev)"

lemmas manual_event_ops [op_defs] = me_with_state_def me_new_def mark_notified_def me_set_body_def
  me_set_def me_reset_def me_try_wait_def me_poll_locked_def me_poll_wait_def
  me_unregister_waiter_def me_wait_drop_def

section \<open>All interleavings\<close>

text \<open>
  The event with its live wait futures. A future is unregistered or has a node, the waker of its
  last poll and the number of wake-ups delivered by then. Completed and cancelled futures leave.
\<close>

record manual_sys =
  ms_event :: manual_event
  ms_futs :: wait_futures
  ms_woken :: "waker list"

definition manual_init :: "bool \<Rightarrow> manual_sys" where
  "manual_init b = \<lparr>ms_event = me_with_state b, ms_futs = Map.empty, ms_woken = []\<rparr>"

inductive manual_step :: "manual_sys \<Rightarrow> manual_sys \<Rightarrow> bool" where
  spawn: "ms_futs s f = None \<Longrightarrow> manual_step s (s\<lparr>ms_futs := (ms_futs s)(f \<mapsto> None)\<rparr>)"
| set_event: "me_set (ms_event s) = Some (woken, ev) \<Longrightarrow>
    manual_step s (s\<lparr>ms_event := ev, ms_woken := ms_woken s @ woken\<rparr>)"
| reset_event: "manual_step s (s\<lparr>ms_event := me_reset (ms_event s)\<rparr>)"
| probe: "ms_futs s f = Some None \<Longrightarrow> me_is_set (ms_event s) \<Longrightarrow>
    manual_step s (s\<lparr>ms_futs := (ms_futs s)(f := None)\<rparr>)"
| ready: "ms_futs s f = Some k \<Longrightarrow> me_poll_locked (ms_event s) (map_option fst k) w = Some (Ready (), i, ev) \<Longrightarrow>
    manual_step s (s\<lparr>ms_event := ev, ms_futs := (ms_futs s)(f := None)\<rparr>)"
| pending: "ms_futs s f = Some k \<Longrightarrow>
    me_poll_locked (ms_event s) (map_option fst k) w = Some (Pending, Some i, ev) \<Longrightarrow>
    manual_step s (s\<lparr>ms_event := ev, ms_futs := (ms_futs s)(f \<mapsto> Some (i, w, length (ms_woken s)))\<rparr>)"
| drop: "ms_futs s f = Some k \<Longrightarrow> me_wait_drop (ms_event s) (map_option fst k) = Some ev \<Longrightarrow>
    manual_step s (s\<lparr>ms_event := ev, ms_futs := (ms_futs s)(f := None)\<rparr>)"

section \<open>The invariant\<close>

interpretation mo: waiter_owners wl_inv wl_room wl_queue wl_val push_back push_front
  unlink_waiter unlink_first_waiter set_waiter remove_unlinked_waiter ew_waker
  by unfold_locales

definition waiters_wf :: "event_waiter wait_list \<Rightarrow> bool" where
  "waiters_wf wl \<longleftrightarrow> (\<forall>i v. wl_val wl i = Some v \<longrightarrow> (ew_notified v \<longleftrightarrow> ew_waker v = None))"

definition manual_inv :: "manual_sys \<Rightarrow> bool" where
  "manual_inv s \<longleftrightarrow> mo.owned (me_waiters (ms_event s)) (regs_of (ms_futs s)) (ms_woken s) \<and>
     waiters_wf (me_waiters (ms_event s)) \<and>
     (me_is_set (ms_event s) \<longrightarrow> wl_queue (me_waiters (ms_event s)) = [])"

lemma manual_init_inv: "manual_inv (manual_init b)"
  by (simp add: manual_inv_def manual_init_def me_with_state_def waiters_wf_def wl_queue_new wl_val_new
      mo.owned_empty)

lemma waiters_wf_upd:
  "waiters_wf wl \<Longrightarrow> wl_val wl' = (wl_val wl)(i := k) \<Longrightarrow>
   (\<And>v. k = Some v \<Longrightarrow> ew_notified v \<longleftrightarrow> ew_waker v = None) \<Longrightarrow> waiters_wf wl'"
  by (simp add: waiters_wf_def)

section \<open>Setting the event\<close>

lemma me_set_loop:
  assumes "mo.owned wl P woken" and "waiters_wf wl"
  obtains wl' b where "loop me_set_body (wl, wb_new) = Some (wl', b)" and "wb_inv b"
    and "wb_list b = mo.wakers_in wl" and "mo.owned wl' P (woken @ mo.wakers_in wl)"
    and "waiters_wf wl'" and "wl_queue wl' = []"
proof -
  define K where "K wl b ws \<longleftrightarrow> mo.owned wl P (woken @ ws) \<and> waiters_wf wl \<and> wb_inv b \<and> wb_list b = ws"
    for wl b ws
  have "\<exists>wl' b. loop me_set_body (wl, wb_new) = Some (wl', b) \<and> K wl' b ([] @ mo.wakers_in wl) \<and> wl_queue wl' = []"
  proof (rule mo.drain [where K = K])
    show "K wl wb_new []" using assms by (simp add: K_def)
    show "wl_inv s \<and> (\<forall>i\<in>set (wl_queue s). \<exists>v w. wl_val s i = Some v \<and> ew_waker v = Some w)" if "K s b ws" for s b ws
      using that mo.owned_inv mo.owned_wakers unfolding K_def by blast
    show "me_set_body (s, b) = Some ((s, b), False)" if "wl_inv s" "wl_queue s = []" for s b
      using that wq.unlink_first_empty [of s mark_notified "()"] by (simp add: me_set_body_def)
  next
    fix s b ws i q v w
    assume k: "K s b ws" and q: "wl_queue s = i # q" and v: "wl_val s i = Some v" "ew_waker v = Some w"
    have p: "mark_notified () x = (True, x\<lparr>ew_notified := True\<rparr>, ())" for x by (simp add: mark_notified_def)
    have o: "mo.owned s P (woken @ ws)" using k by (simp add: K_def)
    obtain s1 where u: "unlink_first_waiter s mark_notified () = Some (Some (i, v\<lparr>ew_notified := True\<rparr>), (), s1)"
      "\<And>v'. ew_waker v' = None \<Longrightarrow> \<exists>s2. set_waiter s1 i v' = Some s2 \<and> mo.owned s2 P ((woken @ ws) @ [w]) \<and>
        wl_queue s2 = q \<and> wl_val s2 = (wl_val s)(i \<mapsto> v') \<and> mo.held s2 = Suc (mo.held s)"
      by (rule mo.select [where p = mark_notified, OF o p q]) (use v in auto)
    from u(2) [of "v\<lparr>ew_notified := True, ew_waker := None\<rparr>"] obtain s2 where
      s2: "set_waiter s1 i (v\<lparr>ew_notified := True, ew_waker := None\<rparr>) = Some s2"
      "mo.owned s2 P ((woken @ ws) @ [w])" "wl_queue s2 = q"
      "wl_val s2 = (wl_val s)(i \<mapsto> v\<lparr>ew_notified := True, ew_waker := None\<rparr>)" by auto
    obtain b' where b': "wb_push b w = Some b'" "wb_inv b'" "wb_list b' = wb_list b @ [w]"
      using wb_push_spec [of b w] k by (auto simp: K_def)
    have "waiters_wf s2" using k s2(4) by (auto simp: K_def intro: waiters_wf_upd)
    then show "\<exists>s' b'. me_set_body (s, b) = Some ((s', b'), True) \<and> K s' b' (ws @ [w]) \<and> wl_queue s' = q \<and>
        (\<forall>j. j \<noteq> i \<longrightarrow> wl_val s' j = wl_val s j)"
      using u(1) s2 b' v(2) k by (simp add: me_set_body_def K_def)
  qed
  then show thesis using that unfolding K_def by auto
qed

lemma me_set_spec:
  assumes "mo.owned (me_waiters ev) P woken" and "waiters_wf (me_waiters ev)"
    and "me_is_set ev \<Longrightarrow> wl_queue (me_waiters ev) = []"
  obtains ev' where "me_set ev = Some (mo.wakers_in (me_waiters ev), ev')" and "me_is_set ev'"
    and "mo.owned (me_waiters ev') P (woken @ mo.wakers_in (me_waiters ev))"
    and "waiters_wf (me_waiters ev')" and "wl_queue (me_waiters ev') = []"
proof (cases "me_is_set ev")
  case True
  then show thesis using that [of ev] assms by (simp add: me_set_def mo.wakers_in_def)
next
  case False
  obtain wl b where l: "loop me_set_body (me_waiters ev, wb_new) = Some (wl, b)" "wb_inv b"
    "wb_list b = mo.wakers_in (me_waiters ev)"
    "mo.owned wl P (woken @ mo.wakers_in (me_waiters ev))" "waiters_wf wl" "wl_queue wl = []"
    by (rule me_set_loop [OF assms(1,2)])
  obtain b' where "wb_wake_all b = Some (wb_list b, b')" by (rule wb_wake_all_spec [OF l(2)])
  then show thesis using that False l by (simp add: me_set_def)
qed

section \<open>Polling and cancelling\<close>

lemma me_poll_registered:
  assumes o: "mo.owned (me_waiters ev) P woken" and wf: "waiters_wf (me_waiters ev)"
    and f: "P f = Some (i, w0, m)" and q: "i \<in> set (wl_queue (me_waiters ev))" and "\<not> me_is_set ev"
  obtains wl where "me_poll_locked ev (Some i) w = Some (Pending, Some i, ev\<lparr>me_waiters := wl\<rparr>)"
    and "mo.owned wl (P(f \<mapsto> (i, w, length woken))) woken" and "waiters_wf wl"
    and "wl_queue wl = wl_queue (me_waiters ev)"
proof -
  obtain v where v: "wl_val (me_waiters ev) i = Some v" "ew_waker v = Some w0"
    using mo.owned_queued [OF o f q] by blast
  then have n: "\<not> ew_notified v" using wf by (auto simp: waiters_wf_def)
  let ?v = "v\<lparr>ew_waker := Some w\<rparr>"
  obtain wl where s: "set_waiter (me_waiters ev) i ?v = Some wl"
    using wq.setv_law [OF mo.owned_inv [OF o] v(1), of ?v] by blast
  note n' = mo.park_again [OF o f q s, of w]
  have "waiters_wf wl"
    by (rule waiters_wf_upd [OF wf, of wl i "Some ?v"]) (use n' n in auto)
  then show thesis using that [of wl] n' v n s assms(5)
    by (simp add: me_poll_locked_def waiter_mut_eq guard_def)
qed

lemma me_poll_released:
  assumes o: "mo.owned (me_waiters ev) P woken" and wf: "waiters_wf (me_waiters ev)"
    and f: "P f = Some (i, w0, m)" and q: "i \<notin> set (wl_queue (me_waiters ev))"
  obtains wl where "me_poll_locked ev (Some i) w = Some (Ready (), None, ev\<lparr>me_waiters := wl\<rparr>)"
    and "mo.owned wl (P(f := None)) woken" and "waiters_wf wl"
    and "wl_queue wl = wl_queue (me_waiters ev)"
proof -
  obtain v wl where n: "wl_val (me_waiters ev) i = Some v" "ew_waker v = None"
    "remove_unlinked_waiter (me_waiters ev) i = Some (v, wl)" "mo.owned wl (P(f := None)) woken"
    "wl_queue wl = wl_queue (me_waiters ev)" "wl_val wl = (wl_val (me_waiters ev))(i := None)"
    by (rule mo.collect [OF o f q])
  moreover have "ew_notified v" using wf n(1,2) by (auto simp: waiters_wf_def)
  moreover have "waiters_wf wl" by (rule waiters_wf_upd [OF wf n(6)]) simp
  ultimately show thesis using that [of wl] by (simp add: me_poll_locked_def waiter_mut_eq)
qed

lemma me_poll_fresh:
  assumes o: "mo.owned (me_waiters ev) P woken" and wf: "waiters_wf (me_waiters ev)" and f: "P f = None"
    and r: "me_poll_locked ev None w = Some (Pending, Some i, ev')"
  shows "\<not> me_is_set ev'" and "mo.owned (me_waiters ev') (P(f \<mapsto> (i, w, length woken))) woken"
    and "waiters_wf (me_waiters ev')"
proof -
  from r obtain wl where p: "push_back (me_waiters ev) \<lparr>ew_notified = False, ew_waker = Some w\<rparr> = Some (i, wl)"
    "ev' = ev\<lparr>me_waiters := wl\<rparr>" "\<not> me_is_set ev"
    by (auto simp: me_poll_locked_def panic_simps split: if_splits)
  note n = mo.park_new [OF o f p(1), of w]
  show "\<not> me_is_set ev'" "mo.owned (me_waiters ev') (P(f \<mapsto> (i, w, length woken))) woken"
    using n p by simp_all
  show "waiters_wf (me_waiters ev')"
    by (rule waiters_wf_upd [OF wf, of _ i "Some \<lparr>ew_notified = False, ew_waker = Some w\<rparr>"]) (use n p in auto)
qed

lemma me_wait_drop_registered:
  assumes o: "mo.owned (me_waiters ev) P woken" and wf: "waiters_wf (me_waiters ev)" and f: "P f = Some (i, w, m)"
  obtains wl where "me_wait_drop ev (Some i) = Some (ev\<lparr>me_waiters := wl\<rparr>)"
    and "mo.owned wl (P(f := None)) woken" and "waiters_wf wl"
    and "wl_queue wl = removeAll i (wl_queue (me_waiters ev))"
proof -
  have p: "always () v = (True, v, ())" for v :: event_waiter by (simp add: always_def)
  obtain v s1 wl where n: "unlink_waiter (me_waiters ev) i always () = Some (Some v, (), s1)"
    "remove_unlinked_waiter s1 i = Some (v, wl)" "mo.owned wl (P(f := None)) woken"
    "wl_queue wl = removeAll i (wl_queue (me_waiters ev))" "wl_val wl = (wl_val (me_waiters ev))(i := None)"
    by (rule mo.leave [where p = always, OF o f p])
  moreover have "waiters_wf wl" by (rule waiters_wf_upd [OF wf n(5)]) simp
  ultimately show thesis using that [of wl] by (simp add: me_wait_drop_def me_unregister_waiter_def)
qed

lemmas manual_owned = manual_inv_def [THEN iffD1, THEN conjunct1]
lemmas manual_wf = manual_inv_def [THEN iffD1, THEN conjunct2, THEN conjunct1]

lemma manual_released_iff:
  assumes "manual_inv s" and "ms_futs s f = Some (Some (i, w0, m))"
    and "me_poll_locked (ms_event s) (Some i) w = Some (p, k, ev)"
  shows "is_ready p \<longleftrightarrow> i \<notin> set (wl_queue (me_waiters (ms_event s)))"
proof (cases "i \<in> set (wl_queue (me_waiters (ms_event s)))")
  case True
  moreover have "\<not> me_is_set (ms_event s)" using assms(1) True by (auto simp: manual_inv_def)
  ultimately show ?thesis
    by (rule me_poll_registered [OF manual_owned manual_wf regs_of_live(1), of _ f, OF assms(1,1,2), of w])
      (use assms(3) True in auto)
next
  case False
  then show ?thesis
    by (rule me_poll_released [OF manual_owned manual_wf regs_of_live(1), of _ f, OF assms(1,1,2), of w])
      (use assms(3) False in auto)
qed

lemma manual_ready_inv:
  assumes i: "manual_inv s" and f: "ms_futs s f = Some k"
    and r: "me_poll_locked (ms_event s) (map_option fst k) w = Some (Ready (), j, ev)"
  shows "manual_inv (s\<lparr>ms_event := ev, ms_futs := (ms_futs s)(f := None)\<rparr>)"
proof (cases k)
  case None
  then have "ev = ms_event s"
    using r by (auto simp: me_poll_locked_def panic_simps split: if_splits)
  then show ?thesis using i f None by (simp add: manual_inv_def fun_upd_regs_of)
next
  case (Some x)
  then obtain l w0 m where k: "k = Some (l, w0, m)" by (cases x) auto
  then have "l \<notin> set (wl_queue (me_waiters (ms_event s)))"
    using manual_released_iff [OF i, of f l w0 m w] f r by simp
  then show ?thesis
    by (rule me_poll_released [OF manual_owned manual_wf regs_of_live(1), of _ f, OF i i f [unfolded k], of w])
      (use i r k in \<open>auto simp: manual_inv_def\<close>)
qed

lemma manual_pending_inv:
  assumes i: "manual_inv s" and f: "ms_futs s f = Some k"
    and r: "me_poll_locked (ms_event s) (map_option fst k) w = Some (Pending, Some j, ev)"
  shows "manual_inv (s\<lparr>ms_event := ev, ms_futs := (ms_futs s)(f \<mapsto> Some (j, w, length (ms_woken s)))\<rparr>)"
proof (cases k)
  case None
  then have "regs_of (ms_futs s) f = None" using f by simp
  from me_poll_fresh [OF manual_owned [OF i] manual_wf [OF i] this] r None
  show ?thesis by (simp add: manual_inv_def)
next
  case (Some x)
  then obtain l w0 m where k: "k = Some (l, w0, m)" by (cases x) auto
  then have q: "l \<in> set (wl_queue (me_waiters (ms_event s)))"
    using manual_released_iff [OF i, of f l w0 m w] f r by simp
  moreover have "\<not> me_is_set (ms_event s)" using i q by (auto simp: manual_inv_def)
  ultimately show ?thesis
    by (rule me_poll_registered [OF manual_owned manual_wf regs_of_live(1), of _ f, OF i i f [unfolded k], of w])
      (use i r k q in \<open>auto simp: manual_inv_def\<close>)
qed

lemma manual_drop_inv:
  assumes i: "manual_inv s" and f: "ms_futs s f = Some k"
    and r: "me_wait_drop (ms_event s) (map_option fst k) = Some ev"
  shows "manual_inv (s\<lparr>ms_event := ev, ms_futs := (ms_futs s)(f := None)\<rparr>)"
proof (cases k)
  case None
  then show ?thesis using i f r by (simp add: manual_inv_def me_wait_drop_def fun_upd_regs_of)
next
  case (Some x)
  then obtain l w0 m where k: "k = Some (l, w0, m)" by (cases x) auto
  show ?thesis
    by (rule me_wait_drop_registered [OF manual_owned manual_wf regs_of_live(1), of _ f, OF i i f [unfolded k]])
      (use i r k in \<open>auto simp: manual_inv_def\<close>)
qed

lemma manual_step_inv: "manual_step s s' \<Longrightarrow> manual_inv s \<Longrightarrow> manual_inv s'"
proof (induction rule: manual_step.induct)
  case (set_event s woken ev)
  then have "me_is_set (ms_event s) \<Longrightarrow> wl_queue (me_waiters (ms_event s)) = []"
    by (simp add: manual_inv_def)
  then show ?case
    by (rule me_set_spec [OF manual_owned manual_wf, OF set_event.prems set_event.prems])
      (use set_event.hyps in \<open>auto simp: manual_inv_def\<close>)
qed (auto simp: manual_ready_inv manual_pending_inv manual_drop_inv,
  auto simp: manual_inv_def fun_upd_regs_of me_reset_def)

lemma manual_reach_inv: "manual_step\<^sup>*\<^sup>* (manual_init b) s \<Longrightarrow> manual_inv s"
  by (induction rule: rtranclp_induct) (auto intro: manual_init_inv manual_step_inv)

section \<open>A concrete run\<close>

text \<open>A wait parks with waker 7, the event is set, and then reset.\<close>

definition demo_event :: "bool \<Rightarrow> bool \<Rightarrow> bool \<Rightarrow> waker option \<Rightarrow> waker list \<Rightarrow> manual_sys" where
  "demo_event is_set queued notified waker woken = \<lparr>ms_event = \<lparr>me_is_set = is_set,
     me_waiters = one_waiter queued \<lparr>ew_notified = notified, ew_waker = waker\<rparr>\<rparr>,
     ms_futs = [0 \<mapsto> Some (node_id, 7, 0)], ms_woken = woken\<rparr>"

lemma demo_event_parked: "manual_step\<^sup>*\<^sup>* (manual_init False) (demo_event False True False (Some 7) [])"
proof -
  let ?s = "(manual_init False)\<lparr>ms_futs := [0 \<mapsto> None]\<rparr>"
  have "manual_step (manual_init False) ?s"
    using manual_step.spawn [of "manual_init False" 0] by (simp add: manual_init_def)
  moreover have "manual_step ?s (demo_event False True False (Some 7) [])"
    using manual_step.pending [of ?s 0 None 7 node_id]
    by (simp add: manual_init_def demo_event_def me_poll_locked_def me_with_state_def one_waiter_simps)
  ultimately show ?thesis by (meson run_step rtranclp.rtrancl_refl)
qed

lemma demo_event_set:
  "me_set (ms_event (demo_event False True False (Some 7) [])) =
     Some ([7], ms_event (demo_event True False True None [7]))"
proof -
  let ?v = "\<lparr>ew_notified = False, ew_waker = Some 7\<rparr>"
  let ?l = "one_waiter False \<lparr>ew_notified = True, ew_waker = None\<rparr>"
  let ?b = "wb_new\<lparr>wb_inline := (wb_inline wb_new)[0 := Some 7], wb_inline_len := 1\<rparr>"
  have "me_set_body (one_waiter True ?v, wb_new) = Some ((?l, ?b), True)"
    by (simp add: me_set_body_def one_waiter_unlink mark_notified_def one_waiter_simps)
      (simp add: op_defs)
  moreover have "me_set_body (?l, ?b) = Some ((?l, ?b), False)"
    by (simp add: me_set_body_def one_waiter_simps)
  ultimately have "loop me_set_body (one_waiter True ?v, wb_new) = Some (?l, ?b)"
    by (rule loop_once)
  moreover have "\<exists>b. wb_wake_all ?b = Some ([7], b)" by (simp add: op_defs take_Suc hd_conv_nth)
  ultimately show ?thesis by (auto simp: me_set_def demo_event_def)
qed

lemma demo_event_reset: "manual_step\<^sup>*\<^sup>* (manual_init False) (demo_event False False True None [7])"
proof -
  have "manual_step (demo_event False True False (Some 7) []) (demo_event True False True None [7])"
    using manual_step.set_event [OF demo_event_set] by (simp add: demo_event_def)
  moreover have "manual_step (demo_event True False True None [7]) (demo_event False False True None [7])"
    using manual_step.reset_event [of "demo_event True False True None [7]"]
    by (simp add: demo_event_def me_reset_def)
  ultimately show ?thesis using demo_event_parked by (meson run_step)
qed

section \<open>Properties\<close>

text \<open>
  C14: in every reachable state a registered wait is in one of two situations. Either it is
  still queued, the event is unset, and its node holds the waker of its last poll. Or it has
  been released for good: that waker has been woken since, and the next poll completes even if
  the event has been reset in the meantime.
\<close>

theorem manual_event_releases_waits:
  assumes "manual_step\<^sup>*\<^sup>* (manual_init b) s" and "ms_futs s f = Some (Some (i, w, m))"
  shows "if i \<in> set (wl_queue (me_waiters (ms_event s)))
    then \<not> me_is_set (ms_event s) \<and> (\<exists>v. waiter_mut (me_waiters (ms_event s)) i = Some v \<and> ew_waker v = Some w)
    else w \<in> set (drop m (ms_woken s)) \<and>
      (\<forall>w'. \<exists>ev. me_poll_wait (ms_event s) (Some i) w' = Some (Ready (), None, ev))"
proof -
  note i = manual_reach_inv [OF assms(1)]
  have f: "regs_of (ms_futs s) f = Some (i, w, m)" using assms(2) by simp
  show ?thesis
  proof (cases "i \<in> set (wl_queue (me_waiters (ms_event s)))")
    case True
    then show ?thesis
      using mo.owned_queued [OF manual_owned [OF i] f True] i by (auto simp: waiter_mut_eq manual_inv_def)
  next
    case False
    have "\<exists>ev. me_poll_wait (ms_event s) (Some i) w' = Some (Ready (), None, ev)" for w'
      by (rule me_poll_released [OF manual_owned [OF i] manual_wf [OF i] f False, of w'])
        (simp add: me_poll_wait_def)
    then show ?thesis using False mo.owned_taken(2) [OF manual_owned [OF i] f False] by simp
  qed
qed

theorem manual_event_releases_waits_witness:
  "\<not> me_is_set (ms_event (demo_event False False True None [7])) \<and>
   (\<exists>ev. me_poll_wait (ms_event (demo_event False False True None [7])) (Some node_id) 9 = Some (Ready (), None, ev))"
  using manual_event_releases_waits [OF demo_event_reset, of 0 node_id 7 0]
  by (simp add: demo_event_def one_waiter_simps)

end
