(* ===== verification/AutoResetEvent.thy ===== *)
theory AutoResetEvent
  imports Waiters
begin

text \<open>
  The auto-reset event of \<open>event/auto_reset.rs\<close>: each signal is handed to the first queued
  wait, or stored when nobody is queued. A wait that was handed a signal keeps it until it
  completes; cancelling the wait passes the signal on.
\<close>

section \<open>The event\<close>

datatype auto_waiter = Waiting waker | Notified

record auto_event =
  ae_is_set :: bool
  ae_waiters :: "auto_waiter wait_list"

definition ae_with_state :: "bool \<Rightarrow> auto_event" where
  "ae_with_state is_set = \<lparr>ae_is_set = is_set, ae_waiters = wl_new\<rparr>"

definition ae_new :: auto_event where
  "ae_new = ae_with_state False"

definition signal :: "auto_event \<Rightarrow> (waker option \<times> auto_event) option" where
  "signal st = do {
     (r, u, waiters) \<leftarrow> unlink_first_waiter (ae_waiters st) always ();
     (case r of
        Some (i, waiter) \<Rightarrow>
          (case waiter of
             Waiting waker \<Rightarrow> do {
               waiters \<leftarrow> set_waiter waiters i Notified;
               Some (Some waker, st\<lparr>ae_waiters := waiters\<rparr>) }
           | Notified \<Rightarrow> None)
      | None \<Rightarrow> Some (None, st\<lparr>ae_is_set := True\<rparr>)) }"

definition ae_set :: "auto_event \<Rightarrow> (waker list \<times> auto_event) option" where
  "ae_set st = do {
     (waker, st) \<leftarrow> signal st;
     Some (opt_list waker, st) }"

definition ae_reset :: "auto_event \<Rightarrow> auto_event" where
  "ae_reset st = st\<lparr>ae_is_set := False\<rparr>"

definition ae_try_wait :: "auto_event \<Rightarrow> bool \<times> auto_event" where
  "ae_try_wait st = (ae_is_set st, st\<lparr>ae_is_set := False\<rparr>)"

definition ae_poll_wait ::
  "auto_event \<Rightarrow> waiter_id option \<Rightarrow> waker \<Rightarrow> (unit poll \<times> waiter_id option \<times> auto_event) option" where
  "ae_poll_wait st waiter_id current =
     (case waiter_id of
        Some i \<Rightarrow> do {
          waiter \<leftarrow> waiter_mut (ae_waiters st) i;
          (case waiter of
             Notified \<Rightarrow> do {
               (_, waiters) \<leftarrow> remove_unlinked_waiter (ae_waiters st) i;
               Some (Ready (), None, st\<lparr>ae_waiters := waiters\<rparr>) }
           | Waiting waker \<Rightarrow>
               if will_wake waker current then Some (Pending, Some i, st)
               else do {
                 waiters \<leftarrow> set_waiter (ae_waiters st) i (Waiting current);
                 Some (Pending, Some i, st\<lparr>ae_waiters := waiters\<rparr>) }) }
      | None \<Rightarrow>
          if ae_is_set st then Some (Ready (), None, st\<lparr>ae_is_set := False\<rparr>)
          else do {
            (i, waiters) \<leftarrow> push_back (ae_waiters st) (Waiting current);
            Some (Pending, Some i, st\<lparr>ae_waiters := waiters\<rparr>) })"

definition ae_unregister_waiter :: "auto_event \<Rightarrow> waiter_id \<Rightarrow> (waker list \<times> auto_event) option" where
  "ae_unregister_waiter st i = do {
     (_, _, waiters) \<leftarrow> unlink_waiter (ae_waiters st) i always ();
     (waiter, waiters) \<leftarrow> remove_unlinked_waiter waiters i;
     let st = st\<lparr>ae_waiters := waiters\<rparr>;
     (waker, st) \<leftarrow> (case waiter of Notified \<Rightarrow> signal st | Waiting _ \<Rightarrow> Some (None, st));
     Some (opt_list waker, st) }"

definition ae_wait_drop :: "auto_event \<Rightarrow> waiter_id option \<Rightarrow> (waker list \<times> auto_event) option" where
  "ae_wait_drop st waiter = (case waiter of Some i \<Rightarrow> ae_unregister_waiter st i | None \<Rightarrow> Some ([], st))"

lemmas auto_event_ops [op_defs] = ae_with_state_def ae_new_def signal_def ae_set_def ae_reset_def
  ae_try_wait_def ae_poll_wait_def ae_unregister_waiter_def ae_wait_drop_def

section \<open>All interleavings\<close>

text \<open>
  Every operation is one region of the state lock. The ghost counters follow the signals: made
  (the initial one and every \<open>set\<close>), consumed by waits, merged into a stored signal, cleared.
\<close>

record auto_sys =
  au_event :: auto_event
  au_futs :: wait_futures
  au_woken :: "waker list"
  au_made :: nat
  au_consumed :: nat
  au_merged :: nat
  au_cleared :: nat

definition auto_init :: "bool \<Rightarrow> auto_sys" where
  "auto_init b = \<lparr>au_event = ae_with_state b, au_futs = Map.empty, au_woken = [],
     au_made = of_bool b, au_consumed = 0, au_merged = 0, au_cleared = 0\<rparr>"

inductive auto_step :: "auto_sys \<Rightarrow> auto_sys \<Rightarrow> bool" where
  spawn: "au_futs s f = None \<Longrightarrow> auto_step s (s\<lparr>au_futs := (au_futs s)(f \<mapsto> None)\<rparr>)"
| set_event: "ae_set (au_event s) = Some (woken, st) \<Longrightarrow>
    auto_step s (s\<lparr>au_event := st, au_woken := au_woken s @ woken, au_made := Suc (au_made s),
      au_merged := au_merged s + of_bool (woken = [] \<and> ae_is_set (au_event s))\<rparr>)"
| reset_event: "auto_step s (s\<lparr>au_event := ae_reset (au_event s),
      au_cleared := au_cleared s + of_bool (ae_is_set (au_event s))\<rparr>)"
| try_wait: "ae_try_wait (au_event s) = (b, st) \<Longrightarrow>
    auto_step s (s\<lparr>au_event := st, au_consumed := au_consumed s + of_bool b\<rparr>)"
| ready: "au_futs s f = Some k \<Longrightarrow> ae_poll_wait (au_event s) (map_option fst k) w = Some (Ready (), i, st) \<Longrightarrow>
    auto_step s (s\<lparr>au_event := st, au_futs := (au_futs s)(f := None), au_consumed := Suc (au_consumed s)\<rparr>)"
| pending: "au_futs s f = Some k \<Longrightarrow>
    ae_poll_wait (au_event s) (map_option fst k) w = Some (Pending, Some i, st) \<Longrightarrow>
    auto_step s (s\<lparr>au_event := st, au_futs := (au_futs s)(f \<mapsto> Some (i, w, length (au_woken s)))\<rparr>)"
| drop: "au_futs s f = Some k \<Longrightarrow> ae_wait_drop (au_event s) (map_option fst k) = Some (woken, st) \<Longrightarrow>
    auto_step s (s\<lparr>au_event := st, au_futs := (au_futs s)(f := None), au_woken := au_woken s @ woken,
      au_merged := au_merged s + of_bool (ae_is_set (au_event s) \<and>
        (\<exists>i x. k = Some (i, x) \<and> waiter_mut (ae_waiters (au_event s)) i = Some Notified))\<rparr>)"

section \<open>The invariant\<close>

fun aw_waker :: "auto_waiter \<Rightarrow> waker option" where
  "aw_waker (Waiting w) = Some w"
| "aw_waker Notified = None"

lemma aw_waker_iff: "aw_waker v = Some w \<longleftrightarrow> v = Waiting w" "aw_waker v = None \<longleftrightarrow> v = Notified"
  by (cases v; simp)+

interpretation ao: waiter_owners wl_inv wl_room wl_queue wl_val push_back push_front
  unlink_waiter unlink_first_waiter set_waiter remove_unlinked_waiter aw_waker
  by unfold_locales

definition auto_inv :: "auto_sys \<Rightarrow> bool" where
  "auto_inv s \<longleftrightarrow> ao.owned (ae_waiters (au_event s)) (regs_of (au_futs s)) (au_woken s) \<and>
     (ae_is_set (au_event s) \<longrightarrow> wl_queue (ae_waiters (au_event s)) = []) \<and>
     au_made s = au_consumed s + au_merged s + au_cleared s + of_bool (ae_is_set (au_event s)) +
       ao.held (ae_waiters (au_event s))"

lemma auto_init_inv: "auto_inv (auto_init b)"
  by (simp add: auto_inv_def auto_init_def ae_with_state_def wl_queue_new wl_val_new ao.owned_empty ao.held_def)

lemma signal_eq:
  "signal st = map_option (\<lambda>(r, wl). (r, if r = None then st\<lparr>ae_is_set := True\<rparr> else st\<lparr>ae_waiters := wl\<rparr>))
     (ao.take_first (ae_waiters st) Notified)"
  by (auto simp: signal_def ao.take_first_def panic_simps split: option.splits auto_waiter.splits Option.bind_splits)

text \<open>A signal is handed over, stored, or merged with the stored one, and nothing else.\<close>

lemma signal_spec:
  assumes o: "ao.owned (ae_waiters st) P woken" and q: "ae_is_set st \<Longrightarrow> wl_queue (ae_waiters st) = []"
  obtains r st' where "signal st = Some (r, st')" and "ao.owned (ae_waiters st') P (woken @ opt_list r)"
    and "ae_is_set st' \<Longrightarrow> wl_queue (ae_waiters st') = []"
    and "ao.held (ae_waiters st') + of_bool (ae_is_set st') + of_bool (r = None \<and> ae_is_set st) =
         Suc (ao.held (ae_waiters st) + of_bool (ae_is_set st))"
proof -
  obtain r wl where "ao.take_first (ae_waiters st) Notified = Some (r, wl)" "ao.owned wl P (woken @ opt_list r)"
    "wl_queue wl = tl (wl_queue (ae_waiters st))" "r = None \<longleftrightarrow> wl_queue (ae_waiters st) = []"
    "r = None \<longrightarrow> wl = ae_waiters st" "ao.held wl = ao.held (ae_waiters st) + length (opt_list r)"
    by (rule ao.take_first_spec [OF o, of Notified], simp) blast
  then show thesis
    using that [of r "if r = None then st\<lparr>ae_is_set := True\<rparr> else st\<lparr>ae_waiters := wl\<rparr>"] q
    by (cases r) (auto simp: signal_eq)
qed

section \<open>Polling and cancelling\<close>

lemma ae_poll_queued:
  assumes o: "ao.owned (ae_waiters st) P woken" and f: "P f = Some (i, w0, m)" and q: "i \<in> set (wl_queue (ae_waiters st))"
  obtains wl where "ae_poll_wait st (Some i) w = Some (Pending, Some i, st\<lparr>ae_waiters := wl\<rparr>)"
    and "ao.owned wl (P(f \<mapsto> (i, w, length woken))) woken"
    and "wl_queue wl = wl_queue (ae_waiters st)" and "ao.held wl = ao.held (ae_waiters st)"
proof -
  have v: "wl_val (ae_waiters st) i = Some (Waiting w0)"
    using ao.owned_queued [OF o f q] by (auto simp: aw_waker_iff)
  show thesis
  proof (cases "w0 = w")
    case True
    then show thesis
      using that [of "ae_waiters st"] v ao.park_same [OF o f q] by (simp add: ae_poll_wait_def waiter_mut_eq will_wake_def)
  next
    case False
    obtain wl where s: "set_waiter (ae_waiters st) i (Waiting w) = Some wl"
      using wq.setv_law [OF ao.owned_inv [OF o] v, of "Waiting w"] by blast
    from ao.park_again [OF o f q s, of w] show thesis
      using that [of wl] v s False by (simp add: ae_poll_wait_def waiter_mut_eq will_wake_def)
  qed
qed

lemma ae_poll_taken:
  assumes o: "ao.owned (ae_waiters st) P woken" and f: "P f = Some (i, w0, m)" and q: "i \<notin> set (wl_queue (ae_waiters st))"
  obtains wl where "ae_poll_wait st (Some i) w = Some (Ready (), None, st\<lparr>ae_waiters := wl\<rparr>)"
    and "ao.owned wl (P(f := None)) woken"
    and "wl_queue wl = wl_queue (ae_waiters st)" and "ao.held (ae_waiters st) = Suc (ao.held wl)"
proof -
  obtain v wl where "wl_val (ae_waiters st) i = Some v" "aw_waker v = None"
    "remove_unlinked_waiter (ae_waiters st) i = Some (v, wl)" "ao.owned wl (P(f := None)) woken"
    "wl_queue wl = wl_queue (ae_waiters st)" "ao.held (ae_waiters st) = Suc (ao.held wl)"
    by (rule ao.collect [OF o f q])
  then show thesis using that [of wl] by (simp add: ae_poll_wait_def waiter_mut_eq aw_waker_iff)
qed

lemma ae_drop_registered:
  assumes o: "ao.owned (ae_waiters st) P woken" and f: "P f = Some (i, w, m)"
    and u: "ae_is_set st \<Longrightarrow> wl_queue (ae_waiters st) = []"
  obtains ws st' where "ae_wait_drop st (Some i) = Some (ws, st')"
    and "ao.owned (ae_waiters st') (P(f := None)) (woken @ ws)"
    and "ae_is_set st' \<Longrightarrow> wl_queue (ae_waiters st') = []"
    and "ao.held (ae_waiters st') + of_bool (ae_is_set st') +
         of_bool (ae_is_set st \<and> waiter_mut (ae_waiters st) i = Some Notified) =
         ao.held (ae_waiters st) + of_bool (ae_is_set st)"
proof -
  have p: "always () v = (True, v, ())" for v :: auto_waiter by (simp add: always_def)
  obtain v s1 wl where n: "wl_val (ae_waiters st) i = Some v"
    "unlink_waiter (ae_waiters st) i always () = Some (Some v, (), s1)"
    "remove_unlinked_waiter s1 i = Some (v, wl)" "ao.owned wl (P(f := None)) woken"
    "wl_queue wl = removeAll i (wl_queue (ae_waiters st))"
    "ao.held wl = (if i \<in> set (wl_queue (ae_waiters st)) then ao.held (ae_waiters st) else ao.held (ae_waiters st) - 1)"
    "aw_waker v = (if i \<in> set (wl_queue (ae_waiters st)) then Some w else None)"
    by (rule ao.leave [where p = always, OF o f p])
  show thesis
  proof (cases "i \<in> set (wl_queue (ae_waiters st))")
    case True
    then have "v = Waiting w" "\<not> ae_is_set st" using n(7) u by (auto simp: aw_waker_iff)
    then show thesis
      using that [of "[]" "st\<lparr>ae_waiters := wl\<rparr>"] n True
      by (simp add: ae_wait_drop_def ae_unregister_waiter_def)
  next
    case False
    then have v: "v = Notified" using n(7) by (simp add: aw_waker_iff)
    have h: "ao.held (ae_waiters st) = Suc (ao.held wl)"
      by (rule ao.collect [OF o f False]) (use n False in \<open>simp add: ao.held_def\<close>)
    let ?st = "st\<lparr>ae_waiters := wl\<rparr>"
    have o': "ao.owned (ae_waiters ?st) (P(f := None)) woken" and q': "ae_is_set ?st \<Longrightarrow> wl_queue (ae_waiters ?st) = []"
      using n(4,5) u by auto
    obtain r st' where s: "signal ?st = Some (r, st')" "ao.owned (ae_waiters st') (P(f := None)) (woken @ opt_list r)"
      "ae_is_set st' \<Longrightarrow> wl_queue (ae_waiters st') = []"
      "ao.held (ae_waiters st') + of_bool (ae_is_set st') + of_bool (r = None \<and> ae_is_set ?st) =
       Suc (ao.held (ae_waiters ?st) + of_bool (ae_is_set ?st))"
      by (rule signal_spec [OF o' q']) blast+
    have "r = None" if "ae_is_set st"
      using that q' ao.take_first_empty [OF ao.owned_inv [OF o'], of Notified] s(1) by (auto simp: signal_eq)
    then have "(r = None \<and> ae_is_set ?st) = (ae_is_set st \<and> waiter_mut (ae_waiters st) i = Some Notified)"
      using n(1) v by (auto simp: waiter_mut_eq)
    then show thesis
      using that [of "opt_list r" st'] n(2,3) v s h
      by (simp add: ae_wait_drop_def ae_unregister_waiter_def)
  qed
qed

section \<open>Every step keeps the invariant\<close>

lemmas auto_owned = auto_inv_def [THEN iffD1, THEN conjunct1]
lemmas auto_excl = auto_inv_def [THEN iffD1, THEN conjunct2, THEN conjunct1, THEN mp]

lemma auto_poll_inv:
  assumes i: "auto_inv s" and f: "au_futs s f = Some k"
    and r: "ae_poll_wait (au_event s) (map_option fst k) w = Some (p, j, st)"
  shows "case p of
      Ready _ \<Rightarrow> auto_inv (s\<lparr>au_event := st, au_futs := (au_futs s)(f := None), au_consumed := Suc (au_consumed s)\<rparr>)
    | Pending \<Rightarrow> \<exists>l. j = Some l \<and>
        auto_inv (s\<lparr>au_event := st, au_futs := (au_futs s)(f \<mapsto> Some (l, w, length (au_woken s)))\<rparr>)"
proof (cases k)
  case None
  then have n: "regs_of (au_futs s) f = None" using f by simp
  show ?thesis
  proof (cases "ae_is_set (au_event s)")
    case True
    then have "p = Ready ()" "st = (au_event s)\<lparr>ae_is_set := False\<rparr>"
      using r None by (simp_all add: ae_poll_wait_def)
    then show ?thesis using i f None True by (simp add: auto_inv_def fun_upd_regs_of)
  next
    case False
    then obtain l wl where p: "push_back (ae_waiters (au_event s)) (Waiting w) = Some (l, wl)" "p = Pending"
      "j = Some l" "st = (au_event s)\<lparr>ae_waiters := wl\<rparr>"
      using r None by (auto simp: ae_poll_wait_def panic_simps)
    from ao.park_new [OF auto_owned [OF i] n p(1)] p i False show ?thesis by (simp add: auto_inv_def)
  qed
next
  case (Some x)
  then obtain l w0 m where k: "k = Some (l, w0, m)" by (cases x) auto
  then have f': "regs_of (au_futs s) f = Some (l, w0, m)" using f by simp
  show ?thesis
  proof (cases "l \<in> set (wl_queue (ae_waiters (au_event s)))")
    case True
    then show ?thesis
      by (rule ae_poll_queued [OF auto_owned [OF i] f', of w]) (use i r k in \<open>auto simp: auto_inv_def\<close>)
  next
    case False
    then show ?thesis
      by (rule ae_poll_taken [OF auto_owned [OF i] f', of w]) (use i r k in \<open>auto simp: auto_inv_def\<close>)
  qed
qed

lemma auto_drop_inv:
  assumes i: "auto_inv s" and f: "au_futs s f = Some k"
    and r: "ae_wait_drop (au_event s) (map_option fst k) = Some (woken, st)"
  shows "auto_inv (s\<lparr>au_event := st, au_futs := (au_futs s)(f := None), au_woken := au_woken s @ woken,
      au_merged := au_merged s + of_bool (ae_is_set (au_event s) \<and>
        (\<exists>i x. k = Some (i, x) \<and> waiter_mut (ae_waiters (au_event s)) i = Some Notified))\<rparr>)"
proof (cases k)
  case None
  then show ?thesis using i f r by (simp add: auto_inv_def ae_wait_drop_def fun_upd_regs_of)
next
  case (Some x)
  then obtain l w0 m where k: "k = Some (l, w0, m)" by (cases x) auto
  then have f': "regs_of (au_futs s) f = Some (l, w0, m)" using f by simp
  show ?thesis
    by (rule ae_drop_registered [OF auto_owned [OF i] f' auto_excl [OF i]])
      (use i r k in \<open>auto simp: auto_inv_def\<close>)
qed

lemma auto_step_inv: "auto_step s s' \<Longrightarrow> auto_inv s \<Longrightarrow> auto_inv s'"
proof (induction rule: auto_step.induct)
  case (set_event s woken st)
  obtain r st' where "signal (au_event s) = Some (r, st')"
    "ao.owned (ae_waiters st') (regs_of (au_futs s)) (au_woken s @ opt_list r)"
    "ae_is_set st' \<Longrightarrow> wl_queue (ae_waiters st') = []"
    "ao.held (ae_waiters st') + of_bool (ae_is_set st') + of_bool (r = None \<and> ae_is_set (au_event s)) =
     Suc (ao.held (ae_waiters (au_event s)) + of_bool (ae_is_set (au_event s)))"
    by (rule signal_spec [OF auto_owned auto_excl, OF set_event.prems set_event.prems]) blast+
  moreover have "(opt_list r = []) = (r = None)" by (cases r) auto
  ultimately show ?case using set_event by (auto simp: auto_inv_def ae_set_def)
next
  case (ready s f k w i st)
  then show ?case using auto_poll_inv [of s f k w "Ready ()" i st] by simp
next
  case (pending s f k w i st)
  then show ?case using auto_poll_inv [of s f k w Pending "Some i" st] by simp
next
  case (drop s f k woken st)
  then show ?case using auto_drop_inv [of s f k woken st] by simp
qed (auto simp: auto_inv_def fun_upd_regs_of ae_reset_def ae_try_wait_def)

lemma auto_reach_inv: "auto_step\<^sup>*\<^sup>* (auto_init b) s \<Longrightarrow> auto_inv s"
  by (induction rule: rtranclp_induct) (auto intro: auto_init_inv auto_step_inv)

lemma auto_released_wait:
  assumes "auto_step\<^sup>*\<^sup>* (auto_init b) s" and "au_futs s f = Some (Some (i, w, m))"
    and "i \<notin> set (wl_queue (ae_waiters (au_event s)))"
  shows "w \<in> set (drop m (au_woken s))"
    and "\<exists>st. ae_poll_wait (au_event s) (Some i) w' = Some (Ready (), None, st)"
    and "\<exists>ws st. ae_wait_drop (au_event s) (Some i) = Some (ws, st) \<and>
      (if wl_queue (ae_waiters (au_event s)) = [] then ws = [] \<and> ae_is_set st
       else \<exists>w1. ws = [w1] \<and> wl_val (ae_waiters (au_event s)) (hd (wl_queue (ae_waiters (au_event s)))) = Some (Waiting w1))"
proof -
  note o = auto_owned [OF auto_reach_inv [OF assms(1)]]
  have f: "regs_of (au_futs s) f = Some (i, w, m)" using assms(2) by simp
  show "w \<in> set (drop m (au_woken s))" by (rule ao.owned_taken(2) [OF o f assms(3)])
  show "\<exists>st. ae_poll_wait (au_event s) (Some i) w' = Some (Ready (), None, st)"
    by (rule ae_poll_taken [OF o f assms(3), of w']) simp
  have p: "always () v = (True, v, ())" for v :: auto_waiter by (simp add: always_def)
  let ?wl = "ae_waiters (au_event s)"
  obtain v s1 wl where n: "unlink_waiter ?wl i always () = Some (Some v, (), s1)"
    "remove_unlinked_waiter s1 i = Some (v, wl)" "ao.owned wl ((regs_of (au_futs s))(f := None)) (au_woken s)"
    "wl_queue wl = removeAll i (wl_queue ?wl)" "wl_val wl = (wl_val ?wl)(i := None)"
    "aw_waker v = (if i \<in> set (wl_queue ?wl) then Some w else None)"
    by (rule ao.leave [where p = always, OF o f p])
  have v: "v = Notified" and q: "wl_queue wl = wl_queue ?wl" using n(4,6) assms(3) by (simp_all add: aw_waker_iff)
  obtain r wl' where t: "ao.take_first wl Notified = Some (r, wl')" "r = None \<longleftrightarrow> wl_queue wl = []"
    "\<forall>w. r = Some w \<longrightarrow> (\<exists>v. wl_val wl (hd (wl_queue wl)) = Some v \<and> aw_waker v = Some w)"
    by (rule ao.take_first_spec [OF n(3), of Notified], simp) blast
  then show "\<exists>ws st. ae_wait_drop (au_event s) (Some i) = Some (ws, st) \<and>
      (if wl_queue ?wl = [] then ws = [] \<and> ae_is_set st
       else \<exists>w1. ws = [w1] \<and> wl_val ?wl (hd (wl_queue ?wl)) = Some (Waiting w1))"
    using n v q by (cases r) (auto simp: ae_wait_drop_def ae_unregister_waiter_def signal_eq aw_waker_iff split: if_splits)
qed

section \<open>A concrete run\<close>

text \<open>A wait parks with waker 7 and is handed the signal of a \<open>set\<close>.\<close>

definition demo_auto :: "bool \<Rightarrow> auto_waiter \<Rightarrow> waker list \<Rightarrow> nat \<Rightarrow> auto_sys" where
  "demo_auto queued waiter woken made = \<lparr>au_event = \<lparr>ae_is_set = False, ae_waiters = one_waiter queued waiter\<rparr>,
     au_futs = [0 \<mapsto> Some (node_id, 7, 0)], au_woken = woken, au_made = made, au_consumed = 0,
     au_merged = 0, au_cleared = 0\<rparr>"

lemma demo_auto_signalled: "auto_step\<^sup>*\<^sup>* (auto_init False) (demo_auto False Notified [7] 1)"
proof -
  let ?s = "(auto_init False)\<lparr>au_futs := [0 \<mapsto> None]\<rparr>"
  have "auto_step (auto_init False) ?s"
    using auto_step.spawn [of "auto_init False" 0] by (simp add: auto_init_def)
  moreover have "auto_step ?s (demo_auto True (Waiting 7) [] 0)"
    using auto_step.pending [of ?s 0 None 7 node_id]
    by (simp add: auto_init_def demo_auto_def ae_poll_wait_def ae_with_state_def one_waiter_simps)
  moreover have "auto_step (demo_auto True (Waiting 7) [] 0) (demo_auto False Notified [7] 1)"
    using auto_step.set_event [of "demo_auto True (Waiting 7) [] 0" "[7]"]
    by (simp add: demo_auto_def ae_set_def signal_def one_waiter_unlink always_def one_waiter_simps)
  ultimately show ?thesis by (meson run_step rtranclp.rtrancl_refl)
qed

section \<open>Properties\<close>

text \<open>
  C15: no signal is lost or duplicated. In every reachable state the signals made so far are
  exactly those consumed by waits, those merged into a signal that was still stored, those
  cleared by \<open>reset\<close>, the stored one, and one for every released wait that has not yet completed;
  and a signal is never left stored while a wait is queued.
\<close>

theorem auto_event_conserves_signals:
  assumes "auto_step\<^sup>*\<^sup>* (auto_init b) s"
  shows "au_made s = au_consumed s + au_merged s + au_cleared s + of_bool (ae_is_set (au_event s)) +
      card (dom (wl_val (ae_waiters (au_event s))) - set (wl_queue (ae_waiters (au_event s)))) \<and>
    (ae_is_set (au_event s) \<longrightarrow> wl_queue (ae_waiters (au_event s)) = [])"
  using auto_reach_inv [OF assms] by (simp add: auto_inv_def ao.held_def)

theorem auto_event_conserves_signals_witness:
  "1 = card (dom (wl_val (one_waiter False Notified)) - set (wl_queue (one_waiter False Notified)))"
  using auto_event_conserves_signals [OF demo_auto_signalled] by (simp add: demo_auto_def)

text \<open>
  C16: a wait that was handed a signal has been woken since its last poll, its next poll
  completes, and cancelling it instead hands the signal to the first queued wait, or stores it
  when nobody is queued.
\<close>

theorem auto_event_released_wait:
  assumes "auto_step\<^sup>*\<^sup>* (auto_init b) s" and "au_futs s f = Some (Some (i, w, m))"
    and "i \<notin> set (wl_queue (ae_waiters (au_event s)))"
  shows "w \<in> set (drop m (au_woken s)) \<and>
    (\<forall>w'. \<exists>st. ae_poll_wait (au_event s) (Some i) w' = Some (Ready (), None, st)) \<and>
    (\<exists>ws st. ae_wait_drop (au_event s) (Some i) = Some (ws, st) \<and>
      (if wl_queue (ae_waiters (au_event s)) = [] then ws = [] \<and> ae_is_set st
       else \<exists>w1. ws = [w1] \<and>
         wl_val (ae_waiters (au_event s)) (hd (wl_queue (ae_waiters (au_event s)))) = Some (Waiting w1)))"
  using auto_released_wait [OF assms] by blast

theorem auto_event_released_wait_witness:
  "(7::waker) \<in> set (drop 0 (au_woken (demo_auto False Notified [7] 1))) \<and>
   (\<exists>ws st. ae_wait_drop (au_event (demo_auto False Notified [7] 1)) (Some node_id) = Some (ws, st) \<and> ae_is_set st)"
  using auto_event_released_wait [OF demo_auto_signalled, of 0 node_id 7 0]
  by (auto simp: demo_auto_def one_waiter_simps)

end
