(* ===== verification/ChannelErrors.thy ===== *)
theory ChannelErrors
  imports Prelude
begin

text \<open>
  The errors of the channels (\<open>mpmc/error.rs\<close>, and the same enumerations in \<open>spmc\<close> and
  \<open>mpsc\<close>): an error of a send carries the value back to the caller.
\<close>

datatype 'a send_error = SendError 'a

datatype 'a try_send_error = Full 'a | SendDisconnected 'a

datatype recv_error = Disconnected

datatype try_recv_error = Empty | RecvDisconnected

fun send_error_inner :: "'a send_error \<Rightarrow> 'a" where
  "send_error_inner (SendError value) = value"

fun try_send_error_inner :: "'a try_send_error \<Rightarrow> 'a" where
  "try_send_error_inner (Full value) = value"
| "try_send_error_inner (SendDisconnected value) = value"

end
