(* ===== verification/MpmcQueue.thy ===== *)
theory MpmcQueue
  imports Waiters ChannelErrors
begin

text \<open>
  The multi-producer, multi-consumer queue of \<open>mpmc/queue.rs\<close>, with its bounded and unbounded
  front ends: values, reserved capacity, the FIFO of pending receives and the FIFO of pending
  reservations, all behind one lock.
\<close>

section \<open>The waiters\<close>

datatype recv_waiter = RecvWaiting waker | Notified

datatype send_waiter = SendWaiting waker | Granted

definition remove_waiter :: "'w wait_list \<Rightarrow> waiter_id \<Rightarrow> ('w \<times> 'w wait_list) option" where
  "remove_waiter waiters i = do {
     (_, _, waiters) \<leftarrow> unlink_waiter waiters i always ();
     remove_unlinked_waiter waiters i }"

definition notify_one :: "recv_waiter wait_list \<Rightarrow> (waker option \<times> recv_waiter wait_list) option" where
  "notify_one waiters = do {
     (r, u, waiters) \<leftarrow> unlink_first_waiter waiters always ();
     (case r of
        None \<Rightarrow> Some (None, waiters)
      | Some (i, waiter) \<Rightarrow>
          (case waiter of
             RecvWaiting waker \<Rightarrow> do {
               waiters \<leftarrow> set_waiter waiters i Notified;
               Some (Some waker, waiters) }
           | Notified \<Rightarrow> None)) }"

text \<open>\<open>register\<close>: a queued waiter refreshes its waker; a notified one queues again.\<close>

definition recv_requeue ::
  "recv_waiter wait_list \<Rightarrow> waiter_id option \<Rightarrow> waker \<Rightarrow> (waiter_id \<times> recv_waiter wait_list) option" where
  "recv_requeue waiters i current = do {
     waiters \<leftarrow> (case i of
        Some notified \<Rightarrow> do { (_, waiters) \<leftarrow> remove_waiter waiters notified; Some waiters }
      | None \<Rightarrow> Some waiters);
     push_back waiters (RecvWaiting current) }"

definition recv_register ::
  "recv_waiter wait_list \<Rightarrow> waiter_id option \<Rightarrow> waker \<Rightarrow> (waiter_id \<times> recv_waiter wait_list) option" where
  "recv_register waiters i current =
     (case i of
        Some queued \<Rightarrow> do {
          waiter \<leftarrow> waiter_mut waiters queued;
          (case waiter of
             RecvWaiting waker \<Rightarrow>
               if will_wake waker current then Some (queued, waiters)
               else do {
                 waiters \<leftarrow> set_waiter waiters queued (RecvWaiting current);
                 Some (queued, waiters) }
           | Notified \<Rightarrow> recv_requeue waiters i current) }
      | None \<Rightarrow> recv_requeue waiters i current)"

definition register_waiter ::
  "send_waiter wait_list \<Rightarrow> waiter_id option \<Rightarrow> waker \<Rightarrow> (waiter_id \<times> send_waiter wait_list) option" where
  "register_waiter waiters i current =
     (case i of
        Some queued \<Rightarrow> do {
          waiter \<leftarrow> waiter_mut waiters queued;
          (case waiter of
             SendWaiting waker \<Rightarrow>
               if will_wake waker current then Some (queued, waiters)
               else do {
                 waiters \<leftarrow> set_waiter waiters queued (SendWaiting current);
                 Some (queued, waiters) }
           | Granted \<Rightarrow> None) }
      | None \<Rightarrow> push_back waiters (SendWaiting current))"

definition grant_one :: "send_waiter wait_list \<Rightarrow> (waker option \<times> send_waiter wait_list) option" where
  "grant_one waiters = do {
     (r, u, waiters) \<leftarrow> unlink_first_waiter waiters always ();
     (case r of
        None \<Rightarrow> Some (None, waiters)
      | Some (i, waiter) \<Rightarrow>
          (case waiter of
             SendWaiting waker \<Rightarrow> do {
               waiters \<leftarrow> set_waiter waiters i Granted;
               Some (Some waker, waiters) }
           | Granted \<Rightarrow> None)) }"

definition take_waiting_waker :: "send_waiter wait_list \<Rightarrow> (waker option \<times> send_waiter wait_list) option" where
  "take_waiting_waker waiters = do {
     (r, u, waiters) \<leftarrow> unlink_first_waiter waiters always ();
     (case r of
        None \<Rightarrow> Some (None, waiters)
      | Some (i, _) \<Rightarrow> do {
          (waiter, waiters) \<leftarrow> remove_unlinked_waiter waiters i;
          (case waiter of
             SendWaiting waker \<Rightarrow> Some (Some waker, waiters)
           | Granted \<Rightarrow> None) }) }"

section \<open>The queue\<close>

record 'a mpmc_state =
  mq_values :: "'a list"
  mq_available :: "usize option"
  mq_senders :: usize
  mq_receivers :: usize
  mq_recv_waiters :: "recv_waiter wait_list"
  mq_send_waiters :: "send_waiter wait_list"

definition has_capacity :: "'a mpmc_state \<Rightarrow> bool" where
  "has_capacity st = (case mq_available st of None \<Rightarrow> True | Some available \<Rightarrow> available \<noteq> 0)"

definition mq_acquire :: "'a mpmc_state \<Rightarrow> ((unit, unit try_send_error) result \<times> 'a mpmc_state) option" where
  "mq_acquire st =
     (if mq_receivers st = 0 then Some (Err (SendDisconnected ()), st)
      else if \<not> has_capacity st then Some (Err (Full ()), st)
      else case mq_available st of
        Some available \<Rightarrow> do {
          available \<leftarrow> checked_sub available 1;
          Some (Ok (), st\<lparr>mq_available := Some available\<rparr>) }
      | None \<Rightarrow> Some (Ok (), st))"

definition mq_release :: "'a mpmc_state \<Rightarrow> (waker option \<times> 'a mpmc_state) option" where
  "mq_release st =
     (if mq_receivers st = 0 then Some (None, st)
      else case mq_available st of
        None \<Rightarrow> Some (None, st)
      | Some available \<Rightarrow> do {
          (r, waiters) \<leftarrow> grant_one (mq_send_waiters st);
          (case r of
             Some waker \<Rightarrow> Some (Some waker, st\<lparr>mq_send_waiters := waiters\<rparr>)
           | None \<Rightarrow> do {
               available \<leftarrow> checked_add available 1;
               Some (None, st\<lparr>mq_available := Some available\<rparr>) }) })"

definition mq_push :: "'a mpmc_state \<Rightarrow> 'a \<Rightarrow> (waker option \<times> 'a mpmc_state) option" where
  "mq_push st value = do {
     (waker, waiters) \<leftarrow> notify_one (mq_recv_waiters st);
     Some (waker, st\<lparr>mq_values := mq_values st @ [value], mq_recv_waiters := waiters\<rparr>) }"

definition mq_pop :: "'a mpmc_state \<Rightarrow> (('a \<times> waker option, try_recv_error) result \<times> 'a mpmc_state) option" where
  "mq_pop st =
     (case mq_values st of
        value # values \<Rightarrow> do {
          (waker, st) \<leftarrow> mq_release (st\<lparr>mq_values := values\<rparr>);
          Some (Ok (value, waker), st) }
      | [] \<Rightarrow> Some (Err (if mq_senders st = 0 then RecvDisconnected else Empty), st))"

definition mq_new :: "usize option \<Rightarrow> 'a mpmc_state" where
  "mq_new capacity = \<lparr>mq_values = [], mq_available = capacity, mq_senders = 1, mq_receivers = 1,
     mq_recv_waiters = wl_new, mq_send_waiters = wl_new\<rparr>"

text \<open>\<open>bounded\<close> of \<open>mpmc/bounded.rs\<close> asserts a positive capacity.\<close>

definition mpmc_bounded :: "usize \<Rightarrow> 'a mpmc_state option" where
  "mpmc_bounded capacity = do { guard (0 < capacity); Some (mq_new (Some capacity)) }"

definition mpmc_unbounded :: "'a mpmc_state" where
  "mpmc_unbounded = mq_new None"

section \<open>Handles\<close>

definition clone_sender :: "'a mpmc_state \<Rightarrow> 'a mpmc_state option" where
  "clone_sender st = do {
     senders \<leftarrow> checked_add (mq_senders st) 1;
     Some (st\<lparr>mq_senders := senders\<rparr>) }"

definition notify_body ::
  "recv_waiter wait_list \<times> waker list \<Rightarrow> ((recv_waiter wait_list \<times> waker list) \<times> bool) option" where
  "notify_body s = (case s of (waiters, woken) \<Rightarrow> do {
     (r, waiters) \<leftarrow> notify_one waiters;
     (case r of
        Some waker \<Rightarrow> Some ((waiters, woken @ [waker]), True)
      | None \<Rightarrow> Some ((waiters, woken), False)) })"

definition drop_sender :: "'a mpmc_state \<Rightarrow> (waker list \<times> 'a mpmc_state) option" where
  "drop_sender st = do {
     senders \<leftarrow> checked_sub (mq_senders st) 1;
     let st' = st\<lparr>mq_senders := senders\<rparr>;
     if senders \<noteq> 0 then Some ([], st')
     else do {
       (_, woken) \<leftarrow> loop notify_body (mq_recv_waiters st, []);
       Some (woken, st'\<lparr>mq_recv_waiters := wl_new\<rparr>) } }"

definition clone_receiver :: "'a mpmc_state \<Rightarrow> 'a mpmc_state option" where
  "clone_receiver st = do {
     receivers \<leftarrow> checked_add (mq_receivers st) 1;
     Some (st\<lparr>mq_receivers := receivers\<rparr>) }"

definition take_body ::
  "send_waiter wait_list \<times> waker list \<Rightarrow> ((send_waiter wait_list \<times> waker list) \<times> bool) option" where
  "take_body s = (case s of (waiters, woken) \<Rightarrow> do {
     (r, waiters) \<leftarrow> take_waiting_waker waiters;
     (case r of
        Some waker \<Rightarrow> Some ((waiters, woken @ [waker]), True)
      | None \<Rightarrow> Some ((waiters, woken), False)) })"

text \<open>The values that dropping the last receiver discards are returned beside the wakers.\<close>

definition drop_receiver :: "'a mpmc_state \<Rightarrow> (waker list \<times> 'a list \<times> 'a mpmc_state) option" where
  "drop_receiver st = do {
     receivers \<leftarrow> checked_sub (mq_receivers st) 1;
     let st' = st\<lparr>mq_receivers := receivers\<rparr>;
     if receivers \<noteq> 0 then Some ([], [], st')
     else do {
       (_, woken) \<leftarrow> loop take_body (mq_send_waiters st, []);
       Some (woken, mq_values st, st'\<lparr>mq_values := [], mq_send_waiters := wl_new\<rparr>) } }"

definition has_senders :: "'a mpmc_state \<Rightarrow> bool" where
  "has_senders st \<longleftrightarrow> mq_senders st \<noteq> 0"

definition has_receivers :: "'a mpmc_state \<Rightarrow> bool" where
  "has_receivers st \<longleftrightarrow> mq_receivers st \<noteq> 0"

definition mq_is_empty :: "'a mpmc_state \<Rightarrow> bool" where
  "mq_is_empty st \<longleftrightarrow> mq_values st = []"

section \<open>Sending\<close>

definition mq_try_send ::
  "'a mpmc_state \<Rightarrow> 'a \<Rightarrow> ((unit, 'a try_send_error) result \<times> waker list \<times> 'a mpmc_state) option" where
  "mq_try_send st value = do {
     (r, st) \<leftarrow> mq_acquire st;
     (case r of
        Ok _ \<Rightarrow> do {
          (waker, st) \<leftarrow> mq_push st value;
          Some (Ok (), opt_list waker, st) }
      | Err (Full _) \<Rightarrow> Some (Err (Full value), [], st)
      | Err (SendDisconnected _) \<Rightarrow> Some (Err (SendDisconnected value), [], st)) }"

text \<open>A live \<open>Permit\<close> is nothing but the right to call \<open>permit_send\<close> or \<open>permit_drop\<close> once.\<close>

definition mq_try_reserve :: "'a mpmc_state \<Rightarrow> ((unit, unit try_send_error) result \<times> 'a mpmc_state) option" where
  "mq_try_reserve st = mq_acquire st"

definition permit_drop :: "'a mpmc_state \<Rightarrow> (waker list \<times> 'a mpmc_state) option" where
  "permit_drop st = do {
     (waker, st) \<leftarrow> mq_release st;
     Some (opt_list waker, st) }"

text \<open>On the error path the permit is dropped after the lock is released.\<close>

definition permit_send ::
  "'a mpmc_state \<Rightarrow> 'a \<Rightarrow> ((unit, 'a send_error) result \<times> waker list \<times> 'a mpmc_state) option" where
  "permit_send st value =
     (if mq_receivers st = 0 then do {
        (woken, st) \<leftarrow> permit_drop st;
        Some (Err (SendError value), woken, st) }
      else do {
        (waker, st) \<leftarrow> mq_push st value;
        Some (Ok (), opt_list waker, st) })"

definition reserve_wait ::
  "'a mpmc_state \<Rightarrow> waiter_id option \<Rightarrow> waker \<Rightarrow>
     ((unit, unit send_error) result poll \<times> waiter_id option \<times> 'a mpmc_state) option" where
  "reserve_wait st waiter current = do {
     (i, waiters) \<leftarrow> register_waiter (mq_send_waiters st) waiter current;
     Some (Pending, Some i, st\<lparr>mq_send_waiters := waiters\<rparr>) }"

definition reserve_poll ::
  "'a mpmc_state \<Rightarrow> waiter_id option \<Rightarrow> waker \<Rightarrow>
     ((unit, unit send_error) result poll \<times> waiter_id option \<times> 'a mpmc_state) option" where
  "reserve_poll st waiter current =
     (if mq_receivers st = 0 then Some (Ready (Err (SendError ())), None, st)
      else case waiter of
        Some i \<Rightarrow> do {
          state \<leftarrow> waiter_mut (mq_send_waiters st) i;
          if state = Granted then do {
            (_, waiters) \<leftarrow> remove_unlinked_waiter (mq_send_waiters st) i;
            Some (Ready (Ok ()), None, st\<lparr>mq_send_waiters := waiters\<rparr>) }
          else reserve_wait st waiter current }
      | None \<Rightarrow>
          if has_capacity st then
            (case mq_available st of
               Some available \<Rightarrow> do {
                 available \<leftarrow> checked_sub available 1;
                 Some (Ready (Ok ()), None, st\<lparr>mq_available := Some available\<rparr>) }
             | None \<Rightarrow> Some (Ready (Ok ()), None, st))
          else reserve_wait st waiter current)"

definition reserve_drop :: "'a mpmc_state \<Rightarrow> waiter_id option \<Rightarrow> (waker list \<times> 'a mpmc_state) option" where
  "reserve_drop st waiter =
     (case waiter of
        None \<Rightarrow> Some ([], st)
      | Some i \<Rightarrow>
          if mq_receivers st = 0 then Some ([], st)
          else do {
            (retired, waiters) \<leftarrow> remove_waiter (mq_send_waiters st) i;
            let st = st\<lparr>mq_send_waiters := waiters\<rparr>;
            (waker, st) \<leftarrow> (case retired of Granted \<Rightarrow> mq_release st | SendWaiting _ \<Rightarrow> Some (None, st));
            Some (opt_list waker, st) })"

text \<open>
  \<open>send\<close>: the future tries once, then reserves, and sends through the permit. Between two polls
  it is in the second state, with the value and its reservation.
\<close>

datatype 'a send_future = Send_Start 'a | Send_Reserving 'a "waiter_id option"

definition send_reserving ::
  "'a mpmc_state \<Rightarrow> 'a \<Rightarrow> waiter_id option \<Rightarrow> waker \<Rightarrow>
     ((unit, 'a send_error) result poll \<times> 'a send_future \<times> waker list \<times> 'a mpmc_state) option" where
  "send_reserving st value waiter current = do {
     (r, waiter, st) \<leftarrow> reserve_poll st waiter current;
     (case r of
        Pending \<Rightarrow> Some (Pending, Send_Reserving value waiter, [], st)
      | Ready (Ok _) \<Rightarrow> do {
          (r, woken, st) \<leftarrow> permit_send st value;
          Some (Ready r, Send_Reserving value waiter, woken, st) }
      | Ready (Err _) \<Rightarrow> Some (Ready (Err (SendError value)), Send_Reserving value waiter, [], st)) }"

fun send_poll ::
  "'a mpmc_state \<Rightarrow> 'a send_future \<Rightarrow> waker \<Rightarrow>
     ((unit, 'a send_error) result poll \<times> 'a send_future \<times> waker list \<times> 'a mpmc_state) option" where
  "send_poll st (Send_Start value) current = do {
     (r, woken, st) \<leftarrow> mq_try_send st value;
     (case r of
        Ok _ \<Rightarrow> Some (Ready (Ok ()), Send_Start value, woken, st)
      | Err (SendDisconnected value) \<Rightarrow> Some (Ready (Err (SendError value)), Send_Start value, woken, st)
      | Err (Full value) \<Rightarrow> send_reserving st value None current) }"
| "send_poll st (Send_Reserving value waiter) current = send_reserving st value waiter current"

section \<open>Receiving\<close>

definition mq_try_recv :: "'a mpmc_state \<Rightarrow> (('a, try_recv_error) result \<times> waker list \<times> 'a mpmc_state) option" where
  "mq_try_recv st = do {
     (r, st) \<leftarrow> mq_pop st;
     (case r of
        Ok (value, waker) \<Rightarrow> Some (Ok value, opt_list waker, st)
      | Err e \<Rightarrow> Some (Err e, [], st)) }"

definition recv_poll ::
  "'a mpmc_state \<Rightarrow> waiter_id option \<Rightarrow> waker \<Rightarrow>
     (('a, recv_error) result poll \<times> waiter_id option \<times> waker list \<times> 'a mpmc_state) option" where
  "recv_poll st waiter current = do {
     let waiter = (if mq_senders st = 0 then None else waiter);
     (r, st) \<leftarrow> mq_pop st;
     (case r of
        Err Empty \<Rightarrow> do {
          (i, waiters) \<leftarrow> recv_register (mq_recv_waiters st) waiter current;
          Some (Pending, Some i, [], st\<lparr>mq_recv_waiters := waiters\<rparr>) }
      | _ \<Rightarrow> do {
          waiters \<leftarrow> (case waiter of
              Some i \<Rightarrow> do { (_, waiters) \<leftarrow> remove_waiter (mq_recv_waiters st) i; Some waiters }
            | None \<Rightarrow> Some (mq_recv_waiters st));
          let st = st\<lparr>mq_recv_waiters := waiters\<rparr>;
          (case r of
             Ok (value, waker) \<Rightarrow> Some (Ready (Ok value), None, opt_list waker, st)
           | Err _ \<Rightarrow> Some (Ready (Err Disconnected), None, [], st)) }) }"

definition recv_drop :: "'a mpmc_state \<Rightarrow> waiter_id option \<Rightarrow> (waker list \<times> 'a mpmc_state) option" where
  "recv_drop st waiter =
     (case waiter of
        None \<Rightarrow> Some ([], st)
      | Some i \<Rightarrow>
          if mq_senders st = 0 then Some ([], st)
          else do {
            (retired, waiters) \<leftarrow> remove_waiter (mq_recv_waiters st) i;
            (waker, waiters) \<leftarrow>
              (if retired = Notified \<and> mq_values st \<noteq> [] then notify_one waiters else Some (None, waiters));
            Some (opt_list waker, st\<lparr>mq_recv_waiters := waiters\<rparr>) })"

text \<open>\<open>recv\<close>: the future tries once before it polls \<open>Recv\<close>.\<close>

datatype recv_future = Recv_Start | Recv_Waiting "waiter_id option"

fun recv_future_poll ::
  "'a mpmc_state \<Rightarrow> recv_future \<Rightarrow> waker \<Rightarrow>
     (('a, recv_error) result poll \<times> recv_future \<times> waker list \<times> 'a mpmc_state) option" where
  "recv_future_poll st Recv_Start current = do {
     (r, woken, st) \<leftarrow> mq_try_recv st;
     (case r of
        Ok value \<Rightarrow> Some (Ready (Ok value), Recv_Start, woken, st)
      | Err RecvDisconnected \<Rightarrow> Some (Ready (Err Disconnected), Recv_Start, woken, st)
      | Err Empty \<Rightarrow> do {
          (r, waiter, woken, st) \<leftarrow> recv_poll st None current;
          Some (r, Recv_Waiting waiter, woken, st) }) }"
| "recv_future_poll st (Recv_Waiting waiter) current = do {
     (r, waiter, woken, st) \<leftarrow> recv_poll st waiter current;
     Some (r, Recv_Waiting waiter, woken, st) }"

text \<open>\<open>UnboundedSender::send\<close> of \<open>mpmc/unbounded.rs\<close>: a full unbounded queue is unreachable.\<close>

definition unbounded_send ::
  "'a mpmc_state \<Rightarrow> 'a \<Rightarrow> ((unit, 'a send_error) result \<times> waker list \<times> 'a mpmc_state) option" where
  "unbounded_send st value = do {
     (r, woken, st) \<leftarrow> mq_try_send st value;
     (case r of
        Ok _ \<Rightarrow> Some (Ok (), woken, st)
      | Err (SendDisconnected value) \<Rightarrow> Some (Err (SendError value), woken, st)
      | Err (Full _) \<Rightarrow> None) }"

lemmas mpmc_ops [op_defs] = remove_waiter_def notify_one_def recv_requeue_def recv_register_def
  register_waiter_def grant_one_def take_waiting_waker_def has_capacity_def mq_acquire_def mq_release_def
  mq_push_def mq_pop_def mq_new_def clone_sender_def drop_sender_def clone_receiver_def drop_receiver_def
  mq_try_send_def mq_try_reserve_def permit_drop_def permit_send_def reserve_wait_def reserve_poll_def
  reserve_drop_def mq_try_recv_def recv_poll_def recv_drop_def

section \<open>The invariant\<close>

fun rw_waker :: "recv_waiter \<Rightarrow> waker option" where
  "rw_waker (RecvWaiting w) = Some w"
| "rw_waker Notified = None"

fun sw_waker :: "send_waiter \<Rightarrow> waker option" where
  "sw_waker (SendWaiting w) = Some w"
| "sw_waker Granted = None"

lemma rw_waker_iff: "rw_waker v = Some w \<longleftrightarrow> v = RecvWaiting w" "rw_waker v = None \<longleftrightarrow> v = Notified"
  by (cases v; simp)+

lemma sw_waker_iff: "sw_waker v = Some w \<longleftrightarrow> v = SendWaiting w" "sw_waker v = None \<longleftrightarrow> v = Granted"
  by (cases v; simp)+

interpretation ro: waiter_owners wl_inv wl_room wl_queue wl_val push_back push_front
  unlink_waiter unlink_first_waiter set_waiter remove_unlinked_waiter rw_waker
  by unfold_locales

interpretation so: waiter_owners wl_inv wl_room wl_queue wl_val push_back push_front
  unlink_waiter unlink_first_waiter set_waiter remove_unlinked_waiter sw_waker
  by unfold_locales

lemma notify_one_eq: "notify_one wl = ro.take_first wl Notified"
  by (auto simp: notify_one_def ro.take_first_def split: option.splits recv_waiter.splits Option.bind_splits)

lemma grant_one_eq: "grant_one wl = so.take_first wl Granted"
  by (auto simp: grant_one_def so.take_first_def split: option.splits send_waiter.splits Option.bind_splits)

text \<open>
  The receiving side: pending receives own their nodes, and while a receive is queued there are
  at least as many notified receives as buffered values. After the last sender is gone every
  pending receive has been woken.
\<close>

definition recv_ok :: "usize \<Rightarrow> nat \<Rightarrow> recv_waiter wait_list \<Rightarrow> wait_futures \<Rightarrow> waker list \<Rightarrow> bool" where
  "recv_ok senders len wl F woken \<longleftrightarrow>
     (if senders = 0 then wl = wl_new \<and> woken_all (regs_of F) woken
      else ro.owned wl (regs_of F) woken \<and> (wl_queue wl \<noteq> [] \<longrightarrow> len \<le> ro.held wl))"

text \<open>
  The sending side: the capacity is split among the counter, the buffered values, the permits
  \<open>n\<close> in the hands of callers and the granted reservations, and a reservation is queued only
  when the counter is zero.
\<close>

definition send_ok ::
  "usize \<Rightarrow> nat \<Rightarrow> usize option \<Rightarrow> send_waiter wait_list \<Rightarrow> wait_futures \<Rightarrow> usize option \<Rightarrow> nat \<Rightarrow> waker list \<Rightarrow> bool" where
  "send_ok receivers len available wl F cap n woken \<longleftrightarrow>
     (if receivers = 0 then wl = wl_new \<and> len = 0 \<and> woken_all (regs_of F) woken
      else so.owned wl (regs_of F) woken \<and> (available \<noteq> Some 0 \<longrightarrow> wl_queue wl = []) \<and>
        (case available of None \<Rightarrow> cap = None | Some a \<Rightarrow> cap = Some (a + len + n + so.held wl)))"

lemma recv_ok_more: "recv_ok senders len wl F woken \<Longrightarrow> len' \<le> len \<Longrightarrow> recv_ok senders len' wl F (woken @ ws)"
  by (auto simp: recv_ok_def ro.owned_more woken_all_more)

lemma send_ok_more: "send_ok receivers len a wl F cap n woken \<Longrightarrow> send_ok receivers len a wl F cap n (woken @ ws)"
  by (auto simp: send_ok_def so.owned_more woken_all_more)

section \<open>Notifying and granting\<close>

lemma notify_one_ok:
  assumes "recv_ok senders len wl F woken"
  obtains r wl' where "notify_one wl = Some (r, wl')" and "recv_ok senders (Suc len) wl' F (woken @ opt_list r)"
proof (cases "senders = 0")
  case True
  then have "notify_one wl = Some (None, wl_new)"
    using assms by (simp add: recv_ok_def notify_one_eq ro.take_first_empty wl_queue_new)
  then show thesis using that assms True by (simp add: recv_ok_def)
next
  case False
  then have o: "ro.owned wl (regs_of F) woken" using assms by (simp add: recv_ok_def)
  obtain r wl' where "ro.take_first wl Notified = Some (r, wl')" "ro.owned wl' (regs_of F) (woken @ opt_list r)"
    "wl_queue wl' = tl (wl_queue wl)" "r = None \<longleftrightarrow> wl_queue wl = []" "ro.held wl' = ro.held wl + length (opt_list r)"
    by (rule ro.take_first_spec [OF o, of Notified], simp) blast
  then show thesis
    using that [of r wl'] assms False by (cases r) (auto simp: recv_ok_def notify_one_eq)
qed

lemma mq_push_ok:
  assumes "recv_ok (mq_senders st) (length (mq_values st)) (mq_recv_waiters st) F woken"
  obtains r wl where "mq_push st v = Some (r, st\<lparr>mq_values := mq_values st @ [v], mq_recv_waiters := wl\<rparr>)"
    and "recv_ok (mq_senders st) (Suc (length (mq_values st))) wl F (woken @ opt_list r)"
  by (rule notify_one_ok [OF assms]) (use that in \<open>auto simp: mq_push_def\<close>)

text \<open>Giving one unit of capacity back.\<close>

lemma mq_release_ok:
  assumes k: "send_ok (mq_receivers st) len (mq_available st) (mq_send_waiters st) F cap (Suc n) woken"
    and c: "\<And>c. cap = Some c \<Longrightarrow> c \<le> usize_max"
  obtains r a wl where "mq_release st = Some (r, st\<lparr>mq_available := a, mq_send_waiters := wl\<rparr>)"
    and "send_ok (mq_receivers st) len a wl F cap n (woken @ opt_list r)"
proof (cases "mq_receivers st = 0 \<or> mq_available st = None")
  case True
  then show thesis
    using that [of None "mq_send_waiters st" "mq_available st"] k
    by (auto simp: mq_release_def send_ok_def split: if_splits)
next
  case False
  then obtain a where a: "mq_available st = Some a" and f: "mq_receivers st \<noteq> 0" by auto
  then have o: "so.owned (mq_send_waiters st) (regs_of F) woken"
    and s: "cap = Some (a + len + Suc n + so.held (mq_send_waiters st))"
    and q: "a \<noteq> 0 \<Longrightarrow> wl_queue (mq_send_waiters st) = []"
    using k by (auto simp: send_ok_def)
  obtain r wl where t: "so.take_first (mq_send_waiters st) Granted = Some (r, wl)" "so.owned wl (regs_of F) (woken @ opt_list r)"
    "wl_queue wl = tl (wl_queue (mq_send_waiters st))" "r = None \<longleftrightarrow> wl_queue (mq_send_waiters st) = []"
    "r = None \<longrightarrow> wl = mq_send_waiters st" "so.held wl = so.held (mq_send_waiters st) + length (opt_list r)"
    by (rule so.take_first_spec [OF o, of Granted], simp) blast
  show thesis
  proof (cases r)
    case None
    then show thesis
      using that [of r wl "Some (a + 1)"] t f a s c by (auto simp: mq_release_def grant_one_eq send_ok_def checked_add_def)
  next
    case (Some w)
    then show thesis
      using that [of r wl "Some a"] t f a s q by (auto simp: mq_release_def grant_one_eq send_ok_def)
  qed
qed

lemma mq_acquire_ok:
  assumes "send_ok (mq_receivers st) len (mq_available st) (mq_send_waiters st) F cap n woken"
  obtains (gone) "mq_receivers st = 0" and "mq_acquire st = Some (Err (SendDisconnected ()), st)"
  | (full) "mq_receivers st \<noteq> 0" and "mq_available st = Some 0" and "mq_acquire st = Some (Err (Full ()), st)"
  | (acquired) a where "mq_receivers st \<noteq> 0" and "mq_acquire st = Some (Ok (), st\<lparr>mq_available := a\<rparr>)"
    and "send_ok (mq_receivers st) len a (mq_send_waiters st) F cap (Suc n) woken"
proof (cases "mq_receivers st = 0")
  case True
  then show thesis using gone by (simp add: mq_acquire_def)
next
  case False
  then show thesis
    using assms full acquired [of None] acquired [of "Some (the (mq_available st) - 1)"]
    by (cases "mq_available st = Some 0"; cases "mq_available st")
      (auto simp: mq_acquire_def has_capacity_def checked_sub_def send_ok_def)
qed

text \<open>A buffered value owns the unit of capacity that its permit owned.\<close>

lemma send_ok_push:
  "send_ok receivers len a wl F cap (Suc n) woken \<Longrightarrow> receivers \<noteq> 0 \<Longrightarrow> send_ok receivers (Suc len) a wl F cap n woken"
  by (auto simp: send_ok_def split: option.splits)

lemma send_ok_pop:
  "send_ok receivers (Suc len) a wl F cap n woken \<Longrightarrow> send_ok receivers len a wl F cap (Suc n) woken"
  by (auto simp: send_ok_def split: option.splits if_splits)

section \<open>Removing and registering waiters\<close>

lemma always_eq: "always () v = (True, v, ())"
  by (simp add: always_def)

lemma recv_remove:
  assumes o: "ro.owned wl P woken" and f: "P f = Some (i, w, m)"
  obtains v wl' where "remove_waiter wl i = Some (v, wl')" and "ro.owned wl' (P(f := None)) woken"
    and "wl_queue wl' = removeAll i (wl_queue wl)" and "v = Notified \<longleftrightarrow> i \<notin> set (wl_queue wl)"
    and "ro.held wl' = (if i \<in> set (wl_queue wl) then ro.held wl else ro.held wl - 1)" and "wl_room wl'"
proof -
  obtain v s1 wl' where "unlink_waiter wl i always () = Some (Some v, (), s1)"
    "remove_unlinked_waiter s1 i = Some (v, wl')" "ro.owned wl' (P(f := None)) woken"
    "wl_queue wl' = removeAll i (wl_queue wl)"
    "ro.held wl' = (if i \<in> set (wl_queue wl) then ro.held wl else ro.held wl - 1)"
    "rw_waker v = (if i \<in> set (wl_queue wl) then Some w else None)"
    by (rule ro.leave [where p = always, OF o f always_eq])
  then show thesis
    using that [of v wl'] by (auto simp: remove_waiter_def rw_waker_iff remove_unlinked_room split: if_splits)
qed

lemma send_remove:
  assumes o: "so.owned wl P woken" and f: "P f = Some (i, w, m)"
  obtains v wl' where "remove_waiter wl i = Some (v, wl')" and "so.owned wl' (P(f := None)) woken"
    and "wl_queue wl' = removeAll i (wl_queue wl)" and "v = Granted \<longleftrightarrow> i \<notin> set (wl_queue wl)"
    and "so.held wl = (if i \<in> set (wl_queue wl) then so.held wl' else Suc (so.held wl'))"
proof -
  obtain v s1 wl' where n: "unlink_waiter wl i always () = Some (Some v, (), s1)"
    "remove_unlinked_waiter s1 i = Some (v, wl')" "so.owned wl' (P(f := None)) woken"
    "wl_queue wl' = removeAll i (wl_queue wl)"
    "so.held wl' = (if i \<in> set (wl_queue wl) then so.held wl else so.held wl - 1)"
    "sw_waker v = (if i \<in> set (wl_queue wl) then Some w else None)"
    by (rule so.leave [where p = always, OF o f always_eq])
  have "0 < so.held wl" if "i \<notin> set (wl_queue wl)" by (rule so.collect [OF o f that]) simp
  then show thesis
    using that [of v wl'] n by (auto simp: remove_waiter_def sw_waker_iff split: if_splits)
qed

lemma recv_register_fresh: "recv_register wl None w = push_back wl (RecvWaiting w)"
  by (simp add: recv_register_def recv_requeue_def)

lemma recv_register_again:
  assumes o: "ro.owned wl P woken" and f: "P f = Some (j, w0, m)"
  obtains i wl' where "recv_register wl (Some j) w = Some (i, wl')"
    and "ro.owned wl' (P(f \<mapsto> (i, w, length woken))) woken"
proof (cases "j \<in> set (wl_queue wl)")
  case True
  then have v: "wl_val wl j = Some (RecvWaiting w0)" using ro.owned_queued [OF o f] by (auto simp: rw_waker_iff)
  obtain wl' where s: "set_waiter wl j (RecvWaiting w) = Some wl'"
    using wq.setv_law [OF ro.owned_inv [OF o] v, of "RecvWaiting w"] by blast
  show thesis
  proof (cases "w0 = w")
    case True
    then show thesis
      using that [of j wl] v ro.park_same [OF o f \<open>j \<in> set (wl_queue wl)\<close>]
      by (simp add: recv_register_def waiter_mut_eq will_wake_def)
  next
    case False
    then show thesis
      using that [of j wl'] v s ro.park_again [OF o f \<open>j \<in> set (wl_queue wl)\<close> s, of w]
      by (simp add: recv_register_def waiter_mut_eq will_wake_def)
  qed
next
  case False
  then have v: "wl_val wl j = Some Notified" using ro.owned_taken(1) [OF o f] by (auto simp: rw_waker_iff)
  obtain v' wl1 where r: "remove_waiter wl j = Some (v', wl1)" "ro.owned wl1 (P(f := None)) woken" "wl_room wl1"
    by (rule recv_remove [OF o f])
  obtain i wl' where p: "push_back wl1 (RecvWaiting w) = Some (i, wl')"
    using wq.push_total [OF ro.owned_inv [OF r(2)] r(3)] by blast
  then show thesis
    using that [of i wl'] v r ro.park_new [OF r(2) _ p, of f w]
    by (simp add: recv_register_def waiter_mut_eq recv_requeue_def)
qed

lemma register_waiter_again:
  assumes o: "so.owned wl P woken" and f: "P f = Some (j, w0, m)" and q: "j \<in> set (wl_queue wl)"
  obtains wl' where "register_waiter wl (Some j) w = Some (j, wl')"
    and "so.owned wl' (P(f \<mapsto> (j, w, length woken))) woken" and "wl_queue wl' = wl_queue wl" and "so.held wl' = so.held wl"
proof -
  have v: "wl_val wl j = Some (SendWaiting w0)" using so.owned_queued [OF o f q] by (auto simp: sw_waker_iff)
  obtain wl' where s: "set_waiter wl j (SendWaiting w) = Some wl'"
    using wq.setv_law [OF so.owned_inv [OF o] v, of "SendWaiting w"] by blast
  show thesis
  proof (cases "w0 = w")
    case True
    then show thesis
      using that [of wl] v so.park_same [OF o f q] by (simp add: register_waiter_def waiter_mut_eq will_wake_def)
  next
    case False
    then show thesis
      using that [of wl'] v s so.park_again [OF o f q s, of w]
      by (simp add: register_waiter_def waiter_mut_eq will_wake_def)
  qed
qed

section \<open>The receiving side, operation by operation\<close>

text \<open>A receive that completes leaves; the unit it had been notified for goes with the value.\<close>

lemma recv_ok_leave:
  assumes k: "recv_ok senders len wl R woken" and f: "R f = Some r"
    and w: "senders \<noteq> 0 \<Longrightarrow> wl_queue wl \<noteq> [] \<Longrightarrow> Suc len \<le> ro.held wl"
  obtains wl' where "(case if senders = 0 then None else map_option fst r of
      Some i \<Rightarrow> do { (_, waiters) \<leftarrow> remove_waiter wl i; Some waiters }
    | None \<Rightarrow> Some wl) = Some wl'"
    and "recv_ok senders len wl' (R(f := None)) woken"
proof (cases "r = None \<or> senders = 0")
  case True
  then show thesis
    using that [of wl] k f by (auto simp: recv_ok_def fun_upd_regs_of woken_all_clear)
next
  case False
  then obtain i w0 m where x: "r = Some (i, w0, m)" and g: "senders \<noteq> 0" by (cases r) auto
  have f': "regs_of R f = Some (i, w0, m)" using f x by simp
  have o: "ro.owned wl (regs_of R) woken" using k g by (simp add: recv_ok_def)
  obtain v wl' where n: "remove_waiter wl i = Some (v, wl')" "ro.owned wl' ((regs_of R)(f := None)) woken"
    "wl_queue wl' = removeAll i (wl_queue wl)"
    "ro.held wl' = (if i \<in> set (wl_queue wl) then ro.held wl else ro.held wl - 1)"
    by (rule recv_remove [OF o f'])
  have "wl_queue wl' \<noteq> [] \<longrightarrow> len \<le> ro.held wl'"
    using n(3,4) w [OF g] by (cases "wl_queue wl") auto
  then show thesis using that [of wl'] n x g by (simp add: recv_ok_def)
qed

text \<open>A receive that finds nothing queues, refreshes its waker, or queues again.\<close>

lemma recv_ok_register:
  assumes k: "recv_ok senders 0 wl R woken" and g: "senders \<noteq> 0" and f: "R f = Some r"
    and p: "recv_register wl (map_option fst r) w = Some (i, wl')"
  shows "recv_ok senders 0 wl' (R(f \<mapsto> Some (i, w, length woken))) woken"
proof -
  have o: "ro.owned wl (regs_of R) woken" using k g by (simp add: recv_ok_def)
  have "ro.owned wl' ((regs_of R)(f \<mapsto> (i, w, length woken))) woken"
  proof (cases r)
    case None
    then have "regs_of R f = None" using f by simp
    from ro.park_new(1) [OF o this, of "RecvWaiting w" i wl' w] show ?thesis
      using p None by (simp add: recv_register_fresh)
  next
    case (Some x)
    then obtain l w0 m where x: "r = Some (l, w0, m)" by (cases x) auto
    then have "regs_of R f = Some (l, w0, m)" using f by simp
    then show ?thesis by (rule recv_register_again [OF o, of f l w0 m w]) (use p x in auto)
  qed
  then show ?thesis using g by (simp add: recv_ok_def)
qed

lemma recv_ok_register_total:
  assumes k: "recv_ok senders len wl R woken" and g: "senders \<noteq> 0" and f: "R f = Some r" and "wl_room wl"
  shows "recv_register wl (map_option fst r) w \<noteq> None"
proof -
  have o: "ro.owned wl (regs_of R) woken" using k g by (simp add: recv_ok_def)
  show ?thesis
  proof (cases r)
    case None
    then show ?thesis using wq.push_total [OF ro.owned_inv [OF o] assms(4)] by (force simp: recv_register_fresh)
  next
    case (Some x)
    then obtain l w0 m where x: "r = Some (l, w0, m)" by (cases x) auto
    then have "regs_of R f = Some (l, w0, m)" using f by simp
    then show ?thesis by (rule recv_register_again [OF o, of f l w0 m w]) (use x in auto)
  qed
qed

text \<open>Cancelling a receive hands an unused notification to the next one while a value waits.\<close>

lemma recv_ok_cancel:
  assumes k: "recv_ok senders len wl R woken" and g: "senders \<noteq> 0" and f: "R f = Some (Some (i, w0, m))"
  obtains v wl1 u wl2 where "remove_waiter wl i = Some (v, wl1)"
    and "(if v = Notified \<and> 0 < len then notify_one wl1 else Some (None, wl1)) = Some (u, wl2)"
    and "recv_ok senders len wl2 (R(f := None)) (woken @ opt_list u)"
proof -
  have f': "regs_of R f = Some (i, w0, m)" using f by simp
  have o: "ro.owned wl (regs_of R) woken" and w: "wl_queue wl \<noteq> [] \<Longrightarrow> len \<le> ro.held wl"
    using k g by (simp_all add: recv_ok_def)
  obtain v wl1 where l: "remove_waiter wl i = Some (v, wl1)" "ro.owned wl1 ((regs_of R)(f := None)) woken"
    "wl_queue wl1 = removeAll i (wl_queue wl)" "v = Notified \<longleftrightarrow> i \<notin> set (wl_queue wl)"
    "ro.held wl1 = (if i \<in> set (wl_queue wl) then ro.held wl else ro.held wl - 1)"
    by (rule recv_remove [OF o f'])
  show thesis
  proof (cases "v = Notified \<and> 0 < len")
    case True
    obtain u wl2 where t: "ro.take_first wl1 Notified = Some (u, wl2)" "ro.owned wl2 ((regs_of R)(f := None)) (woken @ opt_list u)"
      "wl_queue wl2 = tl (wl_queue wl1)" "u = None \<longleftrightarrow> wl_queue wl1 = []" "ro.held wl2 = ro.held wl1 + length (opt_list u)"
      by (rule ro.take_first_spec [OF l(2), of Notified], simp) blast
    have "wl_queue wl2 \<noteq> [] \<longrightarrow> len \<le> ro.held wl2" using t l(3,4,5) w True by (cases u) auto
    then show thesis using that [of v wl1 u wl2] l t True g by (simp add: notify_one_eq recv_ok_def)
  next
    case False
    have "wl_queue wl1 \<noteq> [] \<longrightarrow> len \<le> ro.held wl1" using l(3,4,5) w False by (cases "wl_queue wl") auto
    then have "recv_ok senders len wl1 (R(f := None)) (woken @ opt_list None)" using l(2) g by (simp add: recv_ok_def)
    moreover have "(if v = Notified \<and> 0 < len then notify_one wl1 else Some (None, wl1)) = Some (None, wl1)"
      using False by (rule if_not_P)
    ultimately show thesis using that l(1) by blast
  qed
qed

text \<open>The last sender leaves: every pending receive has been woken.\<close>

lemma recv_notify_all:
  assumes "ro.owned wl P woken"
  shows "\<exists>wl'. loop notify_body (wl, []) = Some (wl', ro.wakers_in wl)"
proof -
  have "\<exists>wl'. loop notify_body (wl, []) = Some (wl', [] @ ro.wakers_in wl)"
  proof (rule ro.drain_moved [OF ro.owned_inv [OF assms]])
    show "\<exists>s'. notify_body (s, a) = Some ((s', a @ [w]), True) \<and> wl_inv s' \<and> wl_queue s' = q \<and>
        (\<forall>j. j \<noteq> i \<longrightarrow> wl_val s' j = wl_val s j)"
      if "wl_inv s" "wl_queue s = i # q" "wl_val s i = Some v" "rw_waker v = Some w" for s a i q v w
      by (rule ro.take_first_inv [OF that, of Notified]) (simp add: notify_body_def notify_one_eq)
  qed (use ro.owned_wakers [OF assms] in \<open>auto simp: notify_body_def notify_one_eq ro.take_first_empty\<close>)
  then show ?thesis by simp
qed

lemma recv_ok_disconnect:
  "recv_ok senders len wl R woken \<Longrightarrow> senders \<noteq> 0 \<Longrightarrow> recv_ok 0 len' wl_new R (woken @ ro.wakers_in wl)"
  by (simp add: recv_ok_def ro.all_woken)

end
