(* ===== verification/MpmcSystem.thy ===== *)
theory MpmcSystem
  imports MpmcQueue
begin

text \<open>
  The queue of \<open>MpmcQueue\<close> under every interleaving of its operations by any number of senders,
  receivers, permits and cancelled futures, and what it promises them.
\<close>

section \<open>All interleavings\<close>

text \<open>
  The queue with its pending receives and reservations, the number of live permits, and the
  values sent, received and discarded so far. Every step is one region of the queue lock. The
  \<open>send\<close> and \<open>recv\<close> futures take these steps one after the other.
\<close>

record 'a mpmc_sys =
  mm_st :: "'a mpmc_state"
  mm_recvs :: wait_futures
  mm_reserves :: wait_futures
  mm_permits :: nat
  mm_woken :: "waker list"
  mm_sent :: "'a list"
  mm_received :: "'a list"
  mm_discarded :: "'a list"

definition mpmc_init :: "usize option \<Rightarrow> 'a mpmc_sys" where
  "mpmc_init cap = \<lparr>mm_st = mq_new cap, mm_recvs = Map.empty, mm_reserves = Map.empty, mm_permits = 0,
     mm_woken = [], mm_sent = [], mm_received = [], mm_discarded = []\<rparr>"

definition mm_next :: "'a mpmc_sys \<Rightarrow> 'a mpmc_state \<Rightarrow> waker list \<Rightarrow> 'a mpmc_sys" where
  "mm_next s st woken = s\<lparr>mm_st := st, mm_woken := mm_woken s @ woken\<rparr>"

inductive mpmc_step :: "'a mpmc_sys \<Rightarrow> 'a mpmc_sys \<Rightarrow> bool" where
  clone_sender: "mq_senders (mm_st s) \<noteq> 0 \<Longrightarrow> clone_sender (mm_st s) = Some st \<Longrightarrow> mpmc_step s (mm_next s st [])"
| clone_receiver: "mq_receivers (mm_st s) \<noteq> 0 \<Longrightarrow> clone_receiver (mm_st s) = Some st \<Longrightarrow> mpmc_step s (mm_next s st [])"
| drop_sender: "drop_sender (mm_st s) = Some (woken, st) \<Longrightarrow> mpmc_step s (mm_next s st woken)"
| drop_receiver: "drop_receiver (mm_st s) = Some (woken, discarded, st) \<Longrightarrow>
    mpmc_step s ((mm_next s st woken)\<lparr>mm_discarded := mm_discarded s @ discarded\<rparr>)"
| try_send_ok: "mq_try_send (mm_st s) v = Some (Ok (), woken, st) \<Longrightarrow>
    mpmc_step s ((mm_next s st woken)\<lparr>mm_sent := mm_sent s @ [v]\<rparr>)"
| try_send_err: "mq_try_send (mm_st s) v = Some (Err e, woken, st) \<Longrightarrow> mpmc_step s (mm_next s st woken)"
| try_reserve: "mq_try_reserve (mm_st s) = Some (Ok (), st) \<Longrightarrow>
    mpmc_step s ((mm_next s st [])\<lparr>mm_permits := Suc (mm_permits s)\<rparr>)"
| permit_send_ok: "mm_permits s = Suc n \<Longrightarrow> permit_send (mm_st s) v = Some (Ok (), woken, st) \<Longrightarrow>
    mpmc_step s ((mm_next s st woken)\<lparr>mm_permits := n, mm_sent := mm_sent s @ [v]\<rparr>)"
| permit_send_err: "mm_permits s = Suc n \<Longrightarrow> permit_send (mm_st s) v = Some (Err e, woken, st) \<Longrightarrow>
    mpmc_step s ((mm_next s st woken)\<lparr>mm_permits := n\<rparr>)"
| permit_drop: "mm_permits s = Suc n \<Longrightarrow> permit_drop (mm_st s) = Some (woken, st) \<Longrightarrow>
    mpmc_step s ((mm_next s st woken)\<lparr>mm_permits := n\<rparr>)"
| reserve: "mm_reserves s f = None \<Longrightarrow> mpmc_step s (s\<lparr>mm_reserves := (mm_reserves s)(f \<mapsto> None)\<rparr>)"
| reserve_ok: "mm_reserves s f = Some k \<Longrightarrow>
    reserve_poll (mm_st s) (map_option fst k) w = Some (Ready (Ok ()), i, st) \<Longrightarrow>
    mpmc_step s ((mm_next s st [])\<lparr>mm_reserves := (mm_reserves s)(f := None), mm_permits := Suc (mm_permits s)\<rparr>)"
| reserve_err: "mm_reserves s f = Some k \<Longrightarrow>
    reserve_poll (mm_st s) (map_option fst k) w = Some (Ready (Err e), i, st) \<Longrightarrow>
    mpmc_step s ((mm_next s st [])\<lparr>mm_reserves := (mm_reserves s)(f := None)\<rparr>)"
| reserve_pending: "mm_reserves s f = Some k \<Longrightarrow>
    reserve_poll (mm_st s) (map_option fst k) w = Some (Pending, Some i, st) \<Longrightarrow>
    mpmc_step s ((mm_next s st [])\<lparr>mm_reserves := (mm_reserves s)(f \<mapsto> Some (i, w, length (mm_woken s)))\<rparr>)"
| reserve_drop: "mm_reserves s f = Some k \<Longrightarrow> reserve_drop (mm_st s) (map_option fst k) = Some (woken, st) \<Longrightarrow>
    mpmc_step s ((mm_next s st woken)\<lparr>mm_reserves := (mm_reserves s)(f := None)\<rparr>)"
| try_recv_ok: "mq_try_recv (mm_st s) = Some (Ok v, woken, st) \<Longrightarrow>
    mpmc_step s ((mm_next s st woken)\<lparr>mm_received := mm_received s @ [v]\<rparr>)"
| recv: "mm_recvs s f = None \<Longrightarrow> mpmc_step s (s\<lparr>mm_recvs := (mm_recvs s)(f \<mapsto> None)\<rparr>)"
| recv_ok: "mm_recvs s f = Some k \<Longrightarrow>
    recv_poll (mm_st s) (map_option fst k) w = Some (Ready (Ok v), i, woken, st) \<Longrightarrow>
    mpmc_step s ((mm_next s st woken)\<lparr>mm_recvs := (mm_recvs s)(f := None), mm_received := mm_received s @ [v]\<rparr>)"
| recv_err: "mm_recvs s f = Some k \<Longrightarrow>
    recv_poll (mm_st s) (map_option fst k) w = Some (Ready (Err e), i, woken, st) \<Longrightarrow>
    mpmc_step s ((mm_next s st woken)\<lparr>mm_recvs := (mm_recvs s)(f := None)\<rparr>)"
| recv_pending: "mm_recvs s f = Some k \<Longrightarrow>
    recv_poll (mm_st s) (map_option fst k) w = Some (Pending, Some i, woken, st) \<Longrightarrow>
    mpmc_step s ((mm_next s st woken)\<lparr>mm_recvs := (mm_recvs s)(f \<mapsto> Some (i, w, length (mm_woken s)))\<rparr>)"
| recv_drop: "mm_recvs s f = Some k \<Longrightarrow> recv_drop (mm_st s) (map_option fst k) = Some (woken, st) \<Longrightarrow>
    mpmc_step s ((mm_next s st woken)\<lparr>mm_recvs := (mm_recvs s)(f := None)\<rparr>)"

definition recv_side :: "'a mpmc_state \<Rightarrow> wait_futures \<Rightarrow> waker list \<Rightarrow> bool" where
  "recv_side st F woken \<longleftrightarrow> recv_ok (mq_senders st) (length (mq_values st)) (mq_recv_waiters st) F woken"

definition send_side :: "usize option \<Rightarrow> 'a mpmc_state \<Rightarrow> wait_futures \<Rightarrow> nat \<Rightarrow> waker list \<Rightarrow> bool" where
  "send_side cap st F n woken \<longleftrightarrow>
     send_ok (mq_receivers st) (length (mq_values st)) (mq_available st) (mq_send_waiters st) F cap n woken"

definition mpmc_inv :: "usize option \<Rightarrow> 'a mpmc_sys \<Rightarrow> bool" where
  "mpmc_inv cap s \<longleftrightarrow> recv_side (mm_st s) (mm_recvs s) (mm_woken s) \<and>
     send_side cap (mm_st s) (mm_reserves s) (mm_permits s) (mm_woken s) \<and>
     mm_sent s = mm_received s @ mm_discarded s @ mq_values (mm_st s) \<and>
     (mm_discarded s \<noteq> [] \<longrightarrow> mq_receivers (mm_st s) = 0)"

lemma mpmc_init_inv: "mpmc_inv cap (mpmc_init cap)"
  by (simp add: mpmc_inv_def recv_side_def send_side_def mpmc_init_def mq_new_def recv_ok_def send_ok_def
      wl_queue_new wl_val_new ro.owned_empty so.owned_empty so.held_def split: option.split)

section \<open>Each operation keeps its side of the invariant\<close>

lemma take_waiting_head:
  assumes "wl_inv s" and "wl_queue s = i # q" and "wl_val s i = Some v" and "sw_waker v = Some w"
  obtains s' where "take_waiting_waker s = Some (Some w, s')" and "wl_inv s'" and "wl_queue s' = q"
    and "wl_val s' = (wl_val s)(i := None)"
proof -
  obtain s1 where u: "unlink_first_waiter s always () = Some (Some (i, v), (), s1)" "wl_inv s1"
    "wl_queue s1 = q" "wl_val s1 = wl_val s"
    by (rule so.unlink_head [OF assms(1,2,3)])
  have "i \<notin> set q" using wq.queue_distinct [OF assms(1)] assms(2) by simp
  then obtain s2 where "remove_unlinked_waiter s1 i = Some (v, s2)" "wl_inv s2" "wl_queue s2 = q"
    "wl_val s2 = (wl_val s)(i := None)"
    using wq.remove_law [OF u(2), of i v] u assms(3) by auto
  then show thesis using that [of s2] u assms(4) by (simp add: take_waiting_waker_def sw_waker_iff)
qed

lemma mq_take_loop:
  assumes "so.owned wl P woken"
  shows "\<exists>wl'. loop take_body (wl, []) = Some (wl', so.wakers_in wl)"
proof -
  have "\<exists>wl'. loop take_body (wl, []) = Some (wl', [] @ so.wakers_in wl)"
  proof (rule so.drain_moved [OF so.owned_inv [OF assms]])
    show "\<exists>s'. take_body (s, a) = Some ((s', a @ [w]), True) \<and> wl_inv s' \<and> wl_queue s' = q \<and>
        (\<forall>j. j \<noteq> i \<longrightarrow> wl_val s' j = wl_val s j)"
      if "wl_inv s" "wl_queue s = i # q" "wl_val s i = Some v" "sw_waker v = Some w" for s a i q v w
      by (rule take_waiting_head [OF that]) (simp add: take_body_def)
    show "take_body (s, a) = Some ((s, a), False)" if "wl_inv s" "wl_queue s = []" for s a
      using that by (simp add: take_body_def take_waiting_waker_def wq.unlink_first_empty)
  qed (use so.owned_wakers [OF assms] in auto)
  then show ?thesis by simp
qed

lemma drop_sender_ok:
  assumes r: "recv_side st F woken" and n: "mq_senders st = Suc n"
  obtains ws wl where "drop_sender st = Some (ws, st\<lparr>mq_senders := n, mq_recv_waiters := wl\<rparr>)"
    and "recv_side (st\<lparr>mq_senders := n, mq_recv_waiters := wl\<rparr>) F (woken @ ws)"
proof -
  have o: "ro.owned (mq_recv_waiters st) (regs_of F) woken" using r n by (simp add: recv_side_def recv_ok_def)
  show thesis
  proof (cases "n = 0")
    case True
    then have "recv_side (st\<lparr>mq_senders := n, mq_recv_waiters := wl_new\<rparr>) F (woken @ ro.wakers_in (mq_recv_waiters st))"
      using ro.all_woken [OF o] by (simp add: recv_side_def recv_ok_def)
    then show thesis
      using that [of "ro.wakers_in (mq_recv_waiters st)" wl_new] recv_notify_all [OF o] n True
      by (auto simp: drop_sender_def checked_sub_def)
  next
    case False
    then show thesis
      using that [of "[]" "mq_recv_waiters st"] r n
      by (simp add: drop_sender_def checked_sub_def recv_side_def recv_ok_def)
  qed
qed

lemma drop_receiver_ok:
  assumes k: "send_side cap st F p woken" and n: "mq_receivers st = Suc n"
  obtains ws vs wl where
    "drop_receiver st = Some (ws, if n = 0 then mq_values st else [],
       st\<lparr>mq_receivers := n, mq_values := vs, mq_send_waiters := wl\<rparr>)"
    and "vs = (if n = 0 then [] else mq_values st)"
    and "send_side cap (st\<lparr>mq_receivers := n, mq_values := vs, mq_send_waiters := wl\<rparr>) F p (woken @ ws)"
proof -
  have o: "so.owned (mq_send_waiters st) (regs_of F) woken" using k n by (simp add: send_side_def send_ok_def)
  show thesis
  proof (cases "n = 0")
    case True
    then have "send_side cap (st\<lparr>mq_receivers := n, mq_values := [], mq_send_waiters := wl_new\<rparr>) F p
        (woken @ so.wakers_in (mq_send_waiters st))"
      using so.all_woken [OF o] by (simp add: send_side_def send_ok_def)
    then show thesis
      using that [of "so.wakers_in (mq_send_waiters st)" wl_new "[]"] mq_take_loop [OF o] n True
      by (auto simp: drop_receiver_def checked_sub_def)
  next
    case False
    then show thesis
      using that [of "[]" "mq_send_waiters st" "mq_values st"] k n
      by (simp add: drop_receiver_def checked_sub_def send_side_def send_ok_def)
  qed
qed

definition sides ::
  "usize option \<Rightarrow> 'a mpmc_state \<Rightarrow> wait_futures \<Rightarrow> wait_futures \<Rightarrow> nat \<Rightarrow> waker list \<Rightarrow> bool" where
  "sides cap st R S n woken \<longleftrightarrow> recv_side st R woken \<and> send_side cap st S n woken"

lemma push_sides:
  assumes k: "sides cap st R S (Suc n) woken" and "mq_receivers st \<noteq> 0"
  obtains r wl where "mq_push st v = Some (r, st\<lparr>mq_values := mq_values st @ [v], mq_recv_waiters := wl\<rparr>)"
    and "sides cap (st\<lparr>mq_values := mq_values st @ [v], mq_recv_waiters := wl\<rparr>) R S n (woken @ opt_list r)"
proof -
  have "recv_ok (mq_senders st) (length (mq_values st)) (mq_recv_waiters st) R woken"
    using k by (simp add: sides_def recv_side_def)
  then show thesis
    by (rule mq_push_ok [of _ _ _ v])
      (rule that, use assms in \<open>auto simp: sides_def recv_side_def send_side_def send_ok_push send_ok_more\<close>)
qed

lemma release_sides:
  assumes k: "sides cap st R S (Suc n) woken" and c: "\<And>c. cap = Some c \<Longrightarrow> c \<le> usize_max"
  obtains r a wl where "mq_release st = Some (r, st\<lparr>mq_available := a, mq_send_waiters := wl\<rparr>)"
    and "sides cap (st\<lparr>mq_available := a, mq_send_waiters := wl\<rparr>) R S n (woken @ opt_list r)"
proof -
  have "send_ok (mq_receivers st) (length (mq_values st)) (mq_available st) (mq_send_waiters st) S cap (Suc n) woken"
    using k by (simp add: sides_def send_side_def)
  then show thesis
    by (rule mq_release_ok)
      (use c in blast, rule that, use k in \<open>auto simp: sides_def recv_side_def send_side_def recv_ok_more\<close>)
qed

lemma mq_try_send_ok:
  assumes k: "sides cap st R S n woken"
  obtains r ws st' where "mq_try_send st v = Some (r, ws, st')" and "sides cap st' R S n (woken @ ws)"
    and "r = (if mq_receivers st = 0 then Err (SendDisconnected v)
      else if mq_available st = Some 0 then Err (Full v) else Ok ())"
    and "mq_values st' = mq_values st @ (if r = Ok () then [v] else [])"
    and "mq_receivers st' = mq_receivers st" and "mq_senders st' = mq_senders st"
proof -
  have "send_ok (mq_receivers st) (length (mq_values st)) (mq_available st) (mq_send_waiters st) S cap n woken"
    using k by (simp add: sides_def send_side_def)
  then show thesis
  proof (cases rule: mq_acquire_ok)
    case gone
    then show thesis using that [of "Err (SendDisconnected v)" "[]" st] k by (simp add: mq_try_send_def)
  next
    case full
    then show thesis using that [of "Err (Full v)" "[]" st] k by (simp add: mq_try_send_def)
  next
    case (acquired a)
    let ?st = "st\<lparr>mq_available := a\<rparr>"
    have a: "mq_available st \<noteq> Some 0" using acquired(1,2) by (auto simp: mq_acquire_def has_capacity_def)
    have "sides cap ?st R S (Suc n) woken" "mq_receivers ?st \<noteq> 0"
      using k acquired by (simp_all add: sides_def recv_side_def send_side_def)
    then obtain r wl where "mq_push ?st v = Some (r, ?st\<lparr>mq_values := mq_values ?st @ [v], mq_recv_waiters := wl\<rparr>)"
      "sides cap (?st\<lparr>mq_values := mq_values ?st @ [v], mq_recv_waiters := wl\<rparr>) R S n (woken @ opt_list r)"
      by (rule push_sides)
    then show thesis
      using that [of "Ok ()" "opt_list r" "?st\<lparr>mq_values := mq_values ?st @ [v], mq_recv_waiters := wl\<rparr>"] acquired a
      by (simp add: mq_try_send_def)
  qed
qed

lemma permit_drop_ok:
  assumes k: "sides cap st R S (Suc n) woken" and c: "\<And>c. cap = Some c \<Longrightarrow> c \<le> usize_max"
  obtains ws st' where "permit_drop st = Some (ws, st')" and "sides cap st' R S n (woken @ ws)"
    and "mq_values st' = mq_values st" and "mq_receivers st' = mq_receivers st"
  by (rule release_sides [OF assms]) (use that in \<open>auto simp: permit_drop_def\<close>)

lemma permit_send_ok:
  assumes k: "sides cap st R S (Suc n) woken" and c: "\<And>c. cap = Some c \<Longrightarrow> c \<le> usize_max"
  obtains r ws st' where "permit_send st v = Some (r, ws, st')" and "sides cap st' R S n (woken @ ws)"
    and "r = (if mq_receivers st = 0 then Err (SendError v) else Ok ())"
    and "mq_values st' = mq_values st @ (if r = Ok () then [v] else [])"
    and "mq_receivers st' = mq_receivers st"
proof (cases "mq_receivers st = 0")
  case True
  obtain ws st' where "permit_drop st = Some (ws, st')" "sides cap st' R S n (woken @ ws)"
    "mq_values st' = mq_values st" "mq_receivers st' = mq_receivers st"
    by (rule permit_drop_ok [OF k c])
  then show thesis using that [of "Err (SendError v)" ws st'] True by (simp add: permit_send_def)
next
  case False
  then show thesis
    by (rule push_sides [OF k, of v]) (use that False in \<open>auto simp: permit_send_def\<close>)
qed

lemma mq_pop_ok:
  assumes k: "sides cap st R S n woken" and c: "\<And>c. cap = Some c \<Longrightarrow> c \<le> usize_max"
  obtains (popped) v vs r st' where "mq_values st = v # vs" and "mq_pop st = Some (Ok (v, r), st')"
    and "sides cap st' R S n (woken @ opt_list r)" and "mq_values st' = vs" and "mq_senders st' = mq_senders st"
    and "mq_receivers st' = mq_receivers st" and "mq_recv_waiters st' = mq_recv_waiters st"
  | (none) "mq_values st = []" and "mq_pop st = Some (Err (if mq_senders st = 0 then RecvDisconnected else Empty), st)"
proof (cases "mq_values st")
  case Nil
  then show thesis using none by (simp add: mq_pop_def)
next
  case (Cons v vs)
  let ?st = "st\<lparr>mq_values := vs\<rparr>"
  have "recv_side ?st R woken"
    using k Cons recv_ok_more [of "mq_senders st" "Suc (length vs)" "mq_recv_waiters st" R woken "length vs" "[]"]
    by (simp add: sides_def recv_side_def)
  then have "sides cap ?st R S (Suc n) woken"
    using k Cons by (simp add: sides_def send_side_def send_ok_pop)
  then show thesis
  proof (rule release_sides)
    fix r a wl
    assume "mq_release ?st = Some (r, ?st\<lparr>mq_available := a, mq_send_waiters := wl\<rparr>)"
      and "sides cap (?st\<lparr>mq_available := a, mq_send_waiters := wl\<rparr>) R S n (woken @ opt_list r)"
    then show thesis using popped [of v vs r "?st\<lparr>mq_available := a, mq_send_waiters := wl\<rparr>"] Cons
      by (simp add: mq_pop_def)
  qed (rule c)
qed

lemma mq_try_recv_ok:
  assumes k: "sides cap st R S n woken" and c: "\<And>c. cap = Some c \<Longrightarrow> c \<le> usize_max"
  obtains (popped) v vs ws st' where "mq_values st = v # vs" and "mq_try_recv st = Some (Ok v, ws, st')"
    and "sides cap st' R S n (woken @ ws)" and "mq_values st' = vs" and "mq_receivers st' = mq_receivers st"
  | (none) "mq_values st = []"
    and "mq_try_recv st = Some (Err (if mq_senders st = 0 then RecvDisconnected else Empty), [], st)"
proof (rule mq_pop_ok [OF k c])
  fix v vs r st'
  assume "mq_values st = v # vs" "mq_pop st = Some (Ok (v, r), st')" "sides cap st' R S n (woken @ opt_list r)"
    "mq_values st' = vs" "mq_receivers st' = mq_receivers st"
  then show thesis using popped [of v vs "opt_list r" st'] by (simp add: mq_try_recv_def)
next
  assume "mq_values st = []" "mq_pop st = Some (Err (if mq_senders st = 0 then RecvDisconnected else Empty), st)"
  then show thesis using none by (simp add: mq_try_recv_def)
qed

lemma sides_recvs:
  "sides cap st R S n woken \<Longrightarrow> mq_senders st \<noteq> 0 \<Longrightarrow> ro.owned (mq_recv_waiters st) (regs_of R) woken"
  by (simp add: sides_def recv_side_def recv_ok_def)

lemma sides_reserves:
  assumes "sides cap st R S n woken" and "mq_receivers st \<noteq> 0"
  shows "so.owned (mq_send_waiters st) (regs_of S) woken"
    and "mq_available st \<noteq> Some 0 \<Longrightarrow> wl_queue (mq_send_waiters st) = []"
  using assms by (simp_all add: sides_def send_side_def send_ok_def)

text \<open>Replacing one side's waiters.\<close>

lemma sides_set_send:
  assumes "sides cap st R S n woken" and "mq_receivers st \<noteq> 0" and "so.owned wl (regs_of S') woken"
    and "a \<noteq> Some 0 \<longrightarrow> wl_queue wl = []"
    and "case a of None \<Rightarrow> mq_available st = None
      | Some x \<Rightarrow> \<exists>y. mq_available st = Some y \<and> x + n' + so.held wl = y + n + so.held (mq_send_waiters st)"
  shows "sides cap (st\<lparr>mq_available := a, mq_send_waiters := wl\<rparr>) R S' n' woken"
  using assms by (auto simp: sides_def recv_side_def send_side_def send_ok_def split: option.splits)

lemma sides_more: "sides cap st R S n woken \<Longrightarrow> sides cap st R S n (woken @ ws)"
  by (auto simp: sides_def recv_side_def send_side_def send_ok_more recv_ok_more)

lemma sides_gone_recv:
  "sides cap st R S n woken \<Longrightarrow> mq_senders st = 0 \<Longrightarrow> sides cap st (R(f := None)) S n woken"
  by (auto simp: sides_def recv_side_def recv_ok_def woken_all_clear)

lemma sides_gone_send:
  "sides cap st R S n woken \<Longrightarrow> mq_receivers st = 0 \<Longrightarrow> sides cap st R (S(f := None)) n' woken"
  by (auto simp: sides_def send_side_def send_ok_def woken_all_clear)

lemma sides_unregistered:
  "sides cap st R S n woken \<Longrightarrow> S f = Some None \<Longrightarrow> sides cap st R (S(f := None)) n woken"
  "sides cap st R S n woken \<Longrightarrow> S f = None \<Longrightarrow> sides cap st R (S(f \<mapsto> None)) n woken"
  "sides cap st R S n woken \<Longrightarrow> R f = Some None \<Longrightarrow> sides cap st (R(f := None)) S n woken"
  "sides cap st R S n woken \<Longrightarrow> R f = None \<Longrightarrow> sides cap st (R(f \<mapsto> None)) S n woken"
  by (simp_all add: sides_def recv_side_def send_side_def recv_ok_def send_ok_def fun_upd_regs_of)

section \<open>Polling and cancelling\<close>

text \<open>The outcome of polling a reservation, by its state.\<close>

lemma reserve_poll_gone: "mq_receivers st = 0 \<Longrightarrow> reserve_poll st i w = Some (Ready (Err (SendError ())), None, st)"
  by (simp add: reserve_poll_def)

lemma reserve_poll_fresh:
  assumes k: "sides cap st R S n woken" and g: "mq_receivers st \<noteq> 0" and a: "mq_available st \<noteq> Some 0" and f: "S f = Some None"
  obtains st' where "reserve_poll st None w = Some (Ready (Ok ()), None, st')"
    and "sides cap st' R (S(f := None)) (Suc n) woken" and "mq_values st' = mq_values st"
    and "mq_receivers st' = mq_receivers st"
proof -
  let ?a = "map_option (\<lambda>x. x - 1) (mq_available st)"
  let ?st = "st\<lparr>mq_available := ?a, mq_send_waiters := mq_send_waiters st\<rparr>"
  have "reserve_poll st None w = Some (Ready (Ok ()), None, ?st)"
    using g a by (cases "mq_available st") (auto simp: reserve_poll_def has_capacity_def checked_sub_def)
  moreover have "sides cap ?st R (S(f := None)) (Suc n) woken"
    using sides_reserves [OF k g] a f
    by (intro sides_set_send [OF k g]) (auto simp: fun_upd_regs_of split: option.splits)
  ultimately show thesis using that [of ?st] by simp
qed

lemma reserve_poll_granted:
  assumes k: "sides cap st R S n woken" and g: "mq_receivers st \<noteq> 0" and f: "S f = Some (Some (i, w0, m))"
    and q: "i \<notin> set (wl_queue (mq_send_waiters st))"
  obtains wl where "reserve_poll st (Some i) w = Some (Ready (Ok ()), None, st\<lparr>mq_send_waiters := wl\<rparr>)"
    and "sides cap (st\<lparr>mq_send_waiters := wl\<rparr>) R (S(f := None)) (Suc n) woken"
proof -
  note o = sides_reserves [OF k g]
  have f': "regs_of S f = Some (i, w0, m)" using f by simp
  obtain v wl where n: "wl_val (mq_send_waiters st) i = Some v" "sw_waker v = None"
    "remove_unlinked_waiter (mq_send_waiters st) i = Some (v, wl)" "so.owned wl ((regs_of S)(f := None)) woken"
    "wl_queue wl = wl_queue (mq_send_waiters st)" "so.held (mq_send_waiters st) = Suc (so.held wl)"
    by (rule so.collect [OF o(1) f' q])
  have "sides cap (st\<lparr>mq_available := mq_available st, mq_send_waiters := wl\<rparr>) R (S(f := None)) (Suc n) woken"
    using n o(2) by (intro sides_set_send [OF k g]) (auto split: option.splits)
  then show thesis using that [of wl] n g by (simp add: reserve_poll_def waiter_mut_eq sw_waker_iff)
qed

lemma reserve_poll_queued:
  assumes k: "sides cap st R S n woken" and g: "mq_receivers st \<noteq> 0" and f: "S f = Some (Some (i, w0, m))"
    and q: "i \<in> set (wl_queue (mq_send_waiters st))"
  obtains wl where "reserve_poll st (Some i) w = Some (Pending, Some i, st\<lparr>mq_send_waiters := wl\<rparr>)"
    and "sides cap (st\<lparr>mq_send_waiters := wl\<rparr>) R (S(f \<mapsto> Some (i, w, length woken))) n woken"
proof -
  note o = sides_reserves [OF k g]
  have f': "regs_of S f = Some (i, w0, m)" using f by simp
  obtain wl where n: "register_waiter (mq_send_waiters st) (Some i) w = Some (i, wl)"
    "so.owned wl ((regs_of S)(f \<mapsto> (i, w, length woken))) woken" "wl_queue wl = wl_queue (mq_send_waiters st)"
    "so.held wl = so.held (mq_send_waiters st)"
    by (rule register_waiter_again [OF o(1) f' q])
  have "sides cap (st\<lparr>mq_available := mq_available st, mq_send_waiters := wl\<rparr>) R (S(f \<mapsto> Some (i, w, length woken))) n woken"
    using n o(2) by (intro sides_set_send [OF k g]) (auto split: option.splits)
  moreover have "wl_val (mq_send_waiters st) i = Some (SendWaiting w0)"
    using so.owned_queued [OF o(1) f' q] by (auto simp: sw_waker_iff)
  ultimately show thesis using that [of wl] n g by (simp add: reserve_poll_def reserve_wait_def waiter_mut_eq)
qed

lemma reserve_poll_full:
  assumes k: "sides cap st R S n woken" and g: "mq_receivers st \<noteq> 0" and a: "mq_available st = Some 0" and f: "S f = Some None"
    and r: "reserve_poll st None w = Some (p, j, st')"
  obtains i wl where "p = Pending" and "j = Some i" and "st' = st\<lparr>mq_send_waiters := wl\<rparr>"
    and "sides cap (st\<lparr>mq_send_waiters := wl\<rparr>) R (S(f \<mapsto> Some (i, w, length woken))) n woken"
proof -
  obtain i wl where p: "push_back (mq_send_waiters st) (SendWaiting w) = Some (i, wl)"
    "p = Pending" "j = Some i" "st' = st\<lparr>mq_send_waiters := wl\<rparr>"
    using r g a by (auto simp: reserve_poll_def has_capacity_def reserve_wait_def register_waiter_def panic_simps)
  have "regs_of S f = None" using f by simp
  note n = so.park_new [OF sides_reserves(1) [OF k g] this p(1), of w]
  have "sides cap (st\<lparr>mq_available := mq_available st, mq_send_waiters := wl\<rparr>) R (S(f \<mapsto> Some (i, w, length woken))) n woken"
    using n a by (intro sides_set_send [OF k g]) (auto split: option.splits)
  then show thesis using that [of i wl] p by simp
qed

lemma reserve_poll_ok:
  assumes k: "sides cap st R S n woken" and f: "S f = Some r"
    and p: "reserve_poll st (map_option fst r) w = Some (p, j, st')"
  shows "mq_values st' = mq_values st \<and> mq_receivers st' = mq_receivers st \<and>
    (case p of
       Pending \<Rightarrow> \<exists>i. j = Some i \<and> sides cap st' R (S(f \<mapsto> Some (i, w, length woken))) n woken
     | Ready (Ok _) \<Rightarrow> sides cap st' R (S(f := None)) (Suc n) woken
     | Ready (Err _) \<Rightarrow> sides cap st' R (S(f := None)) n woken)"
proof (cases "mq_receivers st = 0")
  case True
  then show ?thesis using p k by (auto simp: reserve_poll_gone sides_gone_send)
next
  case False
  note g = False
  show ?thesis
  proof (cases r)
    case None
    then have f': "S f = Some None" using f by simp
    show ?thesis
    proof (cases "mq_available st = Some 0")
      case True
      then show ?thesis by (rule reserve_poll_full [OF k g _ f', of w p j st']) (use p None in auto)
    next
      case False
      then show ?thesis by (rule reserve_poll_fresh [OF k g _ f', of w]) (use p None in auto)
    qed
  next
    case (Some x)
    then obtain i w0 m where x: "r = Some (i, w0, m)" by (cases x) auto
    then have f': "S f = Some (Some (i, w0, m))" using f by simp
    show ?thesis
    proof (cases "i \<in> set (wl_queue (mq_send_waiters st))")
      case True
      then show ?thesis by (rule reserve_poll_queued [OF k g f', of w]) (use p x in auto)
    next
      case False
      then show ?thesis by (rule reserve_poll_granted [OF k g f', of w]) (use p x in auto)
    qed
  qed
qed

lemma reserve_drop_ok:
  assumes k: "sides cap st R S n woken" and f: "S f = Some r" and c: "\<And>c. cap = Some c \<Longrightarrow> c \<le> usize_max"
  obtains ws st' where "reserve_drop st (map_option fst r) = Some (ws, st')"
    and "sides cap st' R (S(f := None)) n (woken @ ws)" and "mq_values st' = mq_values st"
    and "mq_receivers st' = mq_receivers st"
proof (cases "r = None \<or> mq_receivers st = 0")
  case True
  then have "reserve_drop st (map_option fst r) = Some ([], st)" by (cases r) (auto simp: reserve_drop_def)
  then show thesis
    using that [of "[]" st] True k f by (auto simp: sides_unregistered sides_gone_send)
next
  case False
  then obtain i w0 m where x: "r = Some (i, w0, m)" and g: "mq_receivers st \<noteq> 0" by (cases r) auto
  note o = sides_reserves [OF k g]
  have f': "regs_of S f = Some (i, w0, m)" using f x by simp
  obtain v wl where n: "remove_waiter (mq_send_waiters st) i = Some (v, wl)" "so.owned wl ((regs_of S)(f := None)) woken"
    "wl_queue wl = removeAll i (wl_queue (mq_send_waiters st))" "v = Granted \<longleftrightarrow> i \<notin> set (wl_queue (mq_send_waiters st))"
    "so.held (mq_send_waiters st) = (if i \<in> set (wl_queue (mq_send_waiters st)) then so.held wl else Suc (so.held wl))"
    by (rule send_remove [OF o(1) f'])
  let ?st = "st\<lparr>mq_available := mq_available st, mq_send_waiters := wl\<rparr>"
  show thesis
  proof (cases "v = Granted")
    case True
    then have "sides cap ?st R (S(f := None)) (Suc n) woken"
      using n o(2) by (intro sides_set_send [OF k g]) (auto split: option.splits)
    then obtain r' a' wl' where "mq_release ?st = Some (r', ?st\<lparr>mq_available := a', mq_send_waiters := wl'\<rparr>)"
      "sides cap (?st\<lparr>mq_available := a', mq_send_waiters := wl'\<rparr>) R (S(f := None)) n (woken @ opt_list r')"
      by (rule release_sides) (use c in auto)
    then show thesis
      using that [of "opt_list r'" "?st\<lparr>mq_available := a', mq_send_waiters := wl'\<rparr>"] n True x g
      by (simp add: reserve_drop_def)
  next
    case False
    then have "sides cap ?st R (S(f := None)) n woken"
      using n o(2) by (intro sides_set_send [OF k g]) (auto split: option.splits)
    then show thesis
      using that [of "[]" ?st] n False x g by (cases v) (auto simp: reserve_drop_def)
  qed
qed

text \<open>A receive that completes leaves; one that finds no value queues, or queues again.\<close>

lemma sides_recv_upd:
  assumes "sides cap st R S n woken" and "recv_ok (mq_senders st) (length (mq_values st)) wl R' (woken @ ws)"
  shows "sides cap (st\<lparr>mq_recv_waiters := wl\<rparr>) R' S n (woken @ ws)"
  using assms by (simp add: sides_def recv_side_def send_side_def send_ok_more)

lemma sides_recv: "sides cap st R S n woken \<Longrightarrow> recv_ok (mq_senders st) (length (mq_values st)) (mq_recv_waiters st) R woken"
  by (simp add: sides_def recv_side_def)

lemma recv_poll_value:
  assumes k: "sides cap st R S n woken" and f: "R f = Some r" and c: "\<And>c. cap = Some c \<Longrightarrow> c \<le> usize_max"
    and v: "mq_values st = v # vs"
  obtains ws st' where "recv_poll st (map_option fst r) w = Some (Ready (Ok v), None, ws, st')"
    and "sides cap st' (R(f := None)) S n (woken @ ws)" and "mq_values st' = vs"
    and "mq_receivers st' = mq_receivers st"
proof -
  obtain u st' where p: "mq_pop st = Some (Ok (v, u), st')" "sides cap st' R S n (woken @ opt_list u)"
    "mq_values st' = vs" "mq_senders st' = mq_senders st" "mq_receivers st' = mq_receivers st"
    "mq_recv_waiters st' = mq_recv_waiters st"
    by (rule mq_pop_ok [OF k c]) (use v in auto)
  have q: "Suc (length (mq_values st')) \<le> ro.held (mq_recv_waiters st')"
    if "mq_senders st' \<noteq> 0" "wl_queue (mq_recv_waiters st') \<noteq> []"
    using that k v p by (simp add: sides_def recv_side_def recv_ok_def)
  obtain wl where l: "(case if mq_senders st' = 0 then None else map_option fst r of
      Some i \<Rightarrow> do { (_, waiters) \<leftarrow> remove_waiter (mq_recv_waiters st') i; Some waiters }
    | None \<Rightarrow> Some (mq_recv_waiters st')) = Some wl"
    "recv_ok (mq_senders st') (length (mq_values st')) wl (R(f := None)) (woken @ opt_list u)"
    by (rule recv_ok_leave [OF sides_recv [OF p(2)] f q])
  from sides_recv_upd [of cap st' R S n "woken @ opt_list u" wl "R(f := None)" "[]"] p(2) l(2)
  have "sides cap (st'\<lparr>mq_recv_waiters := wl\<rparr>) (R(f := None)) S n (woken @ opt_list u)" by simp
  then show thesis
    using that [of "opt_list u" "st'\<lparr>mq_recv_waiters := wl\<rparr>"] p l(1) by (simp add: recv_poll_def Let_def)
qed

lemma recv_poll_gone:
  assumes k: "sides cap st R S n woken" and f: "R f = Some r" and v: "mq_values st = []" and g: "mq_senders st = 0"
  shows "recv_poll st (map_option fst r) w = Some (Ready (Err Disconnected), None, [], st)"
    and "sides cap st (R(f := None)) S n woken"
proof -
  show "recv_poll st (map_option fst r) w = Some (Ready (Err Disconnected), None, [], st)"
    using v g by (simp add: recv_poll_def mq_pop_def)
  show "sides cap st (R(f := None)) S n woken" using k g by (rule sides_gone_recv)
qed

lemma recv_poll_empty:
  assumes k: "sides cap st R S n woken" and f: "R f = Some r" and v: "mq_values st = []" and g: "mq_senders st \<noteq> 0"
    and p: "recv_poll st (map_option fst r) w = Some (p, j, ws, st')"
  obtains i wl where "p = Pending" and "j = Some i" and "ws = []" and "st' = st\<lparr>mq_recv_waiters := wl\<rparr>"
    and "sides cap st' (R(f \<mapsto> Some (i, w, length woken))) S n woken"
proof -
  obtain i wl where e: "recv_register (mq_recv_waiters st) (map_option fst r) w = Some (i, wl)"
    "p = Pending" "j = Some i" "ws = []" "st' = st\<lparr>mq_recv_waiters := wl\<rparr>"
    using p v g by (auto simp: recv_poll_def mq_pop_def panic_simps)
  have "recv_ok (mq_senders st) 0 (mq_recv_waiters st) R woken" using sides_recv [OF k] v by simp
  from recv_ok_register [OF this g f e(1)]
    sides_recv_upd [OF k, of wl "R(f \<mapsto> Some (i, w, length woken))" "[]"] v
  have "sides cap (st\<lparr>mq_recv_waiters := wl\<rparr>) (R(f \<mapsto> Some (i, w, length woken))) S n woken" by simp
  then show thesis using that [of i wl] e by simp
qed

lemma recv_poll_total:
  assumes k: "sides cap st R S n woken" and f: "R f = Some r" and c: "\<And>c. cap = Some c \<Longrightarrow> c \<le> usize_max"
    and room: "wl_room (mq_recv_waiters st)"
  shows "recv_poll st (map_option fst r) w \<noteq> None"
proof (cases "mq_values st")
  case Nil
  then show ?thesis
    using recv_poll_gone(1) [OF k f Nil, of w] recv_ok_register_total [OF sides_recv [OF k] _ f room, of w]
    by (cases "mq_senders st = 0") (auto simp: recv_poll_def mq_pop_def)
next
  case (Cons v vs)
  show ?thesis by (rule recv_poll_value [OF k f c Cons, of w]) auto
qed

text \<open>Cancelling a receive hands an unused notification to the next one.\<close>

lemma recv_drop_ok:
  assumes k: "sides cap st R S n woken" and f: "R f = Some r"
  obtains ws wl where "recv_drop st (map_option fst r) = Some (ws, st\<lparr>mq_recv_waiters := wl\<rparr>)"
    and "sides cap (st\<lparr>mq_recv_waiters := wl\<rparr>) (R(f := None)) S n (woken @ ws)"
proof (cases "r = None \<or> mq_senders st = 0")
  case True
  then have "recv_drop st (map_option fst r) = Some ([], st)" by (cases r) (auto simp: recv_drop_def)
  then show thesis
    using that [of "[]" "mq_recv_waiters st"] True k f by (auto simp: sides_unregistered sides_gone_recv)
next
  case False
  then obtain i w0 m where x: "r = Some (i, w0, m)" and g: "mq_senders st \<noteq> 0" by (cases r) auto
  have f': "R f = Some (Some (i, w0, m))" using f x by simp
  obtain v wl1 u wl2 where c: "remove_waiter (mq_recv_waiters st) i = Some (v, wl1)"
    "(if v = Notified \<and> 0 < length (mq_values st) then notify_one wl1 else Some (None, wl1)) = Some (u, wl2)"
    "recv_ok (mq_senders st) (length (mq_values st)) wl2 (R(f := None)) (woken @ opt_list u)"
    by (rule recv_ok_cancel [OF sides_recv [OF k] g f'])
  then show thesis
    using that [of "opt_list u" wl2] sides_recv_upd [OF k c(3)] x g by (simp add: recv_drop_def)
qed

section \<open>Every step keeps the invariant\<close>

lemma mpmc_inv_sides:
  "mpmc_inv cap s \<longleftrightarrow> sides cap (mm_st s) (mm_recvs s) (mm_reserves s) (mm_permits s) (mm_woken s) \<and>
     mm_sent s = mm_received s @ mm_discarded s @ mq_values (mm_st s) \<and>
     (mm_discarded s \<noteq> [] \<longrightarrow> mq_receivers (mm_st s) = 0)"
  by (auto simp: mpmc_inv_def sides_def)

lemma sides_no_values: "sides cap st R S n woken \<Longrightarrow> mq_receivers st = 0 \<Longrightarrow> mq_values st = []"
  by (simp add: sides_def send_side_def send_ok_def)

lemma recv_step_ok:
  assumes k: "sides cap st R S n woken" and f: "R f = Some r" and c: "\<And>c. cap = Some c \<Longrightarrow> c \<le> usize_max"
    and p: "recv_poll st (map_option fst r) w = Some (p, j, ws, st')"
  shows "mq_receivers st' = mq_receivers st \<and>
    (case p of
       Pending \<Rightarrow> ws = [] \<and> mq_values st' = mq_values st \<and>
         (\<exists>i. j = Some i \<and> sides cap st' (R(f \<mapsto> Some (i, w, length woken))) S n woken)
     | Ready (Ok v) \<Rightarrow> mq_values st = v # mq_values st' \<and> sides cap st' (R(f := None)) S n (woken @ ws)
     | Ready (Err _) \<Rightarrow> ws = [] \<and> mq_values st' = mq_values st \<and> sides cap st' (R(f := None)) S n woken)"
proof (cases "mq_values st")
  case Nil
  show ?thesis
  proof (cases "mq_senders st = 0")
    case True
    with recv_poll_gone(1) [OF k f Nil True, of w] recv_poll_gone(2) [OF k f Nil True] p
    show ?thesis by auto
  next
    case False
    show ?thesis by (rule recv_poll_empty [OF k f Nil False p]) auto
  qed
next
  case (Cons v vs)
  show ?thesis by (rule recv_poll_value [OF k f c Cons, of w]) (use p Cons in auto)
qed

text \<open>The steps by component: handles, sends and permits, reservations, receives.\<close>

lemma handle_steps_inv:
  assumes i: "mpmc_inv cap s"
  shows "mq_senders (mm_st s) \<noteq> 0 \<Longrightarrow> clone_sender (mm_st s) = Some st \<Longrightarrow> mpmc_inv cap (mm_next s st [])"
    and "mq_receivers (mm_st s) \<noteq> 0 \<Longrightarrow> clone_receiver (mm_st s) = Some st \<Longrightarrow> mpmc_inv cap (mm_next s st [])"
    and "drop_sender (mm_st s) = Some (woken, st) \<Longrightarrow> mpmc_inv cap (mm_next s st woken)"
    and "drop_receiver (mm_st s) = Some (woken, discarded, st) \<Longrightarrow>
      mpmc_inv cap ((mm_next s st woken)\<lparr>mm_discarded := mm_discarded s @ discarded\<rparr>)"
proof -
  show "mpmc_inv cap (mm_next s st [])" if "mq_senders (mm_st s) \<noteq> 0" "clone_sender (mm_st s) = Some st"
    using that i by (auto simp: mpmc_inv_def mm_next_def clone_sender_def panic_simps recv_side_def send_side_def recv_ok_def)
  show "mpmc_inv cap (mm_next s st [])" if "mq_receivers (mm_st s) \<noteq> 0" "clone_receiver (mm_st s) = Some st"
    using that i
    by (auto simp: mpmc_inv_def mm_next_def clone_receiver_def panic_simps recv_side_def send_side_def send_ok_def split: option.splits)
  show "mpmc_inv cap (mm_next s st woken)" if d: "drop_sender (mm_st s) = Some (woken, st)"
  proof -
    obtain n where n: "mq_senders (mm_st s) = Suc n"
      using d by (cases "mq_senders (mm_st s)") (auto simp: drop_sender_def checked_sub_def)
    have "recv_side (mm_st s) (mm_recvs s) (mm_woken s)" using i by (simp add: mpmc_inv_def)
    then show ?thesis
      by (rule drop_sender_ok [OF _ n]) (use d i in \<open>auto simp: mpmc_inv_def mm_next_def send_side_def send_ok_more\<close>)
  qed
  show "mpmc_inv cap ((mm_next s st woken)\<lparr>mm_discarded := mm_discarded s @ discarded\<rparr>)"
    if d: "drop_receiver (mm_st s) = Some (woken, discarded, st)"
  proof -
    obtain n where n: "mq_receivers (mm_st s) = Suc n"
      using d by (cases "mq_receivers (mm_st s)") (auto simp: drop_receiver_def checked_sub_def)
    have "send_side cap (mm_st s) (mm_reserves s) (mm_permits s) (mm_woken s)" using i by (simp add: mpmc_inv_def)
    then show ?thesis
      by (rule drop_receiver_ok [OF _ n])
        (use d i n in \<open>auto simp: mpmc_inv_def mm_next_def recv_side_def recv_ok_more split: if_splits\<close>)
  qed
qed

lemma mpmc_sides: "mpmc_inv cap s \<Longrightarrow> sides cap (mm_st s) (mm_recvs s) (mm_reserves s) (mm_permits s) (mm_woken s)"
  by (simp add: mpmc_inv_sides)

lemma mpmc_sent_open:
  "mpmc_inv cap s \<Longrightarrow> mq_receivers (mm_st s) \<noteq> 0 \<Longrightarrow> mm_discarded s = []"
  by (auto simp: mpmc_inv_sides)

lemma try_send_step_inv:
  assumes i: "mpmc_inv cap s" and t: "mq_try_send (mm_st s) v = Some (r, woken, st)"
  shows "mpmc_inv cap ((mm_next s st woken)\<lparr>mm_sent := mm_sent s @ (if r = Ok () then [v] else [])\<rparr>)"
  by (rule mq_try_send_ok [OF mpmc_sides [OF i], of v])
    (use i t mpmc_sent_open [OF i] in \<open>auto simp: mpmc_inv_sides mm_next_def split: if_splits\<close>)

lemma permit_send_step_inv:
  assumes i: "mpmc_inv cap s" and c: "\<And>c. cap = Some c \<Longrightarrow> c \<le> usize_max"
    and n: "mm_permits s = Suc n" and t: "permit_send (mm_st s) v = Some (r, woken, st)"
  shows "mpmc_inv cap ((mm_next s st woken)\<lparr>mm_permits := n, mm_sent := mm_sent s @ (if r = Ok () then [v] else [])\<rparr>)"
  by (rule permit_send_ok [where v = v, OF mpmc_sides [OF i, unfolded n] c])
    (use i t n mpmc_sent_open [OF i] in \<open>auto simp: mpmc_inv_sides mm_next_def split: if_splits\<close>)

lemma permit_drop_step_inv:
  assumes i: "mpmc_inv cap s" and c: "\<And>c. cap = Some c \<Longrightarrow> c \<le> usize_max"
    and n: "mm_permits s = Suc n" and t: "permit_drop (mm_st s) = Some (woken, st)"
  shows "mpmc_inv cap ((mm_next s st woken)\<lparr>mm_permits := n\<rparr>)"
  by (rule permit_drop_ok [OF mpmc_sides [OF i, unfolded n] c])
    (use i t n in \<open>auto simp: mpmc_inv_sides mm_next_def\<close>)

lemma try_reserve_step_inv:
  assumes i: "mpmc_inv cap s" and t: "mq_try_reserve (mm_st s) = Some (Ok (), st)"
  shows "mpmc_inv cap ((mm_next s st [])\<lparr>mm_permits := Suc (mm_permits s)\<rparr>)"
proof -
  have "send_ok (mq_receivers (mm_st s)) (length (mq_values (mm_st s))) (mq_available (mm_st s))
      (mq_send_waiters (mm_st s)) (mm_reserves s) cap (mm_permits s) (mm_woken s)"
    using i by (simp add: mpmc_inv_def send_side_def)
  then show ?thesis
    by (rule mq_acquire_ok)
      (use i t in \<open>auto simp: mq_try_reserve_def mpmc_inv_def mm_next_def recv_side_def send_side_def\<close>)
qed

lemma mpmc_step_inv:
  assumes "mpmc_step s s'" and "mpmc_inv cap s" and c: "\<And>c. cap = Some c \<Longrightarrow> c \<le> usize_max"
  shows "mpmc_inv cap s'"
  using assms(1,2)
proof (induction rule: mpmc_step.induct)
  case (try_send_ok s v woken st)
  then show ?case using try_send_step_inv [of cap s v "Ok ()"] by simp
next
  case (try_send_err s v e woken st)
  then show ?case using try_send_step_inv [of cap s v "Err e"] by (simp add: mm_next_def)
next
  case (permit_send_ok s n v woken st)
  then show ?case using permit_send_step_inv [of cap s n v "Ok ()", OF _ c] by simp
next
  case (permit_send_err s n v e woken st)
  then show ?case using permit_send_step_inv [of cap s n v "Err e", OF _ c] by (simp add: mm_next_def)
next
  case (permit_drop s n woken st)
  then show ?case using permit_drop_step_inv [OF _ c] by blast
next
  case (reserve s f)
  then show ?case by (simp add: mpmc_inv_sides sides_unregistered)
next
  case (reserve_ok s f k w i st)
  from reserve_poll_ok [OF mpmc_sides [OF reserve_ok.prems] reserve_ok.hyps(1,2)] reserve_ok.prems
  show ?case by (simp add: mpmc_inv_sides mm_next_def)
next
  case (reserve_err s f k w e i st)
  from reserve_poll_ok [OF mpmc_sides [OF reserve_err.prems] reserve_err.hyps(1,2)] reserve_err.prems
  show ?case by (simp add: mpmc_inv_sides mm_next_def)
next
  case (reserve_pending s f k w i st)
  from reserve_poll_ok [OF mpmc_sides [OF reserve_pending.prems] reserve_pending.hyps(1,2)] reserve_pending.prems
  show ?case by (simp add: mpmc_inv_sides mm_next_def)
next
  case (reserve_drop s f k woken st)
  show ?case
    by (rule reserve_drop_ok [OF mpmc_sides [OF reserve_drop.prems] reserve_drop.hyps(1) c])
      (use reserve_drop in \<open>auto simp: mpmc_inv_sides mm_next_def\<close>)
next
  case (try_recv_ok s v woken st)
  show ?case
    by (rule mq_try_recv_ok [OF mpmc_sides [OF try_recv_ok.prems] c])
      (use try_recv_ok mpmc_sent_open [OF try_recv_ok.prems] sides_no_values [OF mpmc_sides [OF try_recv_ok.prems]]
       in \<open>auto simp: mpmc_inv_sides mm_next_def\<close>)
next
  case (recv s f)
  then show ?case by (simp add: mpmc_inv_sides sides_unregistered)
next
  case (recv_ok s f k w v i woken st)
  have "mm_discarded s = []"
    using recv_step_ok [OF mpmc_sides [OF recv_ok.prems] recv_ok.hyps(1) c recv_ok.hyps(2)]
      sides_no_values [OF mpmc_sides [OF recv_ok.prems]] mpmc_sent_open [OF recv_ok.prems] by auto
  with recv_step_ok [OF mpmc_sides [OF recv_ok.prems] recv_ok.hyps(1) c recv_ok.hyps(2)] recv_ok.prems
  show ?case by (simp add: mpmc_inv_sides mm_next_def)
next
  case (recv_err s f k w e i woken st)
  with recv_step_ok [OF mpmc_sides [OF recv_err.prems] recv_err.hyps(1) c recv_err.hyps(2)]
  show ?case by (simp add: mpmc_inv_sides mm_next_def)
next
  case (recv_pending s f k w i woken st)
  with recv_step_ok [OF mpmc_sides [OF recv_pending.prems] recv_pending.hyps(1) c recv_pending.hyps(2)]
  show ?case by (simp add: mpmc_inv_sides mm_next_def)
next
  case (recv_drop s f k woken st)
  show ?case
    by (rule recv_drop_ok [OF mpmc_sides [OF recv_drop.prems] recv_drop.hyps(1)])
      (use recv_drop in \<open>auto simp: mpmc_inv_sides mm_next_def\<close>)
qed (simp_all add: handle_steps_inv try_reserve_step_inv)

lemma mpmc_reach_inv:
  assumes "mpmc_step\<^sup>*\<^sup>* (mpmc_init cap) s" and "\<And>c. cap = Some c \<Longrightarrow> c \<le> usize_max"
  shows "mpmc_inv cap s"
  using assms(1)
  by (induction rule: rtranclp_induct) (auto intro: mpmc_init_inv mpmc_step_inv [OF _ _ assms(2)])

section \<open>Concrete runs\<close>

text \<open>
  A queue of capacity one: the value 5 is sent, a reservation parks with waker 7, and the value
  is received, which grants the reservation.
\<close>

definition demo_full :: "send_waiter \<Rightarrow> bool \<Rightarrow> nat list \<Rightarrow> nat list \<Rightarrow> waker list \<Rightarrow> nat mpmc_sys" where
  "demo_full waiter queued values received woken = \<lparr>mm_st = \<lparr>mq_values = values, mq_available = Some 0,
     mq_senders = 1, mq_receivers = 1, mq_recv_waiters = wl_new, mq_send_waiters = one_waiter queued waiter\<rparr>,
     mm_recvs = Map.empty, mm_reserves = [0 \<mapsto> Some (node_id, 7, 0)], mm_permits = 0, mm_woken = woken,
     mm_sent = [5], mm_received = received, mm_discarded = []\<rparr>"

lemma demo_full_reach: "mpmc_step\<^sup>*\<^sup>* (mpmc_init (Some 1)) (demo_full (SendWaiting 7) True [5] [] [])"
proof -
  let ?s1 = "(mpmc_init (Some 1))\<lparr>mm_st := (mq_new (Some 0))\<lparr>mq_values := [5]\<rparr>, mm_sent := [5]\<rparr> :: nat mpmc_sys"
  let ?s2 = "?s1\<lparr>mm_reserves := [0 \<mapsto> None]\<rparr>"
  have "mpmc_step (mpmc_init (Some 1)) ?s1"
    using mpmc_step.try_send_ok [of "mpmc_init (Some 1)" 5 "[]" "(mq_new (Some 0))\<lparr>mq_values := [5]\<rparr>"]
    by (simp add: mpmc_init_def mm_next_def) (simp add: op_defs)
  moreover have "mpmc_step ?s1 ?s2" using mpmc_step.reserve [of ?s1 0] by (simp add: mpmc_init_def)
  moreover have "mpmc_step ?s2 (demo_full (SendWaiting 7) True [5] [] [])"
    using mpmc_step.reserve_pending [of ?s2 0 None 7 node_id "mm_st (demo_full (SendWaiting 7) True [5] [] [])"]
    by (simp add: mpmc_init_def demo_full_def mm_next_def reserve_poll_def reserve_wait_def register_waiter_def
        mq_new_def has_capacity_def one_waiter_simps)
  ultimately show ?thesis by (meson run_step rtranclp.rtrancl_refl)
qed

lemma demo_full_received: "mpmc_step\<^sup>*\<^sup>* (mpmc_init (Some 1)) (demo_full Granted False [] [5] [7])"
proof -
  have "mpmc_step (demo_full (SendWaiting 7) True [5] [] []) (demo_full Granted False [] [5] [7])"
    using mpmc_step.try_recv_ok [of "demo_full (SendWaiting 7) True [5] [] []" 5 "[7]" "mm_st (demo_full Granted False [] [5] [7])"]
    by (simp add: demo_full_def mm_next_def mq_try_recv_def mq_pop_def mq_release_def grant_one_def
        one_waiter_unlink always_def one_waiter_simps)
  with demo_full_reach show ?thesis by (rule run_step)
qed

text \<open>An empty queue: a receive parks with waker 7, and the value 5 is sent.\<close>

definition demo_empty :: "usize \<Rightarrow> recv_waiter wait_list \<Rightarrow> nat list \<Rightarrow> waker list \<Rightarrow> nat mpmc_sys" where
  "demo_empty senders wl values woken = \<lparr>mm_st = \<lparr>mq_values = values, mq_available = None,
     mq_senders = senders, mq_receivers = 1, mq_recv_waiters = wl, mq_send_waiters = wl_new\<rparr>,
     mm_recvs = [0 \<mapsto> Some (node_id, 7, 0)], mm_reserves = Map.empty, mm_permits = 0, mm_woken = woken,
     mm_sent = values, mm_received = [], mm_discarded = []\<rparr>"

lemma demo_empty_reach: "mpmc_step\<^sup>*\<^sup>* (mpmc_init None) (demo_empty 1 (one_waiter True (RecvWaiting 7)) [] [])"
proof -
  let ?s = "(mpmc_init None)\<lparr>mm_recvs := [0 \<mapsto> None]\<rparr> :: nat mpmc_sys"
  have "mpmc_step (mpmc_init None) ?s" using mpmc_step.recv [of "mpmc_init None" 0] by (simp add: mpmc_init_def)
  moreover have "mpmc_step ?s (demo_empty 1 (one_waiter True (RecvWaiting 7)) [] [])"
    using mpmc_step.recv_pending [of ?s 0 None 7 node_id "[]" "mm_st (demo_empty 1 (one_waiter True (RecvWaiting 7)) [] [])"]
    by (simp add: mpmc_init_def demo_empty_def mm_next_def recv_poll_def mq_pop_def recv_register_fresh
        mq_new_def one_waiter_simps)
  ultimately show ?thesis by (meson run_step rtranclp.rtrancl_refl)
qed

lemma demo_empty_sent: "mpmc_step\<^sup>*\<^sup>* (mpmc_init None) (demo_empty 1 (one_waiter False Notified) [5] [7])"
proof -
  have "mpmc_step (demo_empty 1 (one_waiter True (RecvWaiting 7)) [] []) (demo_empty 1 (one_waiter False Notified) [5] [7])"
    using mpmc_step.try_send_ok [of "demo_empty 1 (one_waiter True (RecvWaiting 7)) [] []" 5 "[7]"
        "mm_st (demo_empty 1 (one_waiter False Notified) [5] [7])"]
    by (simp add: demo_empty_def mm_next_def mq_try_send_def mq_acquire_def has_capacity_def mq_push_def
        notify_one_def one_waiter_unlink always_def one_waiter_simps)
  with demo_empty_reach show ?thesis by (rule run_step)
qed

lemma demo_empty_disconnected: "mpmc_step\<^sup>*\<^sup>* (mpmc_init None) (demo_empty 0 wl_new [] [7])"
proof -
  have "notify_body (one_waiter True (RecvWaiting 7), []) = Some ((one_waiter False Notified, [7]), True)"
    "notify_body (one_waiter False Notified, [7]) = Some ((one_waiter False Notified, [7]), False)"
    by (simp_all add: notify_body_def notify_one_def one_waiter_unlink always_def one_waiter_simps)
  then have "loop notify_body (one_waiter True (RecvWaiting 7), []) = Some (one_waiter False Notified, [7])"
    by (rule loop_once)
  then have "mpmc_step (demo_empty 1 (one_waiter True (RecvWaiting 7)) [] []) (demo_empty 0 wl_new [] [7])"
    using mpmc_step.drop_sender [of "demo_empty 1 (one_waiter True (RecvWaiting 7)) [] []" "[7]"
        "mm_st (demo_empty 0 wl_new [] [7])"]
    by (simp add: demo_empty_def mm_next_def drop_sender_def checked_sub_def)
  with demo_empty_reach show ?thesis by (rule run_step)
qed

section \<open>Properties\<close>

text \<open>
  C17: every value is delivered exactly once and in order, whatever the senders and receivers
  and whichever way they send and receive: the values accepted so far are those received, then
  those discarded by the last receiver, then those still buffered. Nothing is discarded while a
  receiver is alive.
\<close>

theorem mpmc_delivers_in_order:
  assumes "mpmc_step\<^sup>*\<^sup>* (mpmc_init cap) s" and "\<forall>c. cap = Some c \<longrightarrow> c \<le> usize_max"
  shows "mm_sent s = mm_received s @ mm_discarded s @ mq_values (mm_st s) \<and>
    (mq_receivers (mm_st s) \<noteq> 0 \<longrightarrow> mm_discarded s = [])"
proof -
  have "mpmc_inv cap s" by (rule mpmc_reach_inv [OF assms(1)]) (use assms(2) in blast)
  then show ?thesis by (auto simp: mpmc_inv_def)
qed

theorem mpmc_delivers_in_order_witness:
  "mm_sent (demo_full Granted False [] [5] [7]) = mm_received (demo_full Granted False [] [5] [7])"
  using mpmc_delivers_in_order [OF demo_full_received] by (simp add: demo_full_def usize_max_def)

text \<open>
  C18: the capacity of a bounded queue is conserved while a receiver is alive: the free slots,
  the buffered values, the permits of callers and the slots granted to reservations add up to
  it. A reservation stays queued only when no slot is free, and a granted one has been woken
  since its last poll and gets its permit at the next one.
\<close>

theorem mpmc_capacity_conserved:
  assumes "mpmc_step\<^sup>*\<^sup>* (mpmc_init (Some c)) s" and "c \<le> usize_max" and "mq_receivers (mm_st s) \<noteq> 0"
  shows "\<exists>a. mq_available (mm_st s) = Some a \<and>
    a + length (mq_values (mm_st s)) + mm_permits s +
      card (dom (wl_val (mq_send_waiters (mm_st s))) - set (wl_queue (mq_send_waiters (mm_st s)))) = c \<and>
    (mm_reserves s f = Some (Some (i, w, m)) \<longrightarrow>
       (if i \<in> set (wl_queue (mq_send_waiters (mm_st s))) then a = 0
        else w \<in> set (drop m (mm_woken s)) \<and>
          (\<exists>st. reserve_poll (mm_st s) (Some i) w' = Some (Ready (Ok ()), None, st))))"
proof -
  have i: "mpmc_inv (Some c) s" by (rule mpmc_reach_inv [OF assms(1)]) (use assms(2) in simp)
  note k = mpmc_sides [OF i]
  note o = sides_reserves [OF k assms(3)]
  obtain a where a: "mq_available (mm_st s) = Some a" "c = a + length (mq_values (mm_st s)) + mm_permits s + so.held (mq_send_waiters (mm_st s))"
    using k assms(3) by (auto simp: sides_def send_side_def send_ok_def split: option.splits)
  have "if i \<in> set (wl_queue (mq_send_waiters (mm_st s))) then a = 0
      else w \<in> set (drop m (mm_woken s)) \<and> (\<exists>st. reserve_poll (mm_st s) (Some i) w' = Some (Ready (Ok ()), None, st))"
    if f: "mm_reserves s f = Some (Some (i, w, m))"
  proof (cases "i \<in> set (wl_queue (mq_send_waiters (mm_st s)))")
    case True
    then show ?thesis using o(2) a(1) by (cases "a = 0") auto
  next
    case False
    moreover have "\<exists>st. reserve_poll (mm_st s) (Some i) w' = Some (Ready (Ok ()), None, st)"
      by (rule reserve_poll_granted [OF k assms(3) f False, of w']) blast
    ultimately show ?thesis using so.owned_taken(2) [OF o(1), of f i w m] f by simp
  qed
  then show ?thesis using a by (intro exI [of _ a]) (auto simp: so.held_def split: if_splits)
qed

theorem mpmc_capacity_conserved_witness:
  "\<exists>st. reserve_poll (mm_st (demo_full Granted False [] [5] [7])) (Some node_id) 9 = Some (Ready (Ok ()), None, st)"
  using mpmc_capacity_conserved [OF demo_full_received, of 0 node_id 7 0 9]
  by (simp add: demo_full_def usize_max_def one_waiter_simps)

text \<open>
  C19: no wake-up of a receive is lost. While a receive is queued, the receives that have been
  notified and have not yet collected are at least as many as the buffered values, and each of
  them has been woken since its last poll.
\<close>

theorem mpmc_recv_wakeups:
  assumes "mpmc_step\<^sup>*\<^sup>* (mpmc_init cap) s" and "\<forall>c. cap = Some c \<longrightarrow> c \<le> usize_max"
    and "mm_recvs s f = Some (Some (i, w, m))" and "mq_senders (mm_st s) \<noteq> 0"
  shows "if i \<in> set (wl_queue (mq_recv_waiters (mm_st s)))
    then length (mq_values (mm_st s)) \<le>
      card (dom (wl_val (mq_recv_waiters (mm_st s))) - set (wl_queue (mq_recv_waiters (mm_st s))))
    else w \<in> set (drop m (mm_woken s))"
proof -
  have i: "mpmc_inv cap s" by (rule mpmc_reach_inv [OF assms(1)]) (use assms(2) in blast)
  have "regs_of (mm_recvs s) f = Some (i, w, m)" using assms(3) by simp
  with ro.owned_taken(2) [OF sides_recvs [OF mpmc_sides [OF i] assms(4)]] i assms(4) show ?thesis
    by (auto simp: mpmc_inv_def recv_side_def recv_ok_def ro.held_def)
qed

theorem mpmc_recv_wakeups_witness:
  "(7::waker) \<in> set (drop 0 (mm_woken (demo_empty 1 (one_waiter False Notified) [5] [7])))"
  using mpmc_recv_wakeups [OF demo_empty_sent, of 0 node_id 7 0]
  by (simp add: demo_empty_def one_waiter_simps)

text \<open>
  C20: disconnection reaches everybody. Once the last sender is gone, every pending receive has
  been woken since its last poll and its next poll completes, with a buffered value or with the
  disconnection; once the last receiver is gone, the same holds of every pending reservation,
  which completes with the error.
\<close>

theorem mpmc_disconnect_wakes_all:
  assumes "mpmc_step\<^sup>*\<^sup>* (mpmc_init cap) s" and "\<forall>c. cap = Some c \<longrightarrow> c \<le> usize_max"
  shows "(mq_senders (mm_st s) = 0 \<longrightarrow> mm_recvs s f = Some (Some (i, w, m)) \<longrightarrow>
      w \<in> set (drop m (mm_woken s)) \<and>
      (\<exists>r ws st. recv_poll (mm_st s) (Some i) w' = Some (Ready r, None, ws, st))) \<and>
    (mq_receivers (mm_st s) = 0 \<longrightarrow> mm_reserves s f = Some (Some (i, w, m)) \<longrightarrow>
      w \<in> set (drop m (mm_woken s)) \<and>
      reserve_poll (mm_st s) (Some i) w' = Some (Ready (Err (SendError ())), None, mm_st s))"
proof -
  have c: "c \<le> usize_max" if "cap = Some c" for c using assms(2) that by blast
  have i: "mpmc_inv cap s" by (rule mpmc_reach_inv [OF assms(1) c])
  note k = mpmc_sides [OF i]
  have w: "w \<in> set (drop m woken)" if "woken_all (regs_of F) woken" "F f = Some (Some (i, w, m))" for F woken
    using that(1) regs_of_live(1) [of F f, OF that(2)] unfolding woken_all_def by blast
  have "\<exists>r ws st. recv_poll (mm_st s) (Some i) w' = Some (Ready r, None, ws, st)"
    if "mq_senders (mm_st s) = 0" "mm_recvs s f = Some (Some (i, w, m))"
  proof (cases "mq_values (mm_st s)")
    case Nil
    then show ?thesis using recv_poll_gone(1) [OF k that(2) Nil that(1), of w'] by simp
  next
    case (Cons v vs)
    show ?thesis by (rule recv_poll_value [where w = w', OF k that(2) c Cons]) auto
  qed
  moreover have "woken_all (regs_of (mm_recvs s)) (mm_woken s)" if "mq_senders (mm_st s) = 0"
    using k that by (simp add: sides_def recv_side_def recv_ok_def)
  moreover have "woken_all (regs_of (mm_reserves s)) (mm_woken s)" if "mq_receivers (mm_st s) = 0"
    using k that by (simp add: sides_def send_side_def send_ok_def)
  ultimately show ?thesis using w reserve_poll_gone [of "mm_st s" "Some i" w'] by blast
qed

theorem mpmc_disconnect_wakes_all_witness:
  "(7::waker) \<in> set (drop 0 (mm_woken (demo_empty 0 wl_new [] [7])))"
  using mpmc_disconnect_wakes_all [OF demo_empty_disconnected, of 0 node_id 7 0] by (simp add: demo_empty_def)

end
