(* ===== verification/SpmcQueue.thy ===== *)
theory SpmcQueue
  imports MpmcQueue
begin

text \<open>
  The single-producer, multi-consumer queue of \<open>spmc/queue.rs\<close>, with its bounded and unbounded
  front ends. Its \<open>Waiter\<close> and the methods \<open>notify_one\<close>, \<open>remove_waiter\<close> and \<open>register\<close> are those of
  the receive waiters of \<open>mpmc/queue.rs\<close>, word for word; both queues of waiters use them here.
  The sender is unique and borrowed by a pending \<open>send\<close>, so at most one send is pending.
\<close>

section \<open>The queue\<close>

record 'a spmc_state =
  sq_values :: "'a list"
  sq_capacity :: "usize option"
  sq_sender_alive :: bool
  sq_receivers :: usize
  sq_recv_waiters :: "recv_waiter wait_list"
  sq_send_waiters :: "recv_waiter wait_list"

definition sq_has_capacity :: "'a spmc_state \<Rightarrow> bool" where
  "sq_has_capacity st = (case sq_capacity st of None \<Rightarrow> True | Some capacity \<Rightarrow> length (sq_values st) < capacity)"

definition sq_push :: "'a spmc_state \<Rightarrow> 'a \<Rightarrow> (waker option \<times> 'a spmc_state) option" where
  "sq_push st value = do {
     (waker, waiters) \<leftarrow> notify_one (sq_recv_waiters st);
     Some (waker, st\<lparr>sq_values := sq_values st @ [value], sq_recv_waiters := waiters\<rparr>) }"

definition sq_pop :: "'a spmc_state \<Rightarrow> (('a \<times> waker option, try_recv_error) result \<times> 'a spmc_state) option" where
  "sq_pop st =
     (case sq_values st of
        value # values \<Rightarrow> do {
          (waker, waiters) \<leftarrow> notify_one (sq_send_waiters st);
          Some (Ok (value, waker), st\<lparr>sq_values := values, sq_send_waiters := waiters\<rparr>) }
      | [] \<Rightarrow> Some (Err (if \<not> sq_sender_alive st then RecvDisconnected else Empty), st))"

definition sq_new :: "usize option \<Rightarrow> 'a spmc_state" where
  "sq_new capacity = \<lparr>sq_values = [], sq_capacity = capacity, sq_sender_alive = True, sq_receivers = 1,
     sq_recv_waiters = wl_new, sq_send_waiters = wl_new\<rparr>"

definition spmc_bounded :: "usize \<Rightarrow> 'a spmc_state option" where
  "spmc_bounded capacity = do { guard (0 < capacity); Some (sq_new (Some capacity)) }"

definition spmc_unbounded :: "'a spmc_state" where
  "spmc_unbounded = sq_new None"

definition sq_drop_sender :: "'a spmc_state \<Rightarrow> (waker list \<times> 'a spmc_state) option" where
  "sq_drop_sender st = do {
     (_, woken) \<leftarrow> loop notify_body (sq_recv_waiters st, []);
     Some (woken, st\<lparr>sq_sender_alive := False, sq_recv_waiters := wl_new\<rparr>) }"

definition sq_clone_receiver :: "'a spmc_state \<Rightarrow> 'a spmc_state option" where
  "sq_clone_receiver st = do {
     receivers \<leftarrow> checked_add (sq_receivers st) 1;
     Some (st\<lparr>sq_receivers := receivers\<rparr>) }"

definition sq_drop_receiver :: "'a spmc_state \<Rightarrow> (waker list \<times> 'a list \<times> 'a spmc_state) option" where
  "sq_drop_receiver st = do {
     receivers \<leftarrow> checked_sub (sq_receivers st) 1;
     let st' = st\<lparr>sq_receivers := receivers\<rparr>;
     if receivers \<noteq> 0 then Some ([], [], st')
     else do {
       (_, woken) \<leftarrow> loop notify_body (sq_send_waiters st, []);
       Some (woken, sq_values st, st'\<lparr>sq_values := [], sq_send_waiters := wl_new\<rparr>) } }"

section \<open>Sending\<close>

definition sq_try_send ::
  "'a spmc_state \<Rightarrow> 'a \<Rightarrow> ((unit, 'a try_send_error) result \<times> waker list \<times> 'a spmc_state) option" where
  "sq_try_send st value =
     (if sq_receivers st = 0 then Some (Err (SendDisconnected value), [], st)
      else if \<not> sq_has_capacity st then Some (Err (Full value), [], st)
      else do {
        (waker, st) \<leftarrow> sq_push st value;
        Some (Ok (), opt_list waker, st) })"

text \<open>The \<open>Send\<close> future: its node and the value it still owns.\<close>

record 'a spmc_send =
  ss_waiter :: "waiter_id option"
  ss_value :: "'a option"

text \<open>\<open>self.waiter.take().map(|id| state.send_waiters.remove_waiter(id))\<close>\<close>

definition retire :: "recv_waiter wait_list \<Rightarrow> waiter_id option \<Rightarrow> recv_waiter wait_list option" where
  "retire waiters waiter =
     (case waiter of
        Some i \<Rightarrow> do { (_, waiters) \<leftarrow> remove_waiter waiters i; Some waiters }
      | None \<Rightarrow> Some waiters)"

definition sq_send_poll ::
  "'a spmc_state \<Rightarrow> 'a spmc_send \<Rightarrow> waker \<Rightarrow>
     ((unit, 'a send_error) result poll \<times> 'a spmc_send \<times> waker list \<times> 'a spmc_state) option" where
  "sq_send_poll st send current =
     (if sq_receivers st = 0 then do {
        value \<leftarrow> ss_value send;
        Some (Ready (Err (SendError value)), \<lparr>ss_waiter = None, ss_value = None\<rparr>, [], st) }
      else if sq_has_capacity st then do {
        value \<leftarrow> ss_value send;
        (waker, st) \<leftarrow> sq_push st value;
        waiters \<leftarrow> retire (sq_send_waiters st) (ss_waiter send);
        Some (Ready (Ok ()), \<lparr>ss_waiter = None, ss_value = None\<rparr>, opt_list waker,
          st\<lparr>sq_send_waiters := waiters\<rparr>) }
      else do {
        (i, waiters) \<leftarrow> recv_register (sq_send_waiters st) (ss_waiter send) current;
        Some (Pending, send\<lparr>ss_waiter := Some i\<rparr>, [], st\<lparr>sq_send_waiters := waiters\<rparr>) })"

definition sq_send_drop :: "'a spmc_state \<Rightarrow> waiter_id option \<Rightarrow> 'a spmc_state option" where
  "sq_send_drop st waiter =
     (case waiter of
        None \<Rightarrow> Some st
      | Some i \<Rightarrow>
          if sq_receivers st = 0 then Some st
          else do {
            (_, waiters) \<leftarrow> remove_waiter (sq_send_waiters st) i;
            Some (st\<lparr>sq_send_waiters := waiters\<rparr>) })"

text \<open>\<open>send\<close>: tries once before it polls \<open>Send\<close>; the value moves from state to state.\<close>

datatype 'a spmc_send_future = Spmc_Start 'a | Spmc_Sending "'a spmc_send"

fun spmc_send_future_poll ::
  "'a spmc_state \<Rightarrow> 'a spmc_send_future \<Rightarrow> waker \<Rightarrow>
     ((unit, 'a send_error) result poll \<times> 'a spmc_send_future \<times> waker list \<times> 'a spmc_state) option" where
  "spmc_send_future_poll st (Spmc_Start value) current = do {
     (r, woken, st) \<leftarrow> sq_try_send st value;
     (case r of
        Ok _ \<Rightarrow> Some (Ready (Ok ()), Spmc_Start value, woken, st)
      | Err (SendDisconnected value) \<Rightarrow> Some (Ready (Err (SendError value)), Spmc_Start value, woken, st)
      | Err (Full value) \<Rightarrow> do {
          (r, send, woken, st) \<leftarrow> sq_send_poll st \<lparr>ss_waiter = None, ss_value = Some value\<rparr> current;
          Some (r, Spmc_Sending send, woken, st) }) }"
| "spmc_send_future_poll st (Spmc_Sending send) current = do {
     (r, send, woken, st) \<leftarrow> sq_send_poll st send current;
     Some (r, Spmc_Sending send, woken, st) }"

definition spmc_unbounded_send ::
  "'a spmc_state \<Rightarrow> 'a \<Rightarrow> ((unit, 'a send_error) result \<times> waker list \<times> 'a spmc_state) option" where
  "spmc_unbounded_send st value = do {
     (r, woken, st) \<leftarrow> sq_try_send st value;
     (case r of
        Ok _ \<Rightarrow> Some (Ok (), woken, st)
      | Err (SendDisconnected value) \<Rightarrow> Some (Err (SendError value), woken, st)
      | Err (Full _) \<Rightarrow> None) }"

section \<open>Receiving\<close>

definition sq_try_recv :: "'a spmc_state \<Rightarrow> (('a, try_recv_error) result \<times> waker list \<times> 'a spmc_state) option" where
  "sq_try_recv st = do {
     (r, st) \<leftarrow> sq_pop st;
     (case r of
        Ok (value, waker) \<Rightarrow> Some (Ok value, opt_list waker, st)
      | Err e \<Rightarrow> Some (Err e, [], st)) }"

definition sq_recv_poll ::
  "'a spmc_state \<Rightarrow> waiter_id option \<Rightarrow> waker \<Rightarrow>
     (('a, recv_error) result poll \<times> waiter_id option \<times> waker list \<times> 'a spmc_state) option" where
  "sq_recv_poll st waiter current = do {
     let waiter = (if \<not> sq_sender_alive st then None else waiter);
     (r, st) \<leftarrow> sq_pop st;
     (case r of
        Err Empty \<Rightarrow> do {
          (i, waiters) \<leftarrow> recv_register (sq_recv_waiters st) waiter current;
          Some (Pending, Some i, [], st\<lparr>sq_recv_waiters := waiters\<rparr>) }
      | _ \<Rightarrow> do {
          waiters \<leftarrow> retire (sq_recv_waiters st) waiter;
          let st = st\<lparr>sq_recv_waiters := waiters\<rparr>;
          (case r of
             Ok (value, waker) \<Rightarrow> Some (Ready (Ok value), None, opt_list waker, st)
           | Err _ \<Rightarrow> Some (Ready (Err Disconnected), None, [], st)) }) }"

definition sq_recv_drop :: "'a spmc_state \<Rightarrow> waiter_id option \<Rightarrow> (waker list \<times> 'a spmc_state) option" where
  "sq_recv_drop st waiter =
     (case waiter of
        None \<Rightarrow> Some ([], st)
      | Some i \<Rightarrow>
          if \<not> sq_sender_alive st then Some ([], st)
          else do {
            (retired, waiters) \<leftarrow> remove_waiter (sq_recv_waiters st) i;
            (waker, waiters) \<leftarrow>
              (if retired = Notified \<and> sq_values st \<noteq> [] then notify_one waiters else Some (None, waiters));
            Some (opt_list waker, st\<lparr>sq_recv_waiters := waiters\<rparr>) })"

fun spmc_recv_future_poll ::
  "'a spmc_state \<Rightarrow> recv_future \<Rightarrow> waker \<Rightarrow>
     (('a, recv_error) result poll \<times> recv_future \<times> waker list \<times> 'a spmc_state) option" where
  "spmc_recv_future_poll st Recv_Start current = do {
     (r, woken, st) \<leftarrow> sq_try_recv st;
     (case r of
        Ok value \<Rightarrow> Some (Ready (Ok value), Recv_Start, woken, st)
      | Err RecvDisconnected \<Rightarrow> Some (Ready (Err Disconnected), Recv_Start, woken, st)
      | Err Empty \<Rightarrow> do {
          (r, waiter, woken, st) \<leftarrow> sq_recv_poll st None current;
          Some (r, Recv_Waiting waiter, woken, st) }) }"
| "spmc_recv_future_poll st (Recv_Waiting waiter) current = do {
     (r, waiter, woken, st) \<leftarrow> sq_recv_poll st waiter current;
     Some (r, Recv_Waiting waiter, woken, st) }"

lemmas spmc_ops [op_defs] = sq_has_capacity_def sq_push_def sq_pop_def sq_new_def sq_drop_sender_def
  sq_clone_receiver_def sq_drop_receiver_def sq_try_send_def retire_def sq_send_poll_def sq_send_drop_def
  sq_try_recv_def sq_recv_poll_def sq_recv_drop_def

section \<open>All interleavings\<close>

record 'a spmc_sys =
  sp_st :: "'a spmc_state"
  sp_recvs :: wait_futures
  sp_sends :: wait_futures
  sp_pending :: "nat \<Rightarrow> 'a"
  sp_woken :: "waker list"
  sp_sent :: "'a list"
  sp_received :: "'a list"
  sp_discarded :: "'a list"

definition spmc_init :: "usize option \<Rightarrow> (nat \<Rightarrow> 'a) \<Rightarrow> 'a spmc_sys" where
  "spmc_init cap vs = \<lparr>sp_st = sq_new cap, sp_recvs = Map.empty, sp_sends = Map.empty, sp_pending = vs,
     sp_woken = [], sp_sent = [], sp_received = [], sp_discarded = []\<rparr>"

definition sp_next :: "'a spmc_sys \<Rightarrow> 'a spmc_state \<Rightarrow> waker list \<Rightarrow> 'a spmc_sys" where
  "sp_next s st woken = s\<lparr>sp_st := st, sp_woken := sp_woken s @ woken\<rparr>"

text \<open>
  A step is one region of the queue lock. \<open>send\<close> and dropping the sender need the unique sender,
  which a live \<open>Send\<close> borrows; \<open>sp_pending f\<close> is the value of the future \<open>f\<close>.
\<close>

abbreviation sending :: "'a spmc_sys \<Rightarrow> nat \<Rightarrow> waiter_id registration option \<Rightarrow> 'a spmc_send" where
  "sending s f k \<equiv> \<lparr>ss_waiter = map_option fst k, ss_value = Some (sp_pending s f)\<rparr>"

inductive spmc_step :: "'a spmc_sys \<Rightarrow> 'a spmc_sys \<Rightarrow> bool" where
  drop_sender: "sp_sends s = Map.empty \<Longrightarrow> sq_sender_alive (sp_st s) \<Longrightarrow>
    sq_drop_sender (sp_st s) = Some (woken, st) \<Longrightarrow> spmc_step s (sp_next s st woken)"
| clone_receiver: "sq_receivers (sp_st s) \<noteq> 0 \<Longrightarrow> sq_clone_receiver (sp_st s) = Some st \<Longrightarrow> spmc_step s (sp_next s st [])"
| drop_receiver: "sq_drop_receiver (sp_st s) = Some (woken, discarded, st) \<Longrightarrow>
    spmc_step s ((sp_next s st woken)\<lparr>sp_discarded := sp_discarded s @ discarded\<rparr>)"
| try_send_ok: "sp_sends s = Map.empty \<Longrightarrow> sq_sender_alive (sp_st s) \<Longrightarrow>
    sq_try_send (sp_st s) v = Some (Ok (), woken, st) \<Longrightarrow>
    spmc_step s ((sp_next s st woken)\<lparr>sp_sent := sp_sent s @ [v]\<rparr>)"
| send: "sp_sends s = Map.empty \<Longrightarrow> sq_sender_alive (sp_st s) \<Longrightarrow>
    spmc_step s (s\<lparr>sp_sends := [f \<mapsto> None], sp_pending := (sp_pending s)(f := v)\<rparr>)"
| send_ok: "sp_sends s f = Some k \<Longrightarrow>
    sq_send_poll (sp_st s) (sending s f k) w = Some (Ready (Ok ()), send, woken, st) \<Longrightarrow>
    spmc_step s ((sp_next s st woken)\<lparr>sp_sends := (sp_sends s)(f := None), sp_sent := sp_sent s @ [sp_pending s f]\<rparr>)"
| send_err: "sp_sends s f = Some k \<Longrightarrow>
    sq_send_poll (sp_st s) (sending s f k) w = Some (Ready (Err e), send, woken, st) \<Longrightarrow>
    spmc_step s ((sp_next s st woken)\<lparr>sp_sends := (sp_sends s)(f := None)\<rparr>)"
| send_pending: "sp_sends s f = Some k \<Longrightarrow>
    sq_send_poll (sp_st s) (sending s f k) w = Some (Pending, send, woken, st) \<Longrightarrow> ss_waiter send = Some i \<Longrightarrow>
    spmc_step s ((sp_next s st woken)\<lparr>sp_sends := (sp_sends s)(f \<mapsto> Some (i, w, length (sp_woken s)))\<rparr>)"
| send_drop: "sp_sends s f = Some k \<Longrightarrow> sq_send_drop (sp_st s) (map_option fst k) = Some st \<Longrightarrow>
    spmc_step s ((sp_next s st [])\<lparr>sp_sends := (sp_sends s)(f := None)\<rparr>)"
| try_recv_ok: "sq_try_recv (sp_st s) = Some (Ok v, woken, st) \<Longrightarrow>
    spmc_step s ((sp_next s st woken)\<lparr>sp_received := sp_received s @ [v]\<rparr>)"
| recv: "sp_recvs s f = None \<Longrightarrow> spmc_step s (s\<lparr>sp_recvs := (sp_recvs s)(f \<mapsto> None)\<rparr>)"
| recv_ok: "sp_recvs s f = Some k \<Longrightarrow>
    sq_recv_poll (sp_st s) (map_option fst k) w = Some (Ready (Ok v), i, woken, st) \<Longrightarrow>
    spmc_step s ((sp_next s st woken)\<lparr>sp_recvs := (sp_recvs s)(f := None), sp_received := sp_received s @ [v]\<rparr>)"
| recv_err: "sp_recvs s f = Some k \<Longrightarrow>
    sq_recv_poll (sp_st s) (map_option fst k) w = Some (Ready (Err e), i, woken, st) \<Longrightarrow>
    spmc_step s ((sp_next s st woken)\<lparr>sp_recvs := (sp_recvs s)(f := None)\<rparr>)"
| recv_pending: "sp_recvs s f = Some k \<Longrightarrow>
    sq_recv_poll (sp_st s) (map_option fst k) w = Some (Pending, Some i, woken, st) \<Longrightarrow>
    spmc_step s ((sp_next s st woken)\<lparr>sp_recvs := (sp_recvs s)(f \<mapsto> Some (i, w, length (sp_woken s)))\<rparr>)"
| recv_drop: "sp_recvs s f = Some k \<Longrightarrow> sq_recv_drop (sp_st s) (map_option fst k) = Some (woken, st) \<Longrightarrow>
    spmc_step s ((sp_next s st woken)\<lparr>sp_recvs := (sp_recvs s)(f := None)\<rparr>)"

section \<open>The invariant\<close>

text \<open>
  The receiving side is that of the \<open>mpmc\<close> queue with one sender or none. A send is queued only
  while the queue is full.
\<close>

definition sq_recv_ok :: "'a spmc_state \<Rightarrow> wait_futures \<Rightarrow> waker list \<Rightarrow> bool" where
  "sq_recv_ok st R woken \<longleftrightarrow>
     recv_ok (of_bool (sq_sender_alive st)) (length (sq_values st)) (sq_recv_waiters st) R woken"

definition sole :: "wait_futures \<Rightarrow> bool" where
  "sole S \<longleftrightarrow> (\<forall>f g. S f \<noteq> None \<longrightarrow> S g \<noteq> None \<longrightarrow> f = g)"

definition send_full :: "usize \<Rightarrow> nat \<Rightarrow> usize option \<Rightarrow> recv_waiter wait_list \<Rightarrow> wait_futures \<Rightarrow> waker list \<Rightarrow> bool" where
  "send_full receivers len cap wl S woken \<longleftrightarrow> sole S \<and> (\<forall>c. cap = Some c \<longrightarrow> len \<le> c) \<and>
     (if receivers = 0 then wl = wl_new \<and> len = 0 \<and> woken_all (regs_of S) woken
      else ro.owned wl (regs_of S) woken \<and> (wl_queue wl \<noteq> [] \<longrightarrow> (\<exists>c. cap = Some c \<and> c \<le> len)))"

definition sq_send_ok :: "'a spmc_state \<Rightarrow> wait_futures \<Rightarrow> waker list \<Rightarrow> bool" where
  "sq_send_ok st S woken \<longleftrightarrow>
     send_full (sq_receivers st) (length (sq_values st)) (sq_capacity st) (sq_send_waiters st) S woken"

definition spmc_inv :: "usize option \<Rightarrow> 'a spmc_sys \<Rightarrow> bool" where
  "spmc_inv cap s \<longleftrightarrow> sq_recv_ok (sp_st s) (sp_recvs s) (sp_woken s) \<and>
     sq_send_ok (sp_st s) (sp_sends s) (sp_woken s) \<and> sq_capacity (sp_st s) = cap \<and>
     sp_sent s = sp_received s @ sp_discarded s @ sq_values (sp_st s) \<and>
     (sp_discarded s \<noteq> [] \<longrightarrow> sq_receivers (sp_st s) = 0)"

lemma spmc_init_inv: "spmc_inv cap (spmc_init cap vs)"
  by (simp add: spmc_inv_def sq_recv_ok_def sq_send_ok_def send_full_def sole_def spmc_init_def sq_new_def
      recv_ok_def wl_queue_new wl_val_new ro.owned_empty)

lemma send_full_more: "send_full receivers len cap wl S woken \<Longrightarrow> send_full receivers len cap wl S (woken @ ws)"
  by (auto simp: send_full_def ro.owned_more woken_all_more)

lemma sole_clear: "sole S \<Longrightarrow> S f = Some k \<Longrightarrow> S(f := None) = Map.empty"
  by (force simp: sole_def)

lemma sole_queue:
  assumes "sole S" and o: "ro.owned wl (regs_of S) woken"
  shows "tl (wl_queue wl) = []"
proof (cases "wl_queue wl")
  case (Cons i q)
  have "j = i" if j: "j \<in> set (wl_queue wl)" for j
  proof -
    have i: "i \<in> set (wl_queue wl)" using Cons by simp
    obtain f w m where f: "regs_of S f = Some (i, w, m)" by (rule ro.queue_owner [OF o i])
    obtain g w' m' where g: "regs_of S g = Some (j, w', m')" by (rule ro.queue_owner [OF o j])
    have "S f \<noteq> None" "S g \<noteq> None" using f g by (auto simp: regs_of_def split: option.splits)
    then have "f = g" using assms(1) by (auto simp: sole_def)
    then show ?thesis using f g by simp
  qed
  then have "set q \<subseteq> {i}" using Cons by auto
  moreover have "i \<notin> set q" using wq.queue_distinct [OF ro.owned_inv [OF o]] Cons by simp
  ultimately have "q = []" by (cases q) auto
  then show ?thesis using Cons by simp
qed simp

section \<open>Pushing and popping\<close>

lemma sq_push_ok:
  assumes "sq_recv_ok st R woken"
  obtains u wl where "sq_push st v = Some (u, st\<lparr>sq_values := sq_values st @ [v], sq_recv_waiters := wl\<rparr>)"
    and "sq_recv_ok (st\<lparr>sq_values := sq_values st @ [v], sq_recv_waiters := wl\<rparr>) R (woken @ opt_list u)"
proof -
  have "recv_ok (of_bool (sq_sender_alive st)) (length (sq_values st)) (sq_recv_waiters st) R woken"
    using assms by (simp add: sq_recv_ok_def)
  then show thesis
    by (rule notify_one_ok) (rule that, auto simp: sq_push_def sq_recv_ok_def)
qed

lemma send_full_pop:
  assumes k: "send_full receivers (Suc len) cap wl S woken"
  obtains u wl' where "notify_one wl = Some (u, wl')" and "send_full receivers len cap wl' S (woken @ opt_list u)"
proof -
  have g: "receivers \<noteq> 0" and o: "ro.owned wl (regs_of S) woken" and s: "sole S"
    using k by (auto simp: send_full_def split: if_splits)
  obtain u wl' where t: "ro.take_first wl Notified = Some (u, wl')" "ro.owned wl' (regs_of S) (woken @ opt_list u)"
    "wl_queue wl' = tl (wl_queue wl)"
    by (rule ro.take_first_spec [OF o, of Notified], simp) blast
  then have "wl_queue wl' = []" using sole_queue [OF s o] by simp
  moreover have "\<forall>c. cap = Some c \<longrightarrow> len \<le> c" using k by (auto simp: send_full_def)
  ultimately show thesis using that [of u wl'] t g k by (simp add: notify_one_eq send_full_def)
qed

lemma sq_pop_ok:
  assumes k: "sq_send_ok st S woken" and r: "sq_recv_ok st R woken"
  obtains (popped) v vs u wl where "sq_values st = v # vs"
    and "sq_pop st = Some (Ok (v, u), st\<lparr>sq_values := vs, sq_send_waiters := wl\<rparr>)"
    and "sq_send_ok (st\<lparr>sq_values := vs, sq_send_waiters := wl\<rparr>) S (woken @ opt_list u)"
    and "sq_recv_ok (st\<lparr>sq_values := vs, sq_send_waiters := wl\<rparr>) R (woken @ opt_list u)"
  | (none) "sq_values st = []"
    and "sq_pop st = Some (Err (if \<not> sq_sender_alive st then RecvDisconnected else Empty), st)"
proof (cases "sq_values st")
  case Nil
  then show thesis using none by (simp add: sq_pop_def)
next
  case (Cons v vs)
  then have "send_full (sq_receivers st) (Suc (length vs)) (sq_capacity st) (sq_send_waiters st) S woken"
    using k by (simp add: sq_send_ok_def)
  then obtain u wl where n: "notify_one (sq_send_waiters st) = Some (u, wl)"
    "send_full (sq_receivers st) (length vs) (sq_capacity st) wl S (woken @ opt_list u)"
    by (rule send_full_pop)
  moreover have "recv_ok (of_bool (sq_sender_alive st)) (length vs) (sq_recv_waiters st) R (woken @ opt_list u)"
    using recv_ok_more [OF r [unfolded sq_recv_ok_def], of "length vs"] Cons by simp
  ultimately show thesis
    using popped [of v vs u wl] Cons by (simp add: sq_pop_def sq_send_ok_def sq_recv_ok_def)
qed

section \<open>The handles\<close>

lemma sq_drop_sender_ok:
  assumes r: "sq_recv_ok st R woken" and a: "sq_sender_alive st"
  obtains ws where "sq_drop_sender st = Some (ws, st\<lparr>sq_sender_alive := False, sq_recv_waiters := wl_new\<rparr>)"
    and "sq_recv_ok (st\<lparr>sq_sender_alive := False, sq_recv_waiters := wl_new\<rparr>) R (woken @ ws)"
proof -
  have "ro.owned (sq_recv_waiters st) (regs_of R) woken" using r a by (simp add: sq_recv_ok_def recv_ok_def)
  from recv_notify_all [OF this] recv_ok_disconnect [OF r [unfolded sq_recv_ok_def], of "length (sq_values st)"] show thesis
    using that [of "ro.wakers_in (sq_recv_waiters st)"] a by (auto simp: sq_drop_sender_def sq_recv_ok_def)
qed

lemma sq_drop_receiver_ok:
  assumes k: "sq_send_ok st S woken" and n: "sq_receivers st = Suc n"
  obtains ws vs wl where
    "sq_drop_receiver st = Some (ws, if n = 0 then sq_values st else [],
       st\<lparr>sq_receivers := n, sq_values := vs, sq_send_waiters := wl\<rparr>)"
    and "vs = (if n = 0 then [] else sq_values st)"
    and "sq_send_ok (st\<lparr>sq_receivers := n, sq_values := vs, sq_send_waiters := wl\<rparr>) S (woken @ ws)"
proof -
  have o: "ro.owned (sq_send_waiters st) (regs_of S) woken" and s: "sole S"
    using k n by (auto simp: sq_send_ok_def send_full_def)
  show thesis
  proof (cases "n = 0")
    case True
    then have "sq_send_ok (st\<lparr>sq_receivers := n, sq_values := [], sq_send_waiters := wl_new\<rparr>) S
        (woken @ ro.wakers_in (sq_send_waiters st))"
      using ro.all_woken [OF o] s by (simp add: sq_send_ok_def send_full_def)
    then show thesis
      using that [of "ro.wakers_in (sq_send_waiters st)" wl_new "[]"] recv_notify_all [OF o] n True
      by (auto simp: sq_drop_receiver_def checked_sub_def)
  next
    case False
    then show thesis
      using that [of "[]" "sq_send_waiters st" "sq_values st"] k n
      by (simp add: sq_drop_receiver_def checked_sub_def sq_send_ok_def send_full_def)
  qed
qed

section \<open>Sending\<close>

text \<open>With nobody pending there is nobody queued, so a push needs no further argument.\<close>

lemma send_full_push:
  assumes "ro.owned wl (\<lambda>f::nat. None) woken" and "receivers \<noteq> 0" and "case cap of None \<Rightarrow> True | Some c \<Rightarrow> len < c"
  shows "send_full receivers (Suc len) cap wl Map.empty woken"
  using assms ro.owned_no_owner(1) [OF assms(1)]
  by (auto simp: send_full_def sole_def split: option.splits)

lemma sq_try_send_ok:
  assumes k: "sq_send_ok st Map.empty woken" and r: "sq_recv_ok st R woken"
  obtains res ws st' where "sq_try_send st v = Some (res, ws, st')"
    and "sq_send_ok st' Map.empty (woken @ ws)" and "sq_recv_ok st' R (woken @ ws)"
    and "sq_values st' = sq_values st @ (if res = Ok () then [v] else [])"
    and "sq_receivers st' = sq_receivers st" and "sq_capacity st' = sq_capacity st"
    and "res = (if sq_receivers st = 0 then Err (SendDisconnected v)
      else if sq_has_capacity st then Ok () else Err (Full v))"
proof (cases "sq_receivers st \<noteq> 0 \<and> sq_has_capacity st")
  case True
  obtain u wl where p: "sq_push st v = Some (u, st\<lparr>sq_values := sq_values st @ [v], sq_recv_waiters := wl\<rparr>)"
    "sq_recv_ok (st\<lparr>sq_values := sq_values st @ [v], sq_recv_waiters := wl\<rparr>) R (woken @ opt_list u)"
    by (rule sq_push_ok [OF r])
  have "ro.owned (sq_send_waiters st) (\<lambda>f::nat. None) (woken @ opt_list u)"
    using k True by (simp add: sq_send_ok_def send_full_def ro.owned_more)
  then have "sq_send_ok (st\<lparr>sq_values := sq_values st @ [v], sq_recv_waiters := wl\<rparr>) Map.empty (woken @ opt_list u)"
    using True by (simp add: sq_send_ok_def sq_has_capacity_def send_full_push)
  then show thesis
    using that [of "Ok ()" "opt_list u" "st\<lparr>sq_values := sq_values st @ [v], sq_recv_waiters := wl\<rparr>"] p True
    by (simp add: sq_try_send_def)
next
  case False
  then show thesis
    using that [of "if sq_receivers st = 0 then Err (SendDisconnected v) else Err (Full v)" "[]" st] k r
    by (auto simp: sq_try_send_def)
qed

lemma sq_send_ok_live:
  assumes "sq_send_ok st S woken" and "sq_receivers st \<noteq> 0"
  shows "ro.owned (sq_send_waiters st) (regs_of S) woken" and "sole S"
  using assms by (simp_all add: sq_send_ok_def send_full_def)

lemma retire_owned:
  assumes o: "ro.owned wl (regs_of S) woken" and f: "S f = Some r"
  obtains wl' where "retire wl (map_option fst r) = Some wl'" and "ro.owned wl' (regs_of (S(f := None))) woken"
proof (cases r)
  case None
  then show thesis using that [of wl] o f by (simp add: retire_def fun_upd_regs_of)
next
  case (Some x)
  then obtain i w m where x: "r = Some (i, w, m)" by (cases x) auto
  then have "regs_of S f = Some (i, w, m)" using f by simp
  then show thesis by (rule recv_remove [OF o]) (use that x in \<open>auto simp: retire_def\<close>)
qed

lemma sq_send_poll_space:
  assumes k: "sq_send_ok st S woken" and r: "sq_recv_ok st R woken" and f: "S f = Some q"
    and g: "sq_receivers st \<noteq> 0" "sq_has_capacity st"
  obtains ws st' where "sq_send_poll st \<lparr>ss_waiter = map_option fst q, ss_value = Some v\<rparr> w =
      Some (Ready (Ok ()), \<lparr>ss_waiter = None, ss_value = None\<rparr>, ws, st')"
    and "sq_send_ok st' (S(f := None)) (woken @ ws)" and "sq_recv_ok st' R (woken @ ws)"
    and "sq_values st' = sq_values st @ [v]" and "sq_receivers st' = sq_receivers st"
    and "sq_capacity st' = sq_capacity st"
proof -
  note o = sq_send_ok_live [OF k g(1)]
  obtain u wl where p: "sq_push st v = Some (u, st\<lparr>sq_values := sq_values st @ [v], sq_recv_waiters := wl\<rparr>)"
    "sq_recv_ok (st\<lparr>sq_values := sq_values st @ [v], sq_recv_waiters := wl\<rparr>) R (woken @ opt_list u)"
    by (rule sq_push_ok [OF r])
  have e: "S(f := None) = Map.empty" using o(2) f by (rule sole_clear)
  obtain wl' where t: "retire (sq_send_waiters st) (map_option fst q) = Some wl'"
    "ro.owned wl' (regs_of (S(f := None))) woken" by (rule retire_owned [OF o(1) f])
  let ?st = "st\<lparr>sq_values := sq_values st @ [v], sq_recv_waiters := wl, sq_send_waiters := wl'\<rparr>"
  have "ro.owned wl' (\<lambda>f::nat. None) (woken @ opt_list u)" using t(2) unfolding e by (simp add: ro.owned_more)
  then have "sq_send_ok ?st (S(f := None)) (woken @ opt_list u)"
    using g unfolding e by (simp add: sq_send_ok_def sq_has_capacity_def send_full_push)
  moreover have "sq_recv_ok ?st R (woken @ opt_list u)" using p(2) by (simp add: sq_recv_ok_def)
  ultimately show thesis using that [of "opt_list u" ?st] p(1) t(1) g by (simp add: sq_send_poll_def)
qed

lemma sq_send_poll_full:
  assumes k: "sq_send_ok st S woken" and r: "sq_recv_ok st R woken" and f: "S f = Some q"
    and g: "sq_receivers st \<noteq> 0" "\<not> sq_has_capacity st"
    and p: "sq_send_poll st \<lparr>ss_waiter = map_option fst q, ss_value = Some v\<rparr> w = Some (res, send, ws, st')"
  obtains i wl where "res = Pending" and "ss_waiter send = Some i" and "ws = []"
    and "st' = st\<lparr>sq_send_waiters := wl\<rparr>"
    and "sq_send_ok st' (S(f \<mapsto> Some (i, w, length woken))) woken" and "sq_recv_ok st' R woken"
proof -
  note o = sq_send_ok_live [OF k g(1)]
  obtain i wl where e: "recv_register (sq_send_waiters st) (map_option fst q) w = Some (i, wl)"
    "res = Pending" "send = \<lparr>ss_waiter = Some i, ss_value = Some v\<rparr>" "ws = []" "st' = st\<lparr>sq_send_waiters := wl\<rparr>"
    using p g by (auto simp: sq_send_poll_def panic_simps)
  have "recv_ok 1 0 (sq_send_waiters st) S woken" using o(1) by (simp add: recv_ok_def)
  from recv_ok_register [OF this _ f e(1)] have "ro.owned wl (regs_of (S(f \<mapsto> Some (i, w, length woken)))) woken"
    by (simp add: recv_ok_def)
  moreover have "sole (S(f \<mapsto> Some (i, w, length woken)))" using o(2) f by (auto simp: sole_def)
  moreover obtain c where "sq_capacity st = Some c" "c \<le> length (sq_values st)"
    using g(2) by (auto simp: sq_has_capacity_def split: option.splits)
  ultimately have "sq_send_ok (st\<lparr>sq_send_waiters := wl\<rparr>) (S(f \<mapsto> Some (i, w, length woken))) woken"
    using k g by (simp add: sq_send_ok_def send_full_def)
  then show thesis using that [of i wl] e r by (simp add: sq_recv_ok_def)
qed

lemma sq_send_poll_gone:
  assumes k: "sq_send_ok st S woken" and g: "sq_receivers st = 0"
  shows "sq_send_poll st \<lparr>ss_waiter = i, ss_value = Some v\<rparr> w =
      Some (Ready (Err (SendError v)), \<lparr>ss_waiter = None, ss_value = None\<rparr>, [], st)"
    and "sq_send_ok st (S(f := None)) woken"
  using k g by (auto simp: sq_send_poll_def sq_send_ok_def send_full_def sole_def woken_all_clear)

lemma sq_send_drop_ok:
  assumes k: "sq_send_ok st S woken" and f: "S f = Some q"
  obtains wl where "sq_send_drop st (map_option fst q) = Some (st\<lparr>sq_send_waiters := wl\<rparr>)"
    and "sq_send_ok (st\<lparr>sq_send_waiters := wl\<rparr>) (S(f := None)) woken"
proof (cases "sq_receivers st = 0")
  case True
  then show thesis
    using that [of "sq_send_waiters st"] sq_send_poll_gone(2) [OF k True] by (cases q) (auto simp: sq_send_drop_def)
next
  case False
  note o = sq_send_ok_live [OF k False]
  have e: "S(f := None) = Map.empty" using o(2) f by (rule sole_clear)
  obtain wl where t: "retire (sq_send_waiters st) (map_option fst q) = Some wl"
    "ro.owned wl (regs_of (S(f := None))) woken" by (rule retire_owned [OF o(1) f])
  then have o': "ro.owned wl (\<lambda>f::nat. None) woken" unfolding e by simp
  have "sq_send_ok (st\<lparr>sq_send_waiters := wl\<rparr>) (S(f := None)) woken"
    using k False o' ro.owned_no_owner(1) [OF o'] unfolding e by (simp add: sq_send_ok_def send_full_def sole_def)
  then show thesis
    using that [of wl] t(1) False
    by (cases q) (auto simp: sq_send_drop_def retire_def panic_simps)
qed

section \<open>Receiving\<close>

lemma sq_recv_poll_value:
  assumes k: "sq_send_ok st S woken" and r: "sq_recv_ok st R woken" and f: "R f = Some q" and v: "sq_values st = v # vs"
  obtains ws st' where "sq_recv_poll st (map_option fst q) w = Some (Ready (Ok v), None, ws, st')"
    and "sq_send_ok st' S (woken @ ws)" and "sq_recv_ok st' (R(f := None)) (woken @ ws)"
    and "sq_values st' = vs" and "sq_receivers st' = sq_receivers st" and "sq_capacity st' = sq_capacity st"
proof -
  obtain u wl where p: "sq_pop st = Some (Ok (v, u), st\<lparr>sq_values := vs, sq_send_waiters := wl\<rparr>)"
    "sq_send_ok (st\<lparr>sq_values := vs, sq_send_waiters := wl\<rparr>) S (woken @ opt_list u)"
    "sq_recv_ok (st\<lparr>sq_values := vs, sq_send_waiters := wl\<rparr>) R (woken @ opt_list u)"
    by (rule sq_pop_ok [OF k r]) (use v in auto)
  let ?a = "of_bool (sq_sender_alive st) :: usize"
  have m: "Suc (length vs) \<le> ro.held (sq_recv_waiters st)"
    if "?a \<noteq> 0" "wl_queue (sq_recv_waiters st) \<noteq> []"
    using that r v by (simp add: sq_recv_ok_def recv_ok_def)
  have r': "recv_ok ?a (length vs) (sq_recv_waiters st) R (woken @ opt_list u)"
    using p(3) by (simp add: sq_recv_ok_def)
  obtain wl' where l: "(case if ?a = 0 then None else map_option fst q of
      Some i \<Rightarrow> do { (_, waiters) \<leftarrow> remove_waiter (sq_recv_waiters st) i; Some waiters }
    | None \<Rightarrow> Some (sq_recv_waiters st)) = Some wl'"
    "recv_ok ?a (length vs) wl' (R(f := None)) (woken @ opt_list u)"
    by (rule recv_ok_leave [OF r' f m])
  let ?st = "st\<lparr>sq_values := vs, sq_send_waiters := wl, sq_recv_waiters := wl'\<rparr>"
  have "sq_recv_poll st (map_option fst q) w = Some (Ready (Ok v), None, opt_list u, ?st)"
    using p(1) l(1) by (cases "sq_sender_alive st"; cases q) (simp_all add: sq_recv_poll_def retire_def Let_def)
  then show thesis
    using that [of "opt_list u" ?st] p(2) l(2) by (simp add: sq_send_ok_def sq_recv_ok_def)
qed

lemma sq_recv_poll_gone:
  assumes r: "sq_recv_ok st R woken" and f: "R f = Some q" and v: "sq_values st = []" and g: "\<not> sq_sender_alive st"
  shows "sq_recv_poll st (map_option fst q) w = Some (Ready (Err Disconnected), None, [], st)"
    and "sq_recv_ok st (R(f := None)) woken"
proof -
  show "sq_recv_poll st (map_option fst q) w = Some (Ready (Err Disconnected), None, [], st)"
    using v g by (simp add: sq_recv_poll_def sq_pop_def retire_def)
  show "sq_recv_ok st (R(f := None)) woken" using r g by (simp add: sq_recv_ok_def recv_ok_def woken_all_clear)
qed

lemma sq_recv_poll_empty:
  assumes r: "sq_recv_ok st R woken" and f: "R f = Some q" and v: "sq_values st = []" and g: "sq_sender_alive st"
    and p: "sq_recv_poll st (map_option fst q) w = Some (res, j, ws, st')"
  obtains i wl where "res = Pending" and "j = Some i" and "ws = []" and "st' = st\<lparr>sq_recv_waiters := wl\<rparr>"
    and "sq_recv_ok st' (R(f \<mapsto> Some (i, w, length woken))) woken"
proof -
  obtain i wl where e: "recv_register (sq_recv_waiters st) (map_option fst q) w = Some (i, wl)"
    "res = Pending" "j = Some i" "ws = []" "st' = st\<lparr>sq_recv_waiters := wl\<rparr>"
    using p v g by (auto simp: sq_recv_poll_def sq_pop_def panic_simps)
  have "recv_ok 1 0 (sq_recv_waiters st) R woken" using r v g by (simp add: sq_recv_ok_def)
  from recv_ok_register [OF this _ f e(1)] show thesis
    using that [of i wl] e v g by (simp add: sq_recv_ok_def)
qed

lemma sq_recv_drop_ok:
  assumes r: "sq_recv_ok st R woken" and f: "R f = Some q"
  obtains ws wl where "sq_recv_drop st (map_option fst q) = Some (ws, st\<lparr>sq_recv_waiters := wl\<rparr>)"
    and "sq_recv_ok (st\<lparr>sq_recv_waiters := wl\<rparr>) (R(f := None)) (woken @ ws)"
proof (cases "q = None \<or> \<not> sq_sender_alive st")
  case True
  then have "sq_recv_drop st (map_option fst q) = Some ([], st)" by (cases q) (auto simp: sq_recv_drop_def)
  then show thesis
    using that [of "[]" "sq_recv_waiters st"] True r f
    by (auto simp: sq_recv_ok_def recv_ok_def fun_upd_regs_of woken_all_clear)
next
  case False
  then obtain i w0 m where x: "q = Some (i, w0, m)" and g: "sq_sender_alive st" by (cases q) auto
  have f': "R f = Some (Some (i, w0, m))" using f x by simp
  have r': "recv_ok 1 (length (sq_values st)) (sq_recv_waiters st) R woken" using r g by (simp add: sq_recv_ok_def)
  obtain v wl1 u wl2 where c: "remove_waiter (sq_recv_waiters st) i = Some (v, wl1)"
    "(if v = Notified \<and> 0 < length (sq_values st) then notify_one wl1 else Some (None, wl1)) = Some (u, wl2)"
    "recv_ok 1 (length (sq_values st)) wl2 (R(f := None)) (woken @ opt_list u)"
    by (rule recv_ok_cancel [OF r' one_neq_zero f'])
  then show thesis
    using that [of "opt_list u" wl2] x g by (simp add: sq_recv_drop_def sq_recv_ok_def)
qed

section \<open>Every step keeps the invariant\<close>

lemma spmc_handle_steps:
  assumes i: "spmc_inv cap s"
  shows "sq_sender_alive (sp_st s) \<Longrightarrow> sq_drop_sender (sp_st s) = Some (woken, st) \<Longrightarrow> spmc_inv cap (sp_next s st woken)"
    and "sq_receivers (sp_st s) \<noteq> 0 \<Longrightarrow> sq_clone_receiver (sp_st s) = Some st \<Longrightarrow> spmc_inv cap (sp_next s st [])"
    and "sq_drop_receiver (sp_st s) = Some (woken, discarded, st) \<Longrightarrow>
      spmc_inv cap ((sp_next s st woken)\<lparr>sp_discarded := sp_discarded s @ discarded\<rparr>)"
proof -
  have r: "sq_recv_ok (sp_st s) (sp_recvs s) (sp_woken s)" and k: "sq_send_ok (sp_st s) (sp_sends s) (sp_woken s)"
    using i by (simp_all add: spmc_inv_def)
  show "spmc_inv cap (sp_next s st woken)" if "sq_sender_alive (sp_st s)" "sq_drop_sender (sp_st s) = Some (woken, st)"
    by (rule sq_drop_sender_ok [OF r that(1)])
      (use i that in \<open>auto simp: spmc_inv_def sp_next_def sq_send_ok_def send_full_more\<close>)
  show "spmc_inv cap (sp_next s st [])" if "sq_receivers (sp_st s) \<noteq> 0" "sq_clone_receiver (sp_st s) = Some st"
    using that i
    by (auto simp: spmc_inv_def sp_next_def sq_clone_receiver_def panic_simps sq_recv_ok_def sq_send_ok_def send_full_def)
  show "spmc_inv cap ((sp_next s st woken)\<lparr>sp_discarded := sp_discarded s @ discarded\<rparr>)"
    if d: "sq_drop_receiver (sp_st s) = Some (woken, discarded, st)"
  proof -
    obtain n where n: "sq_receivers (sp_st s) = Suc n"
      using d by (cases "sq_receivers (sp_st s)") (auto simp: sq_drop_receiver_def checked_sub_def)
    show ?thesis
      by (rule sq_drop_receiver_ok [OF k n])
        (use d i n in \<open>auto simp: spmc_inv_def sp_next_def sq_recv_ok_def recv_ok_more split: if_splits\<close>)
  qed
qed

lemma spmc_send_step:
  assumes i: "spmc_inv cap s" and f: "sp_sends s f = Some q"
    and p: "sq_send_poll (sp_st s) (sending s f q) w = Some (res, send, woken, st)"
  shows "sq_receivers st = sq_receivers (sp_st s) \<and> sq_capacity st = sq_capacity (sp_st s) \<and>
    (case res of
       Pending \<Rightarrow> \<exists>j. ss_waiter send = Some j \<and> woken = [] \<and> sq_values st = sq_values (sp_st s) \<and>
         sq_send_ok st ((sp_sends s)(f \<mapsto> Some (j, w, length (sp_woken s)))) (sp_woken s) \<and>
         sq_recv_ok st (sp_recvs s) (sp_woken s)
     | Ready (Ok _) \<Rightarrow> sq_receivers (sp_st s) \<noteq> 0 \<and> sq_values st = sq_values (sp_st s) @ [sp_pending s f] \<and>
         sq_send_ok st ((sp_sends s)(f := None)) (sp_woken s @ woken) \<and> sq_recv_ok st (sp_recvs s) (sp_woken s @ woken)
     | Ready (Err _) \<Rightarrow> woken = [] \<and> sq_values st = sq_values (sp_st s) \<and>
         sq_send_ok st ((sp_sends s)(f := None)) (sp_woken s) \<and> sq_recv_ok st (sp_recvs s) (sp_woken s))"
proof -
  have r: "sq_recv_ok (sp_st s) (sp_recvs s) (sp_woken s)" and k: "sq_send_ok (sp_st s) (sp_sends s) (sp_woken s)"
    using i by (simp_all add: spmc_inv_def)
  consider "sq_receivers (sp_st s) = 0" | "sq_receivers (sp_st s) \<noteq> 0" "sq_has_capacity (sp_st s)"
    | "sq_receivers (sp_st s) \<noteq> 0" "\<not> sq_has_capacity (sp_st s)" by blast
  then show ?thesis
  proof cases
    case 1
    then show ?thesis using sq_send_poll_gone [OF k 1] p r by auto
  next
    case 2
    show ?thesis
      by (rule sq_send_poll_space [OF k r f 2, of "sp_pending s f" w]) (use p 2 in auto)
  next
    case 3
    show ?thesis by (rule sq_send_poll_full [OF k r f 3 p]) auto
  qed
qed

lemma spmc_recv_step:
  assumes i: "spmc_inv cap s" and f: "sp_recvs s f = Some q"
    and p: "sq_recv_poll (sp_st s) (map_option fst q) w = Some (res, j, woken, st)"
  shows "sq_receivers st = sq_receivers (sp_st s) \<and> sq_capacity st = sq_capacity (sp_st s) \<and>
    sq_send_ok st (sp_sends s) (sp_woken s @ woken) \<and>
    (case res of
       Pending \<Rightarrow> woken = [] \<and> sq_values st = sq_values (sp_st s) \<and>
         (\<exists>i. j = Some i \<and> sq_recv_ok st ((sp_recvs s)(f \<mapsto> Some (i, w, length (sp_woken s)))) (sp_woken s))
     | Ready (Ok v) \<Rightarrow> sq_values (sp_st s) = v # sq_values st \<and> sq_recv_ok st ((sp_recvs s)(f := None)) (sp_woken s @ woken)
     | Ready (Err _) \<Rightarrow> sq_values st = sq_values (sp_st s) \<and> sq_recv_ok st ((sp_recvs s)(f := None)) (sp_woken s @ woken))"
proof -
  have r: "sq_recv_ok (sp_st s) (sp_recvs s) (sp_woken s)" and k: "sq_send_ok (sp_st s) (sp_sends s) (sp_woken s)"
    using i by (simp_all add: spmc_inv_def)
  show ?thesis
  proof (cases "sq_values (sp_st s)")
    case Nil
    show ?thesis
    proof (cases "sq_sender_alive (sp_st s)")
      case True
      show ?thesis
        by (rule sq_recv_poll_empty [OF r f Nil True p]) (use k in \<open>auto simp: sq_send_ok_def\<close>)
    next
      case False
      show ?thesis
        using sq_recv_poll_gone(1) [OF r f Nil False, of w] sq_recv_poll_gone(2) [OF r f Nil False] p k by auto
    qed
  next
    case (Cons v vs)
    show ?thesis by (rule sq_recv_poll_value [OF k r f Cons, of w]) (use p Cons in auto)
  qed
qed

lemma spmc_value_open: "spmc_inv cap s \<Longrightarrow> sq_values (sp_st s) \<noteq> [] \<Longrightarrow> sp_discarded s = []"
  by (auto simp: spmc_inv_def sq_send_ok_def send_full_def)

lemma sole_one: "sole [f \<mapsto> k]" "regs_of [f \<mapsto> None] = (\<lambda>f. None)"
  by (auto simp: sole_def regs_of_def)

lemma spmc_step_inv:
  assumes "spmc_step s s'" and "spmc_inv cap s"
  shows "spmc_inv cap s'"
  using assms
proof (induction rule: spmc_step.induct)
  case (try_send_ok s v woken st)
  then have "sq_send_ok (sp_st s) Map.empty (sp_woken s)" "sq_recv_ok (sp_st s) (sp_recvs s) (sp_woken s)"
    by (simp_all add: spmc_inv_def)
  then show ?case
    by (rule sq_try_send_ok [where v = v])
      (use try_send_ok in \<open>auto simp: spmc_inv_def sp_next_def split: if_splits\<close>)
next
  case (send s f v)
  then show ?case
    by (cases "sq_receivers (sp_st s) = 0")
      (auto simp: spmc_inv_def sq_send_ok_def send_full_def sole_one simp del: fun_upd_apply regs_of_simps(1))
next
  case (send_ok s f k w send woken st)
  from spmc_send_step [OF send_ok.prems send_ok.hyps(1,2)] send_ok.prems
  show ?case by (simp add: spmc_inv_def sp_next_def)
next
  case (send_err s f k w e send woken st)
  from spmc_send_step [OF send_err.prems send_err.hyps(1,2)] send_err.prems
  show ?case by (simp add: spmc_inv_def sp_next_def)
next
  case (send_pending s f k w send woken st i)
  from spmc_send_step [OF send_pending.prems send_pending.hyps(1,2)] send_pending.prems send_pending.hyps(3)
  show ?case by (simp add: spmc_inv_def sp_next_def)
next
  case (send_drop s f k st)
  then have "sq_send_ok (sp_st s) (sp_sends s) (sp_woken s)" by (simp add: spmc_inv_def)
  then show ?case
    by (rule sq_send_drop_ok [where f = f and q = k])
      (use send_drop in \<open>auto simp: spmc_inv_def sp_next_def sq_recv_ok_def\<close>)
next
  case (try_recv_ok s v woken st)
  then have k: "sq_send_ok (sp_st s) (sp_sends s) (sp_woken s)" and r: "sq_recv_ok (sp_st s) (sp_recvs s) (sp_woken s)"
    by (simp_all add: spmc_inv_def)
  show ?case
    by (rule sq_pop_ok [OF k r])
      (use try_recv_ok spmc_value_open [OF try_recv_ok.prems] in \<open>auto simp: sq_try_recv_def spmc_inv_def sp_next_def\<close>)
next
  case (recv s f)
  then show ?case by (simp add: spmc_inv_def sq_recv_ok_def recv_ok_def fun_upd_regs_of)
next
  case (recv_ok s f k w v i woken st)
  from spmc_recv_step [OF recv_ok.prems recv_ok.hyps(1,2)] recv_ok.prems spmc_value_open [OF recv_ok.prems]
  show ?case by (simp add: spmc_inv_def sp_next_def)
next
  case (recv_err s f k w e i woken st)
  from spmc_recv_step [OF recv_err.prems recv_err.hyps(1,2)] recv_err.prems
  show ?case by (simp add: spmc_inv_def sp_next_def)
next
  case (recv_pending s f k w i woken st)
  from spmc_recv_step [OF recv_pending.prems recv_pending.hyps(1,2)] recv_pending.prems
  show ?case by (clarsimp simp: spmc_inv_def sp_next_def)
next
  case (recv_drop s f k woken st)
  then have "sq_recv_ok (sp_st s) (sp_recvs s) (sp_woken s)" by (simp add: spmc_inv_def)
  then show ?case
    by (rule sq_recv_drop_ok [where f = f and q = k])
      (use recv_drop in \<open>auto simp: spmc_inv_def sp_next_def sq_send_ok_def send_full_more\<close>)
qed (simp_all add: spmc_handle_steps)

lemma spmc_reach_inv: "spmc_step\<^sup>*\<^sup>* (spmc_init cap vs) s \<Longrightarrow> spmc_inv cap s"
  by (induction rule: rtranclp_induct) (auto intro: spmc_init_inv spmc_step_inv)

section \<open>A concrete run\<close>

text \<open>A queue of capacity one that holds 5: the send of 6 parks with waker 7, and 5 is received.\<close>

definition demo_spmc :: "recv_waiter \<Rightarrow> bool \<Rightarrow> nat list \<Rightarrow> nat list \<Rightarrow> waker list \<Rightarrow> nat spmc_sys" where
  "demo_spmc waiter queued values received woken = \<lparr>sp_st = \<lparr>sq_values = values, sq_capacity = Some 1,
     sq_sender_alive = True, sq_receivers = 1, sq_recv_waiters = wl_new, sq_send_waiters = one_waiter queued waiter\<rparr>,
     sp_recvs = Map.empty, sp_sends = [0 \<mapsto> Some (node_id, 7, 0)], sp_pending = (\<lambda>f. 6), sp_woken = woken,
     sp_sent = [5], sp_received = received, sp_discarded = []\<rparr>"

lemma demo_spmc_full: "spmc_step\<^sup>*\<^sup>* (spmc_init (Some 1) (\<lambda>f. 6)) (demo_spmc (RecvWaiting 7) True [5] [] [])"
proof -
  let ?s0 = "spmc_init (Some 1) (\<lambda>f. 6) :: nat spmc_sys"
  let ?s1 = "?s0\<lparr>sp_st := (sq_new (Some 1))\<lparr>sq_values := [5]\<rparr>, sp_sent := [5]\<rparr>"
  let ?s2 = "?s1\<lparr>sp_sends := [0 \<mapsto> None]\<rparr>"
  have "spmc_step ?s0 ?s1"
    using spmc_step.try_send_ok [of ?s0 5 "[]" "(sq_new (Some 1))\<lparr>sq_values := [5]\<rparr>"]
    by (simp add: spmc_init_def sp_next_def) (simp add: op_defs)
  moreover have "spmc_step ?s1 ?s2"
    using spmc_step.send [of ?s1 0 6] by (simp add: spmc_init_def sq_new_def fun_upd_idem)
  moreover have "spmc_step ?s2 (demo_spmc (RecvWaiting 7) True [5] [] [])"
    using spmc_step.send_pending [of ?s2 0 None 7 "\<lparr>ss_waiter = Some node_id, ss_value = Some 6\<rparr>" "[]"
        "sp_st (demo_spmc (RecvWaiting 7) True [5] [] [])" node_id]
    by (simp add: spmc_init_def demo_spmc_def sp_next_def sq_send_poll_def sq_new_def sq_has_capacity_def
        recv_register_fresh one_waiter_simps)
  ultimately show ?thesis by (meson run_step rtranclp.rtrancl_refl)
qed

lemma demo_spmc_received: "spmc_step\<^sup>*\<^sup>* (spmc_init (Some 1) (\<lambda>f. 6)) (demo_spmc Notified False [] [5] [7])"
proof -
  have "spmc_step (demo_spmc (RecvWaiting 7) True [5] [] []) (demo_spmc Notified False [] [5] [7])"
    using spmc_step.try_recv_ok [of "demo_spmc (RecvWaiting 7) True [5] [] []" 5 "[7]" "sp_st (demo_spmc Notified False [] [5] [7])"]
    by (simp add: demo_spmc_def sp_next_def sq_try_recv_def sq_pop_def notify_one_def
        one_waiter_unlink always_def one_waiter_simps)
  with demo_spmc_full show ?thesis by (rule run_step)
qed

section \<open>Properties\<close>

text \<open>
  C21: the queue delivers every value exactly once and in order, never holds more values than
  its capacity, and discards values only when the last receiver is gone.
\<close>

theorem spmc_delivers_in_order:
  assumes "spmc_step\<^sup>*\<^sup>* (spmc_init cap vs) s"
  shows "sp_sent s = sp_received s @ sp_discarded s @ sq_values (sp_st s) \<and>
    (\<forall>c. cap = Some c \<longrightarrow> length (sq_values (sp_st s)) \<le> c) \<and>
    (sq_receivers (sp_st s) \<noteq> 0 \<longrightarrow> sp_discarded s = [])"
  using spmc_reach_inv [OF assms] by (auto simp: spmc_inv_def sq_send_ok_def send_full_def)

theorem spmc_delivers_in_order_witness:
  "sp_sent (demo_spmc Notified False [] [5] [7]) = sp_received (demo_spmc Notified False [] [5] [7])"
  using spmc_delivers_in_order [OF demo_spmc_received] by (simp add: demo_spmc_def)

text \<open>
  C22: no wake-up is lost. A pending send for which there is room, or nobody to receive, has been
  woken since its last poll and completes at the next one. A pending receive is queued only while
  at least as many other receives are notified as there are buffered values; a notified receive,
  and every pending one once the sender is gone, has been woken since its last poll.
\<close>

theorem spmc_wakeups:
  assumes "spmc_step\<^sup>*\<^sup>* (spmc_init cap vs) s"
  shows "(sp_sends s f = Some (Some (i, w, m)) \<longrightarrow> sq_receivers (sp_st s) = 0 \<or> sq_has_capacity (sp_st s) \<longrightarrow>
      w \<in> set (drop m (sp_woken s)) \<and>
      (\<exists>r send ws st. sq_send_poll (sp_st s) \<lparr>ss_waiter = Some i, ss_value = Some v\<rparr> w' = Some (Ready r, send, ws, st))) \<and>
    (sp_recvs s f = Some (Some (i, w, m)) \<longrightarrow>
      (if sq_sender_alive (sp_st s) \<and> i \<in> set (wl_queue (sq_recv_waiters (sp_st s)))
       then length (sq_values (sp_st s)) \<le>
         card (dom (wl_val (sq_recv_waiters (sp_st s))) - set (wl_queue (sq_recv_waiters (sp_st s))))
       else w \<in> set (drop m (sp_woken s))))"
proof (intro conjI impI)
  have r: "sq_recv_ok (sp_st s) (sp_recvs s) (sp_woken s)" and k: "sq_send_ok (sp_st s) (sp_sends s) (sp_woken s)"
    using spmc_reach_inv [OF assms] by (simp_all add: spmc_inv_def)
  have all: "w \<in> set (drop m woken)" if "woken_all (regs_of F) woken" "regs_of F f = Some (i, w, m)" for F woken
    using that unfolding woken_all_def by blast
  show "w \<in> set (drop m (sp_woken s))" "\<exists>r send ws st. sq_send_poll (sp_st s) \<lparr>ss_waiter = Some i, ss_value = Some v\<rparr> w' = Some (Ready r, send, ws, st)"
    if f: "sp_sends s f = Some (Some (i, w, m))" and o: "sq_receivers (sp_st s) = 0 \<or> sq_has_capacity (sp_st s)"
  proof -
    have f': "regs_of (sp_sends s) f = Some (i, w, m)" using f by simp
    show "w \<in> set (drop m (sp_woken s))"
    proof (cases "sq_receivers (sp_st s) = 0")
      case True
      then show ?thesis using all [OF _ f'] k by (simp add: sq_send_ok_def send_full_def)
    next
      case False
      then have "wl_queue (sq_send_waiters (sp_st s)) = []"
        using o k by (auto simp: sq_send_ok_def send_full_def sq_has_capacity_def)
      then show ?thesis using ro.owned_taken(2) [OF sq_send_ok_live(1) [OF k False] f'] by simp
    qed
    show "\<exists>r send ws st. sq_send_poll (sp_st s) \<lparr>ss_waiter = Some i, ss_value = Some v\<rparr> w' = Some (Ready r, send, ws, st)"
    proof (cases "sq_receivers (sp_st s) = 0")
      case True
      then show ?thesis using sq_send_poll_gone(1) [OF k True] by blast
    next
      case False
      have "sq_has_capacity (sp_st s)" using o False by simp
      from sq_send_poll_space [OF k r f False this, of v w'] show ?thesis
        by (metis option.simps(9) prod.sel(1))
    qed
  qed
  show "if sq_sender_alive (sp_st s) \<and> i \<in> set (wl_queue (sq_recv_waiters (sp_st s)))
       then length (sq_values (sp_st s)) \<le>
         card (dom (wl_val (sq_recv_waiters (sp_st s))) - set (wl_queue (sq_recv_waiters (sp_st s))))
       else w \<in> set (drop m (sp_woken s))" if f: "sp_recvs s f = Some (Some (i, w, m))"
  proof -
    have f': "regs_of (sp_recvs s) f = Some (i, w, m)" using f by simp
    show ?thesis
      using r all [OF _ f'] ro.owned_taken(2) [of "sq_recv_waiters (sp_st s)" "regs_of (sp_recvs s)", OF _ f']
      by (cases "sq_sender_alive (sp_st s)") (auto simp: sq_recv_ok_def recv_ok_def ro.held_def)
  qed
qed

theorem spmc_wakeups_witness:
  "(7::waker) \<in> set (drop 0 (sp_woken (demo_spmc Notified False [] [5] [7])))"
  using spmc_wakeups [OF demo_spmc_received, of 0 node_id 7 0] by (simp add: demo_spmc_def sq_has_capacity_def)

end
