(* ===== verification/MpscUnbounded.thy ===== *)
theory MpscUnbounded
  imports Waiters ChannelErrors "HOL-Library.Log_Nat"
begin

text \<open>
  The unbounded channel of \<open>mpsc/unbounded\<close>: senders append to a segmented buffer under a lock,
  and the only receiver moves one segment at a time into a private batch. The size of a value,
  \<open>size_of::<T>()\<close>, is the parameter \<open>sz\<close>; capacities of allocations are not modelled.
\<close>

section \<open>The segmented buffer\<close>

definition segment_bytes :: usize where
  "segment_bytes = 32 * 1024"

text \<open>\<open>usize::leading_zeros\<close>: the bits of a 64-bit number above its highest set bit.\<close>

definition leading_zeros :: "usize \<Rightarrow> nat" where
  "leading_zeros n = 64 - floorlog 2 n"

definition segment_capacity :: "usize \<Rightarrow> usize" where
  "segment_capacity sz =
     (if sz = 0 then usize_max
      else if sz > segment_bytes then 1
      else let limit = segment_bytes div sz in 2 ^ (64 - 1 - leading_zeros limit))"

record 'a buffer =
  bf_writable :: "'a list"
  bf_sealed :: "'a list list"

definition buffer_new :: "'a buffer" where
  "buffer_new = \<lparr>bf_writable = [], bf_sealed = []\<rparr>"

definition buffer_is_empty :: "'a buffer \<Rightarrow> bool" where
  "buffer_is_empty b \<longleftrightarrow> bf_writable b = [] \<and> bf_sealed b = []"

definition buffer_push :: "usize \<Rightarrow> 'a buffer \<Rightarrow> 'a \<Rightarrow> 'a buffer" where
  "buffer_push sz b value =
     (let b = (if length (bf_writable b) = segment_capacity sz
               then b\<lparr>bf_writable := [], bf_sealed := bf_sealed b @ [bf_writable b]\<rparr> else b)
      in b\<lparr>bf_writable := bf_writable b @ [value]\<rparr>)"

text \<open>\<open>refill\<close>: the new batch and buffer; the retired allocations hold no values.\<close>

definition buffer_refill :: "'a buffer \<Rightarrow> 'a list \<Rightarrow> ('a list \<times> 'a buffer) option" where
  "buffer_refill b batch = do {
     guard (batch = []);
     (case bf_sealed b of
        sealed # rest \<Rightarrow> Some (sealed, b\<lparr>bf_sealed := rest\<rparr>)
      | [] \<Rightarrow>
          if bf_writable b \<noteq> [] then Some (bf_writable b, b\<lparr>bf_writable := batch\<rparr>)
          else Some (batch, b)) }"

definition pop_batch :: "usize \<Rightarrow> 'a list \<Rightarrow> ('a \<times> 'a list) option" where
  "pop_batch sz batch =
     (if sz > segment_bytes then do {
        guard (length batch = 1);
        (case batch of value # _ \<Rightarrow> Some (value, []) | [] \<Rightarrow> None) }
      else (case batch of value # rest \<Rightarrow> Some (value, rest) | [] \<Rightarrow> None))"

section \<open>The channel\<close>

record 'a mpsc_state =
  mu_buffer :: "'a buffer"
  mu_senders :: usize
  mu_receiver :: bool
  mu_recv_waker :: "waker option"

definition mpsc_unbounded :: "'a mpsc_state \<times> 'a list" where
  "mpsc_unbounded = (\<lparr>mu_buffer = buffer_new, mu_senders = 1, mu_receiver = True, mu_recv_waker = None\<rparr>, [])"

definition mu_clone_sender :: "'a mpsc_state \<Rightarrow> 'a mpsc_state option" where
  "mu_clone_sender st = do {
     senders \<leftarrow> checked_add (mu_senders st) 1;
     Some (st\<lparr>mu_senders := senders\<rparr>) }"

definition mu_drop_sender :: "'a mpsc_state \<Rightarrow> (waker list \<times> 'a mpsc_state) option" where
  "mu_drop_sender st = do {
     senders \<leftarrow> checked_sub (mu_senders st) 1;
     let st = st\<lparr>mu_senders := senders\<rparr>;
     if senders = 0 then Some (opt_list (mu_recv_waker st), st\<lparr>mu_recv_waker := None\<rparr>)
     else Some ([], st) }"

definition mu_send :: "usize \<Rightarrow> 'a mpsc_state \<Rightarrow> 'a \<Rightarrow> (unit, 'a send_error) result \<times> waker list \<times> 'a mpsc_state" where
  "mu_send sz st value =
     (if \<not> mu_receiver st then (Err (SendError value), [], st)
      else (Ok (), opt_list (mu_recv_waker st),
            st\<lparr>mu_buffer := buffer_push sz (mu_buffer st) value, mu_recv_waker := None\<rparr>))"

text \<open>The receiver owns the batch; dropping it returns everything it discards, in the order sent.\<close>

definition buffer_list :: "'a buffer \<Rightarrow> 'a list" where
  "buffer_list b = concat (bf_sealed b) @ bf_writable b"

definition mu_drop_receiver :: "'a mpsc_state \<Rightarrow> 'a list \<Rightarrow> 'a list \<times> 'a mpsc_state" where
  "mu_drop_receiver st batch =
     (batch @ buffer_list (mu_buffer st),
      st\<lparr>mu_receiver := False, mu_buffer := buffer_new, mu_recv_waker := None\<rparr>)"

definition mu_try_recv ::
  "usize \<Rightarrow> 'a mpsc_state \<Rightarrow> 'a list \<Rightarrow> (('a, try_recv_error) result \<times> 'a list \<times> 'a mpsc_state) option" where
  "mu_try_recv sz st batch = do {
     (batch, st) \<leftarrow>
       (if batch = [] then do {
          (batch, buffer) \<leftarrow> buffer_refill (mu_buffer st) batch;
          Some (batch, st\<lparr>mu_buffer := buffer\<rparr>) }
        else Some (batch, st));
     if batch = [] then Some (Err (if mu_senders st = 0 then RecvDisconnected else Empty), batch, st)
     else do {
       (value, batch) \<leftarrow> pop_batch sz batch;
       Some (Ok value, batch, st) } }"

definition mu_poll_recv ::
  "usize \<Rightarrow> 'a mpsc_state \<Rightarrow> 'a list \<Rightarrow> waker \<Rightarrow>
     (('a, recv_error) result poll \<times> 'a list \<times> 'a mpsc_state) option" where
  "mu_poll_recv sz st batch current =
     (if batch \<noteq> [] then do {
        (value, batch) \<leftarrow> pop_batch sz batch;
        Some (Ready (Ok value), batch, st) }
      else do {
        (batch, buffer) \<leftarrow> buffer_refill (mu_buffer st) batch;
        let st = st\<lparr>mu_buffer := buffer\<rparr>;
        if batch \<noteq> [] then do {
          (value, batch) \<leftarrow> pop_batch sz batch;
          Some (Ready (Ok value), batch, st) }
        else if mu_senders st = 0 then
          Some (Ready (Err Disconnected), batch, st\<lparr>mu_recv_waker := None\<rparr>)
        else Some (Pending, batch, st\<lparr>mu_recv_waker := snd (register_waker (mu_recv_waker st) current)\<rparr>) })"

definition mu_receiver_is_empty :: "'a mpsc_state \<Rightarrow> 'a list \<Rightarrow> bool" where
  "mu_receiver_is_empty st batch \<longleftrightarrow> batch = [] \<and> buffer_is_empty (mu_buffer st)"

definition mu_sender_is_disconnected :: "'a mpsc_state \<Rightarrow> bool" where
  "mu_sender_is_disconnected st \<longleftrightarrow> \<not> mu_receiver st"

definition mu_receiver_is_disconnected :: "'a mpsc_state \<Rightarrow> bool" where
  "mu_receiver_is_disconnected st \<longleftrightarrow> mu_senders st = 0"

section \<open>The segments\<close>

lemma segment_capacity_pos: "0 < segment_capacity sz"
  by (simp add: segment_capacity_def usize_max_def Let_def)

lemma power_floorlog:
  assumes "0 < n"
  shows "2 ^ (floorlog 2 n - 1) \<le> n" and "n < 2 ^ floorlog 2 n"
  using floorlog_bounds [of n 2] assms by simp_all

text \<open>
  Sealed segments are full, and the batch and the open segment are at most full. So a sealed
  segment is never empty and the batch of oversized values holds at most one.
\<close>

definition segments_ok :: "usize \<Rightarrow> 'a list \<Rightarrow> 'a buffer \<Rightarrow> bool" where
  "segments_ok sz batch b \<longleftrightarrow> length batch \<le> segment_capacity sz \<and> length (bf_writable b) \<le> segment_capacity sz \<and>
     (\<forall>seg\<in>set (bf_sealed b). length seg = segment_capacity sz)"

lemma segments_ok_new: "segments_ok sz [] buffer_new"
  by (simp add: segments_ok_def buffer_new_def)

lemma buffer_push_ok:
  assumes "segments_ok sz batch b"
  shows "segments_ok sz batch (buffer_push sz b v)" and "buffer_list (buffer_push sz b v) = buffer_list b @ [v]"
  using assms segment_capacity_pos [of sz]
  by (auto simp: segments_ok_def buffer_push_def buffer_list_def Let_def)

lemma buffer_is_empty_iff:
  assumes "segments_ok sz batch b"
  shows "buffer_is_empty b \<longleftrightarrow> buffer_list b = []"
  using assms segment_capacity_pos [of sz]
  by (cases "bf_sealed b") (auto simp: segments_ok_def buffer_is_empty_def buffer_list_def)

lemma buffer_refill_ok:
  assumes "segments_ok sz [] b"
  obtains batch b' where "buffer_refill b [] = Some (batch, b')" and "segments_ok sz batch b'"
    and "batch @ buffer_list b' = buffer_list b" and "batch = [] \<longleftrightarrow> buffer_list b = []"
proof (cases "bf_sealed b")
  case Nil
  show thesis
  proof (cases "bf_writable b = []")
    case True
    then show thesis using that [of "[]" b] assms Nil by (simp add: buffer_refill_def buffer_list_def)
  next
    case False
    then have "buffer_refill b [] = Some (bf_writable b, b\<lparr>bf_writable := []\<rparr>)" using Nil by (simp add: buffer_refill_def)
    then show thesis using that assms Nil False by (simp add: segments_ok_def buffer_list_def)
  qed
next
  case (Cons seg rest)
  then have "seg \<noteq> []" using assms segment_capacity_pos [of sz] by (auto simp: segments_ok_def)
  moreover have "buffer_refill b [] = Some (seg, b\<lparr>bf_sealed := rest\<rparr>)" using Cons by (simp add: buffer_refill_def)
  ultimately show thesis using that assms Cons by (simp add: segments_ok_def buffer_list_def)
qed

lemma pop_batch_ok:
  assumes "segments_ok sz (v # batch) b"
  shows "pop_batch sz (v # batch) = Some (v, batch)" and "segments_ok sz batch b"
proof -
  have "batch = []" if "sz > segment_bytes"
    using that assms by (simp add: segments_ok_def segment_capacity_def segment_bytes_def split: if_splits)
  then show "pop_batch sz (v # batch) = Some (v, batch)" by (simp add: pop_batch_def)
  show "segments_ok sz batch b" using assms by (simp add: segments_ok_def)
qed

section \<open>All interleavings\<close>

text \<open>
  The channel with its receiver's batch, the last poll of the receiver that was pending, with
  its waker and the wake-ups delivered by then, and the values sent, received and discarded.
\<close>

record 'a mpsc_sys =
  mc_st :: "'a mpsc_state"
  mc_batch :: "'a list"
  mc_parked :: "(waker \<times> nat) option"
  mc_woken :: "waker list"
  mc_sent :: "'a list"
  mc_received :: "'a list"
  mc_discarded :: "'a list"

definition mpsc_init :: "'a mpsc_sys" where
  "mpsc_init = \<lparr>mc_st = fst mpsc_unbounded, mc_batch = snd mpsc_unbounded, mc_parked = None, mc_woken = [],
     mc_sent = [], mc_received = [], mc_discarded = []\<rparr>"

inductive mpsc_step :: "usize \<Rightarrow> 'a mpsc_sys \<Rightarrow> 'a mpsc_sys \<Rightarrow> bool" for sz where
  clone_sender: "mu_senders (mc_st s) \<noteq> 0 \<Longrightarrow> mu_clone_sender (mc_st s) = Some st \<Longrightarrow> mpsc_step sz s (s\<lparr>mc_st := st\<rparr>)"
| drop_sender: "mu_drop_sender (mc_st s) = Some (woken, st) \<Longrightarrow>
    mpsc_step sz s (s\<lparr>mc_st := st, mc_woken := mc_woken s @ woken\<rparr>)"
| send: "mu_senders (mc_st s) \<noteq> 0 \<Longrightarrow> mu_send sz (mc_st s) v = (r, woken, st) \<Longrightarrow>
    mpsc_step sz s (s\<lparr>mc_st := st, mc_woken := mc_woken s @ woken,
      mc_sent := mc_sent s @ (if r = Ok () then [v] else [])\<rparr>)"
| drop_receiver: "mu_receiver (mc_st s) \<Longrightarrow> mu_drop_receiver (mc_st s) (mc_batch s) = (discarded, st) \<Longrightarrow>
    mpsc_step sz s (s\<lparr>mc_st := st, mc_batch := [], mc_parked := None, mc_discarded := discarded\<rparr>)"
| try_recv: "mu_receiver (mc_st s) \<Longrightarrow> mu_try_recv sz (mc_st s) (mc_batch s) = Some (r, batch, st) \<Longrightarrow>
    mpsc_step sz s (s\<lparr>mc_st := st, mc_batch := batch,
      mc_received := mc_received s @ (case r of Ok v \<Rightarrow> [v] | Err _ \<Rightarrow> [])\<rparr>)"
| poll_ready: "mu_receiver (mc_st s) \<Longrightarrow> mu_poll_recv sz (mc_st s) (mc_batch s) w = Some (Ready r, batch, st) \<Longrightarrow>
    mpsc_step sz s (s\<lparr>mc_st := st, mc_batch := batch, mc_parked := None,
      mc_received := mc_received s @ (case r of Ok v \<Rightarrow> [v] | Err _ \<Rightarrow> [])\<rparr>)"
| poll_pending: "mu_receiver (mc_st s) \<Longrightarrow> mu_poll_recv sz (mc_st s) (mc_batch s) w = Some (Pending, batch, st) \<Longrightarrow>
    mpsc_step sz s (s\<lparr>mc_st := st, mc_batch := batch, mc_parked := Some (w, length (mc_woken s))\<rparr>)"

text \<open>
  A parked receiver has been woken since it parked, or its waker is still registered, the
  channel is open, and there is nothing to receive.
\<close>

definition park_ok :: "'a mpsc_state \<Rightarrow> 'a list \<Rightarrow> (waker \<times> nat) option \<Rightarrow> waker list \<Rightarrow> bool" where
  "park_ok st batch parked woken \<longleftrightarrow>
     (\<forall>w m. parked = Some (w, m) \<longrightarrow> m \<le> length woken \<and>
        (w \<in> set (drop m woken) \<or>
         mu_recv_waker st = Some w \<and> mu_senders st \<noteq> 0 \<and> batch = [] \<and> buffer_list (mu_buffer st) = []))"

definition mpsc_inv :: "usize \<Rightarrow> 'a mpsc_sys \<Rightarrow> bool" where
  "mpsc_inv sz s \<longleftrightarrow> segments_ok sz (mc_batch s) (mu_buffer (mc_st s)) \<and>
     park_ok (mc_st s) (mc_batch s) (mc_parked s) (mc_woken s) \<and>
     mc_sent s = mc_received s @ mc_discarded s @ mc_batch s @ buffer_list (mu_buffer (mc_st s)) \<and>
     (mu_receiver (mc_st s) \<longrightarrow> mc_discarded s = []) \<and>
     (\<not> mu_receiver (mc_st s) \<longrightarrow> mc_batch s = [] \<and> buffer_list (mu_buffer (mc_st s)) = [])"

lemma mpsc_init_inv: "mpsc_inv sz mpsc_init"
  by (simp add: mpsc_inv_def mpsc_init_def mpsc_unbounded_def segments_ok_def park_ok_def buffer_list_def buffer_new_def)

section \<open>Receiving\<close>

lemma mu_poll_recv_value:
  assumes k: "segments_ok sz batch (mu_buffer st)" and v: "batch @ buffer_list (mu_buffer st) = v # vs"
  obtains batch' st' where "mu_poll_recv sz st batch w = Some (Ready (Ok v), batch', st')"
    and "mu_try_recv sz st batch = Some (Ok v, batch', st')"
    and "segments_ok sz batch' (mu_buffer st')" and "batch' @ buffer_list (mu_buffer st') = vs"
    and "st' = st\<lparr>mu_buffer := mu_buffer st'\<rparr>"
proof (cases batch)
  case Nil
  obtain b1 bf where r: "buffer_refill (mu_buffer st) [] = Some (b1, bf)" "segments_ok sz b1 bf"
    "b1 @ buffer_list bf = buffer_list (mu_buffer st)" "b1 = [] \<longleftrightarrow> buffer_list (mu_buffer st) = []"
    by (rule buffer_refill_ok [OF k [unfolded Nil]])
  then obtain b2 where b: "b1 = v # b2" using v Nil by (cases b1) auto
  from pop_batch_ok [OF r(2) [unfolded b]] show thesis
    using that [of b2 "st\<lparr>mu_buffer := bf\<rparr>"] r v Nil b by (simp add: mu_poll_recv_def mu_try_recv_def)
next
  case (Cons x rest)
  then have "x = v" using v by simp
  from pop_batch_ok [OF k [unfolded Cons]] show thesis
    using that [of rest st] v Cons \<open>x = v\<close> by (simp add: mu_poll_recv_def mu_try_recv_def)
qed

lemma mu_recv_empty:
  assumes k: "segments_ok sz batch (mu_buffer st)" and v: "batch @ buffer_list (mu_buffer st) = []"
  shows "mu_poll_recv sz st batch w =
      (if mu_senders st = 0 then Some (Ready (Err Disconnected), [], st\<lparr>mu_recv_waker := None\<rparr>)
       else Some (Pending, [], st\<lparr>mu_recv_waker := Some w\<rparr>))"
    and "mu_try_recv sz st batch = Some (Err (if mu_senders st = 0 then RecvDisconnected else Empty), [], st)"
proof -
  have "buffer_is_empty (mu_buffer st)" using buffer_is_empty_iff [OF k] v by simp
  then have "buffer_refill (mu_buffer st) [] = Some ([], mu_buffer st)"
    by (simp add: buffer_is_empty_def buffer_refill_def)
  then show "mu_poll_recv sz st batch w =
      (if mu_senders st = 0 then Some (Ready (Err Disconnected), [], st\<lparr>mu_recv_waker := None\<rparr>)
       else Some (Pending, [], st\<lparr>mu_recv_waker := Some w\<rparr>))"
    "mu_try_recv sz st batch = Some (Err (if mu_senders st = 0 then RecvDisconnected else Empty), [], st)"
    using v by (simp_all add: mu_poll_recv_def mu_try_recv_def)
qed

lemma park_ok_woken: "park_ok st batch parked woken \<Longrightarrow> mu_recv_waker st = k \<Longrightarrow>
    park_ok st' batch' parked (woken @ opt_list k)"
  by (auto simp: park_ok_def opt_list_def split: option.splits)

lemma mpsc_recv_inv:
  assumes i: "mpsc_inv sz s" and a: "mu_receiver (mc_st s)"
    and r: "mu_try_recv sz (mc_st s) (mc_batch s) = Some (r, batch, st)"
  shows "mpsc_inv sz (s\<lparr>mc_st := st, mc_batch := batch,
      mc_received := mc_received s @ (case r of Ok v \<Rightarrow> [v] | Err _ \<Rightarrow> [])\<rparr>)"
proof (cases "mc_batch s @ buffer_list (mu_buffer (mc_st s))")
  case Nil
  have k: "segments_ok sz (mc_batch s) (mu_buffer (mc_st s))" using i by (simp add: mpsc_inv_def)
  from mu_recv_empty(2) [OF k Nil] i r Nil show ?thesis by (auto simp: mpsc_inv_def)
next
  case (Cons v vs)
  have k: "segments_ok sz (mc_batch s) (mu_buffer (mc_st s))" using i by (simp add: mpsc_inv_def)
  obtain batch' st' where n: "mu_try_recv sz (mc_st s) (mc_batch s) = Some (Ok v, batch', st')"
    "segments_ok sz batch' (mu_buffer st')" "batch' @ buffer_list (mu_buffer st') = vs"
    "st' = (mc_st s)\<lparr>mu_buffer := mu_buffer st'\<rparr>"
    by (rule mu_poll_recv_value [OF k Cons])
  have f: "mu_receiver st'" by (subst n(4)) (simp add: a)
  have "park_ok st' batch' (mc_parked s) (mc_woken s)" using i Cons by (auto simp: mpsc_inv_def park_ok_def)
  then show ?thesis using i r n(1,2,3) f Cons a by (auto simp: mpsc_inv_def)
qed

lemma mpsc_poll_inv:
  assumes i: "mpsc_inv sz s" and a: "mu_receiver (mc_st s)"
    and r: "mu_poll_recv sz (mc_st s) (mc_batch s) w = Some (p, batch, st)"
  shows "mpsc_inv sz (s\<lparr>mc_st := st, mc_batch := batch,
      mc_parked := (if p = Pending then Some (w, length (mc_woken s)) else None),
      mc_received := mc_received s @ (case p of Ready (Ok v) \<Rightarrow> [v] | _ \<Rightarrow> [])\<rparr>)"
proof (cases "mc_batch s @ buffer_list (mu_buffer (mc_st s))")
  case Nil
  have k: "segments_ok sz (mc_batch s) (mu_buffer (mc_st s))" using i by (simp add: mpsc_inv_def)
  from mu_recv_empty(1) [OF k Nil, of w] i r Nil a show ?thesis
    by (auto simp: mpsc_inv_def park_ok_def split: if_splits)
next
  case (Cons v vs)
  have k: "segments_ok sz (mc_batch s) (mu_buffer (mc_st s))" using i by (simp add: mpsc_inv_def)
  obtain batch' st' where n: "mu_poll_recv sz (mc_st s) (mc_batch s) w = Some (Ready (Ok v), batch', st')"
    "segments_ok sz batch' (mu_buffer st')" "batch' @ buffer_list (mu_buffer st') = vs"
    "st' = (mc_st s)\<lparr>mu_buffer := mu_buffer st'\<rparr>"
    by (rule mu_poll_recv_value [OF k Cons])
  have f: "mu_receiver st'" by (subst n(4)) (simp add: a)
  then show ?thesis using i r n(1,2,3) Cons a by (auto simp: mpsc_inv_def park_ok_def)
qed

lemma mpsc_send_inv:
  assumes i: "mpsc_inv sz s" and r: "mu_send sz (mc_st s) v = (r, woken, st)"
  shows "mpsc_inv sz (s\<lparr>mc_st := st, mc_woken := mc_woken s @ woken,
      mc_sent := mc_sent s @ (if r = Ok () then [v] else [])\<rparr>)"
proof (cases "mu_receiver (mc_st s)")
  case False
  then have "st = mc_st s" "woken = []" "r \<noteq> Ok ()" using r by (auto simp: mu_send_def)
  then show ?thesis using i by (simp add: mpsc_inv_def)
next
  case True
  have k: "segments_ok sz (mc_batch s) (mu_buffer (mc_st s))" and p: "park_ok (mc_st s) (mc_batch s) (mc_parked s) (mc_woken s)"
    using i by (simp_all add: mpsc_inv_def)
  have "woken = opt_list (mu_recv_waker (mc_st s))" using r True by (auto simp: mu_send_def)
  then have "park_ok st (mc_batch s) (mc_parked s) (mc_woken s @ woken)"
    using park_ok_woken [OF p refl] by (simp only:)
  then show ?thesis using i r True buffer_push_ok [OF k, of v] by (auto simp: mpsc_inv_def mu_send_def)
qed

lemma mpsc_step_inv: "mpsc_step sz s s' \<Longrightarrow> mpsc_inv sz s \<Longrightarrow> mpsc_inv sz s'"
proof (induction rule: mpsc_step.induct)
  case (clone_sender s st)
  then show ?case by (auto simp: mpsc_inv_def park_ok_def mu_clone_sender_def panic_simps)
next
  case (drop_sender s woken st)
  have p: "park_ok (mc_st s) (mc_batch s) (mc_parked s) (mc_woken s)" using drop_sender by (simp add: mpsc_inv_def)
  show ?case
  proof (cases "mu_senders (mc_st s) = 1")
    case True
    then have "woken = opt_list (mu_recv_waker (mc_st s))"
      "st = (mc_st s)\<lparr>mu_senders := 0, mu_recv_waker := None\<rparr>"
      using drop_sender.hyps by (auto simp: mu_drop_sender_def checked_sub_def)
    with park_ok_woken [OF p refl, of st "mc_batch s"] drop_sender.prems show ?thesis by (simp add: mpsc_inv_def)
  next
    case False
    then show ?thesis
      using drop_sender by (auto simp: mpsc_inv_def park_ok_def mu_drop_sender_def checked_sub_def panic_simps split: if_splits)
  qed
next
  case (send s v r woken st)
  then show ?case by (intro mpsc_send_inv)
next
  case (drop_receiver s discarded st)
  then show ?case
    by (auto simp: mpsc_inv_def mu_drop_receiver_def segments_ok_def park_ok_def buffer_list_def buffer_new_def)
next
  case (try_recv s r batch st)
  then show ?case by (intro mpsc_recv_inv)
next
  case (poll_ready s w r batch st)
  then show ?case using mpsc_poll_inv [of sz s w "Ready r" batch st] by simp
next
  case (poll_pending s w batch st)
  then show ?case using mpsc_poll_inv [of sz s w Pending batch st] by simp
qed

lemma mpsc_reach_inv: "(mpsc_step sz)\<^sup>*\<^sup>* mpsc_init s \<Longrightarrow> mpsc_inv sz s"
  by (induction rule: rtranclp_induct) (auto intro: mpsc_init_inv mpsc_step_inv)

section \<open>A concrete run\<close>

text \<open>The receiver parks with waker 7, then 5 and 6 are sent and 5 is received.\<close>

definition demo_mpsc :: "nat list \<Rightarrow> nat list \<Rightarrow> waker option \<Rightarrow> waker list \<Rightarrow> nat list \<Rightarrow> nat list \<Rightarrow> nat mpsc_sys" where
  "demo_mpsc writable batch waker woken sent received = \<lparr>mc_st = \<lparr>mu_buffer = \<lparr>bf_writable = writable, bf_sealed = []\<rparr>,
     mu_senders = 1, mu_receiver = True, mu_recv_waker = waker\<rparr>, mc_batch = batch, mc_parked = Some (7, 0),
     mc_woken = woken, mc_sent = sent, mc_received = received, mc_discarded = []\<rparr>"

lemma segment_capacity_8: "segment_capacity 8 = 4096"
proof -
  have "floorlog 2 4096 = 13"
    by (rule antisym [OF floorlog_leI floorlog_geI]) simp_all
  then show ?thesis by (simp add: segment_capacity_def segment_bytes_def leading_zeros_def)
qed

lemma demo_mpsc_reach: "(mpsc_step 8)\<^sup>*\<^sup>* mpsc_init (demo_mpsc [] [6] None [7] [5, 6] [5])"
proof -
  have c: "segment_capacity 8 \<noteq> 0" "segment_capacity 8 \<noteq> Suc 0"
    by (simp_all add: segment_capacity_8)
  have "mpsc_step 8 mpsc_init (demo_mpsc [] [] (Some 7) [] [] [])"
    using mpsc_step.poll_pending [of mpsc_init 8 7 "[]" "mc_st (demo_mpsc [] [] (Some 7) [] [] [])"]
    by (simp add: mpsc_init_def mpsc_unbounded_def buffer_new_def demo_mpsc_def mu_poll_recv_def buffer_refill_def)
  moreover have "mpsc_step 8 (demo_mpsc [] [] (Some 7) [] [] []) (demo_mpsc [5] [] None [7] [5] [])"
    using mpsc_step.send [of "demo_mpsc [] [] (Some 7) [] [] []" 8 5 "Ok ()" "[7]" "mc_st (demo_mpsc [5] [] None [7] [5] [])"] c
    by (simp add: demo_mpsc_def mu_send_def buffer_push_def)
  moreover have "mpsc_step 8 (demo_mpsc [5] [] None [7] [5] []) (demo_mpsc [5, 6] [] None [7] [5, 6] [])"
    using mpsc_step.send [of "demo_mpsc [5] [] None [7] [5] []" 8 6 "Ok ()" "[]" "mc_st (demo_mpsc [5, 6] [] None [7] [5, 6] [])"] c
    by (simp add: demo_mpsc_def mu_send_def buffer_push_def)
  moreover have "mpsc_step 8 (demo_mpsc [5, 6] [] None [7] [5, 6] []) (demo_mpsc [] [6] None [7] [5, 6] [5])"
    using mpsc_step.try_recv [of "demo_mpsc [5, 6] [] None [7] [5, 6] []" 8 "Ok 5" "[6]" "mc_st (demo_mpsc [] [6] None [7] [5, 6] [5])"]
    by (simp add: demo_mpsc_def mu_try_recv_def buffer_refill_def pop_batch_def segment_bytes_def)
  ultimately show ?thesis by (meson run_step rtranclp.rtrancl_refl)
qed

section \<open>Properties\<close>

text \<open>
  C23: the segmented buffer behind the unbounded channel is a queue. Through every interleaving
  of sends and receives, values come out exactly once and in the order of the sends, whatever
  their size and however they fall into segments, the receive operations never hit one of the
  assertions on the batch, and a receiver that parked has been woken since if a value is
  available to it or all senders are gone.
\<close>

theorem mpsc_unbounded_fifo:
  assumes "(mpsc_step sz)\<^sup>*\<^sup>* mpsc_init s"
  shows "mc_sent s = mc_received s @ mc_discarded s @ mc_batch s @ buffer_list (mu_buffer (mc_st s)) \<and>
    (mu_receiver (mc_st s) \<longrightarrow> mc_discarded s = []) \<and>
    mu_try_recv sz (mc_st s) (mc_batch s) \<noteq> None \<and> mu_poll_recv sz (mc_st s) (mc_batch s) w' \<noteq> None \<and>
    (mc_parked s = Some (w, m) \<longrightarrow>
       mu_senders (mc_st s) = 0 \<or> \<not> mu_receiver_is_empty (mc_st s) (mc_batch s) \<longrightarrow> w \<in> set (drop m (mc_woken s)))"
proof -
  have i: "mpsc_inv sz s" by (rule mpsc_reach_inv [OF assms])
  then have k: "segments_ok sz (mc_batch s) (mu_buffer (mc_st s))" by (simp add: mpsc_inv_def)
  have "mu_try_recv sz (mc_st s) (mc_batch s) \<noteq> None \<and> mu_poll_recv sz (mc_st s) (mc_batch s) w' \<noteq> None"
  proof (cases "mc_batch s @ buffer_list (mu_buffer (mc_st s))")
    case Nil
    then show ?thesis using mu_recv_empty [OF k] by simp
  next
    case (Cons v vs)
    show ?thesis by (rule mu_poll_recv_value [OF k Cons, of w']) simp
  qed
  then show ?thesis
    using i buffer_is_empty_iff [OF k] by (auto simp: mpsc_inv_def park_ok_def mu_receiver_is_empty_def)
qed

theorem mpsc_unbounded_fifo_witness:
  "mu_try_recv 8 (mc_st (demo_mpsc [] [6] None [7] [5, 6] [5])) [6] \<noteq> None \<and>
   (7::waker) \<in> set (drop 0 (mc_woken (demo_mpsc [] [6] None [7] [5, 6] [5])))"
  using mpsc_unbounded_fifo [OF demo_mpsc_reach, of 0 7 0]
  by (simp add: demo_mpsc_def mu_receiver_is_empty_def)

text \<open>
  A segment of values of a size from one byte to 32 KiB has a power of two of slots, fits in
  32 KiB, and uses more than half of it.
\<close>

theorem segment_capacity_bounds:
  assumes "0 < sz" and "sz \<le> 32 * 1024"
  shows "(\<exists>k. segment_capacity sz = 2 ^ k) \<and> segment_capacity sz * sz \<le> 32 * 1024 \<and>
    32 * 1024 < 2 * segment_capacity sz * sz"
proof -
  let ?n = "segment_bytes div sz"
  have b: "segment_bytes = 32 * 1024" by (simp add: segment_bytes_def)
  have n: "0 < ?n" "?n \<le> 2 ^ 15" "?n * sz \<le> 32 * 1024"
    using assms div_le_dividend [of segment_bytes sz] by (simp_all add: b div_greater_zero_iff)
  have m: "32 * 1024 < (?n + 1) * sz"
    using dividend_less_div_times [of sz segment_bytes] assms(1) by (simp add: b algebra_simps)
  note l = power_floorlog [OF n(1)]
  have f: "0 < floorlog 2 ?n" using n(1) by (simp add: floorlog_def)
  have "2 ^ (floorlog 2 ?n - 1) \<le> (2::nat) ^ 15" using l(1) n(2) by linarith
  then have "floorlog 2 ?n - 1 \<le> 15" by (rule power_le_imp_le_exp [rotated]) simp
  then have c: "segment_capacity sz = 2 ^ (floorlog 2 ?n - 1)"
    using assms f by (simp add: segment_capacity_def segment_bytes_def leading_zeros_def Let_def)
  have d: "2 * segment_capacity sz = 2 ^ floorlog 2 ?n"
    unfolding c using f by (cases "floorlog 2 ?n") auto
  have "segment_capacity sz * sz \<le> 32 * 1024"
    unfolding c by (rule order_trans [OF mult_le_mono1 [OF l(1)] n(3)])
  moreover have "(?n + 1) * sz \<le> 2 * segment_capacity sz * sz" unfolding d using l(2) by (intro mult_le_mono1) simp
  then have "32 * 1024 < 2 * segment_capacity sz * sz" using m by linarith
  ultimately show ?thesis using c by blast
qed

theorem segment_capacity_bounds_witness: "segment_capacity 24 * 24 \<le> 32 * 1024"
  using segment_capacity_bounds [of 24] by simp

end
