(* ===== verification/Backlog.thy ===== *)
theory Backlog
  imports Arena ChannelErrors
begin

text \<open>
  The message log of \<open>broadcast/mpmc/common.rs\<close>, shared by the bounded and the unbounded
  broadcast channel: the retained messages with a count of the cursors at each of them, and one
  cursor per subscription. The abstraction is the sequence of all messages ever published with a
  map from subscriptions to positions in it. An \<open>Arc\<close> of a message is the message; the
  capacity of the buffer, which \<open>shrink_buffer\<close> manages, holds no messages and is left out, so
  only its bookkeeping of the peak length remains. A \<open>u64\<close> version has the range of a \<open>usize\<close>.
\<close>

section \<open>State and operations\<close>

record 'a received =
  rc_msg :: 'a
  rc_reclaimed :: bool

record 'a reclaimed =
  rd_first :: "'a option"
  rd_rest :: "'a list"

definition reclaimed_empty :: "'a reclaimed" where
  "reclaimed_empty = \<lparr>rd_first = None, rd_rest = []\<rparr>"

definition reclaimed_len :: "'a reclaimed \<Rightarrow> usize" where
  "reclaimed_len r = (if rd_first r \<noteq> None then 1 else 0) + length (rd_rest r)"

datatype retention = Elastic usize | Fixed

record 'a log_slot =
  ls_msg :: 'a
  ls_cursors :: usize

record 'a backlog =
  bl_buffer :: "'a log_slot list"
  bl_head :: nat
  bl_at_tail :: usize
  bl_tail :: nat
  bl_receivers :: "nat arena"
  bl_retention :: retention

definition bl_new :: "retention \<Rightarrow> 'a backlog" where
  "bl_new r = \<lparr>bl_buffer = [], bl_head = 0, bl_at_tail = 0, bl_tail = 0, bl_receivers = arena_new, bl_retention = r\<rparr>"

definition bl_elastic :: "'a backlog" where
  "bl_elastic = bl_new (Elastic 0)"

definition bl_fixed :: "usize \<Rightarrow> 'a backlog" where
  "bl_fixed capacity = bl_new Fixed"

definition bl_retained :: "'a backlog \<Rightarrow> usize" where
  "bl_retained b = length (bl_buffer b)"

definition bl_has_receivers :: "'a backlog \<Rightarrow> bool" where
  "bl_has_receivers b \<longleftrightarrow> \<not> arena_is_empty (bl_receivers b)"

definition bl_unread :: "'a backlog \<Rightarrow> slot_id \<Rightarrow> usize option" where
  "bl_unread b key = do {
     cursor \<leftarrow> arena_get (bl_receivers b) key;
     checked_sub (bl_tail b) cursor }"

definition advance_tail :: "'a backlog \<Rightarrow> 'a backlog option" where
  "advance_tail b = do {
     tail \<leftarrow> checked_add (bl_tail b) 1;
     Some (b\<lparr>bl_tail := tail\<rparr>) }"

definition publish_discarded :: "'a backlog \<Rightarrow> 'a backlog option" where
  "publish_discarded b = do {
     guard (\<not> bl_has_receivers b);
     guard (bl_buffer b = []);
     guard (bl_at_tail b = 0);
     b \<leftarrow> advance_tail b;
     Some (b\<lparr>bl_head := bl_tail b\<rparr>) }"

definition publish_retained :: "'a backlog \<Rightarrow> 'a \<Rightarrow> 'a backlog option" where
  "publish_retained b msg = do {
     guard (bl_has_receivers b);
     b \<leftarrow> advance_tail b;
     let cursors = bl_at_tail b;
     let b = b\<lparr>bl_at_tail := 0, bl_buffer := bl_buffer b @ [\<lparr>ls_msg = msg, ls_cursors = cursors\<rparr>]\<rparr>;
     Some (case bl_retention b of
             Elastic peak_len \<Rightarrow> b\<lparr>bl_retention := Elastic (max peak_len (length (bl_buffer b)))\<rparr>
           | Fixed \<Rightarrow> b) }"

definition bl_publish :: "'a backlog \<Rightarrow> 'a \<Rightarrow> ('a option \<times> 'a backlog) option" where
  "bl_publish b msg =
     (if \<not> bl_has_receivers b then do { b \<leftarrow> publish_discarded b; Some (Some msg, b) }
      else do { b \<leftarrow> publish_retained b msg; Some (None, b) })"

definition bl_subscribe :: "'a backlog \<Rightarrow> (slot_id \<times> 'a backlog) option" where
  "bl_subscribe b = do {
     at_tail \<leftarrow> checked_add (bl_at_tail b) 1;
     (key, receivers) \<leftarrow> arena_insert (bl_receivers b) (bl_tail b);
     Some (key, b\<lparr>bl_at_tail := at_tail, bl_receivers := receivers\<rparr>) }"

definition shrink_buffer :: "'a backlog \<Rightarrow> 'a backlog" where
  "shrink_buffer b =
     (case bl_retention b of
        Fixed \<Rightarrow> b
      | Elastic peak_len \<Rightarrow> if bl_buffer b \<noteq> [] then b else b\<lparr>bl_retention := Elastic 0\<rparr>)"

definition reclaim_vacated :: "'a backlog \<Rightarrow> ('a reclaimed \<times> 'a backlog) option" where
  "reclaim_vacated b = do {
     guard (case bl_buffer b of slot # _ \<Rightarrow> ls_cursors slot = 0 | [] \<Rightarrow> False);
     let first = (case bl_buffer b of slot # _ \<Rightarrow> Some (ls_msg slot) | [] \<Rightarrow> None);
     let buffer = tl (bl_buffer b);
     let extra = length (takeWhile (\<lambda>slot. ls_cursors slot = 0) buffer);
     let rest = (if extra = 0 then [] else map ls_msg (take extra buffer));
     let buffer = drop extra buffer;
     let reclaimed = \<lparr>rd_first = first, rd_rest = rest\<rparr>;
     head \<leftarrow> checked_add (bl_head b) (reclaimed_len reclaimed);
     guard (head \<le> bl_tail b);
     Some (reclaimed, shrink_buffer (b\<lparr>bl_buffer := buffer, bl_head := head\<rparr>)) }"

text \<open>The slot at an index, written back with a changed count; indexing panics out of range.\<close>

definition slot_leave :: "'a backlog \<Rightarrow> usize \<Rightarrow> (usize \<times> 'a backlog) option" where
  "slot_leave b offset = do {
     guard (offset < length (bl_buffer b));
     cursors \<leftarrow> checked_sub (ls_cursors (bl_buffer b ! offset)) 1;
     Some (cursors, b\<lparr>bl_buffer := (bl_buffer b)[offset := (bl_buffer b ! offset)\<lparr>ls_cursors := cursors\<rparr>]\<rparr>) }"

definition slot_enter :: "'a backlog \<Rightarrow> usize \<Rightarrow> 'a backlog option" where
  "slot_enter b offset = do {
     guard (offset < length (bl_buffer b));
     cursors \<leftarrow> checked_add (ls_cursors (bl_buffer b ! offset)) 1;
     Some (b\<lparr>bl_buffer := (bl_buffer b)[offset := (bl_buffer b ! offset)\<lparr>ls_cursors := cursors\<rparr>]\<rparr>) }"

definition remove_receiver :: "'a backlog \<Rightarrow> slot_id \<Rightarrow> ('a reclaimed \<times> 'a backlog) option" where
  "remove_receiver b key = do {
     (cursor, receivers) \<leftarrow> arena_remove (bl_receivers b) key;
     let b = b\<lparr>bl_receivers := receivers\<rparr>;
     if cursor = bl_tail b then do {
       at_tail \<leftarrow> checked_sub (bl_at_tail b) 1;
       Some (reclaimed_empty, b\<lparr>bl_at_tail := at_tail\<rparr>) }
     else do {
       offset \<leftarrow> checked_sub cursor (bl_head b);
       (cursors, b) \<leftarrow> slot_leave b offset;
       if offset = 0 \<and> cursors = 0 then reclaim_vacated b else Some (reclaimed_empty, b) } }"

text \<open>The cursor counted at its next version.\<close>

definition cursor_enter :: "'a backlog \<Rightarrow> nat \<Rightarrow> usize \<Rightarrow> 'a backlog option" where
  "cursor_enter b version offset =
     (if version + 1 = bl_tail b then do {
        at_tail \<leftarrow> checked_add (bl_at_tail b) 1;
        Some (b\<lparr>bl_at_tail := at_tail\<rparr>) }
      else slot_enter b (offset + 1))"

definition bl_receive :: "'a backlog \<Rightarrow> slot_id \<Rightarrow> ('a received option \<times> 'a backlog) option" where
  "bl_receive b key = do {
     cursor \<leftarrow> arena_get (bl_receivers b) key;
     if cursor \<ge> bl_tail b then Some (None, b)
     else do {
       let version = cursor;
       cursor \<leftarrow> checked_add cursor 1;
       let b = b\<lparr>bl_receivers := arena_put (bl_receivers b) key cursor\<rparr>;
       guard (version \<ge> bl_head b);
       let offset = version - bl_head b;
       b \<leftarrow> cursor_enter b version offset;
       (cursors, b) \<leftarrow> slot_leave b offset;
       if offset = 0 \<and> cursors = 0 then
         (case bl_buffer b of
            slot # buffer \<Rightarrow> do {
              head \<leftarrow> checked_add (bl_head b) 1;
              guard (head \<le> bl_tail b);
              Some (Some \<lparr>rc_msg = ls_msg slot, rc_reclaimed = True\<rparr>,
                    shrink_buffer (b\<lparr>bl_buffer := buffer, bl_head := head\<rparr>)) }
          | [] \<Rightarrow> None)
       else Some (Some \<lparr>rc_msg = ls_msg (bl_buffer b ! offset), rc_reclaimed = False\<rparr>, b) } }"

lemmas backlog_ops [op_defs] = reclaimed_empty_def reclaimed_len_def bl_new_def bl_elastic_def bl_fixed_def
  bl_retained_def bl_has_receivers_def bl_unread_def advance_tail_def publish_discarded_def
  publish_retained_def bl_publish_def bl_subscribe_def shrink_buffer_def reclaim_vacated_def
  slot_leave_def slot_enter_def cursor_enter_def remove_receiver_def bl_receive_def

section \<open>Cursors\<close>

text \<open>How many subscriptions stand at a version.\<close>

definition positions :: "(slot_id \<Rightarrow> nat option) \<Rightarrow> nat \<Rightarrow> nat" where
  "positions m v = msum (\<lambda>x. if x = v then 1 else 0) m"

lemma positions_insert:
  "finite (dom m) \<Longrightarrow> m k = None \<Longrightarrow> positions (m(k \<mapsto> v)) x = positions m x + (if v = x then 1 else 0)"
  by (simp add: positions_def msum_insert)

lemma positions_delete:
  "finite (dom m) \<Longrightarrow> m k = Some v \<Longrightarrow> positions (m(k := None)) x = positions m x - (if v = x then 1 else 0)"
  using msum_delete [of m k v "\<lambda>y. if y = x then 1 else 0"] by (simp add: positions_def)

lemma positions_move:
  "finite (dom m) \<Longrightarrow> m k = Some v \<Longrightarrow>
     positions (m(k \<mapsto> w)) x + (if v = x then 1 else 0) = positions m x + (if w = x then 1 else 0)"
  using msum_update [of m k v "\<lambda>y. if y = x then 1 else 0" w] by (simp add: positions_def)

lemma positions_pos: "finite (dom m) \<Longrightarrow> 0 < positions m v \<longleftrightarrow> (\<exists>k. m k = Some v)"
  using msum_zero_iff [of m "\<lambda>x. if x = v then 1 else 0"] by (auto simp: positions_def split: if_splits)

lemma positions_card: "finite (dom m) \<Longrightarrow> positions m v \<le> card (dom m)"
  unfolding positions_def msum_def by (rule order_trans [OF sum_mono [where g = "\<lambda>_. 1"]]) auto

section \<open>The invariant\<close>

text \<open>
  \<open>log_counts H b\<close>: the buffer holds the messages of the history \<open>H\<close> from \<open>head\<close> on, and every
  subscription is counted at its version, between \<open>head\<close> and the end. In a log at rest some
  subscription stands at \<open>head\<close>, so nothing is retained in vain.
\<close>

definition log_counts :: "'a list \<Rightarrow> 'a backlog \<Rightarrow> bool" where
  "log_counts H b \<longleftrightarrow> arena_inv (bl_receivers b) \<and> bl_tail b = length H \<and> bl_head b \<le> bl_tail b \<and>
     bl_tail b \<le> usize_max \<and>
     map ls_msg (bl_buffer b) = drop (bl_head b) H \<and>
     map ls_cursors (bl_buffer b) = map (positions (arena_get (bl_receivers b))) [bl_head b..<bl_tail b] \<and>
     bl_at_tail b = positions (arena_get (bl_receivers b)) (bl_tail b) \<and>
     (\<forall>k v. arena_get (bl_receivers b) k = Some v \<longrightarrow> bl_head b \<le> v \<and> v \<le> bl_tail b)"

definition log_inv :: "'a list \<Rightarrow> 'a backlog \<Rightarrow> bool" where
  "log_inv H b \<longleftrightarrow> log_counts H b \<and>
     (bl_buffer b \<noteq> [] \<longrightarrow> 0 < positions (arena_get (bl_receivers b)) (bl_head b))"

lemma log_countsI:
  assumes "arena_inv (bl_receivers b)" and "bl_tail b = length H" and "bl_head b \<le> bl_tail b" and "bl_tail b \<le> usize_max"
    and "length (bl_buffer b) = bl_tail b - bl_head b"
    and "\<And>i. i < bl_tail b - bl_head b \<Longrightarrow> ls_msg (bl_buffer b ! i) = H ! (bl_head b + i)"
    and "\<And>i. i < bl_tail b - bl_head b \<Longrightarrow>
      ls_cursors (bl_buffer b ! i) = positions (arena_get (bl_receivers b)) (bl_head b + i)"
    and "bl_at_tail b = positions (arena_get (bl_receivers b)) (bl_tail b)"
    and "\<And>k v. arena_get (bl_receivers b) k = Some v \<Longrightarrow> bl_head b \<le> v \<and> v \<le> bl_tail b"
  shows "log_counts H b"
  using assms unfolding log_counts_def by (auto intro!: nth_equalityI)

lemma log_countsD:
  assumes "log_counts H b"
  shows "arena_inv (bl_receivers b)" and "bl_tail b = length H" and "bl_head b \<le> bl_tail b" and "bl_tail b \<le> usize_max"
    and "length (bl_buffer b) = bl_tail b - bl_head b"
    and "i < length (bl_buffer b) \<Longrightarrow> ls_msg (bl_buffer b ! i) = H ! (bl_head b + i)"
    and "i < length (bl_buffer b) \<Longrightarrow>
      ls_cursors (bl_buffer b ! i) = positions (arena_get (bl_receivers b)) (bl_head b + i)"
    and "bl_at_tail b = positions (arena_get (bl_receivers b)) (bl_tail b)"
    and "arena_get (bl_receivers b) k = Some v \<Longrightarrow> bl_head b \<le> v \<and> v \<le> bl_tail b"
proof -
  note c = assms [unfolded log_counts_def]
  show l: "length (bl_buffer b) = bl_tail b - bl_head b" using c by (metis length_map length_upt)
  show "ls_msg (bl_buffer b ! i) = H ! (bl_head b + i)" if "i < length (bl_buffer b)"
    using c that by (metis length_map nth_drop nth_map)
  show "ls_cursors (bl_buffer b ! i) = positions (arena_get (bl_receivers b)) (bl_head b + i)"
    if i: "i < length (bl_buffer b)"
  proof -
    have "map ls_cursors (bl_buffer b) ! i = map (positions (arena_get (bl_receivers b))) [bl_head b..<bl_tail b] ! i"
      using c by simp
    then show ?thesis using i l by simp
  qed
qed (use assms in \<open>auto simp: log_counts_def\<close>)

lemma shrink_simps [simp]:
  "bl_buffer (shrink_buffer b) = bl_buffer b" "bl_head (shrink_buffer b) = bl_head b"
  "bl_tail (shrink_buffer b) = bl_tail b" "bl_at_tail (shrink_buffer b) = bl_at_tail b"
  "bl_receivers (shrink_buffer b) = bl_receivers b"
  by (simp_all add: shrink_buffer_def split: retention.splits)

lemma shrink_counts [simp]: "log_counts H (shrink_buffer b) = log_counts H b"
  by (simp add: log_counts_def)

text \<open>Messages in front at which no subscription stands may go.\<close>

lemma log_drop:
  assumes c: "log_counts H b" and n: "n \<le> length (bl_buffer b)"
    and z: "\<And>i. i < n \<Longrightarrow> ls_cursors (bl_buffer b ! i) = 0"
  shows "log_counts H (b\<lparr>bl_buffer := drop n (bl_buffer b), bl_head := bl_head b + n\<rparr>)"
proof (rule log_countsI)
  note d = log_countsD [OF c]
  fix k v assume "arena_get (bl_receivers (b\<lparr>bl_buffer := drop n (bl_buffer b), bl_head := bl_head b + n\<rparr>)) k = Some v"
  then have k: "arena_get (bl_receivers b) k = Some v" by simp
  have "bl_head b + n \<le> v"
  proof (rule ccontr)
    assume "\<not> bl_head b + n \<le> v"
    then have i: "v - bl_head b < n" and v: "v = bl_head b + (v - bl_head b)" using d(9) [OF k] by auto
    have "positions (arena_get (bl_receivers b)) v = 0" using z [OF i] d(7) [of "v - bl_head b"] i n v by simp
    then show False using positions_pos [of "arena_get (bl_receivers b)" v] k by auto
  qed
  with d(9) [OF k] show "bl_head (b\<lparr>bl_buffer := drop n (bl_buffer b), bl_head := bl_head b + n\<rparr>) \<le> v \<and>
    v \<le> bl_tail (b\<lparr>bl_buffer := drop n (bl_buffer b), bl_head := bl_head b + n\<rparr>)" by simp
qed (use log_countsD [OF c] n in \<open>auto simp: add.assoc\<close>)

definition reclaimed_list :: "'a reclaimed \<Rightarrow> 'a list" where
  "reclaimed_list r = (case rd_first r of Some x \<Rightarrow> [x] | None \<Rightarrow> []) @ rd_rest r"

lemma reclaimed_list_empty [simp]: "reclaimed_list reclaimed_empty = []" "reclaimed_len reclaimed_empty = 0"
  by (simp_all add: reclaimed_list_def reclaimed_empty_def reclaimed_len_def)

lemma reclaimed_len_eq: "reclaimed_len r = length (reclaimed_list r)"
  by (auto simp: reclaimed_list_def reclaimed_len_def split: option.splits)

lemma reclaim_spec:
  assumes c: "log_counts H b" and z: "bl_buffer b = s # buf" "ls_cursors s = 0"
  obtains r b' where "reclaim_vacated b = Some (r, b')" and "log_inv H b'" and "bl_receivers b' = bl_receivers b"
    and "bl_tail b' = bl_tail b" and "bl_head b' = bl_head b + reclaimed_len r"
    and "reclaimed_list r = take (reclaimed_len r) (drop (bl_head b) H)"
proof -
  let ?P = "\<lambda>slot. ls_cursors slot = 0"
  let ?e = "length (takeWhile ?P buf)"
  let ?r = "\<lparr>rd_first = Some (ls_msg s), rd_rest = map ls_msg (take ?e buf)\<rparr>"
  let ?b = "b\<lparr>bl_buffer := drop (Suc ?e) (bl_buffer b), bl_head := bl_head b + Suc ?e\<rparr>"
  note d = log_countsD [OF c]
  have e: "?e \<le> length buf" by (rule length_takeWhile_le)
  have l: "reclaimed_len ?r = Suc ?e" using e by (simp add: reclaimed_len_def)
  have "bl_head b + Suc ?e \<le> bl_tail b" using d(5) e z(1) by simp
  moreover have "log_counts H ?b"
  proof (rule log_drop [OF c])
    show "ls_cursors (bl_buffer b ! i) = 0" if i: "i < Suc ?e" for i
    proof (cases i)
      case (Suc j)
      then have "takeWhile ?P buf ! j = buf ! j" "j < ?e" using i by (simp_all add: takeWhile_nth)
      then show ?thesis using Suc z(1) set_takeWhileD [OF nth_mem, of j ?P buf] by simp
    qed (use z in simp)
  qed (use e z in simp)
  moreover have "0 < positions (arena_get (bl_receivers b)) (bl_head b + Suc ?e)" if "drop (Suc ?e) (bl_buffer b) \<noteq> []"
    using that d(7) [of "Suc ?e"] z(1) nth_length_takeWhile [of ?P buf] by simp
  moreover have "reclaimed_list ?r = take (Suc ?e) (map ls_msg (bl_buffer b))" using z(1) by (simp add: reclaimed_list_def take_map)
  then have "reclaimed_list ?r = take (Suc ?e) (drop (bl_head b) H)" using c by (simp add: log_counts_def)
  moreover have "reclaim_vacated b = Some (?r, shrink_buffer ?b)" if "bl_head b + Suc ?e \<le> bl_tail b"
  proof -
    have "checked_add (bl_head b) (Suc ?e) = Some (bl_head b + Suc ?e)" using that d(4) by (simp add: checked_add_simp)
    then show ?thesis
      using that z l by (cases "takeWhile ?P buf = []") (simp_all add: reclaim_vacated_def Let_def)
  qed
  ultimately show thesis using that [of ?r "shrink_buffer ?b"] l by (simp add: log_inv_def)
qed

text \<open>A subscription leaves the slot it stands at.\<close>

lemma slot_leave_eq:
  assumes "i < length (bl_buffer b)" and "0 < ls_cursors (bl_buffer b ! i)"
  shows "slot_leave b i = Some (ls_cursors (bl_buffer b ! i) - 1,
    b\<lparr>bl_buffer := (bl_buffer b)[i := (bl_buffer b ! i)\<lparr>ls_cursors := ls_cursors (bl_buffer b ! i) - 1\<rparr>]\<rparr>)"
  using assms by (simp add: slot_leave_def checked_sub_def)

lemma remove_receiver_spec:
  assumes inv: "log_inv H b" and k: "arena_get (bl_receivers b) key = Some v"
  obtains r b' where "remove_receiver b key = Some (r, b')" and "log_inv H b'"
    and "arena_get (bl_receivers b') = (arena_get (bl_receivers b))(key := None)"
    and "bl_tail b' = bl_tail b" and "bl_head b' = bl_head b + reclaimed_len r"
    and "reclaimed_list r = take (reclaimed_len r) (drop (bl_head b) H)"
proof -
  have c: "log_counts H b" using inv by (simp add: log_inv_def)
  note d = log_countsD [OF c]
  obtain a where a: "arena_remove (bl_receivers b) key = Some (v, a)" using ar.remove_total [OF d(1) k] by blast
  note g = ar.get_remove [OF a] and ia = ar.inv_remove [OF d(1) a]
  have p: "positions (arena_get a) x = positions (arena_get (bl_receivers b)) x - (if v = x then 1 else 0)" for x
    unfolding g by (rule positions_delete [where k = key]) (simp_all add: k)
  have q: "0 < positions (arena_get (bl_receivers b)) v" using positions_pos [of "arena_get (bl_receivers b)" v] k by auto
  show thesis
  proof (cases "v = bl_tail b")
    case True
    let ?b = "b\<lparr>bl_receivers := a, bl_at_tail := bl_at_tail b - 1\<rparr>"
    have "log_counts H ?b" by (rule log_countsI) (use d p g ia True in \<open>auto split: if_splits\<close>)
    moreover have "remove_receiver b key = Some (reclaimed_empty, ?b)"
      using a True q d(8) by (simp add: remove_receiver_def checked_sub_def)
    moreover have "0 < positions (arena_get a) (bl_head b)" if "bl_buffer b \<noteq> []"
      using inv that p [of "bl_head b"] d(5) True by (auto simp: log_inv_def)
    ultimately show thesis using that [of reclaimed_empty ?b] g by (simp add: log_inv_def)
  next
    case False
    define i where "i = v - bl_head b"
    define n where "n = ls_cursors (bl_buffer b ! i) - 1"
    define b1 where "b1 = b\<lparr>bl_receivers := a, bl_buffer := (bl_buffer b)[i := (bl_buffer b ! i)\<lparr>ls_cursors := n\<rparr>]\<rparr>"
    have h: "bl_head b \<le> v" and i: "i < length (bl_buffer b)" and v: "v = bl_head b + i"
      using d(5) d(9) [OF k] False by (auto simp: i_def)
    then have n: "ls_cursors (bl_buffer b ! i) = positions (arena_get (bl_receivers b)) v" using d(7) [OF i] by simp
    have cb: "log_counts H b1"
      by (rule log_countsI) (use d p g ia False h i n v in \<open>auto simp: b1_def n_def nth_list_update split: if_splits\<close>)
    have "slot_leave (b\<lparr>bl_receivers := a\<rparr>) i = Some (n, b1)"
      using slot_leave_eq [of i "b\<lparr>bl_receivers := a\<rparr>"] i n q by (simp add: n_def b1_def)
    then have e: "remove_receiver b key = (if i = 0 \<and> n = 0 then reclaim_vacated b1 else Some (reclaimed_empty, b1))"
      using a False h by (simp add: remove_receiver_def checked_sub_simp flip: i_def)
    have f: "bl_receivers b1 = a" "bl_tail b1 = bl_tail b" "bl_head b1 = bl_head b" by (simp_all add: b1_def)
    show thesis
    proof (cases "i = 0 \<and> n = 0")
      case True
      then obtain s buf where s: "bl_buffer b1 = s # buf" "ls_cursors s = 0"
        using i by (cases "bl_buffer b") (auto simp: b1_def)
      show thesis by (rule reclaim_spec [OF cb s]) (use that e g True f in simp)
    next
      case other: False
      then have "0 < positions (arena_get a) (bl_head b)" if "bl_buffer b \<noteq> []"
        using inv that p [of "bl_head b"] n v by (auto simp: log_inv_def n_def)
      moreover have "bl_buffer b1 = [] \<longleftrightarrow> bl_buffer b = []" by (simp add: b1_def)
      ultimately show thesis using that [of reclaimed_empty b1] e cb g other f by (auto simp: log_inv_def)
    qed
  qed
qed

text \<open>Receiving moves the cursor by one; the message is dropped when this was the last one at it.\<close>

lemma receive_enter:
  assumes c: "log_counts H b" and k: "arena_get (bl_receivers b) key = Some v" and v: "v < bl_tail b"
    and a: "a = arena_put (bl_receivers b) key (v + 1)" and i: "i = v - bl_head b"
  obtains b1 where "cursor_enter (b\<lparr>bl_receivers := a\<rparr>) v i = Some b1"
    and "bl_receivers b1 = a" and "bl_head b1 = bl_head b" and "bl_tail b1 = bl_tail b"
    and "map ls_msg (bl_buffer b1) = map ls_msg (bl_buffer b)"
    and "\<And>j. j < length (bl_buffer b) \<Longrightarrow> ls_cursors (bl_buffer b1 ! j) =
      positions (arena_get (bl_receivers b)) (bl_head b + j) + (if v + 1 = bl_head b + j then 1 else 0)"
    and "bl_at_tail b1 = positions (arena_get (bl_receivers b)) (bl_tail b) + (if v + 1 = bl_tail b then 1 else 0)"
proof -
  note d = log_countsD [OF c]
  let ?m = "arena_get (bl_receivers b)"
  have h: "bl_head b \<le> v" using d(9) [OF k] by simp
  have "positions (?m(key \<mapsto> v + 1)) (v + 1) = positions ?m (v + 1) + 1"
    using positions_move [of ?m key v "v + 1" "v + 1"] k by simp
  moreover have "positions (?m(key \<mapsto> v + 1)) (v + 1) \<le> card (dom ?m)"
    using positions_card [of "?m(key \<mapsto> v + 1)"] k by (simp add: insert_absorb domI)
  ultimately have r: "positions ?m (v + 1) + 1 \<le> usize_max" using arena_get_card [OF d(1)] by simp
  show thesis
  proof (cases "v + 1 = bl_tail b")
    case True
    then show thesis
      using that [of "b\<lparr>bl_receivers := a, bl_at_tail := bl_at_tail b + 1\<rparr>"] d(5,7,8) r
      by (simp add: cursor_enter_def checked_add_simp)
  next
    case False
    then have j: "i + 1 < length (bl_buffer b)" using v h d(5) i by simp
    then have n: "ls_cursors (bl_buffer b ! (i + 1)) = positions ?m (v + 1)" using d(7) [OF j] h i by simp
    let ?b = "b\<lparr>bl_receivers := a, bl_buffer := (bl_buffer b)
       [i + 1 := (bl_buffer b ! (i + 1))\<lparr>ls_cursors := ls_cursors (bl_buffer b ! (i + 1)) + 1\<rparr>]\<rparr>"
    have "slot_enter (b\<lparr>bl_receivers := a\<rparr>) (i + 1) = Some ?b" using j n r by (simp add: slot_enter_def checked_add_simp)
    moreover have "map ls_msg (bl_buffer ?b) = map ls_msg (bl_buffer b)" using j by (simp add: map_update list_update_same_conv)
    moreover have "ls_cursors (bl_buffer ?b ! x) = positions ?m (bl_head b + x) + (if v + 1 = bl_head b + x then 1 else 0)"
      if "x < length (bl_buffer b)" for x
      using that d(7) [OF that] n j h i by (auto simp: nth_list_update)
    ultimately show thesis using that [of ?b] False d(8) by (simp add: cursor_enter_def)
  qed
qed

lemma receive_spec:
  assumes inv: "log_inv H b" and k: "arena_get (bl_receivers b) key = Some v" and v: "v < bl_tail b"
  obtains recl b' where "bl_receive b key = Some (Some \<lparr>rc_msg = H ! v, rc_reclaimed = recl\<rparr>, b')" and "log_inv H b'"
    and "arena_get (bl_receivers b') = (arena_get (bl_receivers b))(key \<mapsto> v + 1)"
    and "bl_tail b' = bl_tail b" and "bl_head b' = bl_head b + (if recl then 1 else 0)"
proof -
  have c: "log_counts H b" using inv by (simp add: log_inv_def)
  note d = log_countsD [OF c]
  define a where "a = arena_put (bl_receivers b) key (v + 1)"
  define i where "i = v - bl_head b"
  have h: "bl_head b \<le> v" and i: "i < length (bl_buffer b)" and vi: "v = bl_head b + i"
    using d(5) d(9) [OF k] v by (auto simp: i_def)
  have g: "arena_get a = (arena_get (bl_receivers b))(key \<mapsto> v + 1)" and ia: "arena_inv a"
    unfolding a_def using ar.get_put [OF k] ar.inv_put [OF d(1) k] by simp_all
  have p: "positions (arena_get a) x + (if v = x then 1 else 0) =
      positions (arena_get (bl_receivers b)) x + (if v + 1 = x then 1 else 0)" for x
    unfolding g by (rule positions_move) (simp_all add: k)
  obtain b1 where b1: "cursor_enter (b\<lparr>bl_receivers := a\<rparr>) v i = Some b1"
    "bl_receivers b1 = a" "bl_head b1 = bl_head b" "bl_tail b1 = bl_tail b"
    "map ls_msg (bl_buffer b1) = map ls_msg (bl_buffer b)"
    "\<And>j. j < length (bl_buffer b) \<Longrightarrow> ls_cursors (bl_buffer b1 ! j) =
      positions (arena_get (bl_receivers b)) (bl_head b + j) + (if v + 1 = bl_head b + j then 1 else 0)"
    "bl_at_tail b1 = positions (arena_get (bl_receivers b)) (bl_tail b) + (if v + 1 = bl_tail b then 1 else 0)"
    using receive_enter [OF c k v a_def i_def] by blast
  have l: "length (bl_buffer b1) = length (bl_buffer b)" using b1(5) by (metis length_map)
  have m: "ls_msg (bl_buffer b1 ! j) = H ! (bl_head b + j)" if "j < length (bl_buffer b)" for j
    using d(6) [OF that] b1(5) l that by (metis nth_map)
  define n where "n = ls_cursors (bl_buffer b1 ! i) - 1"
  define b2 where "b2 = b1\<lparr>bl_buffer := (bl_buffer b1)[i := (bl_buffer b1 ! i)\<lparr>ls_cursors := n\<rparr>]\<rparr>"
  have q: "0 < ls_cursors (bl_buffer b1 ! i)" using b1(6) [OF i] p [of v] vi by simp
  have sl: "slot_leave b1 i = Some (n, b2)" using slot_leave_eq [of i b1] i l q by (simp add: n_def b2_def)
  have f: "bl_receivers b2 = a" "bl_head b2 = bl_head b" "bl_tail b2 = bl_tail b" "length (bl_buffer b2) = length (bl_buffer b)"
    using b1 l by (simp_all add: b2_def)
  have cur: "ls_cursors (bl_buffer b2 ! j) = positions (arena_get a) (bl_head b + j)" if "j < length (bl_buffer b)" for j
    using that i b1(6) [OF that] p [of "bl_head b + j"] l vi by (auto simp: b2_def n_def nth_list_update)
  have msg: "ls_msg (bl_buffer b2 ! j) = H ! (bl_head b + j)" if "j < length (bl_buffer b)" for j
    using that i m [OF that] l by (auto simp: b2_def nth_list_update)
  have cb: "log_counts H b2"
  proof (rule log_countsI)
    show "bl_at_tail b2 = positions (arena_get (bl_receivers b2)) (bl_tail b2)"
      using b1(7) p [of "bl_tail b"] v by (simp add: f b2_def b1(2,4))
    show "bl_head b2 \<le> x \<and> x \<le> bl_tail b2" if "arena_get (bl_receivers b2) y = Some x" for x y
      using that d(9) v h f g by (auto split: if_splits)
  qed (use d f ia cur msg in auto)
  have nn: "n = positions (arena_get a) v" using cur [OF i] i l vi by (simp add: b2_def)
  have vh: "v = bl_head b \<longleftrightarrow> i = 0" using vi by simp
  have e: "bl_receive b key = (if i = 0 \<and> n = 0 then
         (case bl_buffer b2 of
            slot # buffer \<Rightarrow> do {
              head \<leftarrow> checked_add (bl_head b2) 1;
              guard (head \<le> bl_tail b2);
              Some (Some \<lparr>rc_msg = ls_msg slot, rc_reclaimed = True\<rparr>,
                    shrink_buffer (b2\<lparr>bl_buffer := buffer, bl_head := head\<rparr>)) }
          | [] \<Rightarrow> None)
       else Some (Some \<lparr>rc_msg = ls_msg (bl_buffer b2 ! i), rc_reclaimed = False\<rparr>, b2))"
    using k v h sl b1(1) d(4) a_def [symmetric] i_def [symmetric] vh
    by (simp add: bl_receive_def Let_def checked_add_simp)
  show thesis
  proof (cases "i = 0 \<and> n = 0")
    case True
    then obtain s buf where s: "bl_buffer b2 = s # buf" using i f(4) by (cases "bl_buffer b2") auto
    let ?b = "b2\<lparr>bl_buffer := buf, bl_head := bl_head b2 + 1\<rparr>"
    have "ls_cursors s = 0" using True s cur [OF i] nn vi by auto
    then have "log_counts H ?b" using log_drop [OF cb, of 1] s by simp
    moreover have "0 < positions (arena_get a) (bl_head b + 1)" if "buf \<noteq> []"
      using p [of "v + 1"] True vi by simp
    moreover have "ls_msg s = H ! v" using msg [OF i] s True vi by simp
    ultimately show thesis
      using that [of True "shrink_buffer ?b"] e s True f g v d(4) vi by (simp add: log_inv_def checked_add_simp)
  next
    case False
    then have "0 < positions (arena_get a) (bl_head b)" if "bl_buffer b \<noteq> []"
      using inv that p [of "bl_head b"] nn vi by (cases "i = 0") (auto simp: log_inv_def)
    moreover have "bl_buffer b2 = [] \<longleftrightarrow> bl_buffer b = []" using f(4) by (metis length_0_conv)
    ultimately show thesis using that [of False b2] e False cb f g msg [OF i] vi by (auto simp: log_inv_def)
  qed
qed

lemma receive_at_end:
  "log_inv H b \<Longrightarrow> arena_get (bl_receivers b) key = Some (bl_tail b) \<Longrightarrow> bl_receive b key = Some (None, b)"
  by (simp add: bl_receive_def)

lemma has_receivers_iff:
  "log_inv H b \<Longrightarrow> bl_has_receivers b \<longleftrightarrow> (\<exists>k v. arena_get (bl_receivers b) k = Some v)"
  using arena_is_empty_iff [of "bl_receivers b"]
  by (auto simp: bl_has_receivers_def log_inv_def log_counts_def fun_eq_iff)

lemma log_inv_new: "log_inv [] (bl_new r)"
  by (simp add: log_inv_def log_counts_def bl_new_def positions_def msum_def fun_eq_iff)

lemma publish_retained_spec:
  assumes inv: "log_inv H b" and r: "bl_has_receivers b" and t: "bl_tail b < usize_max"
  obtains b' where "publish_retained b msg = Some b'" and "log_inv (H @ [msg]) b'"
    and "bl_receivers b' = bl_receivers b" and "bl_head b' = bl_head b" and "bl_tail b' = bl_tail b + 1"
proof -
  have c: "log_counts H b" using inv by (simp add: log_inv_def)
  note d = log_countsD [OF c]
  define b1 where "b1 = b\<lparr>bl_tail := bl_tail b + 1, bl_at_tail := 0,
    bl_buffer := bl_buffer b @ [\<lparr>ls_msg = msg, ls_cursors = bl_at_tail b\<rparr>]\<rparr>"
  define b2 where "b2 = (case bl_retention b1 of
      Elastic peak_len \<Rightarrow> b1\<lparr>bl_retention := Elastic (max peak_len (length (bl_buffer b1)))\<rparr> | Fixed \<Rightarrow> b1)"
  have f: "bl_receivers b2 = bl_receivers b" "bl_head b2 = bl_head b" "bl_tail b2 = bl_tail b + 1"
    "bl_buffer b2 = bl_buffer b @ [\<lparr>ls_msg = msg, ls_cursors = bl_at_tail b\<rparr>]" "bl_at_tail b2 = 0"
    by (simp_all add: b2_def b1_def split: retention.splits)
  have none: "arena_get (bl_receivers b) k \<noteq> Some (bl_tail b + 1)" for k using d(9) [of k] by fastforce
  have "log_counts (H @ [msg]) b2"
  proof (rule log_countsI)
    show "bl_at_tail b2 = positions (arena_get (bl_receivers b2)) (bl_tail b2)"
      using none positions_pos [of "arena_get (bl_receivers b)" "bl_tail b + 1"] by (simp add: f)
    show "bl_head b2 \<le> v \<and> v \<le> bl_tail b2" if "arena_get (bl_receivers b2) k = Some v" for k v
      using that d(9) [of k v] by (simp add: f)
    show "ls_cursors (bl_buffer b2 ! i) = positions (arena_get (bl_receivers b2)) (bl_head b2 + i)"
      if "i < bl_tail b2 - bl_head b2" for i
      using that d(3,5,8) d(7) [of i] by (cases "i = length (bl_buffer b)") (auto simp: f nth_append)
  qed (use d t f in \<open>auto simp: nth_append less_diff_conv Suc_diff_le\<close>)
  moreover have "0 < positions (arena_get (bl_receivers b)) (bl_head b)"
  proof (cases "bl_buffer b = []")
    case True
    then have "bl_head b = bl_tail b" using d(3,5) by simp
    moreover obtain k v where k: "arena_get (bl_receivers b) k = Some v" using has_receivers_iff [OF inv] r by blast
    ultimately have "v = bl_head b" using d(9) [OF k] by simp
    then show ?thesis using positions_pos [of "arena_get (bl_receivers b)" v] k by auto
  qed (use inv in \<open>simp add: log_inv_def\<close>)
  moreover have "publish_retained b msg = Some b2"
    using r t by (simp add: publish_retained_def advance_tail_def checked_add_simp b2_def b1_def Let_def split: retention.splits)
  ultimately show thesis using that [of b2] f by (simp add: log_inv_def)
qed

lemma no_receivers:
  assumes inv: "log_inv H b" and r: "\<not> bl_has_receivers b"
  shows "bl_buffer b = []" and "bl_at_tail b = 0" and "bl_head b = bl_tail b"
proof -
  have "positions (arena_get (bl_receivers b)) v = 0" for v
    using has_receivers_iff [OF inv] r positions_pos [of "arena_get (bl_receivers b)" v] by auto
  then show b: "bl_buffer b = []" "bl_at_tail b = 0" using inv by (auto simp: log_inv_def log_counts_def)
  show "bl_head b = bl_tail b" using inv b log_countsD(3,5) [of H b] by (auto simp: log_inv_def)
qed

lemma publish_discarded_spec:
  assumes inv: "log_inv H b" and r: "\<not> bl_has_receivers b" and t: "bl_tail b < usize_max"
  shows "publish_discarded b = Some (b\<lparr>bl_tail := bl_tail b + 1, bl_head := bl_tail b + 1\<rparr>)"
    and "log_inv (H @ [msg]) (b\<lparr>bl_tail := bl_tail b + 1, bl_head := bl_tail b + 1\<rparr>)"
proof -
  note n = no_receivers [OF inv r]
  show "publish_discarded b = Some (b\<lparr>bl_tail := bl_tail b + 1, bl_head := bl_tail b + 1\<rparr>)"
    using n r t by (simp add: publish_discarded_def advance_tail_def checked_add_simp)
  have "positions (arena_get (bl_receivers b)) v = 0" for v
    using has_receivers_iff [OF inv] r positions_pos [of "arena_get (bl_receivers b)" v] by auto
  then show "log_inv (H @ [msg]) (b\<lparr>bl_tail := bl_tail b + 1, bl_head := bl_tail b + 1\<rparr>)"
    using inv n r t has_receivers_iff [OF inv] by (auto simp: log_inv_def log_counts_def)
qed

lemma subscribe_spec:
  assumes inv: "log_inv H b" and s: "bl_subscribe b = Some (key, b')"
  shows "log_inv H b'" and "arena_get (bl_receivers b) key = None"
    and "arena_get (bl_receivers b') = (arena_get (bl_receivers b))(key \<mapsto> bl_tail b)"
    and "bl_tail b' = bl_tail b" and "bl_head b' = bl_head b"
proof -
  have c: "log_counts H b" using inv by (simp add: log_inv_def)
  note d = log_countsD [OF c]
  obtain a where a: "arena_insert (bl_receivers b) (bl_tail b) = Some (key, a)"
    and b': "b' = b\<lparr>bl_at_tail := bl_at_tail b + 1, bl_receivers := a\<rparr>"
    using s by (auto simp: bl_subscribe_def panic_simps)
  show n: "arena_get (bl_receivers b) key = None" by (rule ar.insert_fresh [OF a])
  show g: "arena_get (bl_receivers b') = (arena_get (bl_receivers b))(key \<mapsto> bl_tail b)"
    using ar.get_insert [OF a] b' by simp
  show f: "bl_tail b' = bl_tail b" "bl_head b' = bl_head b" using b' by simp_all
  have p: "positions (arena_get (bl_receivers b')) x =
      positions (arena_get (bl_receivers b)) x + (if bl_tail b = x then 1 else 0)" for x
    unfolding g by (rule positions_insert) (simp_all add: n)
  have "log_counts H b'"
    by (rule log_countsI) (use d p g b' ar.inv_insert [OF d(1) a] in \<open>auto split: if_splits\<close>)
  then show "log_inv H b'" using inv p b' by (auto simp: log_inv_def)
qed

lemma subscribe_total:
  assumes "log_inv H b" and "arena_room (bl_receivers b)" and "bl_at_tail b < usize_max"
  shows "\<exists>x. bl_subscribe b = Some x"
  using ar.insert_total [of "bl_receivers b" "bl_tail b"] assms
  by (auto simp: bl_subscribe_def log_inv_def log_counts_def checked_add_simp)

lemma unread_spec:
  "log_inv H b \<Longrightarrow> arena_get (bl_receivers b) key = Some v \<Longrightarrow> bl_unread b key = Some (bl_tail b - v)"
  using log_countsD(9) [of H b key v] by (simp add: bl_unread_def log_inv_def checked_sub_simp)

text \<open>The backlog starts at the slowest subscription.\<close>

lemma head_slowest:
  assumes inv: "log_inv H b" and r: "bl_has_receivers b"
  shows "bl_head b = Min (ran (arena_get (bl_receivers b)))"
proof -
  have c: "log_counts H b" using inv by (simp add: log_inv_def)
  note d = log_countsD [OF c]
  obtain k v where k: "arena_get (bl_receivers b) k = Some v" using has_receivers_iff [OF inv] r by blast
  have "\<exists>k. arena_get (bl_receivers b) k = Some (bl_head b)"
  proof (cases "bl_buffer b = []")
    case True
    then show ?thesis using d(3,5) d(9) [OF k] k by (metis diff_is_0_eq le_antisym list.size(3))
  next
    case False
    then show ?thesis using inv positions_pos [of "arena_get (bl_receivers b)" "bl_head b"] by (simp add: log_inv_def)
  qed
  then show ?thesis
    using d(9) by (intro Min_eqI [symmetric]) (auto simp: ran_def finite_ran [unfolded ran_def])
qed

end
