(* ===== verification/Broadcast.thy ===== *)
theory Broadcast
  imports Backlog WakerSet
begin

text \<open>
  The receiving side of the broadcast channels (\<open>broadcast/mpmc/common.rs\<close>) and the unbounded
  channel on top of it (\<open>broadcast/mpmc/unbounded/mod.rs\<close>). The log and the wakers of parked
  receivers share one lock; the count of senders is an atomic outside of it, so the last sender
  leaves in two steps. The step relation is parametrized by the publication of a message, which
  is where the two channels differ.
\<close>

section \<open>Operations\<close>

record 'a bc_inner =
  in_log :: "'a backlog"
  in_waiters :: waker_set

definition with_first_subscription :: "'a backlog \<Rightarrow> ('a bc_inner \<times> slot_id) option" where
  "with_first_subscription log = do {
     (key, log) \<leftarrow> bl_subscribe log;
     Some (\<lparr>in_log = log, in_waiters = ws_new\<rparr>, key) }"

definition disconnect :: "'a bc_inner \<Rightarrow> waker list \<times> 'a bc_inner" where
  "disconnect inner = (ws_wake_all (in_waiters inner), inner\<lparr>in_waiters := ws_new\<rparr>)"

definition bc_unregister ::
  "'a bc_inner \<Rightarrow> usize \<Rightarrow> slot_id \<Rightarrow> waker_token option \<Rightarrow> (waker_token option \<times> 'a bc_inner) option" where
  "bc_unregister inner senders key token = do {
     unread \<leftarrow> bl_unread (in_log inner) key;
     if unread \<noteq> 0 \<or> senders = 0 then Some (None, inner)
     else do {
       (waker, token, waiters) \<leftarrow> ws_unregister (in_waiters inner) token;
       Some (token, inner\<lparr>in_waiters := waiters\<rparr>) } }"

definition try_receive ::
  "'a bc_inner \<Rightarrow> usize \<Rightarrow> slot_id \<Rightarrow> (('a received, try_recv_error) result \<times> 'a bc_inner) option" where
  "try_receive inner senders key = do {
     (r, log) \<leftarrow> bl_receive (in_log inner) key;
     let inner = inner\<lparr>in_log := log\<rparr>;
     Some (case r of
             Some received \<Rightarrow> (Ok received, inner)
           | None \<Rightarrow> if senders = 0 then (Err RecvDisconnected, inner) else (Err Empty, inner)) }"

definition poll_receive ::
  "'a bc_inner \<Rightarrow> usize \<Rightarrow> slot_id \<Rightarrow> waker_token option \<Rightarrow> waker \<Rightarrow>
   (('a received, recv_error) result poll \<times> waker_token option \<times> 'a bc_inner) option" where
  "poll_receive inner senders key token waker = do {
     (r, log) \<leftarrow> bl_receive (in_log inner) key;
     let inner = inner\<lparr>in_log := log\<rparr>;
     (case r of
        Some received \<Rightarrow> Some (Ready (Ok received), None, inner)
      | None \<Rightarrow>
          if senders = 0 then Some (Ready (Err Disconnected), None, inner)
          else do {
            (retired, token, waiters) \<leftarrow> ws_register (in_waiters inner) token waker;
            Some (Pending, token, inner\<lparr>in_waiters := waiters\<rparr>) }) }"

text \<open>\<open>Recv::drop\<close>, the same in both channels.\<close>

definition bc_recv_drop ::
  "'a bc_inner \<Rightarrow> usize \<Rightarrow> slot_id \<Rightarrow> waker_token option \<Rightarrow> (waker_token option \<times> 'a bc_inner) option" where
  "bc_recv_drop inner senders key token =
     (if token = None then Some (None, inner) else bc_unregister inner senders key token)"

text \<open>
  \<open>take_msg\<close>: \<open>clone\<close> is the message type's own, and \<open>unique\<close> says whether the reference that
  was popped is the only one.
\<close>

definition take_msg :: "('a \<Rightarrow> 'a) \<Rightarrow> bool \<Rightarrow> 'a received \<Rightarrow> 'a" where
  "take_msg clone unique received =
     (if \<not> rc_reclaimed received then clone (rc_msg received)
      else if unique then rc_msg received else clone (rc_msg received))"

text \<open>The count of senders: \<open>fetch_add\<close> on a clone, \<open>fetch_sub\<close> and the test for the last on a drop.\<close>

definition bc_clone_sender :: "usize \<Rightarrow> usize" where
  "bc_clone_sender senders = (senders + 1) mod (usize_max + 1)"

definition bc_drop_sender :: "usize \<Rightarrow> bool \<times> usize" where
  "bc_drop_sender senders = (senders = 1, if senders = 0 then usize_max else senders - 1)"

text \<open>The unbounded channel.\<close>

definition bc_unbounded :: "(('a bc_inner \<times> slot_id) \<times> usize) option" where
  "bc_unbounded = do {
     r \<leftarrow> with_first_subscription bl_elastic;
     Some (r, 1) }"

definition unbounded_publish :: "'a bc_inner \<Rightarrow> 'a \<Rightarrow> (waker list \<times> 'a bc_inner) option" where
  "unbounded_publish inner msg = do {
     (unretained, log) \<leftarrow> bl_publish (in_log inner) msg;
     (wakers, waiters) \<leftarrow> ws_take_all (in_waiters inner);
     (woken, wakers) \<leftarrow> wb_wake_all wakers;
     Some (woken, inner\<lparr>in_log := log, in_waiters := waiters\<rparr>) }"

definition unbounded_drop_receiver :: "'a bc_inner \<Rightarrow> slot_id \<Rightarrow> 'a bc_inner option" where
  "unbounded_drop_receiver inner key = do {
     (reclaimed, log) \<leftarrow> remove_receiver (in_log inner) key;
     Some (inner\<lparr>in_log := log\<rparr>) }"

definition bc_subscribe :: "'a bc_inner \<Rightarrow> (slot_id \<times> 'a bc_inner) option" where
  "bc_subscribe inner = do {
     (key, log) \<leftarrow> bl_subscribe (in_log inner);
     Some (key, inner\<lparr>in_log := log\<rparr>) }"

definition unread_message_count :: "'a bc_inner \<Rightarrow> slot_id \<Rightarrow> usize option" where
  "unread_message_count inner key = bl_unread (in_log inner) key"

definition retained_message_count :: "'a bc_inner \<Rightarrow> usize" where
  "retained_message_count inner = bl_retained (in_log inner)"

lemmas broadcast_ops [op_defs] = with_first_subscription_def disconnect_def bc_unregister_def try_receive_def
  poll_receive_def bc_recv_drop_def take_msg_def bc_clone_sender_def bc_drop_sender_def bc_unbounded_def
  unbounded_publish_def unbounded_drop_receiver_def bc_subscribe_def unread_message_count_def
  retained_message_count_def

section \<open>All interleavings\<close>

text \<open>
  The channel, whether the last sender is between its decrement and its wake-up, the receive
  future of each subscription (its token, the waker of its last poll and the wake-ups delivered
  by then), all messages published, and for each subscription where it started and what it got.
\<close>

type_synonym recvs = "slot_id \<Rightarrow> (waker_token option \<times> waker \<times> nat) option"

record 'a bc_sys =
  bc_inner :: "'a bc_inner"
  bc_senders :: usize
  bc_leaving :: bool
  bc_recvs :: recvs
  bc_woken :: "waker list"
  bc_sent :: "'a list"
  bc_start :: "slot_id \<Rightarrow> nat"
  bc_got :: "slot_id \<Rightarrow> 'a list"

abbreviation bc_cursors :: "('a, 'm) bc_sys_scheme \<Rightarrow> slot_id \<Rightarrow> nat option" where
  "bc_cursors s \<equiv> arena_get (bl_receivers (in_log (bc_inner s)))"

definition bc_init :: "('a bc_inner \<times> slot_id) \<times> usize \<Rightarrow> 'a bc_sys" where
  "bc_init c = \<lparr>bc_inner = fst (fst c), bc_senders = snd c, bc_leaving = False, bc_recvs = Map.empty, bc_woken = [],
     bc_sent = [], bc_start = (\<lambda>k. 0), bc_got = (\<lambda>k. [])\<rparr>"

definition got_one :: "'a bc_sys \<Rightarrow> slot_id \<Rightarrow> ('a received, 'e) result \<Rightarrow> slot_id \<Rightarrow> 'a list" where
  "got_one s key r = (bc_got s)(key := bc_got s key @ (case r of Ok m \<Rightarrow> [rc_msg m] | Err _ \<Rightarrow> []))"

inductive bc_step ::
  "('a bc_inner \<Rightarrow> 'a \<Rightarrow> (waker list \<times> 'a bc_inner) option) \<Rightarrow> 'a bc_sys \<Rightarrow> 'a bc_sys \<Rightarrow> bool" for publish where
  clone_sender: "bc_senders s \<noteq> 0 \<Longrightarrow> bc_senders s < usize_max \<Longrightarrow>
    bc_step publish s (s\<lparr>bc_senders := bc_clone_sender (bc_senders s)\<rparr>)"
| drop_sender: "bc_senders s \<noteq> 0 \<Longrightarrow> bc_drop_sender (bc_senders s) = (final, n) \<Longrightarrow>
    bc_step publish s (s\<lparr>bc_senders := n, bc_leaving := final\<rparr>)"
| disconnect: "bc_leaving s \<Longrightarrow> disconnect (bc_inner s) = (woken, inner) \<Longrightarrow>
    bc_step publish s (s\<lparr>bc_inner := inner, bc_leaving := False, bc_woken := bc_woken s @ woken\<rparr>)"
| send: "bc_senders s \<noteq> 0 \<Longrightarrow> publish (bc_inner s) msg = Some (woken, inner) \<Longrightarrow>
    bc_step publish s (s\<lparr>bc_inner := inner, bc_woken := bc_woken s @ woken, bc_sent := bc_sent s @ [msg]\<rparr>)"
| subscribe: "bc_subscribe (bc_inner s) = Some (key, inner) \<Longrightarrow>
    bc_step publish s (s\<lparr>bc_inner := inner, bc_start := (bc_start s)(key := length (bc_sent s)), bc_got := (bc_got s)(key := [])\<rparr>)"
| drop_receiver: "bc_recvs s key = None \<Longrightarrow> unbounded_drop_receiver (bc_inner s) key = Some inner \<Longrightarrow>
    bc_step publish s (s\<lparr>bc_inner := inner\<rparr>)"
| try_recv: "bc_recvs s key = None \<Longrightarrow> try_receive (bc_inner s) (bc_senders s) key = Some (r, inner) \<Longrightarrow>
    bc_step publish s (s\<lparr>bc_inner := inner, bc_got := got_one s key r\<rparr>)"
| recv: "bc_cursors s key \<noteq> None \<Longrightarrow> bc_recvs s key = None \<Longrightarrow>
    bc_step publish s (s\<lparr>bc_recvs := (bc_recvs s)(key \<mapsto> (None, 0, 0))\<rparr>)"
| poll_ready: "bc_recvs s key = Some (tok, w0, m0) \<Longrightarrow>
    poll_receive (bc_inner s) (bc_senders s) key tok w = Some (Ready r, tok', inner) \<Longrightarrow>
    bc_step publish s (s\<lparr>bc_inner := inner, bc_recvs := (bc_recvs s)(key \<mapsto> (tok', w, length (bc_woken s))),
      bc_got := got_one s key r\<rparr>)"
| poll_pending: "bc_recvs s key = Some (tok, w0, m0) \<Longrightarrow>
    poll_receive (bc_inner s) (bc_senders s) key tok w = Some (Pending, tok', inner) \<Longrightarrow>
    bc_step publish s (s\<lparr>bc_inner := inner, bc_recvs := (bc_recvs s)(key \<mapsto> (tok', w, length (bc_woken s)))\<rparr>)"
| drop_recv: "bc_recvs s key = Some (tok, w0, m0) \<Longrightarrow>
    bc_recv_drop (bc_inner s) (bc_senders s) key tok = Some (tok', inner) \<Longrightarrow>
    bc_step publish s (s\<lparr>bc_inner := inner, bc_recvs := (bc_recvs s)(key := None)\<rparr>)"

text \<open>
  The registrations of a channel that still has senders are exactly those of the receive futures
  with a token and nothing to read. A future with a token was woken since its last poll, or has
  nothing to read and is still registered.
\<close>

definition parked :: "(slot_id \<Rightarrow> nat option) \<Rightarrow> nat \<Rightarrow> recvs \<Rightarrow> slot_id \<Rightarrow> (waker_token \<times> waker) option" where
  "parked cur tail F k =
     (case F k of
        Some (Some t, w, m) \<Rightarrow> if cur k = Some tail then Some (t, w) else None
      | _ \<Rightarrow> None)"

definition recv_ok :: "'a bc_sys \<Rightarrow> slot_id \<Rightarrow> waker_token \<Rightarrow> waker \<Rightarrow> nat \<Rightarrow> bool" where
  "recv_ok s k t w m \<longleftrightarrow> m \<le> length (bc_woken s) \<and>
     (w \<in> set (drop m (bc_woken s)) \<or> bc_cursors s k = Some (length (bc_sent s)) \<and>
       (bc_senders s \<noteq> 0 \<or> bc_leaving s \<and> ws_regs (in_waiters (bc_inner s)) t = Some w))"

definition recvs_ok :: "'a bc_sys \<Rightarrow> bool" where
  "recvs_ok s \<longleftrightarrow> ws_inv (in_waiters (bc_inner s)) \<and>
     (\<forall>k. bc_recvs s k \<noteq> None \<longrightarrow> bc_cursors s k \<noteq> None) \<and>
     (bc_senders s \<noteq> 0 \<longrightarrow> \<not> bc_leaving s \<and>
        reg.owned (in_waiters (bc_inner s)) (parked (bc_cursors s) (length (bc_sent s)) (bc_recvs s))) \<and>
     (\<forall>k t w m. bc_recvs s k = Some (Some t, w, m) \<longrightarrow> recv_ok s k t w m)"

definition got_ok :: "'a bc_sys \<Rightarrow> bool" where
  "got_ok s \<longleftrightarrow> (\<forall>k v. bc_cursors s k = Some v \<longrightarrow>
     bc_start s k \<le> v \<and> bc_got s k = take (v - bc_start s k) (drop (bc_start s k) (bc_sent s)))"

definition bc_inv :: "'a bc_sys \<Rightarrow> bool" where
  "bc_inv s \<longleftrightarrow> log_inv (bc_sent s) (in_log (bc_inner s)) \<and> recvs_ok s \<and> got_ok s"

lemma recvs_okI:
  assumes "ws_inv (in_waiters (bc_inner s))" and "\<And>k. bc_recvs s k \<noteq> None \<Longrightarrow> bc_cursors s k \<noteq> None"
    and "bc_senders s \<noteq> 0 \<Longrightarrow> \<not> bc_leaving s"
    and "bc_senders s \<noteq> 0 \<Longrightarrow>
      reg.owned (in_waiters (bc_inner s)) (parked (bc_cursors s) (length (bc_sent s)) (bc_recvs s))"
    and "\<And>k t w m. bc_recvs s k = Some (Some t, w, m) \<Longrightarrow> recv_ok s k t w m"
  shows "recvs_ok s"
  using assms unfolding recvs_ok_def by blast

lemma recvs_okD:
  assumes "recvs_ok s"
  shows "ws_inv (in_waiters (bc_inner s))" and "bc_recvs s k \<noteq> None \<Longrightarrow> bc_cursors s k \<noteq> None"
    and "bc_senders s \<noteq> 0 \<Longrightarrow> \<not> bc_leaving s"
    and "bc_senders s \<noteq> 0 \<Longrightarrow>
      reg.owned (in_waiters (bc_inner s)) (parked (bc_cursors s) (length (bc_sent s)) (bc_recvs s))"
    and "bc_recvs s k = Some (Some t, w, m) \<Longrightarrow> recv_ok s k t w m"
  using assms unfolding recvs_ok_def by blast+

text \<open>What a receive does to the log and to what the subscription got.\<close>

lemma bc_invD:
  assumes "bc_inv s"
  shows "log_inv (bc_sent s) (in_log (bc_inner s))" and "bl_tail (in_log (bc_inner s)) = length (bc_sent s)"
    and "bc_cursors s k = Some v \<Longrightarrow> v \<le> length (bc_sent s)"
    and "bc_cursors s k = Some v \<Longrightarrow>
      bc_start s k \<le> v \<and> bc_got s k = take (v - bc_start s k) (drop (bc_start s k) (bc_sent s))"
    and "recvs_ok s" and "got_ok s"
  using assms log_countsD(9) [of "bc_sent s" "in_log (bc_inner s)" k v]
  by (auto simp: bc_inv_def log_inv_def log_counts_def got_ok_def)

lemma bl_receive_cases:
  assumes inv: "bc_inv s" and r: "bl_receive (in_log (bc_inner s)) key = Some (r, log)"
  obtains (none) "r = None" "log = in_log (bc_inner s)" "bc_cursors s key = Some (length (bc_sent s))"
  | (some) v m where "r = Some m" "bc_cursors s key = Some v" "v < length (bc_sent s)" "rc_msg m = bc_sent s ! v"
      "log_inv (bc_sent s) log" "arena_get (bl_receivers log) = (bc_cursors s)(key \<mapsto> v + 1)"
proof -
  note d = bc_invD [OF inv]
  obtain v where v: "bc_cursors s key = Some v" using r by (auto simp: bl_receive_def panic_simps)
  show thesis
  proof (cases "v < length (bc_sent s)")
    case True
    then obtain recl b where "bl_receive (in_log (bc_inner s)) key = Some (Some \<lparr>rc_msg = bc_sent s ! v, rc_reclaimed = recl\<rparr>, b)"
      "log_inv (bc_sent s) b" "arena_get (bl_receivers b) = (bc_cursors s)(key \<mapsto> v + 1)"
      using receive_spec [OF d(1) v] d(2) by metis
    with r v True show thesis by (intro some) auto
  next
    case False
    then have "v = bl_tail (in_log (bc_inner s))" using d(2) d(3) [OF v] by simp
    with r v receive_at_end [OF d(1), of key] d(2) show thesis by (intro none) auto
  qed
qed

lemma got_ok_receive:
  assumes g: "got_ok s" and v: "bc_cursors s key = Some v" "v < length (bc_sent s)" and r: "rc_msg m = bc_sent s ! v"
    and c: "arena_get (bl_receivers (in_log inner)) = (bc_cursors s)(key \<mapsto> v + 1)"
  shows "got_ok (s\<lparr>bc_inner := inner, bc_got := got_one s key (Ok m)\<rparr>)"
proof -
  have "bc_start s key \<le> v" and "bc_got s key = take (v - bc_start s key) (drop (bc_start s key) (bc_sent s))"
    using g v(1) by (auto simp: got_ok_def)
  moreover from this(1) have "take (Suc v - bc_start s key) (drop (bc_start s key) (bc_sent s)) =
      take (v - bc_start s key) (drop (bc_start s key) (bc_sent s)) @ [bc_sent s ! v]"
    using v(2) by (simp add: Suc_diff_le take_Suc_conv_app_nth)
  ultimately show ?thesis using g c r by (auto simp: got_ok_def got_one_def)
qed

text \<open>Moving the cursor of a subscription that is not parked leaves the parked ones as they are.\<close>

lemma recvs_ok_receive:
  assumes o: "recvs_ok s" and v: "bc_cursors s key = Some v" "v < length (bc_sent s)"
    and c: "arena_get (bl_receivers log) = (bc_cursors s)(key \<mapsto> v + 1)"
    and F: "F key = None \<or> (\<exists>w m. F key = Some (None, w, m))" "\<And>k. k \<noteq> key \<Longrightarrow> F k = bc_recvs s k"
  shows "recvs_ok (s\<lparr>bc_inner := (bc_inner s)\<lparr>in_log := log\<rparr>, bc_recvs := F, bc_got := g\<rparr>)"
proof -
  have p: "parked ((bc_cursors s)(key \<mapsto> v + 1)) (length (bc_sent s)) F =
      parked (bc_cursors s) (length (bc_sent s)) (bc_recvs s)" (is "?p = ?q")
  proof
    show "?p k = ?q k" for k
      using v F by (cases "k = key") (auto simp: parked_def split: option.splits)
  qed
  have q: "k \<noteq> key" "bc_recvs s k = Some (Some t, w, m)" if "F k = Some (Some t, w, m)" for k t w m
    using that F by (cases "k = key"; auto)+
  show ?thesis
  proof (rule recvs_okI)
    show "recv_ok (s\<lparr>bc_inner := (bc_inner s)\<lparr>in_log := log\<rparr>, bc_recvs := F, bc_got := g\<rparr>) k t w m"
      if "bc_recvs (s\<lparr>bc_inner := (bc_inner s)\<lparr>in_log := log\<rparr>, bc_recvs := F, bc_got := g\<rparr>) k = Some (Some t, w, m)" for k t w m
      using q [of k t w m] that recvs_okD(5) [OF o, of k t w m] c by (auto simp: recv_ok_def)
    show "bc_cursors (s\<lparr>bc_inner := (bc_inner s)\<lparr>in_log := log\<rparr>, bc_recvs := F, bc_got := g\<rparr>) k \<noteq> None"
      if "bc_recvs (s\<lparr>bc_inner := (bc_inner s)\<lparr>in_log := log\<rparr>, bc_recvs := F, bc_got := g\<rparr>) k \<noteq> None" for k
      using that recvs_okD(2) [OF o, of k] c F by (cases "k = key") auto
  qed (use recvs_okD [OF o] c p in simp_all)
qed

section \<open>The steps of a receiver\<close>

lemma drop_receiver_inv:
  assumes inv: "bc_inv s" and F: "bc_recvs s key = None" and r: "unbounded_drop_receiver (bc_inner s) key = Some inner"
  shows "bc_inv (s\<lparr>bc_inner := inner\<rparr>)"
proof -
  note d = bc_invD [OF inv]
  obtain reclaimed log where l: "remove_receiver (in_log (bc_inner s)) key = Some (reclaimed, log)"
    and i: "inner = (bc_inner s)\<lparr>in_log := log\<rparr>" using r by (auto simp: unbounded_drop_receiver_def panic_simps)
  obtain v a where "arena_remove (bl_receivers (in_log (bc_inner s))) key = Some (v, a)"
    using l by (auto simp: remove_receiver_def panic_simps)
  then have "bc_cursors s key = Some v" by (rule ar.remove_get)
  from remove_receiver_spec [OF d(1) this] l
  have log: "log_inv (bc_sent s) log" "arena_get (bl_receivers log) = (bc_cursors s)(key := None)" by fastforce+
  have p: "parked ((bc_cursors s)(key := None)) (length (bc_sent s)) (bc_recvs s) =
      parked (bc_cursors s) (length (bc_sent s)) (bc_recvs s)"
    using F by (auto simp: parked_def fun_eq_iff split: option.splits)
  have "recvs_ok (s\<lparr>bc_inner := inner\<rparr>)"
  proof (rule recvs_okI)
    show "recv_ok (s\<lparr>bc_inner := inner\<rparr>) k t w m" if "bc_recvs (s\<lparr>bc_inner := inner\<rparr>) k = Some (Some t, w, m)" for k t w m
      using that recvs_okD(5) [OF d(5), of k t w m] log i F by (cases "k = key") (auto simp: recv_ok_def)
    show "bc_cursors (s\<lparr>bc_inner := inner\<rparr>) k \<noteq> None" if "bc_recvs (s\<lparr>bc_inner := inner\<rparr>) k \<noteq> None" for k
      using that recvs_okD(2) [OF d(5), of k] log i F by (cases "k = key") auto
  qed (use recvs_okD [OF d(5)] log i p in simp_all)
  then show ?thesis using d(6) log i by (auto simp: bc_inv_def got_ok_def split: if_splits)
qed

lemma subscribe_inv:
  assumes inv: "bc_inv s" and r: "bc_subscribe (bc_inner s) = Some (key, inner)"
  shows "bc_inv (s\<lparr>bc_inner := inner, bc_start := (bc_start s)(key := length (bc_sent s)), bc_got := (bc_got s)(key := [])\<rparr>)"
    (is "bc_inv ?s")
proof -
  note d = bc_invD [OF inv]
  obtain log where l: "bl_subscribe (in_log (bc_inner s)) = Some (key, log)"
    and i: "inner = (bc_inner s)\<lparr>in_log := log\<rparr>" using r by (auto simp: bc_subscribe_def panic_simps)
  note log = subscribe_spec [OF d(1) l]
  have F: "bc_recvs s key = None" using recvs_okD(2) [OF d(5), of key] log(2) by blast
  have p: "parked ((bc_cursors s)(key \<mapsto> length (bc_sent s))) (length (bc_sent s)) (bc_recvs s) =
      parked (bc_cursors s) (length (bc_sent s)) (bc_recvs s)"
    using F by (auto simp: parked_def fun_eq_iff split: option.splits)
  have "recvs_ok ?s"
  proof (rule recvs_okI)
    show "recv_ok ?s k t w m" if "bc_recvs ?s k = Some (Some t, w, m)" for k t w m
      using that recvs_okD(5) [OF d(5), of k t w m] log i F by (cases "k = key") (auto simp: recv_ok_def)
    show "bc_cursors ?s k \<noteq> None" if "bc_recvs ?s k \<noteq> None" for k
      using that recvs_okD(2) [OF d(5), of k] log i by (cases "k = key") auto
  qed (use recvs_okD [OF d(5)] log i p d(2) in simp_all)
  then show ?thesis using d(2,6) log i by (auto simp: bc_inv_def got_ok_def split: if_splits)
qed

lemma try_recv_inv:
  assumes inv: "bc_inv s" and F: "bc_recvs s key = None"
    and r: "try_receive (bc_inner s) (bc_senders s) key = Some (r, inner)"
  shows "bc_inv (s\<lparr>bc_inner := inner, bc_got := got_one s key r\<rparr>)"
proof -
  note d = bc_invD [OF inv]
  obtain r' log where l: "bl_receive (in_log (bc_inner s)) key = Some (r', log)"
    and i: "inner = (bc_inner s)\<lparr>in_log := log\<rparr>"
    and e: "r = (case r' of Some m \<Rightarrow> Ok m | None \<Rightarrow> if bc_senders s = 0 then Err RecvDisconnected else Err Empty)"
    using r by (auto simp: try_receive_def panic_simps Let_def split: option.splits if_splits)
  show ?thesis
  proof (cases rule: bl_receive_cases [OF inv l])
    case 1
    then have "got_one s key r = bc_got s" using e by (auto simp: got_one_def)
    then show ?thesis using inv i 1 by simp
  next
    case (2 v m)
    have "recvs_ok (s\<lparr>bc_inner := inner, bc_got := got_one s key r\<rparr>)"
      using recvs_ok_receive [OF d(5) 2(2,3,6), of "bc_recvs s"] F i by simp
    moreover have "got_ok (s\<lparr>bc_inner := inner, bc_got := got_one s key r\<rparr>)"
      using got_ok_receive [OF d(6) 2(2,3,4), of inner] 2(1,6) e i by simp
    ultimately show ?thesis using 2(5) i by (simp add: bc_inv_def)
  qed
qed

lemma poll_inv:
  assumes inv: "bc_inv s" and F: "bc_recvs s key = Some (tok, w0, m0)"
    and r: "poll_receive (bc_inner s) (bc_senders s) key tok w = Some (p, tok', inner)"
  shows "bc_inv (s\<lparr>bc_inner := inner, bc_recvs := (bc_recvs s)(key \<mapsto> (tok', w, length (bc_woken s))),
    bc_got := (case p of Ready r \<Rightarrow> got_one s key r | Pending \<Rightarrow> bc_got s)\<rparr>)" (is "bc_inv ?s")
proof -
  note d = bc_invD [OF inv]
  obtain r' log where l: "bl_receive (in_log (bc_inner s)) key = Some (r', log)"
    using r by (auto simp: poll_receive_def panic_simps)
  show ?thesis
  proof (cases rule: bl_receive_cases [OF inv l])
    case (2 v m)
    then have i: "inner = (bc_inner s)\<lparr>in_log := log\<rparr>" "tok' = None" "p = Ready (Ok m)"
      using r l by (auto simp: poll_receive_def)
    have "recvs_ok ?s" using recvs_ok_receive [OF d(5) 2(2,3,6), of "(bc_recvs s)(key \<mapsto> (None, w, length (bc_woken s)))"] i by simp
    moreover have "got_ok ?s" using got_ok_receive [OF d(6) 2(2,3,4), of inner] 2(6) i by (simp add: got_ok_def)
    ultimately show ?thesis using 2(5) i by (simp add: bc_inv_def)
  next
    case 1
    show ?thesis
    proof (cases "bc_senders s = 0")
      case True
      then have i: "inner = bc_inner s" "tok' = None" "p = Ready (Err Disconnected)"
        using r l 1 by (auto simp: poll_receive_def)
      have "recvs_ok ?s"
      proof (rule recvs_okI)
        show "recv_ok ?s k t w m" if "bc_recvs ?s k = Some (Some t, w, m)" for k t w m
          using that i recvs_okD(5) [OF d(5), of k t w m] by (auto simp: recv_ok_def split: if_splits)
        show "bc_cursors ?s k \<noteq> None" if "bc_recvs ?s k \<noteq> None" for k
          using that i recvs_okD(2) [OF d(5), of k] 1(3) by (auto split: if_splits)
      qed (use recvs_okD [OF d(5)] i True in simp_all)
      then show ?thesis using inv i by (simp add: bc_inv_def got_ok_def got_one_def)
    next
      case False
      let ?P = "parked (bc_cursors s) (length (bc_sent s)) (bc_recvs s)"
      note o = recvs_okD(4) [OF d(5) False]
      obtain retired ws where g: "ws_register (in_waiters (bc_inner s)) tok w = Some (retired, tok', ws)"
        and i: "inner = (bc_inner s)\<lparr>in_waiters := ws\<rparr>" "p = Pending"
        using r l 1 False by (auto simp: poll_receive_def panic_simps)
      have "tok = map_option fst (?P key)" using F 1(3) by (cases tok) (simp_all add: parked_def)
      then obtain t where t: "tok' = Some t" "reg.owned ws (?P(key \<mapsto> (t, w)))"
        using reg.park [OF o, of key w retired tok' ws] g by metis
      have P: "parked (bc_cursors s) (length (bc_sent s)) ((bc_recvs s)(key \<mapsto> (Some t, w, m))) = ?P(key \<mapsto> (t, w))" for m
        using 1(3) by (auto simp: parked_def fun_eq_iff)
      have "recvs_ok ?s"
      proof (rule recvs_okI)
        show "recv_ok ?s k t' w' m" if "bc_recvs ?s k = Some (Some t', w', m)" for k t' w' m
          using that i t recvs_okD(5) [OF d(5), of k t' w' m] 1(3) False recvs_okD(3) [OF d(5)]
          by (auto simp: recv_ok_def split: if_splits)
        show "bc_cursors ?s k \<noteq> None" if "bc_recvs ?s k \<noteq> None" for k
          using that i recvs_okD(2) [OF d(5), of k] 1(3) by (auto split: if_splits)
      qed (use recvs_okD [OF d(5)] i False t P reg.owned_inv [OF t(2)] in simp_all)
      then show ?thesis using inv i by (simp add: bc_inv_def got_ok_def)
    qed
  qed
qed

lemma drop_recv_waiters:
  assumes inv: "bc_inv s" and F: "bc_recvs s key = Some (tok, w0, m0)"
    and r: "bc_recv_drop (bc_inner s) (bc_senders s) key tok = Some (tok', inner)"
  shows "bc_senders s = 0 \<Longrightarrow> inner = bc_inner s"
    and "bc_senders s \<noteq> 0 \<Longrightarrow> reg.owned (in_waiters inner)
      ((parked (bc_cursors s) (length (bc_sent s)) (bc_recvs s))(key := None))"
proof -
  note d = bc_invD [OF inv]
  let ?P = "parked (bc_cursors s) (length (bc_sent s)) (bc_recvs s)"
  obtain v where v: "bc_cursors s key = Some v" using recvs_okD(2) [OF d(5), of key] F by auto
  have u: "bl_unread (in_log (bc_inner s)) key = Some (length (bc_sent s) - v)" using unread_spec [OF d(1) v] d(2) by simp
  show "inner = bc_inner s" if "bc_senders s = 0"
    using r that u by (auto simp: bc_recv_drop_def bc_unregister_def split: if_splits)
  show "reg.owned (in_waiters inner) (?P(key := None))" if n: "bc_senders s \<noteq> 0"
  proof (cases "tok = None \<or> v \<noteq> length (bc_sent s)")
    case True
    then have "inner = bc_inner s"
      using r u d(3) [OF v] by (auto simp: bc_recv_drop_def bc_unregister_def split: if_splits)
    moreover have "?P key = None" using True F v by (auto simp: parked_def split: option.splits)
    ultimately show ?thesis using recvs_okD(4) [OF d(5) n] by (simp add: fun_upd_idem)
  next
    case False
    then obtain t where t: "tok = Some t" "v = length (bc_sent s)" by auto
    then have "?P key = Some (t, w0)" using F v by (simp add: parked_def)
    then obtain ws where "ws_unregister (in_waiters (bc_inner s)) (Some t) = Some (Some w0, None, ws)"
      "reg.owned ws (?P(key := None))"
      using reg.unpark [OF recvs_okD(4) [OF d(5) n]] by blast
    then show ?thesis using r t n u by (auto simp: bc_recv_drop_def bc_unregister_def)
  qed
qed

lemma drop_recv_inv:
  assumes inv: "bc_inv s" and F: "bc_recvs s key = Some (tok, w0, m0)"
    and r: "bc_recv_drop (bc_inner s) (bc_senders s) key tok = Some (tok', inner)"
  shows "bc_inv (s\<lparr>bc_inner := inner, bc_recvs := (bc_recvs s)(key := None)\<rparr>)" (is "bc_inv ?s")
proof -
  note d = bc_invD [OF inv] and w = drop_recv_waiters [OF inv F r]
  have P: "parked (bc_cursors s) (length (bc_sent s)) ((bc_recvs s)(key := None)) =
      (parked (bc_cursors s) (length (bc_sent s)) (bc_recvs s))(key := None)"
    by (auto simp: parked_def fun_eq_iff)
  have log: "in_log inner = in_log (bc_inner s)"
    using r by (auto simp: bc_recv_drop_def bc_unregister_def panic_simps split: if_splits)
  have "ws_inv (in_waiters inner)"
    using w recvs_okD(1) [OF d(5)] reg.owned_inv by (cases "bc_senders s = 0") auto
  then have "recvs_ok ?s"
  proof (intro recvs_okI)
    show "recv_ok ?s k t w' m" if "bc_recvs ?s k = Some (Some t, w', m)" for k t w' m
      using that log w(1) recvs_okD(5) [OF d(5), of k t w' m] by (auto simp: recv_ok_def split: if_splits)
    show "bc_cursors ?s k \<noteq> None" if "bc_recvs ?s k \<noteq> None" for k
      using that log recvs_okD(2) [OF d(5), of k] by (auto split: if_splits)
  qed (use recvs_okD(3) [OF d(5)] log w(2) P in simp_all)
  then show ?thesis using inv log by (simp add: bc_inv_def got_ok_def)
qed

section \<open>Publication\<close>

text \<open>
  What the channels promise of a publication: the message is appended to the log, no cursor
  moves, and every registration is taken out and woken.
\<close>

locale bc_publication =
  fixes publish :: "'a bc_inner \<Rightarrow> 'a \<Rightarrow> (waker list \<times> 'a bc_inner) option"
  assumes publish_law: "publish inner msg = Some (woken, inner') \<Longrightarrow> log_inv H (in_log inner) \<Longrightarrow>
      ws_inv (in_waiters inner) \<Longrightarrow>
      log_inv (H @ [msg]) (in_log inner') \<and>
      arena_get (bl_receivers (in_log inner')) = arena_get (bl_receivers (in_log inner)) \<and>
      set woken = ran (ws_regs (in_waiters inner)) \<and>
      ws_inv (in_waiters inner') \<and> ws_regs (in_waiters inner') = Map.empty"
begin

lemma send_inv:
  assumes inv: "bc_inv s" and n: "bc_senders s \<noteq> 0" and r: "publish (bc_inner s) msg = Some (woken, inner)"
  shows "bc_inv (s\<lparr>bc_inner := inner, bc_woken := bc_woken s @ woken, bc_sent := bc_sent s @ [msg]\<rparr>)" (is "bc_inv ?s")
proof -
  note d = bc_invD [OF inv]
  have l: "log_inv (bc_sent s @ [msg]) (in_log inner)" "arena_get (bl_receivers (in_log inner)) = bc_cursors s"
    "set woken = ran (ws_regs (in_waiters (bc_inner s)))" "ws_inv (in_waiters inner)" "ws_regs (in_waiters inner) = Map.empty"
    using publish_law [OF r d(1) recvs_okD(1) [OF d(5)]] by blast+
  have P: "parked (bc_cursors s) (length (bc_sent s @ [msg])) (bc_recvs s) = Map.empty"
    using d(3) by (fastforce simp: parked_def fun_eq_iff split: option.splits)
  have "recvs_ok ?s"
  proof (rule recvs_okI)
    show "recv_ok ?s k t w m" if k: "bc_recvs ?s k = Some (Some t, w, m)" for k t w m
    proof (cases "w \<in> set (drop m (bc_woken s))")
      case True
      then show ?thesis using k recvs_okD(5) [OF d(5), of k t w m] by (simp add: recv_ok_def)
    next
      case False
      then have c: "bc_cursors s k = Some (length (bc_sent s))" "m \<le> length (bc_woken s)"
        using k recvs_okD(5) [OF d(5), of k t w m] by (simp_all add: recv_ok_def)
      then have "parked (bc_cursors s) (length (bc_sent s)) (bc_recvs s) k = Some (t, w)" using k by (simp add: parked_def)
      then have "w \<in> set woken" using reg.owned_regs [OF recvs_okD(4) [OF d(5) n]] l(3) by (auto intro: ranI)
      then show ?thesis using c(2) by (simp add: recv_ok_def)
    qed
    show "bc_cursors ?s k \<noteq> None" if "bc_recvs ?s k \<noteq> None" for k
      using that recvs_okD(2) [OF d(5), of k] l(2) by simp
    show "reg.owned (in_waiters (bc_inner ?s)) (parked (bc_cursors ?s) (length (bc_sent ?s)) (bc_recvs ?s))"
      using P l(2) reg.owned_empty [OF l(4,5)] by simp
  qed (use recvs_okD(3) [OF d(5)] n l in simp_all)
  moreover have "got_ok ?s" using d(3,6) l(2) by (auto simp: got_ok_def)
  ultimately show ?thesis using l(1) by (simp add: bc_inv_def)
qed

lemma step_inv: "bc_step publish s s' \<Longrightarrow> bc_inv s \<Longrightarrow> bc_inv s'"
proof (induction rule: bc_step.induct)
  case (clone_sender s)
  then have "bc_clone_sender (bc_senders s) \<noteq> 0" by (simp add: bc_clone_sender_def)
  with clone_sender show ?case by (auto simp: bc_inv_def got_ok_def recvs_ok_def recv_ok_def)
next
  case (drop_sender s final n)
  note o = recvs_okD [OF bc_invD(5) [OF drop_sender(3)]]
  have regs: "ws_regs (in_waiters (bc_inner s)) t = Some w"
    if "bc_recvs s k = Some (Some t, w, m)" "bc_cursors s k = Some (length (bc_sent s))" for k t w m
    using reg.owned_regs [OF o(4) [OF drop_sender(1)], of k t w] that by (simp add: parked_def)
  have "recvs_ok (s\<lparr>bc_senders := n, bc_leaving := final\<rparr>)"
  proof (rule recvs_okI)
    show "recv_ok (s\<lparr>bc_senders := n, bc_leaving := final\<rparr>) k t w m"
      if "bc_recvs (s\<lparr>bc_senders := n, bc_leaving := final\<rparr>) k = Some (Some t, w, m)" for k t w m
      using that o(5) [of k t w m] regs [of k t w m] drop_sender(1,2) by (auto simp: recv_ok_def bc_drop_sender_def split: if_splits)
    show "bc_cursors (s\<lparr>bc_senders := n, bc_leaving := final\<rparr>) k \<noteq> None"
      if "bc_recvs (s\<lparr>bc_senders := n, bc_leaving := final\<rparr>) k \<noteq> None" for k using that o(2) by simp
  qed (use o drop_sender(1,2) in \<open>auto simp: bc_drop_sender_def split: if_splits\<close>)
  then show ?case using drop_sender(3) by (simp add: bc_inv_def got_ok_def)
next
  case (disconnect s woken inner)
  note o = recvs_okD [OF bc_invD(5) [OF disconnect(3)]]
  have i: "in_log inner = in_log (bc_inner s)" "in_waiters inner = ws_new" "set woken = ran (ws_regs (in_waiters (bc_inner s)))"
    using disconnect(2) by (auto simp: disconnect_def set_ws_wake_all)
  have z: "bc_senders s = 0" using o(3) disconnect(1) by blast
  have "recvs_ok (s\<lparr>bc_inner := inner, bc_leaving := False, bc_woken := bc_woken s @ woken\<rparr>)" (is "recvs_ok ?s")
  proof (rule recvs_okI)
    show "recv_ok ?s k t w m" if "bc_recvs ?s k = Some (Some t, w, m)" for k t w m
      using that o(5) [of k t w m] z i by (auto simp: recv_ok_def intro: ranI)
    show "bc_cursors ?s k \<noteq> None" if "bc_recvs ?s k \<noteq> None" for k using that o(2) i by simp
  qed (use i z in simp_all)
  then show ?case using disconnect(3) i by (simp add: bc_inv_def got_ok_def)
next
  case (send s msg woken inner)
  then show ?case by (intro send_inv)
next
  case (subscribe s key inner)
  then show ?case by (intro subscribe_inv)
next
  case (drop_receiver s key inner)
  then show ?case by (intro drop_receiver_inv)
next
  case (try_recv s key r inner)
  then show ?case by (intro try_recv_inv)
next
  case (recv s key)
  have "parked (bc_cursors s) (length (bc_sent s)) ((bc_recvs s)(key \<mapsto> (None, 0, 0))) =
      parked (bc_cursors s) (length (bc_sent s)) (bc_recvs s)"
    using recv(2) by (auto simp: parked_def fun_eq_iff)
  with recv show ?case by (auto simp: bc_inv_def got_ok_def recvs_ok_def recv_ok_def)
next
  case (poll_ready s key tok w0 m0 w r tok' inner)
  then show ?case using poll_inv [OF poll_ready(3,1,2)] by simp
next
  case (poll_pending s key tok w0 m0 w tok' inner)
  then show ?case using poll_inv [OF poll_pending(3,1,2)] by simp
next
  case (drop_recv s key tok w0 m0 tok' inner)
  then show ?case by (intro drop_recv_inv)
qed

lemma reach_inv: "(bc_step publish)\<^sup>*\<^sup>* s0 s \<Longrightarrow> bc_inv s0 \<Longrightarrow> bc_inv s"
  by (induction rule: rtranclp_induct) (auto intro: step_inv)

end

section \<open>The unbounded channel\<close>

text \<open>Taking out and waking every registration.\<close>

lemma take_and_wake:
  assumes "ws_inv ws" and "ws_take_all ws = Some (b, ws')" and "wb_wake_all b = Some (woken, b')"
  shows "set woken = ran (ws_regs ws)" and "ws_inv ws'" and "ws_regs ws' = Map.empty"
proof -
  obtain b1 ws1 where t: "ws_take_all ws = Some (b1, ws1)" "wb_inv b1" "set (wb_list b1) = ran (ws_regs ws)"
    "ws_inv ws1" "ws_regs ws1 = Map.empty"
    using reg.take_all_law [OF assms(1)] by blast
  moreover have "woken = wb_list b1"
    using wb_wake_all_spec [OF t(2)] t(1) assms(2,3) by (metis option.inject prod.inject)
  ultimately show "set woken = ran (ws_regs ws)" "ws_inv ws'" "ws_regs ws' = Map.empty"
    using assms(2) by auto
qed

lemma publish_retained_law:
  assumes "log_inv H b" and "publish_retained b msg = Some b'"
  shows "log_inv (H @ [msg]) b'" and "arena_get (bl_receivers b') = arena_get (bl_receivers b)"
proof -
  have "bl_has_receivers b" "bl_tail b < usize_max"
    using assms(2) by (auto simp: publish_retained_def advance_tail_def panic_simps)
  from publish_retained_spec [OF assms(1) this, of msg] assms(2)
  show "log_inv (H @ [msg]) b'" "arena_get (bl_receivers b') = arena_get (bl_receivers b)" by fastforce+
qed

lemma publish_discarded_law:
  assumes "log_inv H b" and "publish_discarded b = Some b'"
  shows "log_inv (H @ [msg]) b'" and "arena_get (bl_receivers b') = arena_get (bl_receivers b)"
proof -
  have "\<not> bl_has_receivers b" "bl_tail b < usize_max"
    using assms(2) by (auto simp: publish_discarded_def advance_tail_def panic_simps)
  from publish_discarded_spec(1) [OF assms(1) this] publish_discarded_spec(2) [OF assms(1) this, of msg] assms(2)
  show "log_inv (H @ [msg]) b'" "arena_get (bl_receivers b') = arena_get (bl_receivers b)" by auto
qed

interpretation ub: bc_publication unbounded_publish
proof
  fix inner :: "'a bc_inner" and msg woken inner' H
  assume p: "unbounded_publish inner msg = Some (woken, inner')" and l: "log_inv H (in_log inner)" and w: "ws_inv (in_waiters inner)"
  obtain u log b ws b' where
    u: "bl_publish (in_log inner) msg = Some (u, log)" "ws_take_all (in_waiters inner) = Some (b, ws)"
      "wb_wake_all b = Some (woken, b')" "inner' = inner\<lparr>in_log := log, in_waiters := ws\<rparr>"
    using p by (auto simp: unbounded_publish_def panic_simps)
  have "log_inv (H @ [msg]) log" "arena_get (bl_receivers log) = arena_get (bl_receivers (in_log inner))"
    using u(1) publish_retained_law [OF l] publish_discarded_law [OF l]
    by (auto simp: bl_publish_def panic_simps split: if_splits)
  then show "log_inv (H @ [msg]) (in_log inner') \<and>
      arena_get (bl_receivers (in_log inner')) = arena_get (bl_receivers (in_log inner)) \<and>
      set woken = ran (ws_regs (in_waiters inner)) \<and>
      ws_inv (in_waiters inner') \<and> ws_regs (in_waiters inner') = Map.empty"
    using take_and_wake [OF w u(2,3)] u(4) by simp
qed

lemma bc_init_inv:
  assumes "with_first_subscription (bl_new r) = Some c"
  shows "bc_inv (bc_init (c, 1))"
proof -
  obtain key log where l: "bl_subscribe (bl_new r) = Some (key, log)" and c: "c = (\<lparr>in_log = log, in_waiters = ws_new\<rparr>, key)"
    using assms by (auto simp: with_first_subscription_def panic_simps)
  note s = subscribe_spec [OF log_inv_new l]
  have "parked x n Map.empty = Map.empty" for x n by (simp add: parked_def fun_eq_iff)
  then show ?thesis
    using s c by (auto simp: bc_inv_def bc_init_def recvs_ok_def got_ok_def bl_new_def split: if_splits)
qed

lemma unbounded_reach_inv:
  assumes "bc_unbounded = Some c" and "(bc_step unbounded_publish)\<^sup>*\<^sup>* (bc_init c) s"
  shows "bc_inv s"
proof -
  obtain d where "with_first_subscription bl_elastic = Some d" "c = (d, 1)"
    using assms(1) by (auto simp: bc_unbounded_def panic_simps)
  then have "bc_inv (bc_init c)" using bc_init_inv [of "Elastic 0" d] by (simp add: bl_elastic_def)
  with assms(2) show ?thesis by (rule ub.reach_inv)
qed

text \<open>The promises of a channel in a state that satisfies the invariant.\<close>

lemma bc_reads:
  assumes inv: "bc_inv s" and k: "bc_cursors s k = Some v"
  shows "bc_start s k \<le> v \<and> bc_got s k = take (v - bc_start s k) (drop (bc_start s k) (bc_sent s)) \<and>
    (if v < length (bc_sent s)
     then \<exists>recl inner. try_receive (bc_inner s) (bc_senders s) k =
       Some (Ok \<lparr>rc_msg = bc_sent s ! v, rc_reclaimed = recl\<rparr>, inner)
     else try_receive (bc_inner s) (bc_senders s) k =
       Some (Err (if bc_senders s = 0 then RecvDisconnected else Empty), bc_inner s))"
proof (cases "v < length (bc_sent s)")
  case True
  then obtain recl b where "bl_receive (in_log (bc_inner s)) k = Some (Some \<lparr>rc_msg = bc_sent s ! v, rc_reclaimed = recl\<rparr>, b)"
    using receive_spec [OF bc_invD(1) [OF inv] k] bc_invD(2) [OF inv] by metis
  then show ?thesis using bc_invD(4) [OF inv k] True by (simp add: try_receive_def)
next
  case False
  then have "v = bl_tail (in_log (bc_inner s))" using bc_invD(2,3) [OF inv] k by fastforce
  then show ?thesis
    using bc_invD(4) [OF inv k] False receive_at_end [OF bc_invD(1) [OF inv], of k] k by (simp add: try_receive_def)
qed

lemma bc_woken:
  assumes inv: "bc_inv s" and k: "bc_recvs s k = Some (Some t, w, m)"
    and r: "bc_cursors s k \<noteq> Some (length (bc_sent s)) \<or> bc_senders s = 0 \<and> \<not> bc_leaving s"
  shows "w \<in> set (drop m (bc_woken s))"
  using recvs_okD(5) [OF bc_invD(5) [OF inv] k] r by (auto simp: recv_ok_def)

lemma bc_no_panic:
  assumes inv: "bc_inv s" and k: "bc_recvs s k = Some (tok, w, m)"
  shows "ws_room (in_waiters (bc_inner s)) \<Longrightarrow> \<exists>x. poll_receive (bc_inner s) (bc_senders s) k tok w' = Some x"
    and "\<exists>x. bc_recv_drop (bc_inner s) (bc_senders s) k tok = Some x"
proof -
  note d = bc_invD [OF inv]
  let ?P = "parked (bc_cursors s) (length (bc_sent s)) (bc_recvs s)"
  obtain v where v: "bc_cursors s k = Some v" using recvs_okD(2) [OF d(5), of k] k by auto
  note u = unread_spec [OF d(1) v]
  have P: "?P k = map_option (\<lambda>t. (t, w)) tok" if "v = length (bc_sent s)"
    using k v that by (cases tok) (simp_all add: parked_def)
  show "\<exists>x. poll_receive (bc_inner s) (bc_senders s) k tok w' = Some x" if room: "ws_room (in_waiters (bc_inner s))"
  proof (cases "v < length (bc_sent s)")
    case True
    then obtain recl b where "bl_receive (in_log (bc_inner s)) k = Some (Some \<lparr>rc_msg = bc_sent s ! v, rc_reclaimed = recl\<rparr>, b)"
      using receive_spec [OF d(1) v] d(2) by metis
    then show ?thesis by (simp add: poll_receive_def)
  next
    case False
    then have l: "v = length (bc_sent s)" using d(3) [OF v] by simp
    then have e: "bl_receive (in_log (bc_inner s)) k = Some (None, in_log (bc_inner s))"
      using receive_at_end [OF d(1)] v d(2) by simp
    have "map_option fst (?P k) = tok" using P [OF l] by (cases tok) simp_all
    then have "\<exists>r t' ws. ws_register (in_waiters (bc_inner s)) tok w' = Some (r, Some t', ws)" if "bc_senders s \<noteq> 0"
      using reg.park_total [OF recvs_okD(4) [OF d(5) that], of k w'] room by simp
    then show ?thesis using e by (cases "bc_senders s = 0") (auto simp: poll_receive_def)
  qed
  show "\<exists>x. bc_recv_drop (bc_inner s) (bc_senders s) k tok = Some x"
  proof (cases "tok = None \<or> v < length (bc_sent s) \<or> bc_senders s = 0")
    case True
    then show ?thesis using u d(2) by (auto simp: bc_recv_drop_def bc_unregister_def)
  next
    case False
    then obtain t where t: "tok = Some t" "v = length (bc_sent s)" using d(3) [OF v] by auto
    obtain ws where "ws_unregister (in_waiters (bc_inner s)) (Some t) = Some (Some w, None, ws)"
      using reg.unpark [OF recvs_okD(4) [OF d(5)], of k t w] False P [OF t(2)] t(1) by auto
    then show ?thesis using u d(2) t False by (auto simp: bc_recv_drop_def bc_unregister_def)
  qed
qed

section \<open>A concrete run\<close>

text \<open>The first subscription waits with waker 7, then 5 is sent.\<close>

definition bc_key :: slot_id where
  "bc_key = SlotId (NonZero 0)"

definition demo_log :: "nat \<Rightarrow> nat log_slot list \<Rightarrow> nat backlog" where
  "demo_log at_tail buffer = \<lparr>bl_buffer = buffer, bl_head = 0, bl_at_tail = at_tail, bl_tail = length buffer,
     bl_receivers = \<lparr>ar_slots = [Occupied 0], ar_vacant_head = None, ar_len = 1\<rparr>, bl_retention = Elastic (length buffer)\<rparr>"

definition demo_bc :: "nat backlog \<Rightarrow> waker slot list \<Rightarrow> recvs \<Rightarrow> waker list \<Rightarrow> nat list \<Rightarrow> nat bc_sys" where
  "demo_bc log ws F woken sent = \<lparr>bc_inner = \<lparr>in_log = log, in_waiters = \<lparr>ws_wakers =
       \<lparr>ar_slots = ws, ar_vacant_head = None, ar_len = length ws\<rparr>\<rparr>\<rparr>,
     bc_senders = 1, bc_leaving = False, bc_recvs = F, bc_woken = woken, bc_sent = sent,
     bc_start = (\<lambda>k. 0), bc_got = (\<lambda>k. [])\<rparr>"

abbreviation demo_sent :: "nat bc_sys" where
  "demo_sent \<equiv> demo_bc (demo_log 0 [\<lparr>ls_msg = 5, ls_cursors = 1\<rparr>]) [] [bc_key \<mapsto> (Some (WakerToken bc_key), 7, 0)] [7] [5]"

lemma demo_bc_unbounded:
  "bc_unbounded = Some ((\<lparr>in_log = demo_log 1 [], in_waiters = ws_new\<rparr>, bc_key), 1)"
  by (simp add: op_defs demo_log_def bc_key_def)

lemma demo_bc_reach:
  "(bc_step unbounded_publish)\<^sup>*\<^sup>* (bc_init ((\<lparr>in_log = demo_log 1 [], in_waiters = ws_new\<rparr>, bc_key), 1)) demo_sent"
proof -
  let ?s1 = "demo_bc (demo_log 1 []) [] [bc_key \<mapsto> (None, 0, 0)] [] []"
  let ?s2 = "demo_bc (demo_log 1 []) [Occupied 7] [bc_key \<mapsto> (Some (WakerToken bc_key), 7, 0)] [] []"
  have "bc_step unbounded_publish (bc_init ((\<lparr>in_log = demo_log 1 [], in_waiters = ws_new\<rparr>, bc_key), 1)) ?s1"
    using bc_step.recv [of "bc_init ((\<lparr>in_log = demo_log 1 [], in_waiters = ws_new\<rparr>, bc_key), 1)" bc_key unbounded_publish]
    by (simp add: bc_init_def demo_bc_def demo_log_def bc_key_def op_defs)
  moreover have "bc_step unbounded_publish ?s1 ?s2"
    using bc_step.poll_pending [of ?s1 bc_key None 0 0 7 "Some (WakerToken bc_key)" "bc_inner ?s2" unbounded_publish]
    by (simp add: demo_bc_def demo_log_def bc_key_def op_defs)
  moreover have "bc_step unbounded_publish ?s2 demo_sent"
    using bc_step.send [of ?s2 unbounded_publish 5 "[7]" "bc_inner demo_sent"]
    by (simp add: demo_bc_def demo_log_def bc_key_def op_defs take_update_swap)
  ultimately show ?thesis by (meson run_step rtranclp.rtrancl_refl)
qed

section \<open>Properties\<close>

text \<open>
  C24: a broadcast subscription reads every message published since it subscribed, in order,
  exactly once. Through every interleaving of senders, subscriptions, receives, cancelled
  receives and dropped receivers, what it got is the part of the history from where it started
  up to its cursor, and its next receive returns the next message of the history, or reports
  that there is none.
\<close>

theorem broadcast_reads_all:
  assumes "bc_unbounded = Some c" and "(bc_step unbounded_publish)\<^sup>*\<^sup>* (bc_init c) s" and "bc_cursors s k = Some v"
  shows "bc_start s k \<le> v \<and> bc_got s k = take (v - bc_start s k) (drop (bc_start s k) (bc_sent s)) \<and>
    (if v < length (bc_sent s)
     then \<exists>recl inner. try_receive (bc_inner s) (bc_senders s) k =
       Some (Ok \<lparr>rc_msg = bc_sent s ! v, rc_reclaimed = recl\<rparr>, inner)
     else try_receive (bc_inner s) (bc_senders s) k =
       Some (Err (if bc_senders s = 0 then RecvDisconnected else Empty), bc_inner s))"
  by (rule bc_reads [OF unbounded_reach_inv [OF assms(1,2)] assms(3)])

theorem broadcast_reads_all_witness:
  "\<exists>recl inner. try_receive (bc_inner demo_sent) 1 bc_key = Some (Ok \<lparr>rc_msg = 5, rc_reclaimed = recl\<rparr>, inner)"
  using broadcast_reads_all [OF demo_bc_unbounded demo_bc_reach, of bc_key 0]
  by (simp add: demo_bc_def demo_log_def bc_key_def arena_get_def slot_at_def)

text \<open>
  C25: no wake-up of a broadcast receive is lost. A pending receive with a message to read, or
  whose senders are all gone and done disconnecting, has been woken since its last poll, although
  its registration is detached by others and its token may have been given to someone else;
  polling it never panics while there is room to register, and dropping it never panics.
\<close>

theorem broadcast_wakeups:
  assumes "bc_unbounded = Some c" and "(bc_step unbounded_publish)\<^sup>*\<^sup>* (bc_init c) s" and "bc_recvs s k = Some (tok, w, m)"
  shows "(tok \<noteq> None \<longrightarrow> unread_message_count (bc_inner s) k \<noteq> Some 0 \<or> bc_senders s = 0 \<and> \<not> bc_leaving s \<longrightarrow>
      w \<in> set (drop m (bc_woken s))) \<and>
    (ws_room (in_waiters (bc_inner s)) \<longrightarrow> poll_receive (bc_inner s) (bc_senders s) k tok w' \<noteq> None) \<and>
    bc_recv_drop (bc_inner s) (bc_senders s) k tok \<noteq> None"
proof -
  have inv: "bc_inv s" by (rule unbounded_reach_inv [OF assms(1,2)])
  note d = bc_invD [OF inv]
  have "bc_cursors s k \<noteq> Some (length (bc_sent s))" if "unread_message_count (bc_inner s) k \<noteq> Some 0"
    using that unread_spec [OF d(1)] d(2) by (auto simp: unread_message_count_def)
  then show ?thesis
    using bc_woken [OF inv, of k] bc_no_panic(1) [OF inv assms(3), of w'] bc_no_panic(2) [OF inv assms(3)] assms(3)
    by (cases tok) auto
qed

theorem broadcast_wakeups_witness:
  "(7::waker) \<in> set (drop 0 (bc_woken demo_sent)) \<and>
   bc_recv_drop (bc_inner demo_sent) 1 bc_key (Some (WakerToken bc_key)) \<noteq> None"
  using broadcast_wakeups [OF demo_bc_unbounded demo_bc_reach, of bc_key "Some (WakerToken bc_key)" 7 0 0]
  by (simp add: demo_bc_def demo_log_def bc_key_def unread_message_count_def op_defs)

text \<open>
  C26: the channel retains exactly the messages that some subscription has still to read: as
  many as the slowest one lags behind, and none when there is no subscription.
\<close>

theorem broadcast_retains_for_slowest:
  assumes "bc_unbounded = Some c" and "(bc_step unbounded_publish)\<^sup>*\<^sup>* (bc_init c) s"
  shows "retained_message_count (bc_inner s) =
    (if bl_has_receivers (in_log (bc_inner s)) then length (bc_sent s) - Min (ran (bc_cursors s)) else 0)"
proof -
  note d = bc_invD [OF unbounded_reach_inv [OF assms]]
  have "length (bl_buffer (in_log (bc_inner s))) = length (bc_sent s) - bl_head (in_log (bc_inner s))"
    using d(1,2) log_countsD(5) [of "bc_sent s"] by (simp add: log_inv_def)
  then show ?thesis
    using head_slowest [OF d(1)] no_receivers(1) [OF d(1)]
    by (cases "bl_has_receivers (in_log (bc_inner s))") (simp_all add: retained_message_count_def bl_retained_def)
qed

theorem broadcast_retains_for_slowest_witness:
  "retained_message_count (bc_inner demo_sent) = 1 - Min (ran (bc_cursors demo_sent))"
  using broadcast_retains_for_slowest [OF demo_bc_unbounded demo_bc_reach]
  by (simp add: demo_bc_def demo_log_def op_defs)

end
