(* ===== verification/BroadcastBounded.thy ===== *)
theory BroadcastBounded
  imports Broadcast Semaphore
begin

text \<open>
  The bounded broadcast channel of \<open>broadcast/mpmc/bounded/mod.rs\<close>: the shared log with a limit
  on the retained messages, a semaphore on which full producers wait, and a count of announced
  producers that spares the semaphore when nobody waits.
\<close>

section \<open>Operations\<close>

record 'a bounded_shared =
  bb_inner :: "'a bc_inner"
  bb_senders :: usize
  bb_capacity :: usize
  bb_permits :: semaphore
  bb_blocked :: usize

definition bb_bounded :: "usize \<Rightarrow> ('a bounded_shared \<times> slot_id) option" where
  "bb_bounded capacity = do {
     guard (capacity > 0);
     (inner, key) \<leftarrow> with_first_subscription (bl_fixed capacity);
     Some (\<lparr>bb_inner = inner, bb_senders = 1, bb_capacity = capacity, bb_permits = sem_new 0, bb_blocked = 0\<rparr>, key) }"

definition waiting_senders :: "'a bounded_shared \<Rightarrow> usize" where
  "waiting_senders sh = bb_blocked sh"

definition release_reclaimed :: "'a bounded_shared \<Rightarrow> usize \<Rightarrow> (waker list \<times> 'a bounded_shared) option" where
  "release_reclaimed sh freed =
     (if freed = 0 then Some ([], sh)
      else let waiting = waiting_senders sh in
        if waiting > 0 then do {
          (woken, permits) \<leftarrow> release_if_waiters (bb_permits sh) (min freed waiting);
          Some (woken, sh\<lparr>bb_permits := permits\<rparr>) }
        else Some ([], sh))"

definition release_all :: "'a bounded_shared \<Rightarrow> (waker list \<times> 'a bounded_shared) option" where
  "release_all sh =
     (if waiting_senders sh > 0 then do {
        (woken, permits) \<leftarrow> sem_notify_all (bb_permits sh);
        Some (woken, sh\<lparr>bb_permits := permits\<rparr>) }
      else Some ([], sh))"

definition bounded_publish ::
  "usize \<Rightarrow> 'a bc_inner \<Rightarrow> 'a \<Rightarrow> ((unit, 'a) result \<times> waker list \<times> 'a bc_inner) option" where
  "bounded_publish capacity inner payload = do {
     r \<leftarrow> (if \<not> bl_has_receivers (in_log inner) then do {
             log \<leftarrow> publish_discarded (in_log inner);
             Some (Some log) }
           else if bl_retained (in_log inner) = capacity then Some None
           else do {
             log \<leftarrow> publish_retained (in_log inner) payload;
             Some (Some log) });
     (case r of
        None \<Rightarrow> Some (Err payload, [], inner)
      | Some log \<Rightarrow> do {
          (wakers, waiters) \<leftarrow> ws_take_all (in_waiters inner);
          (woken, wakers) \<leftarrow> wb_wake_all wakers;
          Some (Ok (), woken, inner\<lparr>in_log := log, in_waiters := waiters\<rparr>) }) }"

definition bb_publish ::
  "'a bounded_shared \<Rightarrow> 'a \<Rightarrow> ((unit, 'a) result \<times> waker list \<times> 'a bounded_shared) option" where
  "bb_publish sh payload = do {
     (r, woken, inner) \<leftarrow> bounded_publish (bb_capacity sh) (bb_inner sh) payload;
     Some (r, woken, sh\<lparr>bb_inner := inner\<rparr>) }"

text \<open>The \<open>TrySendError\<close> of this channel has only the case \<open>Full\<close>.\<close>

definition bb_try_send ::
  "'a bounded_shared \<Rightarrow> 'a \<Rightarrow> ((unit, 'a try_send_error) result \<times> waker list \<times> 'a bounded_shared) option" where
  "bb_try_send sh value = do {
     (r, woken, sh) \<leftarrow> bb_publish sh value;
     Some (case r of Ok u \<Rightarrow> Ok u | Err value \<Rightarrow> Err (Full value), woken, sh) }"

text \<open>The state of a \<open>send\<close> that found the channel full.\<close>

record 'a send_state =
  sd_acquire :: acquire
  sd_value :: "'a option"

definition bb_send_start :: "'a bounded_shared \<Rightarrow> 'a \<Rightarrow> 'a send_state \<times> 'a bounded_shared" where
  "bb_send_start sh value =
     (\<lparr>sd_acquire = sem_acquire 1, sd_value = Some value\<rparr>,
      sh\<lparr>bb_blocked := (bb_blocked sh + 1) mod (usize_max + 1)\<rparr>)"

definition poll_send_body ::
  "waker \<Rightarrow> unit poll \<times> waker list \<times> 'a \<times> 'a send_state \<times> 'a bounded_shared \<Rightarrow>
   ((unit poll \<times> waker list \<times> 'a \<times> 'a send_state \<times> 'a bounded_shared) \<times> bool) option" where
  "poll_send_body cx st = (case st of (res, woken, msg, sd, sh) \<Rightarrow> do {
     (poll, aq, permits) \<leftarrow> poll_once (bb_permits sh) (sd_acquire sd) cx;
     let sd = sd\<lparr>sd_acquire := aq\<rparr>;
     (r, woken', sh) \<leftarrow> bb_publish (sh\<lparr>bb_permits := permits\<rparr>) msg;
     (case r of
        Ok _ \<Rightarrow> Some ((Ready (), woken @ woken', msg, sd, sh), False)
      | Err msg \<Rightarrow>
          if is_ready poll then
            Some ((res, woken @ woken', msg, sd\<lparr>sd_acquire := sem_acquire 1\<rparr>, sh), True)
          else Some ((Pending, woken @ woken', msg, sd\<lparr>sd_value := Some msg\<rparr>, sh), False)) })"

definition poll_send ::
  "'a bounded_shared \<Rightarrow> 'a send_state \<Rightarrow> waker \<Rightarrow>
   (unit poll \<times> waker list \<times> 'a send_state \<times> 'a bounded_shared) option" where
  "poll_send sh sd cx =
     (case sd_value sd of
        None \<Rightarrow> Some (Ready (), [], sd, sh)
      | Some msg \<Rightarrow> do {
          (res, woken, msg, sd, sh) \<leftarrow> loop (poll_send_body cx) (Pending, [], msg, sd\<lparr>sd_value := None\<rparr>, sh);
          Some (res, woken, sd, sh) })"

definition send_state_drop :: "'a bounded_shared \<Rightarrow> 'a send_state \<Rightarrow> (waker list \<times> 'a bounded_shared) option" where
  "send_state_drop sh sd = do {
     let sh = sh\<lparr>bb_blocked := (if bb_blocked sh = 0 then usize_max else bb_blocked sh - 1)\<rparr>;
     (woken, permits) \<leftarrow> acquire_drop (bb_permits sh) (sd_acquire sd);
     Some (woken, sh\<lparr>bb_permits := permits\<rparr>) }"

definition bb_drop_receiver :: "'a bounded_shared \<Rightarrow> slot_id \<Rightarrow> (waker list \<times> 'a bounded_shared) option" where
  "bb_drop_receiver sh key = do {
     (reclaimed, log) \<leftarrow> remove_receiver (in_log (bb_inner sh)) key;
     let sh = sh\<lparr>bb_inner := (bb_inner sh)\<lparr>in_log := log\<rparr>\<rparr>;
     let drained_last = (\<not> bl_has_receivers log);
     if drained_last then release_all sh else release_reclaimed sh (reclaimed_len reclaimed) }"

definition receive_released ::
  "'a bounded_shared \<Rightarrow> slot_id \<Rightarrow>
   (('a received, try_recv_error) result \<times> waker list \<times> 'a bounded_shared) option" where
  "receive_released sh key = do {
     (r, inner) \<leftarrow> try_receive (bb_inner sh) (bb_senders sh) key;
     let sh = sh\<lparr>bb_inner := inner\<rparr>;
     (case r of
        Err e \<Rightarrow> Some (Err e, [], sh)
      | Ok received \<Rightarrow>
          if rc_reclaimed received then do {
            (woken, sh) \<leftarrow> release_reclaimed sh 1;
            Some (Ok received, woken, sh) }
          else Some (Ok received, [], sh)) }"

definition bb_recv_poll ::
  "'a bounded_shared \<Rightarrow> slot_id \<Rightarrow> waker_token option \<Rightarrow> waker \<Rightarrow>
   (('a received, recv_error) result poll \<times> waker_token option \<times> waker list \<times> 'a bounded_shared) option" where
  "bb_recv_poll sh key token cx = do {
     (p, token, inner) \<leftarrow> poll_receive (bb_inner sh) (bb_senders sh) key token cx;
     let sh = sh\<lparr>bb_inner := inner\<rparr>;
     (case p of
        Pending \<Rightarrow> Some (Pending, token, [], sh)
      | Ready (Err e) \<Rightarrow> Some (Ready (Err e), token, [], sh)
      | Ready (Ok received) \<Rightarrow>
          if rc_reclaimed received then do {
            (woken, sh) \<leftarrow> release_reclaimed sh 1;
            Some (Ready (Ok received), token, woken, sh) }
          else Some (Ready (Ok received), token, [], sh)) }"

section \<open>The receiving side\<close>

text \<open>An accepted publication, as the generic channel sees it.\<close>

definition accepted :: "usize \<Rightarrow> 'a bc_inner \<Rightarrow> 'a \<Rightarrow> (waker list \<times> 'a bc_inner) option" where
  "accepted capacity inner msg = do {
     (r, woken, inner) \<leftarrow> bounded_publish capacity inner msg;
     (case r of Ok _ \<Rightarrow> Some (woken, inner) | Err _ \<Rightarrow> None) }"

lemma bounded_publish_Ok:
  assumes "bounded_publish cap inner msg = Some (Ok u, woken, inner')"
  obtains log b ws b' where "ws_take_all (in_waiters inner) = Some (b, ws)" and "wb_wake_all b = Some (woken, b')"
    and "inner' = inner\<lparr>in_log := log, in_waiters := ws\<rparr>"
    and "if bl_has_receivers (in_log inner)
         then bl_retained (in_log inner) \<noteq> cap \<and> publish_retained (in_log inner) msg = Some log
         else publish_discarded (in_log inner) = Some log"
  using assms by (auto simp: bounded_publish_def panic_simps split: if_splits option.splits)

lemma accepted_iff:
  "accepted cap inner msg = Some (woken, inner') \<longleftrightarrow> bounded_publish cap inner msg = Some (Ok (), woken, inner')"
  by (auto simp: accepted_def panic_simps split: result.splits) (metis old.unit.exhaust result.exhaust)

interpretation bd: bc_publication "accepted capacity"
proof
  fix inner :: "'a bc_inner" and msg woken inner' H
  assume p: "accepted capacity inner msg = Some (woken, inner')" and l: "log_inv H (in_log inner)" and w: "ws_inv (in_waiters inner)"
  have "bounded_publish capacity inner msg = Some (Ok (), woken, inner')"
    using p by (simp add: accepted_iff)
  then obtain log b ws b' where u: "ws_take_all (in_waiters inner) = Some (b, ws)" "wb_wake_all b = Some (woken, b')"
    "inner' = inner\<lparr>in_log := log, in_waiters := ws\<rparr>"
    "if bl_has_receivers (in_log inner)
     then bl_retained (in_log inner) \<noteq> capacity \<and> publish_retained (in_log inner) msg = Some log
     else publish_discarded (in_log inner) = Some log"
    by (rule bounded_publish_Ok)
  have "log_inv (H @ [msg]) log" "arena_get (bl_receivers log) = arena_get (bl_receivers (in_log inner))"
    using u(4) publish_retained_law [OF l] publish_discarded_law [OF l] by (auto split: if_splits)
  then show "log_inv (H @ [msg]) (in_log inner') \<and>
      arena_get (bl_receivers (in_log inner')) = arena_get (bl_receivers (in_log inner)) \<and>
      set woken = ran (ws_regs (in_waiters inner)) \<and>
      ws_inv (in_waiters inner') \<and> ws_regs (in_waiters inner') = Map.empty"
    using take_and_wake [OF w u(1,2)] u(3) by simp
qed

lemma take_and_wake_total:
  assumes "ws_inv ws"
  shows "\<exists>b ws' woken b'. ws_take_all ws = Some (b, ws') \<and> wb_wake_all b = Some (woken, b')"
  using reg.take_all_law [OF assms] wb_wake_all_spec by metis

text \<open>No receive and no leaving subscription makes the backlog longer.\<close>

lemma slot_leave_length: "slot_leave b i = Some (n, b') \<Longrightarrow> length (bl_buffer b') = length (bl_buffer b)"
  by (auto simp: slot_leave_def panic_simps)

lemma cursor_enter_length: "cursor_enter b v i = Some b' \<Longrightarrow> length (bl_buffer b') = length (bl_buffer b)"
  by (auto simp: cursor_enter_def slot_enter_def panic_simps split: if_splits)

lemma reclaim_length: "reclaim_vacated b = Some (r, b') \<Longrightarrow> length (bl_buffer b') \<le> length (bl_buffer b)"
  by (auto simp: reclaim_vacated_def panic_simps Let_def split: if_splits)

lemma bl_receive_length:
  assumes "bl_receive b key = Some (r, b')"
  shows "length (bl_buffer b') \<le> length (bl_buffer b)"
proof -
  obtain v where v: "arena_get (bl_receivers b) key = Some v" using assms by (auto simp: bl_receive_def panic_simps)
  show ?thesis
  proof (cases "bl_tail b \<le> v")
    case True
    then show ?thesis using assms v by (simp add: bl_receive_def)
  next
    case False
    then obtain b1 n b2 where "cursor_enter (b\<lparr>bl_receivers := arena_put (bl_receivers b) key (v + 1)\<rparr>) v (v - bl_head b) = Some b1"
      and "slot_leave b1 (v - bl_head b) = Some (n, b2)"
      and "length (bl_buffer b') \<le> length (bl_buffer b2)"
      using assms v unfolding bl_receive_def by (auto simp: panic_simps Let_def split: if_splits list.split_asm)
    then show ?thesis by (simp add: cursor_enter_length slot_leave_length)
  qed
qed

lemma remove_receiver_length:
  assumes "remove_receiver b key = Some (r, b')"
  shows "length (bl_buffer b') \<le> length (bl_buffer b)"
  using assms
  by (auto simp: remove_receiver_def panic_simps Let_def split: if_splits dest!: slot_leave_length reclaim_length)

lemma accepted_length:
  assumes "accepted cap inner msg = Some (woken, inner')" and "bl_retained (in_log inner) \<le> cap"
  shows "bl_retained (in_log inner') \<le> cap"
proof -
  have "bounded_publish cap inner msg = Some (Ok (), woken, inner')" using assms(1) by (simp add: accepted_iff)
  then show ?thesis
    by (rule bounded_publish_Ok) (use assms(2) in \<open>
      auto simp: bl_retained_def publish_retained_def publish_discarded_def advance_tail_def panic_simps Let_def
        split: if_splits retention.splits\<close>)
qed

lemma bounded_retained_step:
  assumes "bc_step (accepted cap) s s'" and "bl_retained (in_log (bc_inner s)) \<le> cap"
  shows "bl_retained (in_log (bc_inner s')) \<le> cap"
  using assms
proof (induction rule: bc_step.induct)
  case (send s msg woken inner)
  then show ?case using accepted_length by fastforce
next
  case (subscribe s key inner)
  then show ?case by (auto simp: bc_subscribe_def bl_subscribe_def bl_retained_def panic_simps)
next
  case (drop_receiver s key inner)
  then show ?case
    by (auto simp: unbounded_drop_receiver_def bl_retained_def panic_simps dest!: remove_receiver_length)
next
  case (try_recv s key r inner)
  then show ?case
    by (auto simp: try_receive_def bl_retained_def panic_simps Let_def split: option.splits if_splits dest!: bl_receive_length)
next
  case (poll_ready s key tok w0 m0 w r tok' inner)
  then show ?case
    by (auto simp: poll_receive_def bl_retained_def panic_simps Let_def split: option.splits if_splits dest!: bl_receive_length)
next
  case (poll_pending s key tok w0 m0 w tok' inner)
  then show ?case
    by (auto simp: poll_receive_def bl_retained_def panic_simps Let_def split: option.splits if_splits dest!: bl_receive_length)
next
  case (drop_recv s key tok w0 m0 tok' inner)
  then show ?case by (auto simp: bc_recv_drop_def bc_unregister_def panic_simps split: if_splits)
qed (auto simp: disconnect_def)

lemma bounded_reach_inv:
  assumes "bb_bounded cap = Some (sh, key)" and "(bc_step (accepted cap))\<^sup>*\<^sup>* (bc_init ((bb_inner sh, key), bb_senders sh)) s"
  shows "bc_inv s" and "bl_retained (in_log (bc_inner s)) \<le> cap"
proof -
  obtain inner where i: "with_first_subscription (bl_new Fixed) = Some (inner, key)" "bb_inner sh = inner" "bb_senders sh = 1"
    using assms(1) by (auto simp: bb_bounded_def bl_fixed_def panic_simps)
  then have "bc_inv (bc_init ((bb_inner sh, key), bb_senders sh))" using bc_init_inv by simp
  with assms(2) show "bc_inv s" by (rule bd.reach_inv)
  have "bl_retained (in_log (bc_inner (bc_init ((bb_inner sh, key), bb_senders sh)))) \<le> cap"
    using i(1) unfolding i(2)
    by (auto simp: bc_init_def with_first_subscription_def bl_subscribe_def bl_new_def bl_retained_def panic_simps)
  with assms(2) show "bl_retained (in_log (bc_inner s)) \<le> cap"
    by (induction rule: rtranclp_induct) (auto intro: bounded_retained_step)
qed

section \<open>Properties\<close>

text \<open>
  C27: a bounded broadcast channel never retains more messages than its capacity, and a
  publication is refused, with the message handed back, exactly when there are subscriptions and
  the slowest of them lags by the full capacity; otherwise it is accepted and appended, or
  discarded when nobody could read it, until the version counter overflows.
\<close>

theorem bounded_broadcast_capacity:
  assumes "bb_bounded cap = Some (sh, key)" and "(bc_step (accepted cap))\<^sup>*\<^sup>* (bc_init ((bb_inner sh, key), bb_senders sh)) s"
    and "length (bc_sent s) < usize_max"
  shows "retained_message_count (bc_inner s) \<le> cap \<and>
    (if bl_has_receivers (in_log (bc_inner s)) \<and> length (bc_sent s) - Min (ran (bc_cursors s)) = cap
     then bounded_publish cap (bc_inner s) msg = Some (Err msg, [], bc_inner s)
     else \<exists>woken inner. bounded_publish cap (bc_inner s) msg = Some (Ok (), woken, inner))"
proof -
  have inv: "bc_inv s" by (rule bounded_reach_inv(1) [OF assms(1,2)])
  note d = bc_invD [OF inv]
  let ?log = "in_log (bc_inner s)"
  have r: "bl_retained ?log = length (bc_sent s) - bl_head ?log"
    using d(1,2) log_countsD(5) [of "bc_sent s"] by (simp add: log_inv_def bl_retained_def)
  obtain b ws woken b' where w: "ws_take_all (in_waiters (bc_inner s)) = Some (b, ws)" "wb_wake_all b = Some (woken, b')"
    using take_and_wake_total [OF recvs_okD(1) [OF d(5)]] by blast
  have t: "bl_tail ?log < usize_max" using d(2) assms(3) by simp
  show ?thesis
  proof (cases "bl_has_receivers ?log")
    case True
    obtain log where "publish_retained ?log msg = Some log" using publish_retained_spec [OF d(1) True t, of msg] by blast
    then show ?thesis
      using True w r head_slowest [OF d(1) True] bounded_reach_inv(2) [OF assms(1,2)]
      by (simp add: retained_message_count_def bounded_publish_def)
  next
    case False
    then show ?thesis
      using w publish_discarded_spec(1) [OF d(1) False t] bounded_reach_inv(2) [OF assms(1,2)]
      by (simp add: retained_message_count_def bounded_publish_def)
  qed
qed

text \<open>A channel of one message accepts the first and refuses the second, which nobody has read yet.\<close>

theorem bounded_broadcast_capacity_witness:
  "\<exists>sh key s. bb_bounded 1 = Some (sh :: nat bounded_shared, key) \<and>
     (\<exists>woken inner. bounded_publish 1 (bb_inner sh) 5 = Some (Ok (), woken, inner)) \<and>
     (bc_step (accepted 1))\<^sup>*\<^sup>* (bc_init ((bb_inner sh, key), bb_senders sh)) s \<and> bc_sent s = [5] \<and>
     bounded_publish 1 (bc_inner s) 6 = Some (Err 6, [], bc_inner s)"
proof -
  let ?sh = "\<lparr>bb_inner = \<lparr>in_log = (demo_log 1 [])\<lparr>bl_retention := Fixed\<rparr>, in_waiters = ws_new\<rparr>, bb_senders = 1,
    bb_capacity = 1, bb_permits = sem_new 0, bb_blocked = 0\<rparr> :: nat bounded_shared"
  let ?inner = "\<lparr>in_log = (demo_log 0 [\<lparr>ls_msg = 5, ls_cursors = 1\<rparr>])\<lparr>bl_retention := Fixed\<rparr>, in_waiters = ws_new\<rparr>"
  let ?i = "bc_init ((bb_inner ?sh, bc_key), bb_senders ?sh)"
  let ?s = "?i\<lparr>bc_inner := ?inner, bc_woken := bc_woken ?i @ [], bc_sent := bc_sent ?i @ [5]\<rparr>"
  have b: "bb_bounded 1 = Some (?sh, bc_key)" by (simp add: bb_bounded_def demo_log_def bc_key_def op_defs)
  have c: "bc_cursors s = [bc_key \<mapsto> 0]" if "s = ?i \<or> s = ?s" for s
  proof
    fix k show "bc_cursors s k = [bc_key \<mapsto> 0] k"
      using slot_index_inject [of k bc_key] that
      by (auto simp: bc_init_def demo_log_def bc_key_def arena_get_def slot_at_def)
  qed
  have "accepted 1 (bc_inner ?i) 5 = Some ([], ?inner)"
    by (simp add: accepted_def bounded_publish_def bc_init_def demo_log_def bc_key_def op_defs)
  then have "bc_step (accepted 1) ?i ?s" by (intro bc_step.send) (simp_all add: bc_init_def)
  then have r: "(bc_step (accepted 1))\<^sup>*\<^sup>* ?i ?s" by (rule r_into_rtranclp)
  have "bounded_publish 1 (bc_inner ?s) 6 = Some (Err 6, [], bc_inner ?s)"
    using bounded_broadcast_capacity [OF b r, of 6] c [of ?s]
    by (simp add: bc_init_def usize_max_def demo_log_def op_defs)
  moreover have "\<exists>woken inner. bounded_publish 1 (bb_inner ?sh) 5 = Some (Ok (), woken, inner)"
    using bounded_broadcast_capacity [OF b rtranclp.rtrancl_refl, of 5] c [of ?i]
    by (simp add: bc_init_def usize_max_def)
  moreover have "bc_sent ?s = [5]" by (simp add: bc_init_def)
  ultimately show ?thesis using b r by blast
qed

end
