(* ===== verification/Oneshot.thy ===== *)
theory Oneshot
  imports ChannelErrors
begin

text \<open>
  The one-shot channel of \<open>oneshot/\<close>: a heap allocation with an atomic state and two unsafe
  slots, shared by one sender and one receiver without a lock. Both endpoints are programs whose
  steps are single accesses to the atomic or to a slot, so every interleaving of accesses is
  covered, on sequentially consistent memory. The allocation is \<open>None\<close> once freed, and an
  uninitialized slot is \<open>None\<close>: a use after free, a read of an uninitialized slot, an overwritten
  or leaked slot value and a failed \<open>unreachable!\<close> are all the fault \<open>None\<close> of the step.
\<close>

unbundle bit_operations_syntax

section \<open>The channel\<close>

type_synonym u8 = "8 word"

definition EMPTY :: u8 where "EMPTY = 3"
definition RECEIVING :: u8 where "RECEIVING = 0"
definition AWAKING :: u8 where "AWAKING = 1"
definition MESSAGE :: u8 where "MESSAGE = 4"
definition DISCONNECTED :: u8 where "DISCONNECTED = 2"

record 'a channel =
  ch_state :: u8
  ch_message :: "'a option"
  ch_waker :: "waker option"

definition channel_new :: "'a channel" where
  "channel_new = \<lparr>ch_state = EMPTY, ch_message = None, ch_waker = None\<rparr>"

definition take_message :: "'a channel \<Rightarrow> ('a \<times> 'a channel) option" where
  "take_message ch = do { m \<leftarrow> ch_message ch; Some (m, ch\<lparr>ch_message := None\<rparr>) }"

definition write_message :: "'a channel \<Rightarrow> 'a \<Rightarrow> 'a channel option" where
  "write_message ch message = do {
     guard (ch_message ch = None);
     Some (ch\<lparr>ch_message := Some message\<rparr>) }"

definition drop_message :: "'a channel \<Rightarrow> ('a \<times> 'a channel) option" where
  "drop_message ch = do { m \<leftarrow> ch_message ch; Some (m, ch\<lparr>ch_message := None\<rparr>) }"

definition write_waker :: "'a channel \<Rightarrow> waker \<Rightarrow> 'a channel option" where
  "write_waker ch waker = do {
     guard (ch_waker ch = None);
     Some (ch\<lparr>ch_waker := Some waker\<rparr>) }"

definition replace_waker :: "'a channel \<Rightarrow> waker \<Rightarrow> 'a channel option" where
  "replace_waker ch waker = do {
     current \<leftarrow> ch_waker ch;
     if \<not> will_wake current waker then Some (ch\<lparr>ch_waker := Some waker\<rparr>) else Some ch }"

definition drop_waker :: "'a channel \<Rightarrow> 'a channel option" where
  "drop_waker ch = do { w \<leftarrow> ch_waker ch; Some (ch\<lparr>ch_waker := None\<rparr>) }"

definition take_waker :: "'a channel \<Rightarrow> (waker \<times> 'a channel) option" where
  "take_waker ch = do { w \<leftarrow> ch_waker ch; Some (w, ch\<lparr>ch_waker := None\<rparr>) }"

text \<open>Freeing the allocation; a value left in a slot would leak.\<close>

definition deallocate_empty_channel :: "'a channel \<Rightarrow> 'a channel option option" where
  "deallocate_empty_channel ch = do {
     guard (ch_message ch = None \<and> ch_waker ch = None);
     Some None }"

definition drop_message_and_deallocate_channel :: "'a channel \<Rightarrow> ('a \<times> 'a channel option) option" where
  "drop_message_and_deallocate_channel ch = do {
     (m, ch) \<leftarrow> drop_message ch;
     heap \<leftarrow> deallocate_empty_channel ch;
     Some (m, heap) }"

section \<open>The sender\<close>

text \<open>
  What an endpoint is about to do, and what its step lets the rest of the program see. \<open>SLive\<close> is
  an unused sender, \<open>SError\<close> the error that a failed \<open>send\<close> returned, \<open>SGone\<close> the end.
\<close>

datatype 'a sender_pc =
  SLive | SWrite 'a | SAdd | SXor | SFinish u8 | SSwap u8 waker | SWake u8 waker | SReclaim u8 | SFree | SError | SGone

datatype 'a os_event = Woken waker | Dropped 'a | Received 'a | Returned 'a | SendOk

definition send_add :: "'a channel \<Rightarrow> ('a os_event list \<times> 'a channel option \<times> 'a sender_pc) option" where
  "send_add ch =
     (let old = ch_state ch; ch = ch\<lparr>ch_state := ch_state ch + 1\<rparr> in
      if old = EMPTY then Some ([SendOk], Some ch, SGone)
      else if old = RECEIVING then Some ([], Some ch, SFinish MESSAGE)
      else if old = DISCONNECTED then Some ([], Some ch, SError)
      else None)"

definition drop_xor :: "'a channel \<Rightarrow> ('a os_event list \<times> 'a channel option \<times> 'a sender_pc) option" where
  "drop_xor ch =
     (let old = ch_state ch; ch = ch\<lparr>ch_state := ch_state ch XOR 1\<rparr> in
      if old = EMPTY then Some ([], Some ch, SGone)
      else if old = RECEIVING then Some ([], Some ch, SFinish DISCONNECTED)
      else if old = DISCONNECTED then Some ([], Some ch, SFree)
      else None)"

text \<open>\<open>finish_sender_awakening\<close>: take the waker, then publish the final state.\<close>

definition finish_take ::
  "u8 \<Rightarrow> 'a channel \<Rightarrow> ('a os_event list \<times> 'a channel option \<times> 'a sender_pc) option" where
  "finish_take final ch = do {
     guard (final = MESSAGE \<or> final = DISCONNECTED);
     (waker, ch) \<leftarrow> take_waker ch;
     Some ([], Some ch, SSwap final waker) }"

definition finish_swap ::
  "u8 \<Rightarrow> waker \<Rightarrow> 'a channel \<Rightarrow> ('a os_event list \<times> 'a channel option \<times> 'a sender_pc) option" where
  "finish_swap final waker ch =
     (let old = ch_state ch; ch = ch\<lparr>ch_state := final\<rparr> in
      if old = AWAKING then Some ([], Some ch, SWake final waker)
      else do {
        guard (old = DISCONNECTED);
        Some ([], Some ch, SReclaim final) })"

definition sender_reclaim ::
  "u8 \<Rightarrow> 'a channel \<Rightarrow> ('a os_event list \<times> 'a channel option \<times> 'a sender_pc) option" where
  "sender_reclaim final ch =
     (if final = MESSAGE then do {
        (m, heap) \<leftarrow> drop_message_and_deallocate_channel ch;
        Some ([Dropped m, SendOk], heap, SGone) }
      else do {
        heap \<leftarrow> deallocate_empty_channel ch;
        Some ([], heap, SGone) })"

text \<open>One step of the sender; an idle one has none.\<close>

fun sender_step ::
  "'a channel option \<Rightarrow> 'a sender_pc \<Rightarrow> ('a os_event list \<times> 'a channel option \<times> 'a sender_pc) option" where
  "sender_step heap (SWrite m) = do {
     ch \<leftarrow> heap;
     ch \<leftarrow> write_message ch m;
     Some ([], Some ch, SAdd) }"
| "sender_step heap SAdd = do { ch \<leftarrow> heap; send_add ch }"
| "sender_step heap SXor = do { ch \<leftarrow> heap; drop_xor ch }"
| "sender_step heap (SFinish final) = do { ch \<leftarrow> heap; finish_take final ch }"
| "sender_step heap (SSwap final waker) = do { ch \<leftarrow> heap; finish_swap final waker ch }"
| "sender_step heap (SWake final waker) =
     Some (Woken waker # (if final = MESSAGE then [SendOk] else []), heap, SGone)"
| "sender_step heap (SReclaim final) = do { ch \<leftarrow> heap; sender_reclaim final ch }"
| "sender_step heap SFree = do {
     ch \<leftarrow> heap;
     heap \<leftarrow> deallocate_empty_channel ch;
     Some ([], heap, SGone) }"
| "sender_step heap SLive = None"
| "sender_step heap SError = None"
| "sender_step heap SGone = None"

fun sender_running :: "'a sender_pc \<Rightarrow> bool" where
  "sender_running SLive = False"
| "sender_running SError = False"
| "sender_running SGone = False"
| "sender_running _ = True"

definition sender_is_disconnected :: "'a channel \<Rightarrow> bool" where
  "sender_is_disconnected ch \<longleftrightarrow> ch_state ch = DISCONNECTED"

text \<open>The methods of \<open>SendError\<close>, which owns the allocation.\<close>

definition send_error_as_inner :: "'a channel \<Rightarrow> 'a option" where
  "send_error_as_inner ch = ch_message ch"

definition send_error_into_inner :: "'a channel \<Rightarrow> ('a \<times> 'a channel option) option" where
  "send_error_into_inner ch = do {
     (message, ch) \<leftarrow> take_message ch;
     heap \<leftarrow> deallocate_empty_channel ch;
     Some (message, heap) }"

definition send_error_drop :: "'a channel \<Rightarrow> ('a \<times> 'a channel option) option" where
  "send_error_drop ch = drop_message_and_deallocate_channel ch"

section \<open>The receiver\<close>

text \<open>
  \<open>RLive\<close> is a receiver, \<open>RFuture\<close> its future, \<open>RWaiting w\<close> the future whose last poll, with waker
  \<open>w\<close>, was pending. The flag of \<open>RStore\<close> and \<open>RTake\<close> says whether the message is taken by the future.
\<close>

datatype receiver_pc =
  RLive | RFuture | RWaiting waker | RTry | RPoll waker | RWrite waker | RPublish waker | RCas waker | RReplace waker
| RDropMsg | RDropDisc | RStore bool | RTake bool
| RSwap | RLoop | RLoopEmpty | RLoopRecv | RLoopWaker | RLoopAwaking | RFreeMsg | RFree | RGone

definition receiver_is_disconnected :: "'a channel \<Rightarrow> bool" where
  "receiver_is_disconnected ch \<longleftrightarrow> ch_state ch = DISCONNECTED"

definition has_message :: "'a channel \<Rightarrow> bool" where
  "has_message ch \<longleftrightarrow> ch_state ch = MESSAGE"

definition try_recv_load :: "'a channel \<Rightarrow> receiver_pc option" where
  "try_recv_load ch =
     (if ch_state ch = MESSAGE then Some (RStore False)
      else if ch_state ch = EMPTY then Some RLive
      else if ch_state ch = DISCONNECTED then Some RLive
      else None)"

text \<open>The first load of a poll, and what it reports: a pending poll wakes itself while the sender is awaking.\<close>

definition poll_load :: "waker \<Rightarrow> 'a channel \<Rightarrow> ('a os_event list \<times> receiver_pc) option" where
  "poll_load waker ch =
     (if ch_state ch = EMPTY then Some ([], RWrite waker)
      else if ch_state ch = MESSAGE then Some ([], RStore True)
      else if ch_state ch = RECEIVING then Some ([], RCas waker)
      else if ch_state ch = AWAKING then Some ([Woken waker], RWaiting waker)
      else if ch_state ch = DISCONNECTED then Some ([], RFuture)
      else None)"

definition poll_cas :: "waker \<Rightarrow> 'a channel \<Rightarrow> ('a os_event list \<times> 'a channel \<times> receiver_pc) option" where
  "poll_cas waker ch =
     (case compare_exchange (ch_state ch) RECEIVING EMPTY of
        (Ok _, v) \<Rightarrow> Some ([], ch\<lparr>ch_state := v\<rparr>, RReplace waker)
      | (Err state, v) \<Rightarrow>
          if state = MESSAGE then Some ([], ch, RStore True)
          else if state = AWAKING then Some ([Woken waker], ch, RWaiting waker)
          else if state = DISCONNECTED then Some ([], ch, RFuture)
          else None)"

definition publish_waker :: "waker \<Rightarrow> 'a channel \<Rightarrow> ('a channel \<times> receiver_pc) option" where
  "publish_waker waker ch =
     (case compare_exchange (ch_state ch) EMPTY RECEIVING of
        (Ok _, v) \<Rightarrow> Some (ch\<lparr>ch_state := v\<rparr>, RWaiting waker)
      | (Err state, v) \<Rightarrow>
          if state = MESSAGE then Some (ch, RDropMsg)
          else if state = DISCONNECTED then Some (ch, RDropDisc)
          else None)"

definition receiver_drop_swap :: "'a channel \<Rightarrow> ('a channel \<times> receiver_pc) option" where
  "receiver_drop_swap ch =
     (let old = ch_state ch; ch = ch\<lparr>ch_state := DISCONNECTED\<rparr> in
      if old = EMPTY then Some (ch, RGone)
      else if old = MESSAGE then Some (ch, RFreeMsg)
      else if old = DISCONNECTED then Some (ch, RFree)
      else None)"

definition recv_drop_load :: "'a channel \<Rightarrow> receiver_pc option" where
  "recv_drop_load ch =
     (if ch_state ch = EMPTY then Some RLoopEmpty
      else if ch_state ch = MESSAGE then Some RFreeMsg
      else if ch_state ch = RECEIVING then Some RLoopRecv
      else if ch_state ch = AWAKING then Some RLoopAwaking
      else if ch_state ch = DISCONNECTED then Some RFree
      else None)"

text \<open>A compare-and-swap of the drop loop: on success \<open>done\<close>, on failure back to the load.\<close>

definition recv_drop_cas :: "u8 \<Rightarrow> u8 \<Rightarrow> receiver_pc \<Rightarrow> 'a channel \<Rightarrow> 'a channel \<times> receiver_pc" where
  "recv_drop_cas current new succeeded ch =
     (case compare_exchange (ch_state ch) current new of
        (Ok _, v) \<Rightarrow> (ch\<lparr>ch_state := v\<rparr>, succeeded)
      | (Err _, v) \<Rightarrow> (ch, RLoop))"

fun receiver_step ::
  "'a channel option \<Rightarrow> receiver_pc \<Rightarrow> ('a os_event list \<times> 'a channel option \<times> receiver_pc) option" where
  "receiver_step heap RTry = do { ch \<leftarrow> heap; pc \<leftarrow> try_recv_load ch; Some ([], Some ch, pc) }"
| "receiver_step heap (RPoll waker) = do { ch \<leftarrow> heap; (ev, pc) \<leftarrow> poll_load waker ch; Some (ev, Some ch, pc) }"
| "receiver_step heap (RWrite waker) = do {
     ch \<leftarrow> heap;
     ch \<leftarrow> write_waker ch waker;
     Some ([], Some ch, RPublish waker) }"
| "receiver_step heap (RPublish waker) = do { ch \<leftarrow> heap; (ch, pc) \<leftarrow> publish_waker waker ch; Some ([], Some ch, pc) }"
| "receiver_step heap (RCas waker) = do { ch \<leftarrow> heap; (ev, ch, pc) \<leftarrow> poll_cas waker ch; Some (ev, Some ch, pc) }"
| "receiver_step heap (RReplace waker) = do {
     ch \<leftarrow> heap;
     ch \<leftarrow> replace_waker ch waker;
     Some ([], Some ch, RPublish waker) }"
| "receiver_step heap RDropMsg = do { ch \<leftarrow> heap; ch \<leftarrow> drop_waker ch; Some ([], Some ch, RStore True) }"
| "receiver_step heap RDropDisc = do { ch \<leftarrow> heap; ch \<leftarrow> drop_waker ch; Some ([], Some ch, RFuture) }"
| "receiver_step heap (RStore future) = do { ch \<leftarrow> heap; Some ([], Some (ch\<lparr>ch_state := DISCONNECTED\<rparr>), RTake future) }"
| "receiver_step heap (RTake future) = do {
     ch \<leftarrow> heap;
     (m, ch) \<leftarrow> take_message ch;
     Some ([Received m], Some ch, if future then RFuture else RLive) }"
| "receiver_step heap RSwap = do { ch \<leftarrow> heap; (ch, pc) \<leftarrow> receiver_drop_swap ch; Some ([], Some ch, pc) }"
| "receiver_step heap RLoop = do { ch \<leftarrow> heap; pc \<leftarrow> recv_drop_load ch; Some ([], Some ch, pc) }"
| "receiver_step heap RLoopEmpty = do {
     ch \<leftarrow> heap;
     let (ch, pc) = recv_drop_cas EMPTY DISCONNECTED RGone ch;
     Some ([], Some ch, pc) }"
| "receiver_step heap RLoopRecv = do {
     ch \<leftarrow> heap;
     let (ch, pc) = recv_drop_cas RECEIVING EMPTY RLoopWaker ch;
     Some ([], Some ch, pc) }"
| "receiver_step heap RLoopWaker = do { ch \<leftarrow> heap; ch \<leftarrow> drop_waker ch; Some ([], Some ch, RLoop) }"
| "receiver_step heap RLoopAwaking = do {
     ch \<leftarrow> heap;
     let (ch, pc) = recv_drop_cas AWAKING DISCONNECTED RGone ch;
     Some ([], Some ch, pc) }"
| "receiver_step heap RFreeMsg = do {
     ch \<leftarrow> heap;
     (m, heap) \<leftarrow> drop_message_and_deallocate_channel ch;
     Some ([Dropped m], heap, RGone) }"
| "receiver_step heap RFree = do {
     ch \<leftarrow> heap;
     heap \<leftarrow> deallocate_empty_channel ch;
     Some ([], heap, RGone) }"
| "receiver_step heap RLive = None"
| "receiver_step heap RFuture = None"
| "receiver_step heap (RWaiting w) = None"
| "receiver_step heap RGone = None"

fun receiver_running :: "receiver_pc \<Rightarrow> bool" where
  "receiver_running RLive = False"
| "receiver_running RFuture = False"
| "receiver_running (RWaiting w) = False"
| "receiver_running RGone = False"
| "receiver_running _ = True"

section \<open>All interleavings\<close>

text \<open>
  The allocation, the two endpoints, what has happened, the message passed to \<open>send\<close>, how many
  events had happened when the last poll returned pending, and how many steps the drop of the
  future has taken.
\<close>

record 'a oneshot_sys =
  os_heap :: "'a channel option"
  os_sender :: "'a sender_pc"
  os_receiver :: receiver_pc
  os_events :: "'a os_event list"
  os_sent :: "'a option"
  os_mark :: nat
  os_steps :: nat

definition oneshot_init :: "'a oneshot_sys" where
  "oneshot_init = \<lparr>os_heap = Some channel_new, os_sender = SLive, os_receiver = RLive, os_events = [],
     os_sent = None, os_mark = 0, os_steps = 0\<rparr>"

inductive oneshot_step :: "'a oneshot_sys \<Rightarrow> 'a oneshot_sys \<Rightarrow> bool" where
  send: "os_sender s = SLive \<Longrightarrow> oneshot_step s (s\<lparr>os_sender := SWrite m, os_sent := Some m\<rparr>)"
| drop_sender: "os_sender s = SLive \<Longrightarrow> oneshot_step s (s\<lparr>os_sender := SXor\<rparr>)"
| sender: "sender_step (os_heap s) (os_sender s) = Some (ev, heap, pc) \<Longrightarrow>
    oneshot_step s (s\<lparr>os_heap := heap, os_sender := pc, os_events := os_events s @ ev\<rparr>)"
| into_inner: "os_sender s = SError \<Longrightarrow> os_heap s = Some ch \<Longrightarrow> send_error_into_inner ch = Some (m, heap) \<Longrightarrow>
    oneshot_step s (s\<lparr>os_heap := heap, os_sender := SGone, os_events := os_events s @ [Returned m]\<rparr>)"
| drop_error: "os_sender s = SError \<Longrightarrow> os_heap s = Some ch \<Longrightarrow> send_error_drop ch = Some (m, heap) \<Longrightarrow>
    oneshot_step s (s\<lparr>os_heap := heap, os_sender := SGone, os_events := os_events s @ [Dropped m]\<rparr>)"
| try_recv: "os_receiver s = RLive \<Longrightarrow> oneshot_step s (s\<lparr>os_receiver := RTry\<rparr>)"
| into_future: "os_receiver s = RLive \<Longrightarrow> oneshot_step s (s\<lparr>os_receiver := RFuture\<rparr>)"
| drop_receiver: "os_receiver s = RLive \<Longrightarrow> oneshot_step s (s\<lparr>os_receiver := RSwap, os_steps := 0\<rparr>)"
| poll: "os_receiver s = RFuture \<or> os_receiver s = RWaiting w0 \<Longrightarrow> oneshot_step s (s\<lparr>os_receiver := RPoll w\<rparr>)"
| drop_recv: "os_receiver s = RFuture \<or> os_receiver s = RWaiting w0 \<Longrightarrow>
    oneshot_step s (s\<lparr>os_receiver := RLoop, os_steps := 0\<rparr>)"
| receiver: "receiver_step (os_heap s) (os_receiver s) = Some (ev, heap, pc) \<Longrightarrow>
    oneshot_step s (s\<lparr>os_heap := heap, os_receiver := pc, os_events := os_events s @ ev,
      os_mark := length (os_events s), os_steps := os_steps s + 1\<rparr>)"

section \<open>Ownership\<close>

lemma state_distinct [simp]:
  "EMPTY \<noteq> RECEIVING" "EMPTY \<noteq> AWAKING" "EMPTY \<noteq> MESSAGE" "EMPTY \<noteq> DISCONNECTED"
  "RECEIVING \<noteq> EMPTY" "RECEIVING \<noteq> AWAKING" "RECEIVING \<noteq> MESSAGE" "RECEIVING \<noteq> DISCONNECTED"
  "AWAKING \<noteq> EMPTY" "AWAKING \<noteq> RECEIVING" "AWAKING \<noteq> MESSAGE" "AWAKING \<noteq> DISCONNECTED"
  "MESSAGE \<noteq> EMPTY" "MESSAGE \<noteq> RECEIVING" "MESSAGE \<noteq> AWAKING" "MESSAGE \<noteq> DISCONNECTED"
  "DISCONNECTED \<noteq> EMPTY" "DISCONNECTED \<noteq> RECEIVING" "DISCONNECTED \<noteq> AWAKING" "DISCONNECTED \<noteq> MESSAGE"
  by (simp_all add: EMPTY_def RECEIVING_def AWAKING_def MESSAGE_def DISCONNECTED_def)

text \<open>The transitions that the sender makes by arithmetic on the state.\<close>

lemma state_transitions [simp]:
  "EMPTY + 1 = MESSAGE" "RECEIVING + 1 = AWAKING" "DISCONNECTED + 1 = EMPTY"
  "EMPTY XOR 1 = DISCONNECTED" "RECEIVING XOR 1 = AWAKING" "DISCONNECTED XOR 1 = EMPTY"
  by (simp_all add: EMPTY_def RECEIVING_def AWAKING_def MESSAGE_def DISCONNECTED_def)

text \<open>The phases of the sender: before its transition, owning the waker, owning everything, finished.\<close>

datatype sender_phase = Early | Awake | Owner | Finished

fun phase :: "'a sender_pc \<Rightarrow> sender_phase" where
  "phase SLive = Early"
| "phase (SWrite m) = Early"
| "phase SAdd = Early"
| "phase SXor = Early"
| "phase (SFinish final) = Awake"
| "phase (SSwap final w) = Awake"
| "phase (SReclaim final) = Owner"
| "phase SFree = Owner"
| "phase SError = Owner"
| "phase (SWake final w) = Finished"
| "phase SGone = Finished"

fun holds_message :: "'a sender_pc \<Rightarrow> bool" where
  "holds_message SAdd = True"
| "holds_message SError = True"
| "holds_message (SFinish final) = (final = MESSAGE)"
| "holds_message (SSwap final w) = (final = MESSAGE)"
| "holds_message (SReclaim final) = (final = MESSAGE)"
| "holds_message _ = False"

fun final_ok :: "'a sender_pc \<Rightarrow> bool" where
  "final_ok (SFinish final) = (final \<in> {MESSAGE, DISCONNECTED})"
| "final_ok (SSwap final w) = (final \<in> {MESSAGE, DISCONNECTED})"
| "final_ok (SReclaim final) = (final \<in> {MESSAGE, DISCONNECTED})"
| "final_ok _ = True"

fun takes_message :: "receiver_pc \<Rightarrow> bool" where
  "takes_message (RTake f) = True"
| "takes_message RFreeMsg = True"
| "takes_message _ = False"

fun holds_waker :: "receiver_pc \<Rightarrow> bool" where
  "holds_waker (RPublish w) = True"
| "holds_waker (RReplace w) = True"
| "holds_waker RDropMsg = True"
| "holds_waker RDropDisc = True"
| "holds_waker RLoopWaker = True"
| "holds_waker _ = False"

text \<open>The states a receiver may find, by what it is about to do.\<close>

fun receiver_ok :: "receiver_pc \<Rightarrow> sender_phase \<Rightarrow> u8 \<Rightarrow> bool" where
  "receiver_ok RDropMsg p st = (st = MESSAGE)"
| "receiver_ok (RStore f) p st = (st = MESSAGE)"
| "receiver_ok (RTake f) p st = (p = Finished \<and> st = DISCONNECTED)"
| "receiver_ok RDropDisc p st = (p = Finished \<and> st = DISCONNECTED)"
| "receiver_ok RFreeMsg p st = (p = Finished)"
| "receiver_ok RFree p st = (p = Finished \<and> st = DISCONNECTED)"
| "receiver_ok (RWaiting w) p st = (st \<noteq> EMPTY)"
| "receiver_ok (RCas w) p st = (st \<noteq> EMPTY)"
| "receiver_ok (RPoll w) p st = True"
| "receiver_ok RLoop p st = True"
| "receiver_ok RLoopEmpty p st = (st \<noteq> RECEIVING \<and> st \<noteq> AWAKING)"
| "receiver_ok RLoopRecv p st = (st \<noteq> EMPTY)"
| "receiver_ok RLoopAwaking p st = (st \<noteq> EMPTY \<and> st \<noteq> RECEIVING)"
| "receiver_ok RGone p st = True"
| "receiver_ok _ p st = (st \<noteq> RECEIVING \<and> st \<noteq> AWAKING)"

fun phase_ok :: "sender_phase \<Rightarrow> receiver_pc \<Rightarrow> u8 \<Rightarrow> bool" where
  "phase_ok Early r st = (st \<in> {EMPTY, RECEIVING, DISCONNECTED} \<and> (st = DISCONNECTED \<longleftrightarrow> r = RGone))"
| "phase_ok Awake r st = (st \<in> {AWAKING, DISCONNECTED} \<and> (st = DISCONNECTED \<longleftrightarrow> r = RGone))"
| "phase_ok Owner r st = (r = RGone \<and> st \<in> {EMPTY, MESSAGE, DISCONNECTED})"
| "phase_ok Finished r st = (r \<noteq> RGone \<and> st \<in> {MESSAGE, DISCONNECTED})"

definition channel_ok :: "'a channel \<Rightarrow> 'a sender_pc \<Rightarrow> receiver_pc \<Rightarrow> bool" where
  "channel_ok ch sp r \<longleftrightarrow> phase_ok (phase sp) r (ch_state ch) \<and> receiver_ok r (phase sp) (ch_state ch) \<and> final_ok sp \<and>
     (ch_message ch \<noteq> None \<longleftrightarrow> holds_message sp \<or> phase sp = Finished \<and> (ch_state ch = MESSAGE \<or> takes_message r)) \<and>
     (ch_waker ch \<noteq> None \<longleftrightarrow> holds_waker r \<or> ch_state ch = RECEIVING \<or> (\<exists>final. sp = SFinish final))"

definition heap_ok :: "'a channel option \<Rightarrow> 'a sender_pc \<Rightarrow> receiver_pc \<Rightarrow> bool" where
  "heap_ok heap sp r \<longleftrightarrow>
     (case heap of None \<Rightarrow> phase sp = Finished \<and> r = RGone | Some ch \<Rightarrow> channel_ok ch sp r)"

lemmas channel_ops = take_message_def write_message_def drop_message_def write_waker_def replace_waker_def
  drop_waker_def take_waker_def deallocate_empty_channel_def drop_message_and_deallocate_channel_def
  send_error_into_inner_def send_error_drop_def compare_exchange_def

lemmas sender_defs = send_add_def drop_xor_def finish_take_def finish_swap_def sender_reclaim_def

lemmas receiver_defs = try_recv_load_def poll_load_def poll_cas_def publish_waker_def receiver_drop_swap_def
  recv_drop_load_def recv_drop_cas_def

lemma sender_total:
  assumes "heap_ok heap sp r" and "sender_running sp"
  shows "\<exists>x. sender_step heap sp = Some x"
  using assms
  by (cases sp; cases heap)
    (auto simp: heap_ok_def channel_ok_def channel_ops sender_defs Let_def guard_def)

lemma sender_heap_ok:
  assumes "heap_ok heap sp r" and "sender_step heap sp = Some (ev, heap', sp')"
  shows "heap_ok heap' sp' r"
  using assms
  by (cases sp; cases heap; cases r)
    (auto simp: heap_ok_def channel_ok_def channel_ops sender_defs Let_def panic_simps split: if_splits)

lemma phase_holds:
  "phase sp = Finished \<Longrightarrow> \<not> holds_message sp" "phase sp \<noteq> Awake \<Longrightarrow> sp \<noteq> SFinish final"
  by (cases sp; simp)+

lemma receiver_total:
  assumes "heap_ok heap sp r" and "receiver_running r"
  shows "\<exists>x. receiver_step heap r = Some x"
proof (cases heap)
  case (Some ch)
  have "channel_ok ch sp r" using assms(1) Some by (simp add: heap_ok_def)
  then show ?thesis
    using assms(2) Some phase_holds [of sp]
    by (cases r; cases "phase sp") (auto simp: channel_ok_def channel_ops receiver_defs Let_def guard_def)
qed (use assms in \<open>simp add: heap_ok_def\<close>)

lemma receiver_channel_ok:
  assumes "channel_ok ch sp r" and "receiver_step (Some ch) r = Some (ev, heap', r')"
  shows "heap_ok heap' sp r'"
  using phase_holds [of sp] assms
  by (cases r; hypsubst; cases "phase sp";
      auto simp: heap_ok_def channel_ok_def channel_ops receiver_defs Let_def panic_simps split: if_splits)

lemma receiver_heap_ok:
  assumes "heap_ok heap sp r" and "receiver_step heap r = Some (ev, heap', r')"
  shows "heap_ok heap' sp r'"
proof (cases heap)
  case None
  then have "r = RGone" using assms(1) by (simp add: heap_ok_def)
  then show ?thesis using assms(2) by simp
next
  case (Some ch)
  then show ?thesis using receiver_channel_ok assms by (simp add: heap_ok_def)
qed

section \<open>Messages and wake-ups\<close>

text \<open>Where the message ended up, and where it is while it is on its way.\<close>

fun fate :: "'a os_event \<Rightarrow> 'a list" where
  "fate (Dropped m) = [m]"
| "fate (Received m) = [m]"
| "fate (Returned m) = [m]"
| "fate _ = []"

definition fates :: "'a os_event list \<Rightarrow> 'a list" where
  "fates ev = concat (map fate ev)"

lemma fates_simps [simp]: "fates [] = []" "fates (e # ev) = fate e @ fates ev" "fates (ev @ ev') = fates ev @ fates ev'"
  by (simp_all add: fates_def)

lemma fates_mem: "y \<in> set (fates ev) \<longleftrightarrow> (\<exists>x\<in>set ev. y \<in> set (fate x))"
  by (simp add: fates_def)

fun unwritten :: "'a sender_pc \<Rightarrow> 'a list" where
  "unwritten (SWrite m) = [m]"
| "unwritten _ = []"

definition opt_msg :: "'a option \<Rightarrow> 'a list" where
  "opt_msg m = (case m of Some x \<Rightarrow> [x] | None \<Rightarrow> [])"

definition in_slot :: "'a channel option \<Rightarrow> 'a list" where
  "in_slot heap = (case heap of Some ch \<Rightarrow> opt_msg (ch_message ch) | None \<Rightarrow> [])"

definition message_ok :: "'a oneshot_sys \<Rightarrow> bool" where
  "message_ok s \<longleftrightarrow> fates (os_events s) @ in_slot (os_heap s) @ unwritten (os_sender s) = opt_msg (os_sent s) \<and>
     (os_sender s = SLive \<longrightarrow> os_sent s = None)"

lemma sender_message:
  assumes "sender_step heap sp = Some (ev, heap', sp')"
  shows "fates ev @ in_slot heap' @ unwritten sp' = in_slot heap @ unwritten sp \<and> sp' \<noteq> SLive"
  using assms
  by (cases sp; cases heap)
    (auto simp: in_slot_def opt_msg_def channel_ops sender_defs Let_def panic_simps split: if_splits)

lemma receiver_step_freed: "receiver_step None r = None"
  by (cases r) simp_all

lemma receiver_channel_message:
  assumes "receiver_step (Some ch) r = Some (ev, heap', r')"
  shows "fates ev @ in_slot heap' = opt_msg (ch_message ch)"
  using assms
  by (cases r; hypsubst;
      auto simp: in_slot_def opt_msg_def channel_ops receiver_defs Let_def panic_simps split: if_splits)

lemma receiver_message:
  assumes "receiver_step heap r = Some (ev, heap', r')"
  shows "fates ev @ in_slot heap' = in_slot heap"
proof (cases heap)
  case None
  then show ?thesis using assms by (simp add: receiver_step_freed)
next
  case (Some ch)
  then show ?thesis using assms receiver_channel_message [of ch r] by (simp add: in_slot_def)
qed

text \<open>What has happened so far allows no other reading of the state.\<close>

definition events_ok :: "'a oneshot_sys \<Rightarrow> bool" where
  "events_ok s \<longleftrightarrow>
     (\<forall>m. Dropped m \<in> set (os_events s) \<or> Returned m \<in> set (os_events s) \<longrightarrow> os_receiver s = RGone) \<and>
     (\<forall>m. SendOk \<in> set (os_events s) \<or> Returned m \<in> set (os_events s) \<longrightarrow> os_sender s = SGone) \<and>
     (\<forall>m. \<not> (SendOk \<in> set (os_events s) \<and> Returned m \<in> set (os_events s)))"

lemma sender_events:
  assumes "heap_ok heap sp r" and "sender_step heap sp = Some (ev, heap', sp')"
  shows "Dropped m \<in> set ev \<longrightarrow> r = RGone" and "Returned m \<notin> set ev" and "SendOk \<in> set ev \<longrightarrow> sp' = SGone" and "sp \<noteq> SGone"
  using assms
  by (cases sp; cases heap;
      force simp: heap_ok_def channel_ok_def channel_ops sender_defs Let_def panic_simps split: if_splits)+

lemma receiver_events:
  assumes "receiver_step (Some ch) r = Some (ev, heap', r')"
  shows "Dropped m \<in> set ev \<longrightarrow> r' = RGone" and "Returned m \<notin> set ev" and "SendOk \<notin> set ev" and "r \<noteq> RGone"
  using assms
  by (cases r; hypsubst; force simp: channel_ops receiver_defs Let_def panic_simps split: if_splits)+

text \<open>A waiting future was woken since its last poll, or its waker is on the way to be woken.\<close>

definition on_the_way :: "'a channel option \<Rightarrow> 'a sender_pc \<Rightarrow> waker \<Rightarrow> bool" where
  "on_the_way heap sp w \<longleftrightarrow>
     (\<exists>ch. heap = Some ch \<and> ch_waker ch = Some w \<and> (ch_state ch = RECEIVING \<or> (\<exists>final. sp = SFinish final))) \<or>
     (\<exists>final. sp = SSwap final w \<or> sp = SWake final w)"

definition wake_ok :: "'a oneshot_sys \<Rightarrow> bool" where
  "wake_ok s \<longleftrightarrow>
     (\<forall>w. os_receiver s = RWaiting w \<longrightarrow> os_mark s \<le> length (os_events s) \<and>
        (Woken w \<in> set (drop (os_mark s) (os_events s)) \<or> on_the_way (os_heap s) (os_sender s) w)) \<and>
     (\<forall>w ch. os_receiver s = RPublish w \<longrightarrow> os_heap s = Some ch \<longrightarrow> ch_waker ch = Some w)"

lemma sender_wake:
  assumes "heap_ok heap sp (RWaiting w)" and "sender_step heap sp = Some (ev, heap', sp')" and "on_the_way heap sp w"
  shows "Woken w \<in> set ev \<or> on_the_way heap' sp' w"
  using assms
  by (cases sp; cases heap;
      auto simp: heap_ok_def channel_ok_def on_the_way_def channel_ops sender_defs Let_def panic_simps split: if_splits)

lemma sender_keeps_waker:
  assumes "heap_ok heap sp (RPublish w)" and "sender_step heap sp = Some (ev, Some ch', sp')"
  shows "\<exists>ch. heap = Some ch \<and> ch_waker ch' = ch_waker ch"
  using assms
  by (cases sp; cases heap;
      auto simp: heap_ok_def channel_ok_def channel_ops sender_defs Let_def panic_simps split: if_splits)

lemma receiver_waits:
  assumes "receiver_step (Some ch) r = Some (ev, heap', RWaiting w)" and "\<And>w. r = RPublish w \<Longrightarrow> ch_waker ch = Some w"
  shows "Woken w \<in> set ev \<or> on_the_way heap' sp w"
  using assms
  by (cases r; hypsubst;
      auto simp: on_the_way_def channel_ops receiver_defs Let_def panic_simps split: if_splits)

lemma receiver_publishes:
  assumes "receiver_step (Some ch) r = Some (ev, Some ch', RPublish w)"
  shows "ch_waker ch' = Some w"
  using assms
  by (cases r; hypsubst;
      auto simp: channel_ops receiver_defs will_wake_def Let_def panic_simps split: if_splits)

section \<open>Dropping the receiver takes boundedly many steps\<close>

text \<open>How many more steps a drop may take when the sender interferes as badly as it can.\<close>

fun fuel :: "receiver_pc \<Rightarrow> u8 \<Rightarrow> nat" where
  "fuel RSwap st = 2"
| "fuel RFree st = 1"
| "fuel RFreeMsg st = 1"
| "fuel RLoop st = (if st = RECEIVING then 7 else if st = EMPTY \<or> st = AWAKING then 4 else 2)"
| "fuel RLoopEmpty st = 3"
| "fuel RLoopAwaking st = 3"
| "fuel RLoopRecv st = (if st = RECEIVING then 6 else if st = AWAKING then 5 else 3)"
| "fuel RLoopWaker st = 5"
| "fuel _ st = 0"

fun dropping :: "receiver_pc \<Rightarrow> bool" where
  "dropping RSwap = True"
| "dropping RFree = True"
| "dropping RFreeMsg = True"
| "dropping RLoop = True"
| "dropping RLoopEmpty = True"
| "dropping RLoopAwaking = True"
| "dropping RLoopRecv = True"
| "dropping RLoopWaker = True"
| "dropping RGone = True"
| "dropping _ = False"

definition heap_state :: "'a channel option \<Rightarrow> u8" where
  "heap_state heap = (case heap of Some ch \<Rightarrow> ch_state ch | None \<Rightarrow> DISCONNECTED)"

definition steps_ok :: "'a oneshot_sys \<Rightarrow> bool" where
  "steps_ok s \<longleftrightarrow> (dropping (os_receiver s) \<longrightarrow> os_steps s + fuel (os_receiver s) (heap_state (os_heap s)) \<le> 7)"

lemma receiver_fuel:
  assumes "channel_ok ch sp r" and "receiver_step (Some ch) r = Some (ev, heap', r')" and "dropping r'"
  shows "dropping r \<and> fuel r' (heap_state heap') < fuel r (ch_state ch)"
  using assms
  by (cases r; hypsubst; cases "phase sp";
      auto simp: heap_state_def channel_ok_def channel_ops receiver_defs Let_def panic_simps split: if_splits)

lemma sender_fuel:
  assumes "heap_ok heap sp r" and "sender_step heap sp = Some (ev, heap', sp')"
  shows "fuel r (heap_state heap') \<le> fuel r (heap_state heap)"
proof -
  have "heap_state heap' = heap_state heap \<or> r = RGone \<or>
      heap_state heap = EMPTY \<and> heap_state heap' \<in> {MESSAGE, DISCONNECTED} \<or>
      heap_state heap = RECEIVING \<and> heap_state heap' = AWAKING \<or>
      heap_state heap = AWAKING \<and> heap_state heap' \<in> {MESSAGE, DISCONNECTED}"
    using assms
    by (cases sp; cases heap;
        auto simp: heap_ok_def channel_ok_def heap_state_def channel_ops sender_defs Let_def panic_simps split: if_splits)
  then show ?thesis by (cases r) auto
qed

section \<open>Every reachable state\<close>

definition oneshot_inv :: "'a oneshot_sys \<Rightarrow> bool" where
  "oneshot_inv s \<longleftrightarrow> heap_ok (os_heap s) (os_sender s) (os_receiver s) \<and> message_ok s \<and> events_ok s \<and> wake_ok s \<and> steps_ok s"

lemma oneshot_init_inv: "oneshot_inv oneshot_init"
  by (simp add: oneshot_inv_def oneshot_init_def heap_ok_def channel_ok_def channel_new_def message_ok_def in_slot_def
      opt_msg_def events_ok_def wake_ok_def steps_ok_def)

lemma events_ok_more:
  assumes "events_ok s" and "\<And>m. Dropped m \<in> set ev \<or> Returned m \<in> set ev \<Longrightarrow> r = RGone"
    and "\<And>m. SendOk \<in> set ev \<or> Returned m \<in> set ev \<Longrightarrow> sp = SGone \<and> os_sender s \<noteq> SGone"
    and "\<And>m. Returned m \<in> set ev \<Longrightarrow> SendOk \<notin> set ev" and "os_receiver s = RGone \<Longrightarrow> r = RGone"
    and "os_sender s = SGone \<Longrightarrow> sp = SGone"
  shows "events_ok (s\<lparr>os_heap := heap, os_sender := sp, os_receiver := r, os_events := os_events s @ ev\<rparr>)"
  using assms unfolding events_ok_def by (simp; metis)

lemma sender_inv:
  assumes i: "oneshot_inv s" and r: "sender_step (os_heap s) (os_sender s) = Some (ev, heap, pc)"
  shows "oneshot_inv (s\<lparr>os_heap := heap, os_sender := pc, os_events := os_events s @ ev\<rparr>)" (is "oneshot_inv ?s")
proof -
  have h: "heap_ok (os_heap s) (os_sender s) (os_receiver s)" and w: "wake_ok s" and ev: "events_ok s"
    using i by (simp_all add: oneshot_inv_def)
  note e = sender_events [OF h r]
  have "events_ok ?s"
    using events_ok_more [OF ev, of ev "os_receiver s" pc heap] e by simp
  moreover have "message_ok ?s"
    using i sender_message [OF r] by (simp add: oneshot_inv_def message_ok_def)
  moreover have "wake_ok ?s"
    unfolding wake_ok_def
  proof (intro conjI allI impI)
    fix w' assume a: "os_receiver ?s = RWaiting w'"
    then have b: "os_mark s \<le> length (os_events s)"
      "Woken w' \<in> set (drop (os_mark s) (os_events s)) \<or> on_the_way (os_heap s) (os_sender s) w'"
      using w by (simp_all add: wake_ok_def)
    then show "os_mark ?s \<le> length (os_events ?s)" by simp
    show "Woken w' \<in> set (drop (os_mark ?s) (os_events ?s)) \<or> on_the_way (os_heap ?s) (os_sender ?s) w'"
      using a b sender_wake [of "os_heap s" "os_sender s" w' ev heap pc] h r by auto
  next
    fix w' ch assume a: "os_receiver ?s = RPublish w'" "os_heap ?s = Some ch"
    then show "ch_waker ch = Some w'"
      using w sender_keeps_waker [of "os_heap s" "os_sender s" w' ev ch pc] h r by (auto simp: wake_ok_def)
  qed
  moreover have "steps_ok ?s"
    using i sender_fuel [OF h r] by (auto simp: oneshot_inv_def steps_ok_def)
  ultimately show ?thesis using sender_heap_ok [OF h r] by (simp add: oneshot_inv_def)
qed

lemma receiver_inv:
  assumes i: "oneshot_inv s" and r: "receiver_step (os_heap s) (os_receiver s) = Some (ev, heap, pc)"
  shows "oneshot_inv (s\<lparr>os_heap := heap, os_receiver := pc, os_events := os_events s @ ev,
      os_mark := length (os_events s), os_steps := os_steps s + 1\<rparr>)" (is "oneshot_inv ?s")
proof -
  have h: "heap_ok (os_heap s) (os_sender s) (os_receiver s)" using i by (simp add: oneshot_inv_def)
  obtain ch where c: "os_heap s = Some ch" using r by (cases "os_heap s") (auto simp: receiver_step_freed)
  note r' = r [unfolded c]
  note e = receiver_events [OF r']
  have "events_ok (s\<lparr>os_heap := heap, os_sender := os_sender s, os_receiver := pc, os_events := os_events s @ ev\<rparr>)"
    using i e by (intro events_ok_more) (auto simp: oneshot_inv_def)
  then have "events_ok ?s" by (simp add: events_ok_def)
  moreover have "message_ok ?s" using i receiver_message [OF r, symmetric] by (simp add: oneshot_inv_def message_ok_def)
  moreover have "wake_ok ?s"
    using i r' c receiver_waits [of ch "os_receiver s" ev heap _ "os_sender s"] receiver_publishes
    by (auto simp: oneshot_inv_def wake_ok_def)
  moreover have "steps_ok ?s"
    using i receiver_fuel [OF _ r'] h c by (fastforce simp: oneshot_inv_def steps_ok_def heap_ok_def heap_state_def)
  ultimately show ?thesis using receiver_heap_ok [OF h r] by (simp add: oneshot_inv_def)
qed

text \<open>A call begins: the channel is not touched.\<close>

lemma sender_begins:
  assumes i: "oneshot_inv s" and l: "os_sender s = SLive"
    and b: "phase sp = Early" "\<not> holds_message sp" "final_ok sp" "unwritten sp = opt_msg sent" "sp \<noteq> SLive" "sp \<noteq> SGone"
  shows "oneshot_inv (s\<lparr>os_sender := sp, os_sent := sent\<rparr>)"
proof -
  obtain ch where ch: "os_heap s = Some ch" "channel_ok ch SLive (os_receiver s)"
    using i l by (auto simp: oneshot_inv_def heap_ok_def split: option.splits)
  then have "channel_ok ch sp (os_receiver s)" using b phase_holds(2) [of sp] by (auto simp: channel_ok_def)
  moreover have "fates (os_events s) = []" "in_slot (os_heap s) = []"
    using i l by (auto simp: oneshot_inv_def message_ok_def opt_msg_def)
  moreover have "wake_ok (s\<lparr>os_sender := sp, os_sent := sent\<rparr>)"
    using i l by (auto simp: oneshot_inv_def wake_ok_def on_the_way_def)
  moreover have "events_ok (s\<lparr>os_sender := sp, os_sent := sent\<rparr>)"
    using i l by (auto simp: oneshot_inv_def events_ok_def)
  ultimately show ?thesis
    using i ch b by (simp add: oneshot_inv_def heap_ok_def message_ok_def steps_ok_def)
qed

lemma receiver_begins:
  assumes i: "oneshot_inv s" and r: "\<not> receiver_running (os_receiver s)" "os_receiver s \<noteq> RGone"
    and b: "\<And>p st. receiver_ok (os_receiver s) p st \<Longrightarrow> receiver_ok r p st" "\<not> holds_waker r" "\<not> takes_message r"
      "r \<noteq> RGone" "\<And>w. r \<noteq> RWaiting w" "\<And>st. dropping r \<Longrightarrow> n = 0 \<and> fuel r st \<le> 7"
  shows "oneshot_inv (s\<lparr>os_receiver := r, os_steps := n\<rparr>)"
proof -
  obtain ch where ch: "os_heap s = Some ch" "channel_ok ch (os_sender s) (os_receiver s)"
    using i r by (auto simp: oneshot_inv_def heap_ok_def split: option.splits)
  have o: "\<not> holds_waker (os_receiver s)" "\<not> takes_message (os_receiver s)" using r(1) by (cases "os_receiver s"; simp)+
  have "phase_ok (phase (os_sender s)) r (ch_state ch)"
    using ch(2) r(2) b(4) by (cases "phase (os_sender s)") (auto simp: channel_ok_def)
  then have "channel_ok ch (os_sender s) r" using ch(2) o b by (auto simp: channel_ok_def)
  moreover have "r \<noteq> RPublish w" for w using b(2) by auto
  moreover have "events_ok (s\<lparr>os_receiver := r, os_steps := n\<rparr>)" using i r(2) by (auto simp: oneshot_inv_def events_ok_def)
  ultimately show ?thesis
    using i ch(1) b(5,6) by (simp add: oneshot_inv_def heap_ok_def message_ok_def wake_ok_def steps_ok_def)
qed

text \<open>The error of a failed send gives up the allocation.\<close>

lemma error_ends:
  assumes i: "oneshot_inv s" and e: "os_sender s = SError" and h: "os_heap s = Some ch"
    and m: "ch_message ch = Some m" and f: "fate x = [m]" "x = Dropped m \<or> x = Returned m"
  shows "oneshot_inv (s\<lparr>os_heap := None, os_sender := SGone, os_events := os_events s @ [x]\<rparr>)"
proof -
  have g: "os_receiver s = RGone" using i e h by (simp add: oneshot_inv_def heap_ok_def channel_ok_def)
  have "events_ok (s\<lparr>os_heap := None, os_sender := SGone, os_receiver := os_receiver s, os_events := os_events s @ [x]\<rparr>)"
    using i e f(2) g by (intro events_ok_more) (auto simp: oneshot_inv_def)
  moreover have "fates (os_events s) @ [m] = opt_msg (os_sent s)"
    using i e h m by (simp add: oneshot_inv_def message_ok_def in_slot_def opt_msg_def)
  ultimately show ?thesis
    using i e f(1) g by (simp add: oneshot_inv_def heap_ok_def message_ok_def in_slot_def wake_ok_def steps_ok_def events_ok_def)
qed

lemma oneshot_step_inv: "oneshot_step s s' \<Longrightarrow> oneshot_inv s \<Longrightarrow> oneshot_inv s'"
proof (induction rule: oneshot_step.induct)
  case (send s m)
  then show ?case using sender_begins [of s "SWrite m" "Some m"] by (simp add: opt_msg_def)
next
  case (drop_sender s)
  then have "unwritten SXor = opt_msg (os_sent s)" by (simp add: oneshot_inv_def message_ok_def opt_msg_def)
  with drop_sender show ?case using sender_begins [of s SXor "os_sent s"] by simp
next
  case (sender s ev heap pc)
  then show ?case by (intro sender_inv)
next
  case (into_inner s ch m heap)
  then show ?case using error_ends [of s ch m "Returned m"] by (auto simp: channel_ops panic_simps)
next
  case (drop_error s ch m heap)
  then show ?case using error_ends [of s ch m "Dropped m"] by (auto simp: channel_ops panic_simps)
next
  case (try_recv s)
  then show ?case using receiver_begins [of s RTry "os_steps s"] by simp
next
  case (into_future s)
  then show ?case using receiver_begins [of s RFuture "os_steps s"] by simp
next
  case (drop_receiver s)
  then show ?case using receiver_begins [of s RSwap 0] by simp
next
  case (poll s w0 w)
  then show ?case using receiver_begins [of s "RPoll w" "os_steps s"] by auto
next
  case (drop_recv s w0)
  then show ?case using receiver_begins [of s RLoop 0] by auto
next
  case (receiver s ev heap pc)
  then show ?case by (intro receiver_inv)
qed

lemma oneshot_reach_inv: "oneshot_step\<^sup>*\<^sup>* oneshot_init s \<Longrightarrow> oneshot_inv s"
  by (induction rule: rtranclp_induct) (auto intro: oneshot_init_inv oneshot_step_inv)

section \<open>A concrete run\<close>

text \<open>The future parks with waker 7, the sender sends 5 and wakes it.\<close>

definition demo_oneshot :: "u8 \<Rightarrow> nat option \<Rightarrow> waker option \<Rightarrow> nat sender_pc \<Rightarrow> receiver_pc \<Rightarrow> nat \<Rightarrow> nat os_event list \<Rightarrow> nat oneshot_sys" where
  "demo_oneshot st msg wk sp r n ev = \<lparr>os_heap = Some \<lparr>ch_state = st, ch_message = msg, ch_waker = wk\<rparr>, os_sender = sp, os_receiver = r,
     os_events = ev, os_sent = (if sp = SLive then None else Some 5), os_mark = 0, os_steps = n\<rparr>"

abbreviation demo_woken :: "nat oneshot_sys" where
  "demo_woken \<equiv> demo_oneshot MESSAGE (Some 5) None SGone (RWaiting 7) 3 [Woken 7, SendOk]"

lemma demo_oneshot_reach: "oneshot_step\<^sup>*\<^sup>* oneshot_init demo_woken"
proof -
  note defs = demo_oneshot_def channel_ops sender_defs receiver_defs numeral_2_eq_2 numeral_3_eq_3
  let ?s = "\<lambda>st msg wk sp r n. demo_oneshot st msg wk sp r n []"
  have "oneshot_step oneshot_init (?s EMPTY None None SLive RFuture 0)"
    using oneshot_step.into_future [of oneshot_init] by (simp add: oneshot_init_def channel_new_def demo_oneshot_def)
  moreover have "oneshot_step (?s EMPTY None None SLive RFuture 0) (?s EMPTY None None SLive (RPoll 7) 0)"
    using oneshot_step.poll [of "?s EMPTY None None SLive RFuture 0" 0 7] by (simp add: demo_oneshot_def)
  moreover have "oneshot_step (?s EMPTY None None SLive (RPoll 7) 0) (?s EMPTY None None SLive (RWrite 7) 1)"
    using oneshot_step.receiver [of "?s EMPTY None None SLive (RPoll 7) 0"] by (simp add: defs)
  moreover have "oneshot_step (?s EMPTY None None SLive (RWrite 7) 1) (?s EMPTY None (Some 7) SLive (RPublish 7) 2)"
    using oneshot_step.receiver [of "?s EMPTY None None SLive (RWrite 7) 1"] by (simp add: defs)
  moreover have "oneshot_step (?s EMPTY None (Some 7) SLive (RPublish 7) 2) (?s RECEIVING None (Some 7) SLive (RWaiting 7) 3)"
    using oneshot_step.receiver [of "?s EMPTY None (Some 7) SLive (RPublish 7) 2"] by (simp add: defs)
  moreover have "oneshot_step (?s RECEIVING None (Some 7) SLive (RWaiting 7) 3) (?s RECEIVING None (Some 7) (SWrite 5) (RWaiting 7) 3)"
    using oneshot_step.send [of "?s RECEIVING None (Some 7) SLive (RWaiting 7) 3" 5] by (simp add: demo_oneshot_def)
  moreover have "oneshot_step (?s RECEIVING None (Some 7) (SWrite 5) (RWaiting 7) 3) (?s RECEIVING (Some 5) (Some 7) SAdd (RWaiting 7) 3)"
    using oneshot_step.sender [of "?s RECEIVING None (Some 7) (SWrite 5) (RWaiting 7) 3"] by (simp add: defs)
  moreover have "oneshot_step (?s RECEIVING (Some 5) (Some 7) SAdd (RWaiting 7) 3) (?s AWAKING (Some 5) (Some 7) (SFinish MESSAGE) (RWaiting 7) 3)"
    using oneshot_step.sender [of "?s RECEIVING (Some 5) (Some 7) SAdd (RWaiting 7) 3"] by (simp add: defs)
  moreover have "oneshot_step (?s AWAKING (Some 5) (Some 7) (SFinish MESSAGE) (RWaiting 7) 3) (?s AWAKING (Some 5) None (SSwap MESSAGE 7) (RWaiting 7) 3)"
    using oneshot_step.sender [of "?s AWAKING (Some 5) (Some 7) (SFinish MESSAGE) (RWaiting 7) 3"] by (simp add: defs)
  moreover have "oneshot_step (?s AWAKING (Some 5) None (SSwap MESSAGE 7) (RWaiting 7) 3) (?s MESSAGE (Some 5) None (SWake MESSAGE 7) (RWaiting 7) 3)"
    using oneshot_step.sender [of "?s AWAKING (Some 5) None (SSwap MESSAGE 7) (RWaiting 7) 3"] by (simp add: defs)
  moreover have "oneshot_step (?s MESSAGE (Some 5) None (SWake MESSAGE 7) (RWaiting 7) 3) demo_woken"
    using oneshot_step.sender [of "?s MESSAGE (Some 5) None (SWake MESSAGE 7) (RWaiting 7) 3"] by (simp add: defs)
  ultimately show ?thesis by (meson run_step rtranclp.rtrancl_refl)
qed

section \<open>Properties\<close>

text \<open>
  C28: the one-shot channel is memory safe, whatever the interleaving of its two endpoints: no
  step of either faults, so nothing is read or dropped that is not initialized, nothing is
  overwritten or leaked, no unexpected state is met and nothing is touched after it is freed; and
  the allocation is freed exactly when both endpoints are done with it.
\<close>

theorem oneshot_memory_safe:
  assumes "oneshot_step\<^sup>*\<^sup>* oneshot_init s"
  shows "(sender_running (os_sender s) \<longrightarrow> sender_step (os_heap s) (os_sender s) \<noteq> None) \<and>
    (receiver_running (os_receiver s) \<longrightarrow> receiver_step (os_heap s) (os_receiver s) \<noteq> None) \<and>
    (os_sender s = SError \<longrightarrow> (\<exists>ch m. os_heap s = Some ch \<and> send_error_as_inner ch = Some m \<and>
       send_error_into_inner ch = Some (m, None) \<and> send_error_drop ch = Some (m, None))) \<and>
    (os_heap s = None \<longleftrightarrow> os_receiver s = RGone \<and> phase (os_sender s) = Finished)"
proof -
  have h: "heap_ok (os_heap s) (os_sender s) (os_receiver s)"
    using oneshot_reach_inv [OF assms] by (simp add: oneshot_inv_def)
  have "\<exists>ch m. os_heap s = Some ch \<and> send_error_as_inner ch = Some m \<and>
      send_error_into_inner ch = Some (m, None) \<and> send_error_drop ch = Some (m, None)" if "os_sender s = SError"
    using h that by (auto simp: heap_ok_def channel_ok_def channel_ops send_error_as_inner_def guard_def split: option.splits)
  moreover have "os_heap s = None \<longleftrightarrow> os_receiver s = RGone \<and> phase (os_sender s) = Finished"
    using h by (auto simp: heap_ok_def channel_ok_def split: option.splits)
  ultimately show ?thesis using sender_total [OF h] receiver_total [OF h] by blast
qed

theorem oneshot_memory_safe_witness: "os_heap demo_woken = None \<longleftrightarrow> os_receiver demo_woken = RGone"
  using oneshot_memory_safe [OF demo_oneshot_reach] by (simp add: demo_oneshot_def)

text \<open>
  C29: a message that is sent has exactly one fate: while a receiver is there to take it, it is in
  the channel or has been received, and in the end it was received, handed back by the error of
  the send, or dropped, once. A send that succeeded hands nothing back. A receiver that finds the
  channel disconnected has received the message, or none was sent.
\<close>

theorem oneshot_delivers_once:
  assumes "oneshot_step\<^sup>*\<^sup>* oneshot_init s"
  shows "fates (os_events s) @ in_slot (os_heap s) @ unwritten (os_sender s) = opt_msg (os_sent s) \<and>
    (os_heap s = None \<longrightarrow> fates (os_events s) = opt_msg (os_sent s)) \<and>
    (SendOk \<in> set (os_events s) \<longrightarrow> Returned m \<notin> set (os_events s)) \<and>
    (os_receiver s \<noteq> RGone \<longrightarrow> (\<forall>x\<in>set (os_events s). \<forall>y. x \<noteq> Dropped y \<and> x \<noteq> Returned y)) \<and>
    (os_heap s = Some ch \<longrightarrow> receiver_is_disconnected ch \<longrightarrow> \<not> receiver_running (os_receiver s) \<longrightarrow> os_receiver s \<noteq> RGone \<longrightarrow>
      os_sent s = None \<or> (\<exists>y. Received y \<in> set (os_events s) \<and> os_sent s = Some y))"
proof -
  have i: "oneshot_inv s" by (rule oneshot_reach_inv [OF assms])
  then have e: "events_ok s" and h: "heap_ok (os_heap s) (os_sender s) (os_receiver s)"
    and f: "fates (os_events s) @ in_slot (os_heap s) @ unwritten (os_sender s) = opt_msg (os_sent s)"
    by (simp_all add: oneshot_inv_def message_ok_def)
  have a: "(\<exists>y. Received y \<in> set (os_events s) \<and> os_sent s = Some y)"
    if c: "os_heap s = Some ch" "receiver_is_disconnected ch" "\<not> receiver_running (os_receiver s)" "os_receiver s \<noteq> RGone"
      and n: "os_sent s = Some y" for y
  proof -
    have "phase (os_sender s) = Finished" "ch_message ch = None"
      using c h phase_holds(1) [of "os_sender s"]
      by (cases "phase (os_sender s)"; cases "os_receiver s";
          auto simp: heap_ok_def channel_ok_def receiver_is_disconnected_def)+
    then have "fates (os_events s) = [y]" using f n c(1) by (cases "os_sender s") (auto simp: in_slot_def opt_msg_def)
    then obtain x where x: "x \<in> set (os_events s)" "y \<in> set (fate x)" using fates_mem [of y "os_events s"] by auto
    have "x \<noteq> Dropped z \<and> x \<noteq> Returned z" for z using e c(4) x(1) by (auto simp: events_ok_def)
    with x(2) have "x = Received y" by (cases x rule: os_event.exhaust) auto
    then show ?thesis using x n by blast
  qed
  have "fates (os_events s) = opt_msg (os_sent s)" if "os_heap s = None"
    using f h that by (cases "os_sender s") (auto simp: in_slot_def heap_ok_def)
  moreover have "os_sent s = None \<or> (\<exists>y. Received y \<in> set (os_events s) \<and> os_sent s = Some y)"
    if "os_heap s = Some ch" "receiver_is_disconnected ch" "\<not> receiver_running (os_receiver s)" "os_receiver s \<noteq> RGone"
    using a [OF that] by (cases "os_sent s") auto
  ultimately show ?thesis using f e unfolding events_ok_def by blast
qed

theorem oneshot_delivers_once_witness:
  "fates (os_events demo_woken) @ in_slot (os_heap demo_woken) = [5]"
  using oneshot_delivers_once [OF demo_oneshot_reach, of 0 channel_new] by (simp add: demo_oneshot_def opt_msg_def)

text \<open>
  C30: no wake-up is lost: when the sender is done, a future whose last poll was pending has been
  woken by that poll's waker since, and the state it finds completes its next poll.
\<close>

theorem oneshot_no_lost_wakeup:
  assumes "oneshot_step\<^sup>*\<^sup>* oneshot_init s" and "os_receiver s = RWaiting w" and "os_sender s = SGone"
  shows "Woken w \<in> set (drop (os_mark s) (os_events s)) \<and>
    (\<exists>ch. os_heap s = Some ch \<and> (poll_load w' ch = Some ([], RStore True) \<or> poll_load w' ch = Some ([], RFuture)))"
proof -
  have i: "oneshot_inv s" by (rule oneshot_reach_inv [OF assms(1)])
  then have h: "heap_ok (os_heap s) SGone (RWaiting w)" and w: "wake_ok s" using assms by (simp_all add: oneshot_inv_def)
  then obtain ch where ch: "os_heap s = Some ch" "ch_state ch \<in> {MESSAGE, DISCONNECTED}"
    by (auto simp: heap_ok_def channel_ok_def split: option.splits)
  then show ?thesis using w assms(2,3) by (auto simp: wake_ok_def on_the_way_def poll_load_def)
qed

theorem oneshot_no_lost_wakeup_witness: "Woken 7 \<in> set (drop (os_mark demo_woken) (os_events demo_woken))"
  using oneshot_no_lost_wakeup [OF demo_oneshot_reach, of 7] by (simp add: demo_oneshot_def)

text \<open>
  C31: dropping the receiver or its future ends: it takes at most seven of its own steps, whatever
  the sender does in between, so the retry loop of the drop cannot spin.
\<close>

theorem oneshot_drop_wait_free:
  assumes "oneshot_step\<^sup>*\<^sup>* oneshot_init s" and "dropping (os_receiver s)"
  shows "os_steps s \<le> 7 \<and> (os_steps s = 7 \<longrightarrow> os_receiver s = RGone) \<and>
    (os_receiver s \<noteq> RGone \<longrightarrow> receiver_step (os_heap s) (os_receiver s) \<noteq> None)"
proof -
  have i: "oneshot_inv s" by (rule oneshot_reach_inv [OF assms(1)])
  then have b: "os_steps s + fuel (os_receiver s) (heap_state (os_heap s)) \<le> 7"
    using assms(2) by (simp add: oneshot_inv_def steps_ok_def)
  have z: "fuel (os_receiver s) (heap_state (os_heap s)) = 0 \<longrightarrow> os_receiver s = RGone"
    "os_receiver s \<noteq> RGone \<longrightarrow> receiver_running (os_receiver s)"
    using assms(2) by (cases "os_receiver s"; auto)+
  have "heap_ok (os_heap s) (os_sender s) (os_receiver s)" using i by (simp add: oneshot_inv_def)
  from receiver_total [OF this] b z show ?thesis by auto
qed

theorem oneshot_drop_wait_free_witness:
  "receiver_step (os_heap demo_woken) RLoop \<noteq> None"
proof -
  have "oneshot_step\<^sup>*\<^sup>* oneshot_init (demo_woken\<lparr>os_receiver := RLoop, os_steps := 0\<rparr>)"
    using run_step [OF demo_oneshot_reach oneshot_step.drop_recv [of _ 7]] by (simp add: demo_oneshot_def)
  from oneshot_drop_wait_free [OF this] show ?thesis by simp
qed

end
