(* ===== verification/PermitClient.thy ===== *)
theory PermitClient
  imports SemaphoreSystem
begin

text \<open>
  The internal semaphore as its clients see it. Locks, cells and pools never reduce permits and
  never notify all waiters at once; under that discipline every node of the queue belongs to a
  future and only the first one can be paid in part. It follows that permits are never handed
  out twice, and that a client whose futures are all parked must be holding permits itself.
  The locale at the end proves this once for every client.
\<close>

section \<open>The calls of a client\<close>

text \<open>
  Each call is one atomic access or one lock region of a client's operation; \<open>f\<close> is the future
  and \<open>t\<close> the thread making the call. A release whose compare-and-swap on the counter lost a
  race (\<open>racy\<close>) falls through to the queue; \<open>release_with_lock\<close> always does.
\<close>

definition call_try :: "usize \<Rightarrow> sem_sys \<Rightarrow> bool \<times> sem_sys" where
  "call_try n s =
     (case try_acquire (ss_sem s) n of
        (True, sem) \<Rightarrow> (True, s\<lparr>ss_sem := sem, ss_acquired := ss_acquired s + n\<rparr>)
      | (False, sem) \<Rightarrow> (False, s\<lparr>ss_sem := sem\<rparr>))"

definition call_acquire :: "nat \<Rightarrow> acquire \<Rightarrow> sem_sys \<Rightarrow> sem_sys" where
  "call_acquire f aq s = s\<lparr>ss_futs := (ss_futs s)(f \<mapsto> (aq, 0, 0))\<rparr>"

text \<open>Poll an awaited acquisition; a completed one is dropped by the \<open>await\<close>.\<close>

definition call_poll :: "nat \<Rightarrow> waker \<Rightarrow> sem_sys \<Rightarrow> (unit poll \<times> sem_sys) option" where
  "call_poll f w s = do {
     (aq, w0, m0) \<leftarrow> ss_futs s f;
     (r, aq', sem) \<leftarrow> poll_once (ss_sem s) aq w;
     Some (case r of
       Pending \<Rightarrow> (Pending, s\<lparr>ss_sem := sem, ss_futs := (ss_futs s)(f \<mapsto> (aq', w, length (ss_woken s)))\<rparr>)
     | Ready _ \<Rightarrow> (Ready (), s\<lparr>ss_sem := sem, ss_futs := (ss_futs s)(f := None),
         ss_acquired := ss_acquired s + aq_requested aq\<rparr>)) }"

definition call_drop :: "nat \<Rightarrow> nat \<Rightarrow> sem_sys \<Rightarrow> sem_sys option" where
  "call_drop t f s = do {
     (aq, w0, m0) \<leftarrow> ss_futs s f;
     let s' = s\<lparr>ss_futs := (ss_futs s)(f := None)\<rparr>;
     (case aq_index aq of
        None \<Rightarrow> Some s'
      | Some i \<Rightarrow> do {
          (acquired, sem) \<leftarrow> acquire_detach (ss_sem s) aq i;
          if acquired > 0 then do {
            (woken, remaining, sem) \<leftarrow> distribute_round sem acquired;
            Some (after_round t woken remaining sem s') }
          else Some (s'\<lparr>ss_sem := sem\<rparr>) }) }"

definition call_release_slow :: "nat \<Rightarrow> usize \<Rightarrow> sem_sys \<Rightarrow> sem_sys option" where
  "call_release_slow t n s =
     (if n = 0 then Some s
      else do {
        (woken, remaining, sem) \<leftarrow> distribute_round (ss_sem s) n;
        Some (after_round t woken remaining sem (s\<lparr>ss_released := ss_released s + n\<rparr>)) })"

definition call_release :: "nat \<Rightarrow> bool \<Rightarrow> usize \<Rightarrow> sem_sys \<Rightarrow> sem_sys option" where
  "call_release t racy n s =
     (if n = 0 then Some s
      else do {
        r \<leftarrow> (if racy then Some None else sem_release_fast (ss_sem s) n);
        (case r of
           Some sem \<Rightarrow> Some (s\<lparr>ss_sem := sem, ss_released := ss_released s + n\<rparr>)
         | None \<Rightarrow> call_release_slow t n s) })"

definition call_round :: "nat \<Rightarrow> sem_sys \<Rightarrow> sem_sys option" where
  "call_round t s = do {
     n \<leftarrow> ss_dist s t;
     (woken, remaining, sem) \<leftarrow> distribute_round (ss_sem s) n;
     Some (after_round t woken remaining sem s) }"

section \<open>Queues without debts\<close>

text \<open>
  Every node belongs to a future, and only the node at the head of the queue may have been
  paid in part.
\<close>

definition fair :: "wait_node wait_list \<Rightarrow> acquires \<Rightarrow> bool" where
  "fair wl F \<longleftrightarrow> (\<forall>i\<in>dom (wl_val wl). \<exists>f. owner F f i) \<and>
     (\<forall>i\<in>set (tl (wl_queue wl)). \<forall>f aq w m. F f = Some (aq, w, m) \<longrightarrow> aq_index aq = Some i \<longrightarrow>
        map_option wn_needed (wl_val wl i) = Some (aq_requested aq))"

definition plain_step :: "sem_sys \<Rightarrow> sem_sys \<Rightarrow> bool" where
  "plain_step s s' \<longleftrightarrow> sem_step s s' \<and> ss_reduced s' = ss_reduced s \<and> ss_gifted s' = ss_gifted s"

lemma tl_removeAll: "set (tl (removeAll i q)) \<subseteq> set (tl q)"
proof -
  have sub: "set (tl xs) \<subseteq> set xs" for xs :: "'a list" by (cases xs) auto
  show ?thesis by (cases q) (auto dest: subsetD [OF sub])
qed

lemma spend_tl: "spend r k q = (r', g, q') \<Longrightarrow> set (tl q') \<subseteq> set (tl q)"
proof (induction r k q arbitrary: g rule: spend.induct)
  case (2 r k i n q)
  show ?case
  proof (cases "r \<noteq> 0 \<and> k \<noteq> 0 \<and> wn_needed n \<le> r")
    case True
    then obtain g' where "spend (r - wn_needed n) (if wn_waker n = None then k else k - 1) q = (r', g', q')"
      using 2(2) by (auto split: prod.splits)
    with 2(1) True have "set (tl q') \<subseteq> set (tl q)" by blast
    then show ?thesis by (cases q) auto
  next
    case False
    with 2(2) show ?thesis by (auto split: if_splits)
  qed
qed simp

lemma in_wl_list: "wl_inv wl \<Longrightarrow> i \<in> set (wl_queue wl) \<Longrightarrow> wl_val wl i = Some n \<longleftrightarrow> (i, n) \<in> set (wl_list wl)"
  using wq.queue_val [of wl i] by (auto simp: wl_list_def)

lemma tl_wl_list:
  assumes "wl_inv wl"
  shows "i \<in> set (tl (wl_queue wl)) \<longleftrightarrow> (\<exists>n. (i, n) \<in> set (tl (wl_list wl)))"
    and "(i, n) \<in> set (tl (wl_list wl)) \<Longrightarrow> wl_val wl i = Some n"
proof -
  show "i \<in> set (tl (wl_queue wl)) \<longleftrightarrow> (\<exists>n. (i, n) \<in> set (tl (wl_list wl)))"
    by (auto simp: wl_list_def simp flip: map_tl)
  assume "(i, n) \<in> set (tl (wl_list wl))"
  then have "(i, n) \<in> set (wl_list wl)" by (cases "wl_list wl") auto
  then show "wl_val wl i = Some n"
    using wq.queue_val [OF assms, of i] by (auto simp: wl_list_def)
qed

lemma fairD:
  assumes "fair wl F"
  shows "wl_val wl i = Some n \<Longrightarrow> \<exists>f. owner F f i"
    and "i \<in> set (tl (wl_queue wl)) \<Longrightarrow> F f = Some (aq, w, m) \<Longrightarrow> aq_index aq = Some i \<Longrightarrow>
      map_option wn_needed (wl_val wl i) = Some (aq_requested aq)"
  using assms unfolding fair_def by blast+

lemma fair_bare:
  assumes "fair wl F" and "\<And>i. \<not> owner F f i"
    and "x = None \<or> (\<exists>aq w m. x = Some (aq, w, m) \<and> aq_index aq = None)"
  shows "fair wl (F(f := x))"
proof -
  have "owner (F(f := x)) g j \<longleftrightarrow> owner F g j" for g j
    using assms(2,3) by (auto simp: owner_upd)
  then show ?thesis
    using assms(1,3) unfolding fair_def by (auto split: if_splits)
qed

lemma fair_enqueue:
  assumes fair: "fair wl F" and ok: "nodes_ok wl F wk" and i: "wl_val wl i = None"
    and q: "wl_queue wl' = wl_queue wl @ [i]"
    and v: "wl_val wl' = (wl_val wl)(i \<mapsto> \<lparr>wn_needed = k, wn_waker = Some w\<rparr>)"
    and k: "wl_queue wl \<noteq> [] \<Longrightarrow> k = aq_requested aq" and f: "\<And>i. \<not> owner F f i"
  shows "fair wl' (F(f \<mapsto> (aq\<lparr>aq_index := Some i\<rparr>, w, m)))"
proof -
  let ?F = "F(f \<mapsto> (aq\<lparr>aq_index := Some i\<rparr>, w, m))"
  have fresh: "\<not> owner F g i" for g using owner_val [OF ok] i by fastforce
  have own: "owner ?F g j \<longleftrightarrow> owner F g j \<or> g = f \<and> j = i" for g j
    using f by (auto simp: owner_upd)
  have "map_option wn_needed (wl_val wl' j) = Some (aq_requested a)"
    if j: "j \<in> set (tl (wl_queue wl'))" "?F g = Some (a, x, y)" "aq_index a = Some j" for j g a x y
  proof (cases "j = i")
    case True
    then have "g = f" using j(2,3) fresh [of g] by (auto simp: owner_def split: if_splits)
    moreover have "wl_queue wl \<noteq> []" using j(1) q by auto
    ultimately show ?thesis using True j(2) k v by (auto split: if_splits)
  next
    case False
    then have "g \<noteq> f" "j \<in> set (tl (wl_queue wl))"
      using j q by (auto simp: tl_append split: list.splits if_splits)
    with False j(2,3) fairD(2) [OF fair, of j g a x y] v show ?thesis by simp
  qed
  moreover have "\<exists>g. owner ?F g j" if "j \<in> dom (wl_val wl')" for j
    using that fair v unfolding fair_def own by (auto split: if_splits)
  ultimately show ?thesis unfolding fair_def by blast
qed

lemma fair_rewake:
  assumes fair: "fair wl F" and f: "F f = Some (aq, w0, m0)" and i: "wl_val wl i = Some n"
    and q: "wl_queue wl' = wl_queue wl" and v: "wl_val wl' = (wl_val wl)(i \<mapsto> n\<lparr>wn_waker := x\<rparr>)"
  shows "fair wl' (F(f \<mapsto> (aq, w, m)))"
proof -
  have own: "owner (F(f \<mapsto> (aq, w, m))) g j \<longleftrightarrow> owner F g j" for g j
    using f by (auto simp: owner_def)
  have need: "map_option wn_needed (wl_val wl' j) = map_option wn_needed (wl_val wl j)" for j
    using i v by simp
  have "map_option wn_needed (wl_val wl j) = Some (aq_requested a)"
    if "j \<in> set (tl (wl_queue wl))" "(F(f \<mapsto> (aq, w, m))) g = Some (a, x, y)" "aq_index a = Some j" for j g a x y
    using that f fairD(2) [OF fair that(1), of g a] by (cases "g = f") auto
  with fair i show ?thesis
    unfolding fair_def own need q by (auto simp: v split: if_splits)
qed

lemma fair_remove:
  assumes fair: "fair wl F" and ok: "nodes_ok wl F wk" and f: "owner F f i"
    and q: "wl_queue wl' = removeAll i (wl_queue wl)" and v: "wl_val wl' = (wl_val wl)(i := None)"
  shows "fair wl' (F(f := None))"
proof -
  have other: "j \<noteq> i" if "F g = Some (a, x, y)" "aq_index a = Some j" "g \<noteq> f" for g a x y j
    using nodes_okD(3) [OF ok f, of g] that by (auto simp: owner_def)
  have "map_option wn_needed (wl_val wl' j) = Some (aq_requested a)"
    if j: "j \<in> set (tl (wl_queue wl'))" "(F(f := None)) g = Some (a, x, y)" "aq_index a = Some j" for j g a x y
  proof -
    have "F g = Some (a, x, y)" "g \<noteq> f" using j(2) by (auto split: if_splits)
    with j other [of g a x y j] tl_removeAll [of i "wl_queue wl"] fairD(2) [OF fair, of j g a x y]
    show ?thesis by (auto simp: q v)
  qed
  moreover have "\<exists>g. owner (F(f := None)) g j" if "j \<in> dom (wl_val wl')" for j
  proof -
    have "j \<noteq> i" "j \<in> dom (wl_val wl)" using that v by (auto split: if_splits)
    then obtain g where "owner F g j" using fairD(1) [OF fair] by blast
    with f \<open>j \<noteq> i\<close> show ?thesis by (auto simp: owner_def intro!: exI [of _ g])
  qed
  ultimately show ?thesis unfolding fair_def by blast
qed

lemma fair_round:
  assumes fair: "fair (sem_waiters sem) F" and ok: "nodes_ok (sem_waiters sem) F wk"
    and d: "distribute_round sem r = Some (woken, rem, sem')" and b: "r \<le> usize_max"
  shows "fair (sem_waiters sem') F"
proof -
  obtain r' g q' where sp: "spend r stack_size (wl_list (sem_waiters sem)) = (r', g, q')"
    and inv: "wl_inv (sem_waiters sem')" and q': "wl_list (sem_waiters sem') = q'"
    by (rule distribute_round_cases [OF nodes_okD(1) [OF ok] d b])
  have "set (wl_queue (sem_waiters sem')) \<subseteq> set (wl_queue (sem_waiters sem))"
    using arg_cong [OF spend_fst [OF sp], of set] arg_cong [OF q', of "\<lambda>x. set (map fst x)"] by auto
  then have "\<exists>f. owner F f i" if "wl_val (sem_waiters sem') i = Some n" for i n
    using nodes_okD(4) [OF round_ok(1) [OF ok d b] that]
      wq.queue_val [OF nodes_okD(1) [OF ok], of i] fairD(1) [OF fair] by blast
  moreover have "map_option wn_needed (wl_val (sem_waiters sem') i) = Some (aq_requested aq)"
    if i: "i \<in> set (tl (wl_queue (sem_waiters sem')))" "F f = Some (aq, w, m)" "aq_index aq = Some i" for i f aq w m
  proof -
    obtain n where n: "(i, n) \<in> set (tl q')" using tl_wl_list(1) [OF inv] i(1) q' by auto
    then have old: "(i, n) \<in> set (tl (wl_list (sem_waiters sem)))" using spend_tl [OF sp] by blast
    note v = tl_wl_list(2) [OF nodes_okD(1) [OF ok] old]
    have "i \<in> set (tl (wl_queue (sem_waiters sem)))"
      using old tl_wl_list(1) [OF nodes_okD(1) [OF ok]] by blast
    then have "wn_needed n = aq_requested aq" using fairD(2) [OF fair _ i(2,3)] v by simp
    moreover have "wl_val (sem_waiters sem') i = Some n" using tl_wl_list(2) [OF inv] n q' by simp
    ultimately show ?thesis by simp
  qed
  ultimately show ?thesis unfolding fair_def by blast
qed

lemma fair_poll:
  assumes inv: "sem_inv s" and fair: "fair (ss_waiters s) (ss_futs s)" and f: "ss_futs s f = Some (aq, w0, m0)"
    and p: "poll_once (ss_sem s) aq w = Some (res, aq', sem)"
  shows "fair (sem_waiters sem) ((ss_futs s)(f \<mapsto> (aq', w, m)))"
proof -
  have ok: "nodes_ok (ss_waiters s) (ss_futs s) (ss_woken s)"
    and z: "wl_queue (ss_waiters s) \<noteq> [] \<Longrightarrow> sem_available (ss_sem s) = 0"
    using inv by (auto simp: sem_inv_def)
  have own: "owner (ss_futs s) f i \<longleftrightarrow> aq_index aq = Some i" for i using f by (auto simp: owner_def)
  from nodes_okD(1) [OF ok] p show ?thesis
  proof (cases rule: poll_once_cases)
    case taken
    with fair_bare [OF fair, of f] show ?thesis by (simp add: own)
  next
    case (enqueued i wl)
    have "fair wl ((ss_futs s)(f \<mapsto> (aq\<lparr>aq_index := Some i\<rparr>, w, m)))"
      using enqueued z by (intro fair_enqueue [OF fair ok enqueued(7,9,8)]) (auto simp: own)
    with enqueued show ?thesis by simp
  next
    case (waiting i n wl)
    with fair_rewake [OF fair f waiting(2,8,9)] show ?thesis by simp
  next
    case (granted i n wl)
    have "fair wl ((ss_futs s)(f := None))"
      using granted by (intro fair_remove [OF fair ok, of f i]) (auto simp: own)
    from fair_bare [OF this, of f "Some (aq', w, m)"] granted show ?thesis by (simp add: owner_upd)
  qed
qed

lemma fair_detach:
  assumes inv: "sem_inv s" and fair: "fair (ss_waiters s) (ss_futs s)"
    and f: "ss_futs s f = Some (aq, w0, m0)" "aq_index aq = Some i"
    and d: "acquire_detach (ss_sem s) aq i = Some (acquired, sem)"
  shows "fair (sem_waiters sem) ((ss_futs s)(f := None))" and "acquired \<le> usize_max"
proof -
  have ok: "nodes_ok (ss_waiters s) (ss_futs s) (ss_woken s)" and c: "conserved s"
    using inv by (simp_all add: sem_inv_def)
  obtain n wl where h: "wl_val (ss_waiters s) i = Some n" "wn_needed n \<le> aq_requested aq"
    "acquired = aq_requested aq - wn_needed n" "sem = (ss_sem s)\<lparr>sem_waiters := wl\<rparr>" "wl_inv wl"
    "wl_queue wl = removeAll i (wl_queue (ss_waiters s))" "wl_val wl = (wl_val (ss_waiters s))(i := None)"
    by (rule acquire_detach_cases [OF nodes_okD(1) [OF ok] d])
  with fair_remove [OF fair ok, of f i] f show "fair (sem_waiters sem) ((ss_futs s)(f := None))"
    by (simp add: owner_def)
  show "acquired \<le> usize_max" using h(3) conserved_futs(3) [OF c f(1)] by simp
qed

lemma fair_notify:
  assumes inv: "sem_inv s" and fair: "fair (ss_waiters s) (ss_futs s)"
    and r: "sem_notify_all (ss_sem s) = Some (woken, sem)"
  shows "fair (sem_waiters sem) (ss_futs s)"
proof -
  have ok: "nodes_ok (ss_waiters s) (ss_futs s) (ss_woken s)" using inv by (simp add: sem_inv_def)
  obtain wl where h: "sem_notify_all (ss_sem s) = Some (wakers_of (wl_list (ss_waiters s)), (ss_sem s)\<lparr>sem_waiters := wl\<rparr>)"
    "wl_list wl = []"
    by (rule sem_notify_all_spec [OF nodes_okD(1) [OF ok]])
  then have q: "wl_queue (sem_waiters sem) = []" using r by simp
  have "nodes_ok (sem_waiters sem) (ss_futs s) (ss_woken s @ woken)"
    using sem_notify_inv [OF inv r] by (simp add: sem_inv_def)
  from nodes_okD(4) [OF this] q show ?thesis by (auto simp: fair_def)
qed

lemma fair_reduce:
  assumes "reduce_permits (ss_sem s) 0 = Some sem"
  shows "sem = ss_sem s"
  using assms by (simp add: reduce_permits_def acquired_or_enqueue_eq)

lemma dist_bound: "conserved s \<Longrightarrow> ss_dist s t = Some n \<Longrightarrow> n \<le> usize_max"
  by (simp add: conserved_def)

lemma plain_step_fair:
  assumes "plain_step s s'" and "sem_inv s" and "fair (ss_waiters s) (ss_futs s)"
  shows "fair (ss_waiters s') (ss_futs s')"
proof -
  have "sem_step s s'" and "ss_reduced s' = ss_reduced s" using assms(1) by (auto simp: plain_step_def)
  then show ?thesis using assms(2,3)
  proof (induction rule: sem_step.induct)
    case (try_acquire s n sem)
    then show ?case by (auto simp: try_acquire_eq split: if_splits)
  next
    case (drain k s n m sem)
    then show ?case by (auto simp: drain_permits_eq)
  next
    case (reduce s n sem)
    then show ?case using fair_reduce [of s sem] by simp
  next
    case (acquire s f n)
    then show ?case
      using fair_bare [of "ss_waiters s" "ss_futs s" f "Some (sem_acquire n, 0, 0)"]
      by (simp add: owner_def sem_acquire_def del: fun_upd_apply)
  next
    case (drop_bare s f aq w0 m0)
    then show ?case
      using fair_bare [of "ss_waiters s" "ss_futs s" f None] by (simp add: owner_def del: fun_upd_apply)
  next
    case (drop_assigned s f aq w0 m0 i acquired sem t woken remaining sem')
    note f = fair_detach [OF drop_assigned(8,9,1,2,3)]
    from fair_round [OF f(1) sem_detach_inv(1) [OF drop_assigned(8,1,2,3)] drop_assigned(6) f(2)]
    show ?case by (simp add: after_round_def del: fun_upd_apply)
  next
    case (release_fast n s sem)
    then show ?case using sem_release_fast_cases [OF release_fast(3)] by simp
  next
    case (release_slow n s t woken remaining sem)
    have "nodes_ok (ss_waiters s) (ss_futs s) (ss_woken s)" using release_slow(6) by (simp add: sem_inv_def)
    with fair_round [OF release_slow(7) _ release_slow(4,2)] show ?case by (simp add: after_round_def)
  next
    case (round s t n woken remaining sem)
    have "nodes_ok (ss_waiters s) (ss_futs s) (ss_woken s)" "conserved s" using round(4) by (simp_all add: sem_inv_def)
    with fair_round [OF round(5) _ round(2)] dist_bound [OF _ round(1)] show ?case by (simp add: after_round_def)
  next
    case (poll_pending s f aq w0 m0 w aq' sem)
    with fair_poll [OF poll_pending(4,5,1,2)] show ?case by (simp del: fun_upd_apply)
  next
    case (poll_ready s f aq w0 m0 w aq' sem)
    with fair_poll [OF poll_ready(4,5,1,2)] show ?case by (simp del: fun_upd_apply)
  next
    case (drop_empty s f aq w0 m0 i sem)
    with fair_detach(1) [OF drop_empty(5,6,1,2,3)] show ?case by (simp del: fun_upd_apply)
  next
    case (notify_all s woken sem)
    with fair_notify [OF notify_all(3,4,1)] show ?case by simp
  qed
qed

section \<open>Permits are handed out once\<close>

text \<open>The future that owns a node of the queue, and what it was still owed by the others.\<close>

definition owner_of :: "acquires \<Rightarrow> waiter_id \<Rightarrow> nat" where
  "owner_of F i = (THE f. owner F f i)"

lemma owner_of_eq: "nodes_ok wl F wk \<Longrightarrow> owner F f i \<Longrightarrow> owner_of F i = f"
  unfolding owner_of_def using nodes_okD(3) by blast

lemma node_owner:
  assumes ok: "nodes_ok wl F wk" and fair: "fair wl F" and i: "i \<in> set (wl_queue wl)"
  obtains f aq w m n where "owner_of F i = f" "F f = Some (aq, w, m)" "aq_index aq = Some i"
    "wl_val wl i = Some n" "0 < wn_needed n" "wn_needed n \<le> aq_requested aq"
proof -
  obtain n where n: "wl_val wl i = Some n" using wq.queue_val [OF nodes_okD(1) [OF ok]] i by blast
  then obtain f where f: "owner F f i" using fairD(1) [OF fair] by blast
  then obtain aq w m where a: "F f = Some (aq, w, m)" "aq_index aq = Some i" by (auto simp: owner_def)
  from nodes_okD(2) [OF ok a] n i show thesis
    using that [OF owner_of_eq [OF ok f] a n] by (auto simp: node_ok_def)
qed

lemma owner_of_inj:
  assumes "nodes_ok wl F wk" and "fair wl F"
  shows "inj_on (owner_of F) (set (wl_queue wl))"
proof (rule inj_onI)
  fix i j
  assume h: "i \<in> set (wl_queue wl)" "j \<in> set (wl_queue wl)" "owner_of F i = owner_of F j"
  show "i = j"
    by (rule node_owner [OF assms h(1)], rule node_owner [OF assms h(2)]) (use h(3) in simp)
qed

lemma queue_needs_le:
  assumes ok: "nodes_ok wl F wk" and fair: "fair wl F" and fin: "finite (dom F)"
  shows "queue_needs wl \<le> msum reserved F"
proof -
  let ?Q = "set (wl_queue wl)"
  have "queue_needs wl = (\<Sum>i\<in>?Q. wn_needed (the (wl_val wl i)))"
    by (rule queue_needs_sum [OF nodes_okD(1) [OF ok]])
  also have "\<dots> \<le> (\<Sum>i\<in>?Q. reserved (the (F (owner_of F i))))"
    by (rule sum_mono, erule node_owner [OF ok fair]) simp
  also have "\<dots> = (\<Sum>f\<in>owner_of F ` ?Q. reserved (the (F f)))"
    by (simp add: sum.reindex [OF owner_of_inj [OF ok fair]])
  also have "\<dots> \<le> msum reserved F"
    unfolding msum_def
  proof (rule sum_mono2 [OF fin])
    show "owner_of F ` ?Q \<subseteq> dom F" by (auto elim!: node_owner [OF ok fair])
  qed simp
  finally show ?thesis .
qed

text \<open>
  When nobody is distributing and no future holds a complete node, the permits reserved in the
  queue are those assigned to its head.
\<close>

lemma reserved_in_queue:
  assumes ok: "nodes_ok wl F wk" and fair: "fair wl F" and fin: "finite (dom F)"
    and stalled: "\<And>f aq w m i. F f = Some (aq, w, m) \<Longrightarrow> aq_index aq = Some i \<Longrightarrow> i \<in> set (wl_queue wl)"
  shows "msum reserved F = (\<Sum>i\<in>set (wl_queue wl). aq_requested (fst (the (F (owner_of F i)))))"
proof -
  let ?Q = "set (wl_queue wl)"
  have sub: "owner_of F ` ?Q \<subseteq> dom F" by (auto elim!: node_owner [OF ok fair])
  have rest: "reserved (the (F f)) = 0" if f: "f \<in> dom F - owner_of F ` ?Q" for f
  proof -
    obtain aq w m where a: "F f = Some (aq, w, m)" using f by fastforce
    have "aq_index aq = None"
    proof (rule ccontr)
      assume "aq_index aq \<noteq> None"
      then obtain i where i: "aq_index aq = Some i" by blast
      then have "owner_of F i = f" using a owner_of_eq [OF ok] by (auto simp: owner_def)
      with stalled [OF a i] f show False by blast
    qed
    with a show ?thesis by simp
  qed
  have "msum reserved F = (\<Sum>f\<in>owner_of F ` ?Q. reserved (the (F f)))"
    unfolding msum_def by (rule sum.mono_neutral_right [OF fin sub]) (use rest in blast)
  also have "\<dots> = (\<Sum>i\<in>?Q. reserved (the (F (owner_of F i))))"
    by (simp add: sum.reindex [OF owner_of_inj [OF ok fair]])
  also have "\<dots> = (\<Sum>i\<in>?Q. aq_requested (fst (the (F (owner_of F i)))))"
    by (rule sum.cong [OF refl], erule node_owner [OF ok fair]) simp
  finally show ?thesis .
qed

lemma stalled_head:
  assumes ok: "nodes_ok wl F wk" and fair: "fair wl F" and fin: "finite (dom F)"
    and stalled: "\<And>f aq w m i. F f = Some (aq, w, m) \<Longrightarrow> aq_index aq = Some i \<Longrightarrow> i \<in> set (wl_queue wl)"
    and q: "wl_queue wl \<noteq> []"
  obtains f aq w m n where "F f = Some (aq, w, m)" "aq_index aq = Some (hd (wl_queue wl))"
    "wl_val wl (hd (wl_queue wl)) = Some n" "0 < wn_needed n"
    "msum reserved F + wn_needed n = queue_needs wl + aq_requested aq"
proof -
  let ?h = "hd (wl_queue wl)" and ?T = "set (tl (wl_queue wl))"
  have Q: "set (wl_queue wl) = insert ?h ?T" using q by (cases "wl_queue wl") auto
  have "distinct (wl_queue wl)" by (rule wq.queue_distinct [OF nodes_okD(1) [OF ok]])
  then have h: "?h \<notin> ?T" using q by (cases "wl_queue wl") auto
  have tl: "(\<Sum>i\<in>?T. aq_requested (fst (the (F (owner_of F i))))) = (\<Sum>i\<in>?T. wn_needed (the (wl_val wl i)))"
  proof (rule sum.cong [OF refl])
    fix i
    assume i: "i \<in> ?T"
    then have "i \<in> set (wl_queue wl)" using Q by blast
    then show "aq_requested (fst (the (F (owner_of F i)))) = wn_needed (the (wl_val wl i))"
      by (rule node_owner [OF ok fair]) (use fairD(2) [OF fair i] in fastforce)
  qed
  have "?h \<in> set (wl_queue wl)" using Q by blast
  then show thesis
  proof (rule node_owner [OF ok fair])
    fix f aq w m n
    assume f: "owner_of F ?h = f" "F f = Some (aq, w, m)" "aq_index aq = Some ?h"
      "wl_val wl ?h = Some n" "0 < wn_needed n" "wn_needed n \<le> aq_requested aq"
    have "msum reserved F = (\<Sum>i\<in>set (wl_queue wl). aq_requested (fst (the (F (owner_of F i)))))"
      by (rule reserved_in_queue [OF ok fair fin stalled])
    moreover have "queue_needs wl = (\<Sum>i\<in>set (wl_queue wl). wn_needed (the (wl_val wl i)))"
      by (rule queue_needs_sum [OF nodes_okD(1) [OF ok]])
    ultimately have "msum reserved F + wn_needed n = queue_needs wl + aq_requested aq"
      unfolding Q using h tl f by simp
    with f show thesis by (intro that) auto
  qed
qed

section \<open>What a call does\<close>

definition sem_ok :: "nat \<Rightarrow> sem_sys \<Rightarrow> bool" where
  "sem_ok n s \<longleftrightarrow> sem_inv s \<and> fair (ss_waiters s) (ss_futs s) \<and> ss_total s = n \<and> ss_reduced s = 0 \<and> ss_gifted s = 0"

lemma sem_ok_init: "sem_ok n (sem_init n)"
  using sem_init_inv by (simp add: sem_ok_def sem_init_def sem_new_def fair_def wl_val_new wl_queue_new)

lemma sem_step_total: "sem_step s s' \<Longrightarrow> ss_total s' = ss_total s"
  by (induction rule: sem_step.induct) (simp_all add: after_round_def)

lemma sem_ok_step: "plain_step s s' \<Longrightarrow> sem_ok n s \<Longrightarrow> sem_ok n s'"
  using plain_step_fair [of s s'] sem_step_inv [of s s'] sem_step_total [of s s']
  by (simp add: sem_ok_def plain_step_def)

lemma sem_ok_steps: "plain_step\<^sup>*\<^sup>* s s' \<Longrightarrow> sem_ok n s \<Longrightarrow> sem_ok n s'"
  by (induction rule: rtranclp_induct) (auto intro: sem_ok_step)

lemma poll_once_requested: "poll_once sem aq w = Some (r, aq', sem') \<Longrightarrow> aq_requested aq' = aq_requested aq"
  by (cases "aq_index aq") (auto simp: poll_once_def panic_simps Let_def split: if_splits prod.splits)

lemma call_try_step: "call_try n s = (r, s') \<Longrightarrow> plain_step\<^sup>*\<^sup>* s s'"
  by (auto simp: call_try_def try_acquire_eq plain_step_def split: if_splits
      intro!: r_into_rtranclp sem_step.try_acquire)

lemma call_acquire_step:
  assumes "ss_futs s f = None" and "n \<le> usize_max"
  shows "plain_step\<^sup>*\<^sup>* s (call_acquire f (sem_acquire n) s)"
  using sem_step.acquire [OF assms] by (auto simp: call_acquire_def plain_step_def)

lemma call_poll_cases:
  assumes "call_poll f w s = Some (r, s')"
  obtains aq w0 m0 aq' sem where "ss_futs s f = Some (aq, w0, m0)"
    "poll_once (ss_sem s) aq w = Some (r, aq', sem)"
    "s' = (if r = Pending
       then s\<lparr>ss_sem := sem, ss_futs := (ss_futs s)(f \<mapsto> (aq', w, length (ss_woken s)))\<rparr>
       else s\<lparr>ss_sem := sem, ss_futs := (ss_futs s)(f := None), ss_acquired := ss_acquired s + aq_requested aq\<rparr>)"
proof -
  obtain aq w0 m0 r' aq' sem where f: "ss_futs s f = Some (aq, w0, m0)"
    and p: "poll_once (ss_sem s) aq w = Some (r', aq', sem)"
    and e: "(r, s') = (case r' of
        Pending \<Rightarrow> (Pending, s\<lparr>ss_sem := sem, ss_futs := (ss_futs s)(f \<mapsto> (aq', w, length (ss_woken s)))\<rparr>)
      | Ready _ \<Rightarrow> (Ready (), s\<lparr>ss_sem := sem, ss_futs := (ss_futs s)(f := None),
          ss_acquired := ss_acquired s + aq_requested aq\<rparr>))"
    using assms by (auto simp: call_poll_def panic_simps)
  from e p show thesis by (cases r') (auto intro: that [OF f])
qed

lemma call_poll_step:
  assumes "call_poll f w s = Some (r, s')" and "sem_inv s"
  shows "plain_step\<^sup>*\<^sup>* s s'"
proof -
  obtain aq w0 m0 aq' sem where f: "ss_futs s f = Some (aq, w0, m0)"
    and p: "poll_once (ss_sem s) aq w = Some (r, aq', sem)"
    and s': "s' = (if r = Pending
       then s\<lparr>ss_sem := sem, ss_futs := (ss_futs s)(f \<mapsto> (aq', w, length (ss_woken s)))\<rparr>
       else s\<lparr>ss_sem := sem, ss_futs := (ss_futs s)(f := None), ss_acquired := ss_acquired s + aq_requested aq\<rparr>)"
    by (rule call_poll_cases [OF assms(1)])
  have wi: "wl_inv (ss_waiters s)" using assms(2) nodes_okD(1) by (auto simp: sem_inv_def)
  show ?thesis
  proof (cases r)
    case Pending
    with s' sem_step.poll_pending [OF f] p show ?thesis by (auto simp: plain_step_def)
  next
    case (Ready u)
    let ?s = "s\<lparr>ss_sem := sem, ss_futs := (ss_futs s)(f \<mapsto> (aq', w, length (ss_woken s))),
      ss_acquired := ss_acquired s + aq_requested aq\<rparr>"
    have "aq_index aq' = None"
      using wi p by (cases rule: poll_once_cases) (use Ready in simp_all)
    then have step: "sem_step ?s (?s\<lparr>ss_futs := (ss_futs ?s)(f := None)\<rparr>)"
      by (intro sem_step.drop_bare) simp_all
    have eq: "?s\<lparr>ss_futs := (ss_futs ?s)(f := None)\<rparr> = s'" using s' Ready by (cases s) simp
    have "plain_step ?s s'" unfolding plain_step_def using step unfolding eq by (simp add: s')
    moreover have "plain_step s ?s"
      using sem_step.poll_ready [OF f, of w aq' sem] p Ready by (simp add: plain_step_def)
    ultimately show ?thesis by (meson converse_rtranclp_into_rtranclp rtranclp.rtrancl_refl)
  qed
qed

lemma call_drop_step:
  assumes "call_drop t f s = Some s'" and "ss_dist s t = None"
  shows "plain_step\<^sup>*\<^sup>* s s'"
proof -
  obtain aq w0 m0 where f: "ss_futs s f = Some (aq, w0, m0)" using assms(1) by (auto simp: call_drop_def panic_simps)
  have "plain_step s s'"
  proof (cases "aq_index aq")
    case None
    then have "s' = s\<lparr>ss_futs := (ss_futs s)(f := None)\<rparr>" using assms(1) f by (simp add: call_drop_def)
    with sem_step.drop_bare [OF f None] show ?thesis by (simp add: plain_step_def)
  next
    case (Some i)
    then obtain acquired sem where d: "acquire_detach (ss_sem s) aq i = Some (acquired, sem)"
      using assms(1) f by (auto simp: call_drop_def panic_simps Let_def)
    show ?thesis
    proof (cases "acquired = 0")
      case True
      then have "s' = s\<lparr>ss_sem := sem, ss_futs := (ss_futs s)(f := None)\<rparr>"
        using assms(1) f Some d by (cases s) (simp add: call_drop_def Let_def)
      with True d sem_step.drop_empty [OF f Some, of sem] show ?thesis by (simp add: plain_step_def)
    next
      case False
      then obtain woken remaining sem' where "distribute_round sem acquired = Some (woken, remaining, sem')"
        "s' = after_round t woken remaining sem' (s\<lparr>ss_futs := (ss_futs s)(f := None)\<rparr>)"
        using assms(1) f Some d by (auto simp: call_drop_def panic_simps Let_def)
      with False sem_step.drop_assigned [OF f Some d _ assms(2)] show ?thesis
        by (simp add: plain_step_def after_round_def)
    qed
  qed
  then show ?thesis by (rule r_into_rtranclp)
qed

lemma call_release_slow_step:
  assumes "call_release_slow t n s = Some s'" and "ss_dist s t = None" and "n \<le> usize_max"
  shows "plain_step\<^sup>*\<^sup>* s s'"
proof (cases "n = 0")
  case False
  then obtain woken remaining sem where d: "distribute_round (ss_sem s) n = Some (woken, remaining, sem)"
    and s': "s' = after_round t woken remaining sem (s\<lparr>ss_released := ss_released s + n\<rparr>)"
    using assms(1) by (auto simp: call_release_slow_def panic_simps)
  from sem_step.release_slow [OF False assms(3,2) d] have "plain_step s s'"
    by (simp add: s' plain_step_def after_round_def)
  then show ?thesis by (rule r_into_rtranclp)
qed (use assms(1) in \<open>simp add: call_release_slow_def\<close>)

lemma call_release_step:
  assumes r: "call_release t racy n s = Some s'" and b: "ss_dist s t = None" "n \<le> usize_max"
  shows "plain_step\<^sup>*\<^sup>* s s'"
proof (cases "n \<noteq> 0 \<and> \<not> racy \<and> (\<exists>sem. sem_release_fast (ss_sem s) n = Some (Some sem))")
  case True
  then obtain sem where f: "sem_release_fast (ss_sem s) n = Some (Some sem)" and "n \<noteq> 0" by blast
  from sem_step.release_fast [OF this(2) b(2) f] True r f have "plain_step s s'"
    by (auto simp: call_release_def plain_step_def)
  then show ?thesis by (rule r_into_rtranclp)
next
  case False
  then have "call_release_slow t n s = Some s'"
    using r by (auto simp: call_release_def call_release_slow_def panic_simps split: if_splits option.splits)
  then show ?thesis using b by (rule call_release_slow_step)
qed

lemma call_round_step:
  assumes "call_round t s = Some s'"
  shows "plain_step\<^sup>*\<^sup>* s s'"
proof -
  obtain n woken remaining sem where "ss_dist s t = Some n"
    "distribute_round (ss_sem s) n = Some (woken, remaining, sem)" "s' = after_round t woken remaining sem s"
    using assms by (auto simp: call_round_def panic_simps)
  with sem_step.round [of s t n] have "plain_step s s'" by (simp add: plain_step_def after_round_def)
  then show ?thesis by (rule r_into_rtranclp)
qed

text \<open>The effect of each call on the futures and on the permits handed out and returned.\<close>

lemma call_try_effect:
  assumes "call_try n s = (r, s')"
  shows "ss_futs s' = ss_futs s" and "ss_released s' = ss_released s"
    and "ss_acquired s' = ss_acquired s + (if r then n else 0)"
  using assms by (auto simp: call_try_def try_acquire_eq split: if_splits)

lemma call_acquire_effect [simp]:
  "ss_futs (call_acquire f aq s) = (ss_futs s)(f \<mapsto> (aq, 0, 0))"
  "ss_released (call_acquire f aq s) = ss_released s"
  "ss_acquired (call_acquire f aq s) = ss_acquired s"
  by (simp_all add: call_acquire_def)

lemma call_poll_effect:
  assumes "call_poll f w s = Some (r, s')" and "ss_futs s f = Some (aq, x, y)"
  shows "ss_released s' = ss_released s"
    and "ss_acquired s' = ss_acquired s + (if r = Pending then 0 else aq_requested aq)"
    and "r = Ready () \<Longrightarrow> ss_futs s' = (ss_futs s)(f := None)"
    and "r = Pending \<Longrightarrow> \<exists>aq' k. aq_requested aq' = aq_requested aq \<and> ss_futs s' = (ss_futs s)(f \<mapsto> (aq', w, k))"
proof -
  obtain aq' sem where p: "poll_once (ss_sem s) aq w = Some (r, aq', sem)"
    and s': "s' = (if r = Pending
       then s\<lparr>ss_sem := sem, ss_futs := (ss_futs s)(f \<mapsto> (aq', w, length (ss_woken s)))\<rparr>
       else s\<lparr>ss_sem := sem, ss_futs := (ss_futs s)(f := None), ss_acquired := ss_acquired s + aq_requested aq\<rparr>)"
    by (rule call_poll_cases [OF assms(1)]) (use assms(2) in simp)
  show "ss_released s' = ss_released s"
    and "ss_acquired s' = ss_acquired s + (if r = Pending then 0 else aq_requested aq)"
    and "r = Ready () \<Longrightarrow> ss_futs s' = (ss_futs s)(f := None)" by (simp_all add: s')
  show "\<exists>aq' k. aq_requested aq' = aq_requested aq \<and> ss_futs s' = (ss_futs s)(f \<mapsto> (aq', w, k))" if "r = Pending"
    using poll_once_requested [OF p] that unfolding s' by (intro exI [of _ aq'] exI [of _ "length (ss_woken s)"]) simp
qed

lemma call_drop_effect:
  assumes "call_drop t f s = Some s'"
  shows "ss_futs s' = (ss_futs s)(f := None)" and "ss_released s' = ss_released s" and "ss_acquired s' = ss_acquired s"
  using assms
  by (auto simp: call_drop_def after_round_def panic_simps Let_def split: option.splits if_splits)

lemma call_release_slow_effect:
  assumes "call_release_slow t n s = Some s'"
  shows "ss_futs s' = ss_futs s" and "ss_released s' = ss_released s + n" and "ss_acquired s' = ss_acquired s"
  using assms
  by (auto simp: call_release_slow_def after_round_def panic_simps split: option.splits if_splits)

lemma call_release_effect:
  assumes "call_release t racy n s = Some s'"
  shows "ss_futs s' = ss_futs s" and "ss_released s' = ss_released s + n" and "ss_acquired s' = ss_acquired s"
proof -
  have "call_release_slow t n s = Some s' \<or> (\<exists>sem. s' = s\<lparr>ss_sem := sem, ss_released := ss_released s + n\<rparr>)"
    using assms by (auto simp: call_release_def call_release_slow_def panic_simps split: option.splits if_splits)
  then show "ss_futs s' = ss_futs s" and "ss_released s' = ss_released s + n" and "ss_acquired s' = ss_acquired s"
    using call_release_slow_effect [of t n s s'] by auto
qed

lemma call_round_effect:
  assumes "call_round t s = Some s'"
  shows "ss_futs s' = ss_futs s" and "ss_released s' = ss_released s" and "ss_acquired s' = ss_acquired s"
  using assms by (auto simp: call_round_def after_round_def panic_simps)

section \<open>The books of a client\<close>

text \<open>
  A client's handles are a map \<open>H\<close>. Each handle may be waiting for an acquisition of
  \<open>wants h\<close> permits, under its own name, and holds \<open>owns h\<close> permits.
\<close>

definition maybe :: "('h \<Rightarrow> nat) \<Rightarrow> 'h option \<Rightarrow> nat" where
  "maybe g x = (case x of None \<Rightarrow> 0 | Some h \<Rightarrow> g h)"

lemma maybe_simps [simp]: "maybe g None = 0" "maybe g (Some h) = g h"
  by (simp_all add: maybe_def)

definition books :: "('h \<Rightarrow> nat option) \<Rightarrow> ('h \<Rightarrow> nat) \<Rightarrow> (nat \<Rightarrow> 'h option) \<Rightarrow> sem_sys \<Rightarrow> bool" where
  "books wants owns H s \<longleftrightarrow> finite (dom H) \<and>
     (\<forall>f. map_option (aq_requested \<circ> fst) (ss_futs s f) = Option.bind (H f) wants) \<and>
     ss_acquired s = msum owns H + ss_released s"

lemma msum_change:
  assumes "finite (dom H)"
  shows "msum g (H(f := y)) + maybe g (H f) = msum g H + maybe g y"
  using msum_insert [OF assms, of f g] msum_delete [OF assms, of f _ g] msum_update [OF assms, of f _ g]
  by (cases "H f"; cases y) (auto simp: fun_upd_idem)

lemma books_change:
  assumes b: "books wants owns H s"
    and futs: "map_option (aq_requested \<circ> fst) (ss_futs s' f) = Option.bind y wants"
      "\<And>g. g \<noteq> f \<Longrightarrow> map_option (aq_requested \<circ> fst) (ss_futs s' g) = map_option (aq_requested \<circ> fst) (ss_futs s g)"
    and c: "ss_acquired s' + ss_released s + maybe owns (H f) = ss_acquired s + ss_released s' + maybe owns y"
  shows "books wants owns (H(f := y)) s'"
proof -
  have fin: "finite (dom H)" using b by (simp add: books_def)
  have "ss_acquired s' = msum owns (H(f := y)) + ss_released s'"
    using b c msum_change [OF fin, of owns f y] by (simp add: books_def)
  with b futs fin show ?thesis by (simp add: books_def)
qed

lemma books_fut:
  assumes "books wants owns H s"
  shows "Option.bind (H f) wants = None \<Longrightarrow> ss_futs s f = None"
    and "Option.bind (H f) wants = Some n \<Longrightarrow> \<exists>aq w m. ss_futs s f = Some (aq, w, m) \<and> aq_requested aq = n"
    and "ss_futs s f = Some (aq, w, m) \<Longrightarrow> \<exists>h. H f = Some h \<and> wants h = Some (aq_requested aq)"
proof -
  have e: "map_option (aq_requested \<circ> fst) (ss_futs s f) = Option.bind (H f) wants"
    using assms by (simp add: books_def)
  from e show "ss_futs s f = None" if "Option.bind (H f) wants = None" using that by simp
  from e show "\<exists>aq w m. ss_futs s f = Some (aq, w, m) \<and> aq_requested aq = n"
    if "Option.bind (H f) wants = Some n" using that by (cases "ss_futs s f") auto
  from e show "\<exists>h. H f = Some h \<and> wants h = Some (aq_requested aq)" if "ss_futs s f = Some (aq, w, m)"
    using that by (cases "H f") auto
qed

lemma books_same:
  "books wants owns H s \<Longrightarrow> Option.bind y wants = Option.bind (H f) wants \<Longrightarrow>
   maybe owns y = maybe owns (H f) \<Longrightarrow> books wants owns (H(f := y)) s"
  by (rule books_change [of wants owns H s]) (simp_all add: books_def)

lemma books_try:
  assumes "books wants owns H s" and "call_try n s = (r, s')"
    and "Option.bind y wants = Option.bind (H f) wants"
    and "maybe owns y = maybe owns (H f) + (if r then n else 0)"
  shows "books wants owns (H(f := y)) s'"
  using assms call_try_effect [OF assms(2)] by (intro books_change [OF assms(1)]) (simp_all add: books_def)

lemma books_acquire:
  assumes "books wants owns H s" and "Option.bind y wants = Some n" and "maybe owns y = maybe owns (H f)"
  shows "books wants owns (H(f := y)) (call_acquire f (sem_acquire n) s)"
  using assms by (intro books_change [OF assms(1)]) (simp_all add: sem_acquire_def)

lemma books_pending:
  assumes "books wants owns H s" and "call_poll f w s = Some (Pending, s')"
  shows "books wants owns H s'"
proof -
  obtain aq w0 m0 where "ss_futs s f = Some (aq, w0, m0)" by (rule call_poll_cases [OF assms(2)])
  with call_poll_effect [OF assms(2) this] obtain aq' k where "aq_requested aq' = aq_requested aq"
    "ss_futs s' = (ss_futs s)(f \<mapsto> (aq', w, k))" "ss_acquired s' = ss_acquired s" "ss_released s' = ss_released s"
    by auto
  then have "books wants owns (H(f := H f)) s'"
    using assms(1) \<open>ss_futs s f = _\<close> by (intro books_change [OF assms(1)]) (auto simp: books_def dest: spec [of _ f])
  then show ?thesis by simp
qed

lemma books_ready:
  assumes "books wants owns H s" and "call_poll f w s = Some (Ready (), s')"
    and "Option.bind (H f) wants = Some n" and "Option.bind y wants = None"
    and "maybe owns y = maybe owns (H f) + n"
  shows "books wants owns (H(f := y)) s'"
proof -
  obtain aq w0 m0 where f: "ss_futs s f = Some (aq, w0, m0)" "aq_requested aq = n"
    using books_fut(2) [OF assms(1,3)] by blast
  from call_poll_effect [OF assms(2) f(1)] f assms(4,5) show ?thesis
    by (intro books_change [OF assms(1)]) simp_all
qed

lemma books_drop:
  assumes "books wants owns H s" and "call_drop t f s = Some s'"
    and "Option.bind y wants = None" and "maybe owns y = maybe owns (H f)"
  shows "books wants owns (H(f := y)) s'"
  using assms call_drop_effect [OF assms(2)] by (intro books_change [OF assms(1)]) simp_all

lemma books_release:
  assumes "books wants owns H s" and "call_release t racy n s = Some s'"
    and "Option.bind y wants = Option.bind (H f) wants" and "maybe owns y + n = maybe owns (H f)"
  shows "books wants owns (H(f := y)) s'"
  using assms call_release_effect [OF assms(2)] by (intro books_change [OF assms(1)]) (simp_all add: books_def)

lemma books_release_slow:
  assumes "books wants owns H s" and "call_release_slow t n s = Some s'"
    and "Option.bind y wants = Option.bind (H f) wants" and "maybe owns y + n = maybe owns (H f)"
  shows "books wants owns (H(f := y)) s'"
  using assms call_release_slow_effect [OF assms(2)] by (intro books_change [OF assms(1)]) (simp_all add: books_def)

lemma books_round: "books wants owns H s \<Longrightarrow> call_round t s = Some s' \<Longrightarrow> books wants owns H s'"
  using call_round_effect [of t s s'] by (simp add: books_def)

lemma books_init: "books wants owns Map.empty (sem_init n)"
  by (simp add: books_def sem_init_def)

section \<open>Every client at once\<close>

text \<open>
  A client makes plain calls on a semaphore created with \<open>permits\<close> permits, and its own books
  agree with those of the semaphore: what it acquired and has not released is what it holds.
\<close>

locale permit_client =
  fixes start :: 's and step :: "'s \<Rightarrow> 's \<Rightarrow> bool" and sem :: "'s \<Rightarrow> sem_sys" and held :: "'s \<Rightarrow> nat"
    and permits :: nat and inv :: "'s \<Rightarrow> bool"
  assumes start_sem: "sem start = sem_init permits"
    and start_inv: "inv start"
    and step_sem: "step s s' \<Longrightarrow> inv s \<Longrightarrow> sem_ok permits (sem s) \<Longrightarrow> plain_step\<^sup>*\<^sup>* (sem s) (sem s')"
    and step_inv: "step s s' \<Longrightarrow> inv s \<Longrightarrow> inv s'"
    and inv_books: "inv s \<Longrightarrow> ss_acquired (sem s) = held s + ss_released (sem s)"
begin

lemma client_reach:
  assumes "step\<^sup>*\<^sup>* start s"
  shows "inv s \<and> sem_ok permits (sem s)"
  using assms
proof (induction rule: rtranclp_induct)
  case base
  show ?case using start_inv sem_ok_init start_sem by metis
next
  case (step s s')
  then show ?case using step_inv step_sem sem_ok_steps by blast
qed

lemma client_held:
  assumes "step\<^sup>*\<^sup>* start s"
  shows "sem_available (ss_sem (sem s)) + held s \<le> permits"
proof -
  have c: "sem_inv (sem s)" "fair (ss_waiters (sem s)) (ss_futs (sem s))" "ss_total (sem s) = permits"
    "ss_reduced (sem s) = 0" "ss_gifted (sem s) = 0" "ss_acquired (sem s) = held s + ss_released (sem s)"
    using client_reach [OF assms] inv_books by (simp_all add: sem_ok_def)
  then have "queue_needs (ss_waiters (sem s)) \<le> msum reserved (ss_futs (sem s))"
    by (intro queue_needs_le) (auto simp: sem_inv_def conserved_def)
  with c show ?thesis by (simp add: sem_inv_def conserved_def)
qed

text \<open>
  When no thread is distributing and every parked future is still in the queue, the permits are
  all with the client, except for those assigned to the first future, which needs more.
\<close>

lemma client_stalled:
  assumes "step\<^sup>*\<^sup>* start s" and "ss_dist (sem s) = Map.empty" and "wl_queue (ss_waiters (sem s)) \<noteq> []"
    and stalled: "\<And>f aq w m i. ss_futs (sem s) f = Some (aq, w, m) \<Longrightarrow> aq_index aq = Some i \<Longrightarrow>
      i \<in> set (wl_queue (ss_waiters (sem s)))"
  obtains f aq w m n where "ss_futs (sem s) f = Some (aq, w, m)" "0 < n" "n \<le> aq_requested aq"
    "held s + aq_requested aq = permits + n"
proof -
  have c: "sem_inv (sem s)" "fair (ss_waiters (sem s)) (ss_futs (sem s))" "ss_total (sem s) = permits"
    "ss_reduced (sem s) = 0" "ss_gifted (sem s) = 0" "ss_acquired (sem s) = held s + ss_released (sem s)"
    using client_reach [OF assms(1)] inv_books by (simp_all add: sem_ok_def)
  then have ok: "nodes_ok (ss_waiters (sem s)) (ss_futs (sem s)) (ss_woken (sem s))"
    and fin: "finite (dom (ss_futs (sem s)))" and z: "sem_available (ss_sem (sem s)) = 0"
    using assms(3) by (auto simp: sem_inv_def conserved_def)
  obtain f aq w m n where f: "ss_futs (sem s) f = Some (aq, w, m)"
    "aq_index aq = Some (hd (wl_queue (ss_waiters (sem s))))"
    "wl_val (ss_waiters (sem s)) (hd (wl_queue (ss_waiters (sem s)))) = Some n" "0 < wn_needed n"
    and r: "msum reserved (ss_futs (sem s)) + wn_needed n = queue_needs (ss_waiters (sem s)) + aq_requested aq"
    by (rule stalled_head [OF ok c(2) fin stalled assms(3)])
  have "wn_needed n \<le> aq_requested aq"
    using nodes_okD(2) [OF ok f(1,2)] f(3) by (auto simp: node_ok_def)
  moreover have "held s + aq_requested aq = permits + wn_needed n"
    using c r z assms(2) by (simp add: sem_inv_def conserved_def)
  ultimately show thesis using that [OF f(1,4)] by blast
qed

lemma client_woken:
  assumes "step\<^sup>*\<^sup>* start s" and "ss_futs (sem s) f = Some (aq, w, m)" and "aq_index aq = Some i"
    and "i \<notin> set (wl_queue (ss_waiters (sem s)))"
  shows "w \<in> set (drop m (ss_woken (sem s)))"
proof -
  have "nodes_ok (ss_waiters (sem s)) (ss_futs (sem s)) (ss_woken (sem s))"
    using client_reach [OF assms(1)] by (simp add: sem_ok_def sem_inv_def)
  from nodes_okD(2) [OF this assms(2,3)] assms(4) show ?thesis by (auto simp: node_ok_def)
qed

end

end
