(* ===== verification/RwLock.thy ===== *)
theory RwLock
  imports PermitClient
begin

text \<open>
  The read-write lock and its upgradable variant (\<open>rwlock/\<close>). A lock is a semaphore of
  \<open>max_readers\<close> permits: a reader takes one and a writer takes all. The upgradable lock adds a
  second semaphore of one permit that serialises writers and upgradable readers, so that an
  upgrade waits for readers only. The semaphore is the system of \<open>SemaphoreSystem\<close>: the object
  together with the acquisition futures and the distributing threads that use it.
\<close>

section \<open>The lock\<close>

typedef nonzero_usize = "{n :: usize. 0 < n \<and> n \<le> usize_max}"
  morphisms nz_get nz_new
  by (rule exI [of _ 1]) (simp add: usize_max_def)

setup_lifting type_definition_nonzero_usize

lift_definition half_max :: nonzero_usize is "usize_max div 2"
  by (simp add: usize_max_def)

lift_definition nz_two :: nonzero_usize is 2
  by (simp add: usize_max_def)

record 'v rwlock =
  rw_max_readers :: usize
  rw_s :: sem_sys
  rw_c :: 'v

definition with_max_readers :: "'v \<Rightarrow> nonzero_usize \<Rightarrow> 'v rwlock" where
  "with_max_readers t max_readers =
     (let max_readers = nz_get max_readers
      in \<lparr>rw_max_readers = max_readers, rw_s = sem_init max_readers, rw_c = t\<rparr>)"

definition rw_new :: "'v \<Rightarrow> 'v rwlock" where
  "rw_new t = with_max_readers t half_max"

definition rw_into_inner :: "'v rwlock \<Rightarrow> 'v" where
  "rw_into_inner l = rw_c l"

text \<open>
  An access owns permits of the semaphore, which its drop releases. It refers to the lock, to
  a shared allocation of it, or, once mapped to a part of the value, to the semaphore alone.
\<close>

datatype owner_ref = LockRef | LockArc | SemRef

datatype access = ReadAccess owner_ref | WriteAccess owner_ref usize

fun access_permits :: "access \<Rightarrow> usize" where
  "access_permits (ReadAccess ow) = 1"
| "access_permits (WriteAccess ow permits_acquired) = permits_acquired"

fun into_semaphore :: "access \<Rightarrow> access" where
  "into_semaphore (ReadAccess ow) = ReadAccess (if ow = LockRef then SemRef else ow)"
| "into_semaphore (WriteAccess ow permits_acquired) =
     WriteAccess (if ow = LockRef then SemRef else ow) permits_acquired"

definition access_drop :: "nat \<Rightarrow> bool \<Rightarrow> access \<Rightarrow> 'v rwlock \<Rightarrow> 'v rwlock option" where
  "access_drop t racy a l = do {
     s \<leftarrow> call_release t racy (access_permits a) (rw_s l);
     Some (l\<lparr>rw_s := s\<rparr>) }"

fun access_downgrade :: "nat \<Rightarrow> bool \<Rightarrow> access \<Rightarrow> 'v rwlock \<Rightarrow> (access \<times> 'v rwlock) option" where
  "access_downgrade t racy (WriteAccess ow permits_acquired) l = do {
     permits_acquired \<leftarrow> checked_sub permits_acquired 1;
     l \<leftarrow> access_drop t racy (WriteAccess ow permits_acquired) l;
     Some (ReadAccess ow, l) }"
| "access_downgrade t racy (ReadAccess ow) l = None"

text \<open>
  The asynchronous operations are given by their first poll, which creates the acquisition,
  and by each poll of it; \<open>f\<close> names the future.
\<close>

definition rw_read :: "nat \<Rightarrow> 'v rwlock \<Rightarrow> 'v rwlock" where
  "rw_read f l = l\<lparr>rw_s := call_acquire f (sem_acquire 1) (rw_s l)\<rparr>"

definition rw_read_poll :: "nat \<Rightarrow> waker \<Rightarrow> owner_ref \<Rightarrow> 'v rwlock \<Rightarrow> (access poll \<times> 'v rwlock) option" where
  "rw_read_poll f w ow l = do {
     (r, s) \<leftarrow> call_poll f w (rw_s l);
     Some (map_poll (\<lambda>_. ReadAccess ow) r, l\<lparr>rw_s := s\<rparr>) }"

definition rw_try_read :: "owner_ref \<Rightarrow> 'v rwlock \<Rightarrow> access option \<times> 'v rwlock" where
  "rw_try_read ow l =
     (case call_try 1 (rw_s l) of
        (True, s) \<Rightarrow> (Some (ReadAccess ow), l\<lparr>rw_s := s\<rparr>)
      | (False, s) \<Rightarrow> (None, l\<lparr>rw_s := s\<rparr>))"

definition rw_write :: "nat \<Rightarrow> 'v rwlock \<Rightarrow> 'v rwlock" where
  "rw_write f l = l\<lparr>rw_s := call_acquire f (sem_acquire (rw_max_readers l)) (rw_s l)\<rparr>"

definition rw_write_poll :: "nat \<Rightarrow> waker \<Rightarrow> owner_ref \<Rightarrow> 'v rwlock \<Rightarrow> (access poll \<times> 'v rwlock) option" where
  "rw_write_poll f w ow l = do {
     (r, s) \<leftarrow> call_poll f w (rw_s l);
     Some (map_poll (\<lambda>_. WriteAccess ow (rw_max_readers l)) r, l\<lparr>rw_s := s\<rparr>) }"

definition rw_try_write :: "owner_ref \<Rightarrow> 'v rwlock \<Rightarrow> access option \<times> 'v rwlock" where
  "rw_try_write ow l =
     (case call_try (rw_max_readers l) (rw_s l) of
        (True, s) \<Rightarrow> (Some (WriteAccess ow (rw_max_readers l)), l\<lparr>rw_s := s\<rparr>)
      | (False, s) \<Rightarrow> (None, l\<lparr>rw_s := s\<rparr>))"

definition rw_cancel :: "nat \<Rightarrow> nat \<Rightarrow> 'v rwlock \<Rightarrow> 'v rwlock option" where
  "rw_cancel t f l = do {
     s \<leftarrow> call_drop t f (rw_s l);
     Some (l\<lparr>rw_s := s\<rparr>) }"

definition rw_deref :: "'v rwlock \<Rightarrow> access \<Rightarrow> 'v" where
  "rw_deref l a = rw_c l"

definition rw_deref_mut :: "'v rwlock \<Rightarrow> access \<Rightarrow> 'v \<Rightarrow> 'v rwlock" where
  "rw_deref_mut l a v = l\<lparr>rw_c := v\<rparr>"

text \<open>Mapping a guard hands its access on; a projection that declines gives the guard back.\<close>

definition guard_filter_map :: "('v \<Rightarrow> 'u option) \<Rightarrow> access \<Rightarrow> 'v rwlock \<Rightarrow> ('u \<times> access, access) result" where
  "guard_filter_map proj orig l =
     (case proj (rw_deref l orig) of
        Some d \<Rightarrow> Ok (d, into_semaphore orig)
      | None \<Rightarrow> Err orig)"

section \<open>The upgradable lock\<close>

definition rw_upgrade :: "nat \<Rightarrow> 'v rwlock \<Rightarrow> 'v rwlock option" where
  "rw_upgrade f l = do {
     n \<leftarrow> checked_sub (rw_max_readers l) 1;
     Some (l\<lparr>rw_s := call_acquire f (sem_acquire n) (rw_s l)\<rparr>) }"

text \<open>The read access is forgotten: its permit becomes part of the write access.\<close>

definition into_write :: "access \<Rightarrow> 'v rwlock \<Rightarrow> access" where
  "into_write a l = WriteAccess LockRef (rw_max_readers l)"

definition rw_upgrade_poll :: "nat \<Rightarrow> waker \<Rightarrow> access \<Rightarrow> 'v rwlock \<Rightarrow> (access poll \<times> 'v rwlock) option" where
  "rw_upgrade_poll f w a l = do {
     (r, s) \<leftarrow> call_poll f w (rw_s l);
     Some (map_poll (\<lambda>_. into_write a l) r, l\<lparr>rw_s := s\<rparr>) }"

definition rw_try_upgrade :: "access \<Rightarrow> 'v rwlock \<Rightarrow> ((access, access) result \<times> 'v rwlock) option" where
  "rw_try_upgrade a l = do {
     n \<leftarrow> checked_sub (rw_max_readers l) 1;
     Some (case call_try n (rw_s l) of
             (True, s) \<Rightarrow> (Ok (into_write a l), l\<lparr>rw_s := s\<rparr>)
           | (False, s) \<Rightarrow> (Err a, l\<lparr>rw_s := s\<rparr>)) }"

lemmas rwlock_ops [op_defs] = with_max_readers_def rw_new_def rw_into_inner_def access_drop_def rw_read_def
  rw_read_poll_def rw_try_read_def rw_write_def rw_write_poll_def rw_try_write_def rw_cancel_def
  rw_deref_def rw_deref_mut_def guard_filter_map_def rw_upgrade_def into_write_def rw_upgrade_poll_def
  rw_try_upgrade_def

end
