(* ===== verification/RwLockSystem.thy ===== *)
theory RwLockSystem
  imports RwLock
begin

text \<open>
  A read-write lock, plain or upgradable, with every call suspended on it and every guard taken
  from it. The invariant keeps the books of both semaphores; through the interpretations of
  \<open>permit_client\<close> it gives exclusion and the absence of deadlock.
\<close>

section \<open>Everyone who uses a lock\<close>

text \<open>
  A handle is an asynchronous call suspended at one of its awaits, a synchronous call between
  two accesses to the semaphores, or a guard. \<open>WriteLocked\<close>, \<open>Unreserving\<close> and
  \<open>UpgradableDropping\<close> are about to drop the reservation, or the guard of a cancelled upgrade.
\<close>

datatype rw_handle =
    Reading owner_ref
  | Writing owner_ref
  | WriteReserving
  | WriteReserved
  | TryWriting
  | WriteLocked access
  | UpgradableReserving
  | UpgradableReserved
  | TryUpgradable
  | UpgradableGuard access
  | Upgrading access
  | UpgradableDropping access
  | Unreserving
  | Guard access

record 'v rw_sys =
  rs_upgradable :: bool
  rs_res :: sem_sys
  rs_lock :: "'v rwlock"
  rs_hold :: "nat \<Rightarrow> rw_handle option"

definition rw_init :: "bool \<Rightarrow> 'v \<Rightarrow> nonzero_usize \<Rightarrow> 'v rw_sys" where
  "rw_init upgradable value max_readers = \<lparr>rs_upgradable = upgradable, rs_res = sem_init 1,
     rs_lock = with_max_readers value max_readers, rs_hold = Map.empty\<rparr>"

abbreviation rs_sem :: "'v rw_sys \<Rightarrow> sem_sys" where
  "rs_sem s \<equiv> rw_s (rs_lock s)"

text \<open>What a completed poll makes of its handle.\<close>

definition settled :: "'v rw_sys \<Rightarrow> nat \<Rightarrow> 'a poll \<Rightarrow> ('a \<Rightarrow> rw_handle) \<Rightarrow> nat \<Rightarrow> rw_handle option" where
  "settled s f r next_state = (case r of Pending \<Rightarrow> rs_hold s | Ready a \<Rightarrow> (rs_hold s)(f \<mapsto> next_state a))"

inductive rw_step :: "'v rw_sys \<Rightarrow> 'v rw_sys \<Rightarrow> bool" where
  begin_read: "rs_hold s f = None \<Longrightarrow>
    rw_step s (s\<lparr>rs_lock := rw_read f (rs_lock s), rs_hold := (rs_hold s)(f \<mapsto> Reading ow)\<rparr>)"
| read_poll: "rs_hold s f = Some (Reading ow) \<Longrightarrow> rw_read_poll f w ow (rs_lock s) = Some (r, l) \<Longrightarrow>
    rw_step s (s\<lparr>rs_lock := l, rs_hold := settled s f r Guard\<rparr>)"
| try_read: "rs_hold s f = None \<Longrightarrow> rw_try_read ow (rs_lock s) = (r, l) \<Longrightarrow>
    rw_step s (s\<lparr>rs_lock := l, rs_hold := (rs_hold s)(f := map_option Guard r)\<rparr>)"
| begin_write: "\<not> rs_upgradable s \<Longrightarrow> rs_hold s f = None \<Longrightarrow>
    rw_step s (s\<lparr>rs_lock := rw_write f (rs_lock s), rs_hold := (rs_hold s)(f \<mapsto> Writing ow)\<rparr>)"
| write_poll: "rs_hold s f = Some (Writing ow) \<Longrightarrow> rw_write_poll f w ow (rs_lock s) = Some (r, l) \<Longrightarrow>
    rw_step s (s\<lparr>rs_lock := l, rs_hold := settled s f r Guard\<rparr>)"
| try_write: "\<not> rs_upgradable s \<Longrightarrow> rs_hold s f = None \<Longrightarrow> rw_try_write ow (rs_lock s) = (r, l) \<Longrightarrow>
    rw_step s (s\<lparr>rs_lock := l, rs_hold := (rs_hold s)(f := map_option Guard r)\<rparr>)"
| cancel: "rs_hold s f \<in> {Some (Reading ow), Some (Writing ow)} \<Longrightarrow> ss_dist (rs_sem s) t = None \<Longrightarrow>
    rw_cancel t f (rs_lock s) = Some l \<Longrightarrow>
    rw_step s (s\<lparr>rs_lock := l, rs_hold := (rs_hold s)(f := None)\<rparr>)"
| drop_guard: "rs_hold s f = Some (Guard a) \<Longrightarrow> ss_dist (rs_sem s) t = None \<Longrightarrow>
    access_drop t racy a (rs_lock s) = Some l \<Longrightarrow>
    rw_step s (s\<lparr>rs_lock := l, rs_hold := (rs_hold s)(f := None)\<rparr>)"
| downgrade: "rs_hold s f = Some (Guard a) \<Longrightarrow> ss_dist (rs_sem s) t = None \<Longrightarrow>
    access_downgrade t racy a (rs_lock s) = Some (b, l) \<Longrightarrow>
    rw_step s (s\<lparr>rs_lock := l, rs_hold := (rs_hold s)(f \<mapsto> Guard b)\<rparr>)"
| map_guard: "rs_hold s f = Some (Guard a) \<Longrightarrow>
    rw_step s (s\<lparr>rs_hold := (rs_hold s)(f \<mapsto> Guard (into_semaphore a))\<rparr>)"
| write_value: "rs_hold s f = Some (Guard (WriteAccess ow p)) \<Longrightarrow>
    rw_step s (s\<lparr>rs_lock := rw_deref_mut (rs_lock s) (WriteAccess ow p) v\<rparr>)"
| round: "call_round t (rs_sem s) = Some S \<Longrightarrow> rw_step s (s\<lparr>rs_lock := (rs_lock s)\<lparr>rw_s := S\<rparr>\<rparr>)"
| round_reservation: "call_round t (rs_res s) = Some S \<Longrightarrow> rw_step s (s\<lparr>rs_res := S\<rparr>)"
| reserve_write: "rs_upgradable s \<Longrightarrow> rs_hold s f = None \<Longrightarrow>
    rw_step s (s\<lparr>rs_res := call_acquire f (sem_acquire 1) (rs_res s), rs_hold := (rs_hold s)(f \<mapsto> WriteReserving)\<rparr>)"
| reserve_write_poll: "rs_hold s f = Some WriteReserving \<Longrightarrow> call_poll f w (rs_res s) = Some (r, S) \<Longrightarrow>
    rw_step s (s\<lparr>rs_res := S, rs_lock := (if r = Pending then rs_lock s else rw_write f (rs_lock s)),
      rs_hold := settled s f r (\<lambda>_. WriteReserved)\<rparr>)"
| reserved_write_poll: "rs_hold s f = Some WriteReserved \<Longrightarrow>
    rw_write_poll f w LockRef (rs_lock s) = Some (r, l) \<Longrightarrow>
    rw_step s (s\<lparr>rs_lock := l, rs_hold := settled s f r WriteLocked\<rparr>)"
| try_reserve_write: "rs_upgradable s \<Longrightarrow> rs_hold s f = None \<Longrightarrow> call_try 1 (rs_res s) = (ok, S) \<Longrightarrow>
    rw_step s (s\<lparr>rs_res := S, rs_hold := (rs_hold s)(f := if ok then Some TryWriting else None)\<rparr>)"
| try_reserved_write: "rs_hold s f = Some TryWriting \<Longrightarrow> rw_try_write LockRef (rs_lock s) = (r, l) \<Longrightarrow>
    rw_step s (s\<lparr>rs_lock := l,
      rs_hold := (rs_hold s)(f \<mapsto> (case r of Some a \<Rightarrow> WriteLocked a | None \<Rightarrow> Unreserving))\<rparr>)"
| write_locked: "rs_hold s f = Some (WriteLocked a) \<Longrightarrow> ss_dist (rs_res s) t = None \<Longrightarrow>
    call_release t racy 1 (rs_res s) = Some S \<Longrightarrow>
    rw_step s (s\<lparr>rs_res := S, rs_hold := (rs_hold s)(f \<mapsto> Guard a)\<rparr>)"
| reserve_read: "rs_upgradable s \<Longrightarrow> rs_hold s f = None \<Longrightarrow>
    rw_step s (s\<lparr>rs_res := call_acquire f (sem_acquire 1) (rs_res s),
      rs_hold := (rs_hold s)(f \<mapsto> UpgradableReserving)\<rparr>)"
| reserve_read_poll: "rs_hold s f = Some UpgradableReserving \<Longrightarrow> call_poll f w (rs_res s) = Some (r, S) \<Longrightarrow>
    rw_step s (s\<lparr>rs_res := S, rs_lock := (if r = Pending then rs_lock s else rw_read f (rs_lock s)),
      rs_hold := settled s f r (\<lambda>_. UpgradableReserved)\<rparr>)"
| reserved_read_poll: "rs_hold s f = Some UpgradableReserved \<Longrightarrow>
    rw_read_poll f w LockRef (rs_lock s) = Some (r, l) \<Longrightarrow>
    rw_step s (s\<lparr>rs_lock := l, rs_hold := settled s f r UpgradableGuard\<rparr>)"
| try_reserve_read: "rs_upgradable s \<Longrightarrow> rs_hold s f = None \<Longrightarrow> call_try 1 (rs_res s) = (ok, S) \<Longrightarrow>
    rw_step s (s\<lparr>rs_res := S, rs_hold := (rs_hold s)(f := if ok then Some TryUpgradable else None)\<rparr>)"
| try_reserved_read: "rs_hold s f = Some TryUpgradable \<Longrightarrow> rw_try_read LockRef (rs_lock s) = (r, l) \<Longrightarrow>
    rw_step s (s\<lparr>rs_lock := l,
      rs_hold := (rs_hold s)(f \<mapsto> (case r of Some a \<Rightarrow> UpgradableGuard a | None \<Rightarrow> Unreserving))\<rparr>)"
| upgrade: "rs_hold s f = Some (UpgradableGuard a) \<Longrightarrow> rw_upgrade f (rs_lock s) = Some l \<Longrightarrow>
    rw_step s (s\<lparr>rs_lock := l, rs_hold := (rs_hold s)(f \<mapsto> Upgrading a)\<rparr>)"
| upgrade_poll: "rs_hold s f = Some (Upgrading a) \<Longrightarrow> rw_upgrade_poll f w a (rs_lock s) = Some (r, l) \<Longrightarrow>
    rw_step s (s\<lparr>rs_lock := l, rs_hold := settled s f r WriteLocked\<rparr>)"
| try_upgrade: "rs_hold s f = Some (UpgradableGuard a) \<Longrightarrow> rw_try_upgrade a (rs_lock s) = Some (r, l) \<Longrightarrow>
    rw_step s (s\<lparr>rs_lock := l,
      rs_hold := (rs_hold s)(f \<mapsto> (case r of Ok b \<Rightarrow> WriteLocked b | Err b \<Rightarrow> UpgradableGuard b))\<rparr>)"
| downgrade_upgradable: "rs_hold s f = Some (UpgradableGuard a) \<Longrightarrow> ss_dist (rs_res s) t = None \<Longrightarrow>
    call_release t racy 1 (rs_res s) = Some S \<Longrightarrow>
    rw_step s (s\<lparr>rs_res := S, rs_hold := (rs_hold s)(f \<mapsto> Guard a)\<rparr>)"
| drop_upgradable: "rs_hold s f \<in> {Some (UpgradableGuard a), Some (UpgradableDropping a)} \<Longrightarrow>
    ss_dist (rs_sem s) t = None \<Longrightarrow> access_drop t racy a (rs_lock s) = Some l \<Longrightarrow>
    rw_step s (s\<lparr>rs_lock := l, rs_hold := (rs_hold s)(f \<mapsto> Unreserving)\<rparr>)"
| unreserve: "rs_hold s f = Some Unreserving \<Longrightarrow> ss_dist (rs_res s) t = None \<Longrightarrow>
    call_release t racy 1 (rs_res s) = Some S \<Longrightarrow>
    rw_step s (s\<lparr>rs_res := S, rs_hold := (rs_hold s)(f := None)\<rparr>)"
| cancel_reserving: "rs_hold s f \<in> {Some WriteReserving, Some UpgradableReserving} \<Longrightarrow>
    ss_dist (rs_res s) t = None \<Longrightarrow> call_drop t f (rs_res s) = Some S \<Longrightarrow>
    rw_step s (s\<lparr>rs_res := S, rs_hold := (rs_hold s)(f := None)\<rparr>)"
| cancel_reserved: "rs_hold s f \<in> {Some WriteReserved, Some UpgradableReserved} \<Longrightarrow>
    ss_dist (rs_sem s) t = None \<Longrightarrow> rw_cancel t f (rs_lock s) = Some l \<Longrightarrow>
    rw_step s (s\<lparr>rs_lock := l, rs_hold := (rs_hold s)(f \<mapsto> Unreserving)\<rparr>)"
| cancel_upgrade: "rs_hold s f = Some (Upgrading a) \<Longrightarrow> ss_dist (rs_sem s) t = None \<Longrightarrow>
    rw_cancel t f (rs_lock s) = Some l \<Longrightarrow>
    rw_step s (s\<lparr>rs_lock := l, rs_hold := (rs_hold s)(f \<mapsto> UpgradableDropping a)\<rparr>)"

section \<open>Who holds which permits\<close>

fun lock_owns :: "rw_handle \<Rightarrow> nat" where
  "lock_owns (Guard a) = access_permits a"
| "lock_owns (WriteLocked a) = access_permits a"
| "lock_owns (UpgradableGuard a) = access_permits a"
| "lock_owns (Upgrading a) = access_permits a"
| "lock_owns (UpgradableDropping a) = access_permits a"
| "lock_owns _ = 0"

fun res_owns :: "rw_handle \<Rightarrow> nat" where
  "res_owns (Guard a) = 0"
| "res_owns (Reading ow) = 0"
| "res_owns (Writing ow) = 0"
| "res_owns WriteReserving = 0"
| "res_owns UpgradableReserving = 0"
| "res_owns _ = 1"

fun lock_wants :: "usize \<Rightarrow> rw_handle \<Rightarrow> nat option" where
  "lock_wants m (Reading ow) = Some 1"
| "lock_wants m (Writing ow) = Some m"
| "lock_wants m WriteReserved = Some m"
| "lock_wants m UpgradableReserved = Some 1"
| "lock_wants m (Upgrading a) = Some (m - 1)"
| "lock_wants m _ = None"

fun res_wants :: "rw_handle \<Rightarrow> nat option" where
  "res_wants WriteReserving = Some 1"
| "res_wants UpgradableReserving = Some 1"
| "res_wants _ = None"

text \<open>The shape of an access: a writer owns every permit, an upgradable reader owns one.\<close>

fun handle_ok :: "bool \<Rightarrow> usize \<Rightarrow> rw_handle \<Rightarrow> bool" where
  "handle_ok up m (Guard (ReadAccess ow)) = True"
| "handle_ok up m (Guard (WriteAccess ow p)) = (p = m)"
| "handle_ok up m (Reading ow) = True"
| "handle_ok up m (Writing ow) = (\<not> up)"
| "handle_ok up m (WriteLocked a) = (up \<and> (\<exists>ow. a = WriteAccess ow m))"
| "handle_ok up m (UpgradableGuard a) = (up \<and> (\<exists>ow. a = ReadAccess ow))"
| "handle_ok up m (Upgrading a) = (up \<and> (\<exists>ow. a = ReadAccess ow))"
| "handle_ok up m (UpgradableDropping a) = (up \<and> (\<exists>ow. a = ReadAccess ow))"
| "handle_ok up m _ = up"

definition rw_inv :: "'v rw_sys \<Rightarrow> bool" where
  "rw_inv s \<longleftrightarrow> 0 < rw_max_readers (rs_lock s) \<and> rw_max_readers (rs_lock s) \<le> usize_max \<and>
     books (lock_wants (rw_max_readers (rs_lock s))) lock_owns (rs_hold s) (rs_sem s) \<and>
     books res_wants res_owns (rs_hold s) (rs_res s) \<and>
     (\<forall>f h. rs_hold s f = Some h \<longrightarrow> handle_ok (rs_upgradable s) (rw_max_readers (rs_lock s)) h)"

lemma rw_invD:
  assumes "rw_inv s"
  shows "0 < rw_max_readers (rs_lock s)" "rw_max_readers (rs_lock s) \<le> usize_max"
    and "books (lock_wants (rw_max_readers (rs_lock s))) lock_owns (rs_hold s) (rs_sem s)"
    and "books res_wants res_owns (rs_hold s) (rs_res s)"
    and "rs_hold s f = Some h \<Longrightarrow> handle_ok (rs_upgradable s) (rw_max_readers (rs_lock s)) h"
  using assms by (auto simp: rw_inv_def)

lemma rw_invI:
  assumes "rw_inv s" and "rs_hold s' = (rs_hold s)(f := y)"
    and "rs_upgradable s' = rs_upgradable s" and "rw_max_readers (rs_lock s') = rw_max_readers (rs_lock s)"
    and "books (lock_wants (rw_max_readers (rs_lock s))) lock_owns ((rs_hold s)(f := y)) (rs_sem s')"
    and "books res_wants res_owns ((rs_hold s)(f := y)) (rs_res s')"
    and "\<And>h. y = Some h \<Longrightarrow> handle_ok (rs_upgradable s) (rw_max_readers (rs_lock s)) h"
  shows "rw_inv s'"
  using assms unfolding rw_inv_def by (auto split: if_splits)

text \<open>A step on the lock leaves the reservation's books alone, and the other way round.\<close>

lemma lock_step_inv:
  assumes inv: "rw_inv s"
    and lock: "books (lock_wants (rw_max_readers (rs_lock s))) lock_owns ((rs_hold s)(f := y)) S"
    and res: "Option.bind y res_wants = Option.bind (rs_hold s f) res_wants"
      "maybe res_owns y = maybe res_owns (rs_hold s f)"
    and ok: "\<And>h. y = Some h \<Longrightarrow> handle_ok (rs_upgradable s) (rw_max_readers (rs_lock s)) h"
    and s': "s' = s\<lparr>rs_lock := (rs_lock s)\<lparr>rw_s := S\<rparr>, rs_hold := (rs_hold s)(f := y)\<rparr>"
  shows "rw_inv s'"
proof (rule rw_invI [OF inv, of s' f y])
  show "books (lock_wants (rw_max_readers (rs_lock s))) lock_owns ((rs_hold s)(f := y)) (rs_sem s')"
    using lock by (simp add: s')
  have "books res_wants res_owns ((rs_hold s)(f := y)) (rs_res s)"
    by (rule books_same [OF rw_invD(4) [OF inv] res])
  then show "books res_wants res_owns ((rs_hold s)(f := y)) (rs_res s')" by (simp add: s')
qed (use ok in \<open>simp_all add: s'\<close>)

lemma res_step_inv:
  assumes inv: "rw_inv s"
    and res: "books res_wants res_owns ((rs_hold s)(f := y)) S"
    and lock: "Option.bind y (lock_wants (rw_max_readers (rs_lock s))) =
        Option.bind (rs_hold s f) (lock_wants (rw_max_readers (rs_lock s)))"
      "maybe lock_owns y = maybe lock_owns (rs_hold s f)"
    and ok: "\<And>h. y = Some h \<Longrightarrow> handle_ok (rs_upgradable s) (rw_max_readers (rs_lock s)) h"
    and s': "s' = s\<lparr>rs_res := S, rs_hold := (rs_hold s)(f := y)\<rparr>"
  shows "rw_inv s'"
proof (rule rw_invI [OF inv, of s' f y])
  show "books res_wants res_owns ((rs_hold s)(f := y)) (rs_res s')"
    using res by (simp add: s')
  have "books (lock_wants (rw_max_readers (rs_lock s))) lock_owns ((rs_hold s)(f := y)) (rs_sem s)"
    by (rule books_same [OF rw_invD(3) [OF inv] lock])
  then show "books (lock_wants (rw_max_readers (rs_lock s))) lock_owns ((rs_hold s)(f := y)) (rs_sem s')"
    by (simp add: s')
qed (use ok in \<open>simp_all add: s'\<close>)

lemma lock_poll_inv:
  assumes inv: "rw_inv s" and f: "rs_hold s f = Some h" and w: "lock_wants (rw_max_readers (rs_lock s)) h = Some n"
    and p: "call_poll f w (rs_sem s) = Some (r, S)"
    and h': "lock_wants (rw_max_readers (rs_lock s)) h' = None" "lock_owns h' = lock_owns h + n"
      "res_wants h' = res_wants h" "res_owns h' = res_owns h"
      "handle_ok (rs_upgradable s) (rw_max_readers (rs_lock s)) h'"
    and s': "s' = s\<lparr>rs_lock := (rs_lock s)\<lparr>rw_s := S\<rparr>,
      rs_hold := (if r = Pending then rs_hold s else (rs_hold s)(f \<mapsto> h'))\<rparr>"
  shows "rw_inv s'"
proof (cases r)
  case Pending
  with books_pending [OF rw_invD(3) [OF inv]] p inv show ?thesis by (simp add: s' rw_inv_def)
next
  case (Ready u)
  then have "books (lock_wants (rw_max_readers (rs_lock s))) lock_owns ((rs_hold s)(f \<mapsto> h')) S"
    using p by (intro books_ready [OF rw_invD(3) [OF inv], where n = n and w = w]) (simp_all add: f w h')
  then show ?thesis by (rule lock_step_inv [OF inv]) (simp_all add: s' Ready f h')
qed

lemma res_poll_inv:
  assumes inv: "rw_inv s" and f: "rs_hold s f = Some h" "res_wants h = Some 1" "lock_wants (rw_max_readers (rs_lock s)) h = None"
    and p: "call_poll f w (rs_res s) = Some (r, S)"
    and h': "res_wants h' = None" "res_owns h' = res_owns h + 1" "lock_owns h' = lock_owns h"
      "lock_wants (rw_max_readers (rs_lock s)) h' = Some n"
      "handle_ok (rs_upgradable s) (rw_max_readers (rs_lock s)) h'"
    and s': "s' = s\<lparr>rs_res := S,
      rs_lock := (if r = Pending then rs_lock s else (rs_lock s)\<lparr>rw_s := call_acquire f (sem_acquire n) (rs_sem s)\<rparr>),
      rs_hold := (if r = Pending then rs_hold s else (rs_hold s)(f \<mapsto> h'))\<rparr>"
  shows "rw_inv s'"
proof (cases r)
  case Pending
  with books_pending [OF rw_invD(4) [OF inv]] p inv show ?thesis by (simp add: s' rw_inv_def)
next
  case (Ready u)
  have "books res_wants res_owns ((rs_hold s)(f \<mapsto> h')) S"
    using p Ready by (intro books_ready [OF rw_invD(4) [OF inv], where n = 1 and w = w]) (simp_all add: f h')
  moreover have "books (lock_wants (rw_max_readers (rs_lock s))) lock_owns ((rs_hold s)(f \<mapsto> h'))
      (call_acquire f (sem_acquire n) (rs_sem s))"
    by (rule books_acquire [OF rw_invD(3) [OF inv]]) (simp_all add: f h')
  ultimately show ?thesis
    using h'(5) by (intro rw_invI [OF inv, of s' f "Some h'"]) (auto simp: s' Ready)
qed

lemma settled_unit:
  "settled s f (r :: unit poll) k = (if r = Pending then rs_hold s else (rs_hold s)(f \<mapsto> k ()))"
  "settled s f (map_poll g r) k' = (if r = Pending then rs_hold s else (rs_hold s)(f \<mapsto> k' (g ())))"
  by (cases r; simp add: settled_def)+

lemma try_read_cases:
  assumes "rw_try_read ow l = (r, l')"
  obtains ok S where "call_try 1 (rw_s l) = (ok, S)" "l' = l\<lparr>rw_s := S\<rparr>"
    "r = (if ok then Some (ReadAccess ow) else None)"
proof (cases "call_try 1 (rw_s l)")
  case (Pair ok S)
  with assms show thesis by (intro that [OF Pair]) (auto simp: rw_try_read_def split: bool.splits)
qed

lemma try_write_cases:
  assumes "rw_try_write ow l = (r, l')"
  obtains ok S where "call_try (rw_max_readers l) (rw_s l) = (ok, S)" "l' = l\<lparr>rw_s := S\<rparr>"
    "r = (if ok then Some (WriteAccess ow (rw_max_readers l)) else None)"
proof (cases "call_try (rw_max_readers l) (rw_s l)")
  case (Pair ok S)
  with assms show thesis by (intro that [OF Pair]) (auto simp: rw_try_write_def split: bool.splits)
qed

lemma try_upgrade_cases:
  assumes "rw_try_upgrade a l = Some (r, l')" and "0 < rw_max_readers l"
  obtains ok S where "call_try (rw_max_readers l - 1) (rw_s l) = (ok, S)" "l' = l\<lparr>rw_s := S\<rparr>"
    "r = (if ok then Ok (into_write a l) else Err a)"
proof (cases "call_try (rw_max_readers l - 1) (rw_s l)")
  case (Pair ok S)
  with assms show thesis
    by (intro that [OF Pair]) (auto simp: rw_try_upgrade_def checked_sub_def split: bool.splits)
qed

lemma access_drop_cases:
  assumes "access_drop t racy a l = Some l'"
  obtains S where "call_release t racy (access_permits a) (rw_s l) = Some S" "l' = l\<lparr>rw_s := S\<rparr>"
  using assms by (auto simp: access_drop_def panic_simps)

lemma access_downgrade_cases:
  assumes "access_downgrade t racy a l = Some (b, l')"
  obtains ow p S where "a = WriteAccess ow p" "b = ReadAccess ow" "1 \<le> p"
    "call_release t racy (p - 1) (rw_s l) = Some S" "l' = l\<lparr>rw_s := S\<rparr>"
  using assms by (cases a) (auto simp: access_drop_def checked_sub_def panic_simps split: if_splits)

lemma rw_poll_cases:
  assumes "rw_read_poll f w ow l = Some (r, l') \<and> b = ReadAccess ow \<or>
    rw_write_poll f w ow l = Some (r, l') \<and> b = WriteAccess ow (rw_max_readers l) \<or>
    rw_upgrade_poll f w a l = Some (r, l') \<and> b = into_write a l"
  obtains r0 S where "call_poll f w (rw_s l) = Some (r0, S)" "l' = l\<lparr>rw_s := S\<rparr>" "r = map_poll (\<lambda>_. b) r0"
  using assms by (auto simp: rw_read_poll_def rw_write_poll_def rw_upgrade_poll_def panic_simps)

lemma rw_cancel_cases:
  assumes "rw_cancel t f l = Some l'"
  obtains S where "call_drop t f (rw_s l) = Some S" "l' = l\<lparr>rw_s := S\<rparr>"
  using assms by (auto simp: rw_cancel_def panic_simps)

text \<open>The steps on the lock itself.\<close>

lemma lock_acquire_inv:
  assumes "rw_inv s" and "lock_wants (rw_max_readers (rs_lock s)) h = Some n"
    and "lock_owns h = maybe lock_owns (rs_hold s f)"
    and "res_wants h = Option.bind (rs_hold s f) res_wants" and "res_owns h = maybe res_owns (rs_hold s f)"
    and "handle_ok (rs_upgradable s) (rw_max_readers (rs_lock s)) h"
  shows "rw_inv (s\<lparr>rs_lock := (rs_lock s)\<lparr>rw_s := call_acquire f (sem_acquire n) (rs_sem s)\<rparr>,
    rs_hold := (rs_hold s)(f \<mapsto> h)\<rparr>)"
  by (rule lock_step_inv [OF assms(1) books_acquire [OF rw_invD(3) [OF assms(1)]]]) (use assms in auto)

lemma lock_try_inv:
  assumes "rw_inv s" and "call_try n (rs_sem s) = (ok, S)"
    and "Option.bind y (lock_wants (rw_max_readers (rs_lock s))) =
      Option.bind (rs_hold s f) (lock_wants (rw_max_readers (rs_lock s)))"
    and "maybe lock_owns y = maybe lock_owns (rs_hold s f) + (if ok then n else 0)"
    and "Option.bind y res_wants = Option.bind (rs_hold s f) res_wants"
    and "maybe res_owns y = maybe res_owns (rs_hold s f)"
    and "\<And>h. y = Some h \<Longrightarrow> handle_ok (rs_upgradable s) (rw_max_readers (rs_lock s)) h"
  shows "rw_inv (s\<lparr>rs_lock := (rs_lock s)\<lparr>rw_s := S\<rparr>, rs_hold := (rs_hold s)(f := y)\<rparr>)"
  by (rule lock_step_inv [OF assms(1) books_try [OF rw_invD(3) [OF assms(1)] assms(2)]]) (use assms in auto)

lemma lock_release_inv:
  assumes "rw_inv s" and "call_release t racy n (rs_sem s) = Some S"
    and "Option.bind y (lock_wants (rw_max_readers (rs_lock s))) =
      Option.bind (rs_hold s f) (lock_wants (rw_max_readers (rs_lock s)))"
    and "maybe lock_owns y + n = maybe lock_owns (rs_hold s f)"
    and "Option.bind y res_wants = Option.bind (rs_hold s f) res_wants"
    and "maybe res_owns y = maybe res_owns (rs_hold s f)"
    and "\<And>h. y = Some h \<Longrightarrow> handle_ok (rs_upgradable s) (rw_max_readers (rs_lock s)) h"
  shows "rw_inv (s\<lparr>rs_lock := (rs_lock s)\<lparr>rw_s := S\<rparr>, rs_hold := (rs_hold s)(f := y)\<rparr>)"
  by (rule lock_step_inv [OF assms(1) books_release [OF rw_invD(3) [OF assms(1)] assms(2)]]) (use assms in auto)

lemma lock_drop_inv:
  assumes "rw_inv s" and "call_drop t f (rs_sem s) = Some S"
    and "Option.bind y (lock_wants (rw_max_readers (rs_lock s))) = None"
    and "maybe lock_owns y = maybe lock_owns (rs_hold s f)"
    and "Option.bind y res_wants = Option.bind (rs_hold s f) res_wants"
    and "maybe res_owns y = maybe res_owns (rs_hold s f)"
    and "\<And>h. y = Some h \<Longrightarrow> handle_ok (rs_upgradable s) (rw_max_readers (rs_lock s)) h"
  shows "rw_inv (s\<lparr>rs_lock := (rs_lock s)\<lparr>rw_s := S\<rparr>, rs_hold := (rs_hold s)(f := y)\<rparr>)"
  by (rule lock_step_inv [OF assms(1) books_drop [OF rw_invD(3) [OF assms(1)] assms(2)]]) (use assms in auto)

text \<open>The steps on the reservation.\<close>

lemma res_acquire_inv:
  assumes "rw_inv s" and "res_wants h = Some 1" and "res_owns h = maybe res_owns (rs_hold s f)"
    and "lock_wants (rw_max_readers (rs_lock s)) h = Option.bind (rs_hold s f) (lock_wants (rw_max_readers (rs_lock s)))"
    and "lock_owns h = maybe lock_owns (rs_hold s f)"
    and "handle_ok (rs_upgradable s) (rw_max_readers (rs_lock s)) h"
  shows "rw_inv (s\<lparr>rs_res := call_acquire f (sem_acquire 1) (rs_res s), rs_hold := (rs_hold s)(f \<mapsto> h)\<rparr>)"
  by (rule res_step_inv [OF assms(1) books_acquire [OF rw_invD(4) [OF assms(1)]]]) (use assms in auto)

lemma res_try_inv:
  assumes "rw_inv s" and "call_try 1 (rs_res s) = (ok, S)"
    and "Option.bind y res_wants = Option.bind (rs_hold s f) res_wants"
    and "maybe res_owns y = maybe res_owns (rs_hold s f) + (if ok then 1 else 0)"
    and "Option.bind y (lock_wants (rw_max_readers (rs_lock s))) =
      Option.bind (rs_hold s f) (lock_wants (rw_max_readers (rs_lock s)))"
    and "maybe lock_owns y = maybe lock_owns (rs_hold s f)"
    and "\<And>h. y = Some h \<Longrightarrow> handle_ok (rs_upgradable s) (rw_max_readers (rs_lock s)) h"
  shows "rw_inv (s\<lparr>rs_res := S, rs_hold := (rs_hold s)(f := y)\<rparr>)"
  by (rule res_step_inv [OF assms(1) books_try [OF rw_invD(4) [OF assms(1)] assms(2)]]) (use assms in auto)

lemma res_release_inv:
  assumes "rw_inv s" and "call_release t racy 1 (rs_res s) = Some S"
    and "Option.bind y res_wants = Option.bind (rs_hold s f) res_wants"
    and "maybe res_owns y + 1 = maybe res_owns (rs_hold s f)"
    and "Option.bind y (lock_wants (rw_max_readers (rs_lock s))) =
      Option.bind (rs_hold s f) (lock_wants (rw_max_readers (rs_lock s)))"
    and "maybe lock_owns y = maybe lock_owns (rs_hold s f)"
    and "\<And>h. y = Some h \<Longrightarrow> handle_ok (rs_upgradable s) (rw_max_readers (rs_lock s)) h"
  shows "rw_inv (s\<lparr>rs_res := S, rs_hold := (rs_hold s)(f := y)\<rparr>)"
  by (rule res_step_inv [OF assms(1) books_release [OF rw_invD(4) [OF assms(1)] assms(2)]]) (use assms in auto)

lemma res_drop_inv:
  assumes "rw_inv s" and "call_drop t f (rs_res s) = Some S"
    and "maybe res_owns (rs_hold s f) = 0" and "maybe lock_owns (rs_hold s f) = 0"
    and "Option.bind (rs_hold s f) (lock_wants (rw_max_readers (rs_lock s))) = None"
  shows "rw_inv (s\<lparr>rs_res := S, rs_hold := (rs_hold s)(f := None)\<rparr>)"
  by (rule res_step_inv [OF assms(1) books_drop [OF rw_invD(4) [OF assms(1)] assms(2)]]) (use assms in auto)

lemma rw_inv_handle: "rw_inv s \<Longrightarrow> rs_hold s f = Some h \<Longrightarrow> handle_ok (rs_upgradable s) (rw_max_readers (rs_lock s)) h"
  by (rule rw_invD(5))

lemma rw_step_inv: "rw_step s s' \<Longrightarrow> rw_inv s \<Longrightarrow> rw_inv s'"
proof (induction rule: rw_step.induct)
  case (begin_read s f ow)
  then show ?case unfolding rw_read_def by (intro lock_acquire_inv) simp_all
next
  case (read_poll s f ow w r l)
  then obtain r0 S where "call_poll f w (rs_sem s) = Some (r0, S)" "l = (rs_lock s)\<lparr>rw_s := S\<rparr>"
    "r = map_poll (\<lambda>_. ReadAccess ow) r0"
    using rw_poll_cases by blast
  then show ?case
    by (intro lock_poll_inv [OF read_poll(3,1), where h' = "Guard (ReadAccess ow)"]) (simp_all add: settled_unit)
next
  case (try_read s f ow r l)
  obtain ok S where "call_try 1 (rs_sem s) = (ok, S)" "l = (rs_lock s)\<lparr>rw_s := S\<rparr>"
    "r = (if ok then Some (ReadAccess ow) else None)"
    by (rule try_read_cases [OF try_read(2)])
  with try_read(1,3) show ?case by (auto intro!: lock_try_inv)
next
  case (begin_write s f ow)
  then show ?case unfolding rw_write_def by (intro lock_acquire_inv) simp_all
next
  case (write_poll s f ow w r l)
  then obtain r0 S where "call_poll f w (rs_sem s) = Some (r0, S)" "l = (rs_lock s)\<lparr>rw_s := S\<rparr>"
    "r = map_poll (\<lambda>_. WriteAccess ow (rw_max_readers (rs_lock s))) r0"
    using rw_poll_cases by blast
  then show ?case
    by (intro lock_poll_inv [OF write_poll(3,1), where h' = "Guard (WriteAccess ow (rw_max_readers (rs_lock s)))"])
      (simp_all add: settled_unit)
next
  case (try_write s f ow r l)
  obtain ok S where "call_try (rw_max_readers (rs_lock s)) (rs_sem s) = (ok, S)" "l = (rs_lock s)\<lparr>rw_s := S\<rparr>"
    "r = (if ok then Some (WriteAccess ow (rw_max_readers (rs_lock s))) else None)"
    by (rule try_write_cases [OF try_write(3)])
  with try_write(2,4) show ?case by (auto intro!: lock_try_inv)
next
  case (cancel s f ow t l)
  obtain S where "call_drop t f (rs_sem s) = Some S" "l = (rs_lock s)\<lparr>rw_s := S\<rparr>"
    by (rule rw_cancel_cases [OF cancel(3)])
  with cancel(1,4) show ?case by (auto intro!: lock_drop_inv)
next
  case (drop_guard s f a t racy l)
  obtain S where "call_release t racy (access_permits a) (rs_sem s) = Some S" "l = (rs_lock s)\<lparr>rw_s := S\<rparr>"
    by (rule access_drop_cases [OF drop_guard(3)])
  with drop_guard(1,4) show ?case by (auto intro!: lock_release_inv)
next
  case (downgrade s f a t racy b l)
  obtain ow p S where "a = WriteAccess ow p" "b = ReadAccess ow" "1 \<le> p"
    "call_release t racy (p - 1) (rs_sem s) = Some S" "l = (rs_lock s)\<lparr>rw_s := S\<rparr>"
    by (rule access_downgrade_cases [OF downgrade(3)])
  with downgrade(1,4) show ?case by (auto intro!: lock_release_inv)
next
  case (map_guard s f a)
  have "lock_owns (Guard (into_semaphore a)) = lock_owns (Guard a)" by (cases a) simp_all
  moreover have "handle_ok (rs_upgradable s) (rw_max_readers (rs_lock s)) (Guard (into_semaphore a))"
    using rw_inv_handle [OF map_guard(2,1)] by (cases a) simp_all
  ultimately show ?case
    using map_guard books_same [OF rw_invD(3) [OF map_guard(2)], of "Some (Guard (into_semaphore a))" f]
      books_same [OF rw_invD(4) [OF map_guard(2)], of "Some (Guard (into_semaphore a))" f]
    by (intro rw_invI [OF map_guard(2), of _ f "Some (Guard (into_semaphore a))"]) auto
next
  case (write_value s f ow p v)
  then show ?case by (simp add: rw_inv_def rw_deref_mut_def)
next
  case (round t s S)
  then show ?case using books_round [OF rw_invD(3) [OF round(2)]] by (simp add: rw_inv_def)
next
  case (round_reservation t s S)
  then show ?case using books_round [OF rw_invD(4) [OF round_reservation(2)]] by (simp add: rw_inv_def)
next
  case (reserve_write s f)
  then show ?case by (intro res_acquire_inv) simp_all
next
  case (reserve_write_poll s f w r S)
  with rw_inv_handle [OF reserve_write_poll(3,1)] show ?case
    by (intro res_poll_inv [OF reserve_write_poll(3,1) _ _ reserve_write_poll(2),
          where h' = WriteReserved and n = "rw_max_readers (rs_lock s)"])
      (simp_all add: settled_unit rw_write_def)
next
  case (reserved_write_poll s f w r l)
  then obtain r0 S where "call_poll f w (rs_sem s) = Some (r0, S)" "l = (rs_lock s)\<lparr>rw_s := S\<rparr>"
    "r = map_poll (\<lambda>_. WriteAccess LockRef (rw_max_readers (rs_lock s))) r0"
    using rw_poll_cases by blast
  with rw_inv_handle [OF reserved_write_poll(3,1)] show ?case
    by (intro lock_poll_inv [OF reserved_write_poll(3,1), where h' = "WriteLocked (WriteAccess LockRef (rw_max_readers (rs_lock s)))"])
      (simp_all add: settled_unit)
next
  case (try_reserve_write s f ok S)
  then show ?case by (auto intro!: res_try_inv)
next
  case (try_reserved_write s f r l)
  obtain ok S where "call_try (rw_max_readers (rs_lock s)) (rs_sem s) = (ok, S)" "l = (rs_lock s)\<lparr>rw_s := S\<rparr>"
    "r = (if ok then Some (WriteAccess LockRef (rw_max_readers (rs_lock s))) else None)"
    by (rule try_write_cases [OF try_reserved_write(2)])
  with try_reserved_write(1,3) rw_inv_handle [OF try_reserved_write(3,1)] show ?case
    by (auto intro!: lock_try_inv)
next
  case (write_locked s f a t racy S)
  with rw_inv_handle [OF write_locked(4,1)] show ?case by (auto intro!: res_release_inv)
next
  case (reserve_read s f)
  then show ?case by (intro res_acquire_inv) simp_all
next
  case (reserve_read_poll s f w r S)
  with rw_inv_handle [OF reserve_read_poll(3,1)] show ?case
    by (intro res_poll_inv [OF reserve_read_poll(3,1) _ _ reserve_read_poll(2), where h' = UpgradableReserved and n = 1])
      (simp_all add: settled_unit rw_read_def)
next
  case (reserved_read_poll s f w r l)
  then obtain r0 S where "call_poll f w (rs_sem s) = Some (r0, S)" "l = (rs_lock s)\<lparr>rw_s := S\<rparr>"
    "r = map_poll (\<lambda>_. ReadAccess LockRef) r0"
    using rw_poll_cases by blast
  with rw_inv_handle [OF reserved_read_poll(3,1)] show ?case
    by (intro lock_poll_inv [OF reserved_read_poll(3,1), where h' = "UpgradableGuard (ReadAccess LockRef)"])
      (simp_all add: settled_unit)
next
  case (try_reserve_read s f ok S)
  then show ?case by (auto intro!: res_try_inv)
next
  case (try_reserved_read s f r l)
  obtain ok S where "call_try 1 (rs_sem s) = (ok, S)" "l = (rs_lock s)\<lparr>rw_s := S\<rparr>"
    "r = (if ok then Some (ReadAccess LockRef) else None)"
    by (rule try_read_cases [OF try_reserved_read(2)])
  with try_reserved_read(1,3) rw_inv_handle [OF try_reserved_read(3,1)] show ?case
    by (auto intro!: lock_try_inv)
next
  case (upgrade s f a l)
  then have "l = (rs_lock s)\<lparr>rw_s := call_acquire f (sem_acquire (rw_max_readers (rs_lock s) - 1)) (rs_sem s)\<rparr>"
    using rw_invD(1) [OF upgrade(3)] by (simp add: rw_upgrade_def checked_sub_def)
  with upgrade(1,3) rw_inv_handle [OF upgrade(3,1)] show ?case by (auto intro!: lock_acquire_inv)
next
  case (upgrade_poll s f a w r l)
  then obtain r0 S where "call_poll f w (rs_sem s) = Some (r0, S)" "l = (rs_lock s)\<lparr>rw_s := S\<rparr>"
    "r = map_poll (\<lambda>_. into_write a (rs_lock s)) r0"
    using rw_poll_cases by blast
  with rw_inv_handle [OF upgrade_poll(3,1)] rw_invD(1) [OF upgrade_poll(3)] show ?case
    by (intro lock_poll_inv [OF upgrade_poll(3,1), where h' = "WriteLocked (into_write a (rs_lock s))"])
      (auto simp: settled_unit into_write_def)
next
  case (try_upgrade s f a r l)
  note m = rw_invD(1) [OF try_upgrade(3)]
  obtain ok S where "call_try (rw_max_readers (rs_lock s) - 1) (rs_sem s) = (ok, S)" "l = (rs_lock s)\<lparr>rw_s := S\<rparr>"
    "r = (if ok then Ok (into_write a (rs_lock s)) else Err a)"
    by (rule try_upgrade_cases [OF try_upgrade(2) m])
  with try_upgrade(1,3) rw_inv_handle [OF try_upgrade(3,1)] m show ?case
    by (auto simp: into_write_def intro!: lock_try_inv)
next
  case (downgrade_upgradable s f a t racy S)
  with rw_inv_handle [OF downgrade_upgradable(4,1)] show ?case by (auto intro!: res_release_inv)
next
  case (drop_upgradable s f a t racy l)
  obtain S where "call_release t racy (access_permits a) (rs_sem s) = Some S" "l = (rs_lock s)\<lparr>rw_s := S\<rparr>"
    by (rule access_drop_cases [OF drop_upgradable(3)])
  moreover have "rs_upgradable s"
    using drop_upgradable(1) rw_inv_handle [OF drop_upgradable(4), of f] by auto
  ultimately show ?case using drop_upgradable(1,4) by (auto intro!: lock_release_inv)
next
  case (unreserve s f t racy S)
  then show ?case by (auto intro!: res_release_inv)
next
  case (cancel_reserving s f t S)
  then show ?case by (auto intro!: res_drop_inv)
next
  case (cancel_reserved s f t l)
  obtain S where "call_drop t f (rs_sem s) = Some S" "l = (rs_lock s)\<lparr>rw_s := S\<rparr>"
    by (rule rw_cancel_cases [OF cancel_reserved(3)])
  moreover have "rs_upgradable s"
    using cancel_reserved(1) rw_inv_handle [OF cancel_reserved(4), of f] by auto
  ultimately show ?case using cancel_reserved(1,4) by (auto intro!: lock_drop_inv)
next
  case (cancel_upgrade s f a t l)
  obtain S where "call_drop t f (rs_sem s) = Some S" "l = (rs_lock s)\<lparr>rw_s := S\<rparr>"
    by (rule rw_cancel_cases [OF cancel_upgrade(3)])
  with cancel_upgrade(1,4) rw_inv_handle [OF cancel_upgrade(4,1)] show ?case by (auto intro!: lock_drop_inv)
qed

text \<open>Every step makes plain calls on the two semaphores.\<close>

lemma access_bound:
  "rw_inv s \<Longrightarrow> rs_hold s f = Some h \<Longrightarrow> lock_owns h \<le> usize_max"
  using rw_invD(1,2) [of s] rw_inv_handle [of s f h]
  by (cases "(rs_upgradable s, rw_max_readers (rs_lock s), h)" rule: handle_ok.cases) (auto simp: usize_max_def)

lemma lock_fresh: "rw_inv s \<Longrightarrow> Option.bind (rs_hold s f) (lock_wants (rw_max_readers (rs_lock s))) = None \<Longrightarrow>
  ss_futs (rs_sem s) f = None"
  using books_fut(1) [OF rw_invD(3)] by blast

lemma res_fresh: "rw_inv s \<Longrightarrow> Option.bind (rs_hold s f) res_wants = None \<Longrightarrow> ss_futs (rs_res s) f = None"
  using books_fut(1) [OF rw_invD(4)] by blast

lemma rw_step_sem: "rw_step s s' \<Longrightarrow> rw_inv s \<Longrightarrow> sem_inv (rs_sem s) \<Longrightarrow> plain_step\<^sup>*\<^sup>* (rs_sem s) (rs_sem s')"
proof (induction rule: rw_step.induct)
  case (begin_read s f ow)
  with lock_fresh [of s f] show ?case by (simp add: rw_read_def call_acquire_step usize_max_def)
next
  case (read_poll s f ow w r l)
  then obtain r0 S where "call_poll f w (rs_sem s) = Some (r0, S)" "l = (rs_lock s)\<lparr>rw_s := S\<rparr>"
    using rw_poll_cases by blast
  with call_poll_step read_poll(4) show ?case by simp
next
  case (try_read s f ow r l)
  obtain ok S where "call_try 1 (rs_sem s) = (ok, S)" "l = (rs_lock s)\<lparr>rw_s := S\<rparr>"
    by (rule try_read_cases [OF try_read(2)])
  with call_try_step show ?case by simp
next
  case (begin_write s f ow)
  with lock_fresh [of s f] rw_invD(2) [of s] show ?case by (simp add: rw_write_def call_acquire_step)
next
  case (write_poll s f ow w r l)
  then obtain r0 S where "call_poll f w (rs_sem s) = Some (r0, S)" "l = (rs_lock s)\<lparr>rw_s := S\<rparr>"
    using rw_poll_cases by blast
  with call_poll_step write_poll(4) show ?case by simp
next
  case (try_write s f ow r l)
  obtain ok S where "call_try (rw_max_readers (rs_lock s)) (rs_sem s) = (ok, S)" "l = (rs_lock s)\<lparr>rw_s := S\<rparr>"
    by (rule try_write_cases [OF try_write(3)])
  with call_try_step show ?case by simp
next
  case (cancel s f ow t l)
  obtain S where "call_drop t f (rs_sem s) = Some S" "l = (rs_lock s)\<lparr>rw_s := S\<rparr>"
    by (rule rw_cancel_cases [OF cancel(3)])
  with call_drop_step [OF _ cancel(2)] show ?case by simp
next
  case (drop_guard s f a t racy l)
  obtain S where "call_release t racy (access_permits a) (rs_sem s) = Some S" "l = (rs_lock s)\<lparr>rw_s := S\<rparr>"
    by (rule access_drop_cases [OF drop_guard(3)])
  with call_release_step [OF _ drop_guard(2)] access_bound [OF drop_guard(4,1)] show ?case by simp
next
  case (downgrade s f a t racy b l)
  obtain ow p S where h: "a = WriteAccess ow p" "call_release t racy (p - 1) (rs_sem s) = Some S"
    "l = (rs_lock s)\<lparr>rw_s := S\<rparr>"
    by (rule access_downgrade_cases [OF downgrade(3)])
  with access_bound [OF downgrade(4,1)] have "p - 1 \<le> usize_max" by simp
  with h call_release_step [OF h(2) downgrade(2)] show ?case by simp
next
  case (round t s S)
  then show ?case using call_round_step by simp
next
  case (reserve_write_poll s f w r S)
  with lock_fresh [of s f] rw_invD(2) [of s] show ?case by (simp add: rw_write_def call_acquire_step)
next
  case (reserved_write_poll s f w r l)
  then obtain r0 S where "call_poll f w (rs_sem s) = Some (r0, S)" "l = (rs_lock s)\<lparr>rw_s := S\<rparr>"
    using rw_poll_cases by blast
  with call_poll_step reserved_write_poll(4) show ?case by simp
next
  case (try_reserved_write s f r l)
  obtain ok S where "call_try (rw_max_readers (rs_lock s)) (rs_sem s) = (ok, S)" "l = (rs_lock s)\<lparr>rw_s := S\<rparr>"
    by (rule try_write_cases [OF try_reserved_write(2)])
  with call_try_step show ?case by simp
next
  case (reserve_read_poll s f w r S)
  with lock_fresh [of s f] show ?case by (simp add: rw_read_def call_acquire_step usize_max_def)
next
  case (reserved_read_poll s f w r l)
  then obtain r0 S where "call_poll f w (rs_sem s) = Some (r0, S)" "l = (rs_lock s)\<lparr>rw_s := S\<rparr>"
    using rw_poll_cases by blast
  with call_poll_step reserved_read_poll(4) show ?case by simp
next
  case (try_reserved_read s f r l)
  obtain ok S where "call_try 1 (rs_sem s) = (ok, S)" "l = (rs_lock s)\<lparr>rw_s := S\<rparr>"
    by (rule try_read_cases [OF try_reserved_read(2)])
  with call_try_step show ?case by simp
next
  case (upgrade s f a l)
  then have "l = (rs_lock s)\<lparr>rw_s := call_acquire f (sem_acquire (rw_max_readers (rs_lock s) - 1)) (rs_sem s)\<rparr>"
    using rw_invD(1) [OF upgrade(3)] by (simp add: rw_upgrade_def checked_sub_def)
  with upgrade lock_fresh [of s f] rw_invD(2) [of s] show ?case by (simp add: call_acquire_step)
next
  case (upgrade_poll s f a w r l)
  then obtain r0 S where "call_poll f w (rs_sem s) = Some (r0, S)" "l = (rs_lock s)\<lparr>rw_s := S\<rparr>"
    using rw_poll_cases by blast
  with call_poll_step upgrade_poll(4) show ?case by simp
next
  case (try_upgrade s f a r l)
  obtain ok S where "call_try (rw_max_readers (rs_lock s) - 1) (rs_sem s) = (ok, S)" "l = (rs_lock s)\<lparr>rw_s := S\<rparr>"
    by (rule try_upgrade_cases [OF try_upgrade(2) rw_invD(1) [OF try_upgrade(3)]])
  with call_try_step show ?case by simp
next
  case (drop_upgradable s f a t racy l)
  obtain S where "call_release t racy (access_permits a) (rs_sem s) = Some S" "l = (rs_lock s)\<lparr>rw_s := S\<rparr>"
    by (rule access_drop_cases [OF drop_upgradable(3)])
  moreover have "access_permits a \<le> usize_max"
    using drop_upgradable(1) access_bound [OF drop_upgradable(4), of f] by auto
  ultimately show ?case using call_release_step [OF _ drop_upgradable(2)] by simp
next
  case (cancel_reserved s f t l)
  obtain S where "call_drop t f (rs_sem s) = Some S" "l = (rs_lock s)\<lparr>rw_s := S\<rparr>"
    by (rule rw_cancel_cases [OF cancel_reserved(3)])
  with call_drop_step [OF _ cancel_reserved(2)] show ?case by simp
next
  case (cancel_upgrade s f a t l)
  obtain S where "call_drop t f (rs_sem s) = Some S" "l = (rs_lock s)\<lparr>rw_s := S\<rparr>"
    by (rule rw_cancel_cases [OF cancel_upgrade(3)])
  with call_drop_step [OF _ cancel_upgrade(2)] show ?case by simp
qed (simp_all add: rw_deref_mut_def)

lemma rw_step_res: "rw_step s s' \<Longrightarrow> rw_inv s \<Longrightarrow> sem_inv (rs_res s) \<Longrightarrow> plain_step\<^sup>*\<^sup>* (rs_res s) (rs_res s')"
proof (induction rule: rw_step.induct)
  case (round_reservation t s S)
  then show ?case using call_round_step by simp
next
  case (reserve_write s f)
  with res_fresh [of s f] show ?case by (simp add: call_acquire_step usize_max_def)
next
  case (reserve_write_poll s f w r S)
  then show ?case using call_poll_step by simp
next
  case (try_reserve_write s f ok S)
  then show ?case using call_try_step by simp
next
  case (write_locked s f a t racy S)
  then show ?case using call_release_step [OF write_locked(3,2)] by (simp add: usize_max_def)
next
  case (reserve_read s f)
  with res_fresh [of s f] show ?case by (simp add: call_acquire_step usize_max_def)
next
  case (reserve_read_poll s f w r S)
  then show ?case using call_poll_step by simp
next
  case (try_reserve_read s f ok S)
  then show ?case using call_try_step by simp
next
  case (downgrade_upgradable s f a t racy S)
  then show ?case using call_release_step [OF downgrade_upgradable(3,2)] by (simp add: usize_max_def)
next
  case (unreserve s f t racy S)
  then show ?case using call_release_step [OF unreserve(3,2)] by (simp add: usize_max_def)
next
  case (cancel_reserving s f t S)
  then show ?case using call_drop_step by simp
qed simp_all

lemma rw_step_max: "rw_step s s' \<Longrightarrow> rw_max_readers (rs_lock s') = rw_max_readers (rs_lock s)"
  by (induction rule: rw_step.induct)
    (auto simp: rwlock_ops panic_simps split: prod.splits bool.splits
      elim!: access_drop_cases access_downgrade_cases rw_cancel_cases)

lemma rw_init_inv: "rw_inv (rw_init up v n) \<and> rw_max_readers (rs_lock (rw_init up v n)) = nz_get n"
  using nz_get [of n] by (simp add: rw_inv_def rw_init_def with_max_readers_def books_init Let_def)

interpretation lk: permit_client "rw_init up v n" rw_step "\<lambda>s. rs_sem s" "\<lambda>s. msum lock_owns (rs_hold s)" "nz_get n"
  "\<lambda>s. rw_inv s \<and> rw_max_readers (rs_lock s) = nz_get n" for up v n
proof unfold_locales
  show "rs_sem (rw_init up v n) = sem_init (nz_get n)" by (simp add: rw_init_def with_max_readers_def Let_def)
  show "plain_step\<^sup>*\<^sup>* (rs_sem s) (rs_sem s')"
    if "rw_step s s'" "rw_inv s \<and> rw_max_readers (rs_lock s) = nz_get n" "sem_ok (nz_get n) (rs_sem s)" for s s'
    using that rw_step_sem by (auto simp: sem_ok_def)
  show "ss_acquired (rs_sem s) = msum lock_owns (rs_hold s) + ss_released (rs_sem s)"
    if "rw_inv s \<and> rw_max_readers (rs_lock s) = nz_get n" for s :: "'a rw_sys"
    using that rw_invD(3) [of s] by (simp add: books_def)
  show "rw_inv s' \<and> rw_max_readers (rs_lock s') = nz_get n"
    if "rw_step s s'" "rw_inv s \<and> rw_max_readers (rs_lock s) = nz_get n" for s s' :: "'a rw_sys"
    using that by (simp add: rw_step_inv [OF that(1)] rw_step_max [OF that(1)])
qed (rule rw_init_inv)

interpretation rsv: permit_client "rw_init up v n" rw_step rs_res "\<lambda>s. msum res_owns (rs_hold s)" 1 rw_inv for up v n
proof unfold_locales
  show "rs_res (rw_init up v n) = sem_init 1" by (simp add: rw_init_def)
  show "plain_step\<^sup>*\<^sup>* (rs_res s) (rs_res s')" if "rw_step s s'" "rw_inv s" "sem_ok 1 (rs_res s)" for s s'
    using that rw_step_res by (auto simp: sem_ok_def)
  show "ss_acquired (rs_res s) = msum res_owns (rs_hold s) + ss_released (rs_res s)" if "rw_inv s" for s :: "'a rw_sys"
    using that rw_invD(4) [of s] by (simp add: books_def)
  show "rw_inv (rw_init up v n)" by (simp add: rw_init_inv)
qed (rule rw_step_inv)

section \<open>Exclusion\<close>

fun access_in :: "rw_handle \<Rightarrow> access option" where
  "access_in (Guard a) = Some a"
| "access_in (WriteLocked a) = Some a"
| "access_in (UpgradableGuard a) = Some a"
| "access_in (Upgrading a) = Some a"
| "access_in (UpgradableDropping a) = Some a"
| "access_in _ = None"

definition access_of :: "'v rw_sys \<Rightarrow> nat \<Rightarrow> access option" where
  "access_of s f = Option.bind (rs_hold s f) access_in"

lemma access_of_owns:
  assumes "rw_inv s" and "access_of s f = Some a"
  obtains h where "rs_hold s f = Some h" and "1 \<le> lock_owns h" and "lock_owns h = access_permits a"
    and "\<And>ow p. a = WriteAccess ow p \<Longrightarrow> p = rw_max_readers (rs_lock s)"
proof -
  obtain h where h: "rs_hold s f = Some h" "access_in h = Some a"
    using assms(2) by (cases "rs_hold s f") (auto simp: access_of_def)
  have o: "lock_owns h = access_permits a" using h(2) by (cases h) auto
  have w: "p = rw_max_readers (rs_lock s)" if "a = WriteAccess ow p" for ow p
    using rw_inv_handle [OF assms(1) h(1)] h(2) that by (cases h) auto
  then have "1 \<le> lock_owns h" using o rw_invD(1) [OF assms(1)] by (cases a) auto
  with h(1) o w show thesis by (intro that) auto
qed

lemma msum_two:
  assumes "finite (dom H)" and "H f = Some x" and "H g = Some y" and "f \<noteq> g"
  shows "k x + k y \<le> msum k H"
  using msum_delete [OF assms(1,2), of k] msum_ge [of "H(f := None)" g y k] assms by simp

lemma write_value_by_writer: "rw_step s s' \<Longrightarrow> rw_c (rs_lock s') \<noteq> rw_c (rs_lock s) \<Longrightarrow>
  \<exists>f ow p. rs_hold s f = Some (Guard (WriteAccess ow p))"
  by (induction rule: rw_step.induct)
    (auto simp: rwlock_ops panic_simps split: prod.splits bool.splits if_splits
      elim!: access_drop_cases access_downgrade_cases rw_cancel_cases)

lemma rw_exclusive:
  assumes "rw_step\<^sup>*\<^sup>* (rw_init up v n) s" and f: "access_of s f = Some (WriteAccess ow p)" and g: "access_of s g = Some a"
  shows "g = f"
proof (rule ccontr)
  assume "g \<noteq> f"
  have inv: "rw_inv s" "rw_max_readers (rs_lock s) = nz_get n" using lk.client_reach [OF assms(1)] by auto
  obtain h where h: "rs_hold s f = Some h" "lock_owns h = nz_get n"
    using f inv by (auto elim!: access_of_owns [OF inv(1)])
  obtain h' where h': "rs_hold s g = Some h'" "1 \<le> lock_owns h'" by (rule access_of_owns [OF inv(1) g])
  have "nz_get n + 1 \<le> msum lock_owns (rs_hold s)"
    using msum_two [of "rs_hold s" f h g h' lock_owns] rw_invD(3) [OF inv(1)] h h' \<open>g \<noteq> f\<close> by (auto simp: books_def)
  with lk.client_held [OF assms(1)] show False by simp
qed

lemma rw_readers_bounded:
  assumes "rw_step\<^sup>*\<^sup>* (rw_init up v n) s"
  shows "finite {f. access_of s f \<noteq> None}" and "card {f. access_of s f \<noteq> None} \<le> nz_get n"
proof -
  have inv: "rw_inv s" using lk.client_reach [OF assms] by auto
  then have fin: "finite (dom (rs_hold s))" using rw_invD(3) [OF inv] by (simp add: books_def)
  have sub: "{f. access_of s f \<noteq> None} \<subseteq> dom (rs_hold s)"
    by (auto simp: access_of_def bind_eq_Some_conv)
  show "finite {f. access_of s f \<noteq> None}" by (rule finite_subset [OF sub fin])
  have "card {f. access_of s f \<noteq> None} = (\<Sum>f\<in>{f. access_of s f \<noteq> None}. 1)" by simp
  also have "\<dots> \<le> (\<Sum>f\<in>{f. access_of s f \<noteq> None}. lock_owns (the (rs_hold s f)))"
    by (rule sum_mono) (auto elim!: access_of_owns [OF inv])
  also have "\<dots> \<le> msum lock_owns (rs_hold s)"
    unfolding msum_def by (rule sum_mono2 [OF fin sub]) simp
  also have "\<dots> \<le> nz_get n" using lk.client_held [OF assms] by simp
  finally show "card {f. access_of s f \<noteq> None} \<le> nz_get n" .
qed

section \<open>Nobody waits for ever\<close>

text \<open>
  A handle is parked in a semaphore when its future is in the queue. It can run when it has no
  parked future, or when its permits are complete and it has been woken since its last poll.
\<close>

definition parked_in :: "sem_sys \<Rightarrow> nat \<Rightarrow> bool" where
  "parked_in S f \<longleftrightarrow> (\<exists>aq w m i. ss_futs S f = Some (aq, w, m) \<and> aq_index aq = Some i \<and> i \<in> set (wl_queue (ss_waiters S)))"

definition woken_in :: "sem_sys \<Rightarrow> nat \<Rightarrow> bool" where
  "woken_in S f \<longleftrightarrow> (\<forall>aq w m i. ss_futs S f = Some (aq, w, m) \<longrightarrow> aq_index aq = Some i \<longrightarrow> w \<in> set (drop m (ss_woken S)))"

definition runnable :: "'v rw_sys \<Rightarrow> nat \<Rightarrow> bool" where
  "runnable s f \<longleftrightarrow> rs_hold s f \<noteq> None \<and> \<not> parked_in (rs_sem s) f \<and> \<not> parked_in (rs_res s) f \<and>
     woken_in (rs_sem s) f \<and> woken_in (rs_res s) f"

lemma msum_less:
  assumes "finite (dom m)" and "\<And>i x. m i = Some x \<Longrightarrow> f x \<le> g x" and "m j = Some y" and "f y < g y"
  shows "msum f m < msum g m"
  unfolding msum_def
  by (rule sum_strict_mono_ex1 [OF assms(1)]) (use assms in \<open>force intro: bexI [of _ j]\<close>)+

text \<open>If nothing can run, every handle is parked in the semaphore that it waits for.\<close>

lemma all_parked:
  assumes "rw_step\<^sup>*\<^sup>* (rw_init up v n) s" and none: "\<And>g. \<not> runnable s g" and g: "rs_hold s g = Some h"
  shows "parked_in (rs_sem s) g \<and> lock_wants (nz_get n) h \<noteq> None \<or> parked_in (rs_res s) g \<and> res_wants h \<noteq> None"
proof -
  have inv: "rw_inv s" "rw_max_readers (rs_lock s) = nz_get n" using lk.client_reach [OF assms(1)] by auto
  have "\<not> parked_in (rs_sem s) g \<Longrightarrow> woken_in (rs_sem s) g"
    unfolding parked_in_def woken_in_def using lk.client_woken [OF assms(1)] by blast
  moreover have "\<not> parked_in (rs_res s) g \<Longrightarrow> woken_in (rs_res s) g"
    unfolding parked_in_def woken_in_def using rsv.client_woken [OF assms(1)] by blast
  ultimately have "parked_in (rs_sem s) g \<or> parked_in (rs_res s) g"
    using none [of g] g by (auto simp: runnable_def)
  then show ?thesis
    using books_fut(3) [OF rw_invD(3) [OF inv(1)], of g] books_fut(3) [OF rw_invD(4) [OF inv(1)], of g] g inv(2)
    by (auto simp: parked_in_def)
qed

lemma wants_once: "lock_wants m h \<noteq> None \<Longrightarrow> res_wants h = None"
  by (cases h) auto

lemma parked_owns: "lock_wants m h \<noteq> None \<or> res_wants h \<noteq> None \<Longrightarrow> handle_ok up m h \<Longrightarrow> lock_owns h \<le> res_owns h"
  by (cases h) auto

lemma parked_owner: "lock_wants m h \<noteq> None \<or> res_wants h \<noteq> None \<Longrightarrow> 0 < lock_owns h \<Longrightarrow> \<exists>a. h = Upgrading a"
  by (cases h) auto

lemma stalled_futures:
  assumes run: "rw_step\<^sup>*\<^sup>* (rw_init up v n) s" and none: "\<And>g. \<not> runnable s g"
  shows "ss_futs (rs_sem s) f = Some (aq, w, m) \<Longrightarrow> aq_index aq = Some i \<Longrightarrow> i \<in> set (wl_queue (ss_waiters (rs_sem s)))"
    and "ss_futs (rs_res s) f = Some (aq, w, m) \<Longrightarrow> aq_index aq = Some i \<Longrightarrow> i \<in> set (wl_queue (ss_waiters (rs_res s)))"
proof -
  have inv: "rw_inv s" "rw_max_readers (rs_lock s) = nz_get n" using lk.client_reach [OF run] by auto
  show "i \<in> set (wl_queue (ss_waiters (rs_sem s)))"
    if f: "ss_futs (rs_sem s) f = Some (aq, w, m)" "aq_index aq = Some i"
  proof -
    obtain h where h: "rs_hold s f = Some h" "lock_wants (nz_get n) h = Some (aq_requested aq)"
      using books_fut(3) [OF rw_invD(3) [OF inv(1)] f(1)] inv(2) by auto
    with all_parked [OF run none h(1)] wants_once [of "nz_get n" h] f show ?thesis by (auto simp: parked_in_def)
  qed
  show "i \<in> set (wl_queue (ss_waiters (rs_res s)))"
    if f: "ss_futs (rs_res s) f = Some (aq, w, m)" "aq_index aq = Some i"
  proof -
    obtain h where h: "rs_hold s f = Some h" "res_wants h = Some (aq_requested aq)"
      using books_fut(3) [OF rw_invD(4) [OF inv(1)] f(1)] by auto
    with all_parked [OF run none h(1)] wants_once [of "nz_get n" h] f show ?thesis by (auto simp: parked_in_def)
  qed
qed

text \<open>
  The queue of the lock cannot be stalled: permits held by parked handles are those of one
  pending upgrade, and that upgrade needs only what the readers give back.
\<close>

lemma lock_queue_empty:
  assumes run: "rw_step\<^sup>*\<^sup>* (rw_init up v n) s" and none: "\<And>g. \<not> runnable s g"
    and dist: "ss_dist (rs_sem s) = Map.empty"
  shows "wl_queue (ss_waiters (rs_sem s)) = []"
proof (rule ccontr)
  assume q: "wl_queue (ss_waiters (rs_sem s)) \<noteq> []"
  let ?m = "nz_get n"
  have inv: "rw_inv s" "rw_max_readers (rs_lock s) = ?m" and ok: "sem_ok ?m (rs_sem s)"
    using lk.client_reach [OF run] by auto
  have fin: "finite (dom (rs_hold s))" using rw_invD(3) [OF inv(1)] by (simp add: books_def)
  have m: "0 < ?m" using rw_invD(1) [OF inv(1)] inv(2) by simp
  obtain f aq w k j where f: "ss_futs (rs_sem s) f = Some (aq, w, k)" "0 < j" "j \<le> aq_requested aq"
    "msum lock_owns (rs_hold s) + aq_requested aq = ?m + j"
    by (rule lk.client_stalled [OF run dist q stalled_futures(1) [OF run none]])
  obtain h where h: "rs_hold s f = Some h" "lock_wants ?m h = Some (aq_requested aq)"
    using books_fut(3) [OF rw_invD(3) [OF inv(1)] f(1)] inv(2) by auto
  have hok: "handle_ok (rs_upgradable s) ?m x" if "rs_hold s g = Some x" for g x
    using rw_inv_handle [OF inv(1) that] inv(2) by simp
  have le: "lock_owns x \<le> res_owns x" if "rs_hold s g = Some x" for g x
    using all_parked [OF run none that] parked_owns [OF _ hok [OF that]] by blast
  have one: "msum res_owns (rs_hold s) \<le> 1" using rsv.client_held [OF run] by simp
  have "msum lock_owns (rs_hold s) \<le> msum res_owns (rs_hold s)" by (rule msum_mono) (rule le)
  then have le1: "msum lock_owns (rs_hold s) \<le> 1" using one by simp
  have lt: "msum lock_owns (rs_hold s) = 0" if "lock_owns h < res_owns h"
    using msum_less [of "rs_hold s" lock_owns res_owns f h, OF fin _ h(1) that] le one by simp
  show False
  proof (cases h)
    case (Reading ow)
    then have "msum lock_owns (rs_hold s) = ?m" "?m = 1" using f h le1 m by simp_all
    then obtain g x where g: "rs_hold s g = Some x" "0 < lock_owns x"
      using msum_zero_iff [OF fin, of lock_owns] by fastforce
    obtain b where x: "x = Upgrading b"
      using parked_owner [OF _ g(2), of ?m] all_parked [OF run none g(1)] by blast
    with all_parked [OF run none g(1)] have "parked_in (rs_sem s) g" by simp
    then obtain a u l i where a: "ss_futs (rs_sem s) g = Some (a, u, l)" "aq_index a = Some i"
      "i \<in> set (wl_queue (ss_waiters (rs_sem s)))" "aq_requested a = 0"
      using books_fut(3) [OF rw_invD(3) [OF inv(1)], of g] g(1) x inv(2) \<open>?m = 1\<close> by (auto simp: parked_in_def)
    have "nodes_ok (ss_waiters (rs_sem s)) (ss_futs (rs_sem s)) (ss_woken (rs_sem s))"
      using ok by (simp add: sem_ok_def sem_inv_def)
    from nodes_okD(2) [OF this a(1,2)] a(3,4) show False by (auto simp: node_ok_def)
  next
    case (Writing ow)
    then have up: "\<not> rs_upgradable s" using hok [OF h(1)] by simp
    have "lock_owns x = 0" if x: "rs_hold s g = Some x" for g x
    proof (rule ccontr)
      assume "lock_owns x \<noteq> 0"
      then obtain b where "x = Upgrading b"
        using parked_owner [of ?m x] all_parked [OF run none x] by blast
      with hok [OF x] up show False by simp
    qed
    then have "msum lock_owns (rs_hold s) = 0" using msum_zero_iff [OF fin, of lock_owns] by blast
    then show False using f h Writing by simp
  next
    case WriteReserved
    then show False using f h lt by simp
  next
    case UpgradableReserved
    then show False using f h lt m by simp
  next
    case (Upgrading a)
    then have "aq_requested aq = ?m - 1" using h(2) by simp
    then show False using f le1 m by linarith
  qed (use h(2) in simp_all)
qed

lemma res_queue_empty:
  assumes run: "rw_step\<^sup>*\<^sup>* (rw_init up v n) s" and none: "\<And>g. \<not> runnable s g"
    and dist: "ss_dist (rs_sem s) = Map.empty" "ss_dist (rs_res s) = Map.empty"
  shows "wl_queue (ss_waiters (rs_res s)) = []"
proof (rule ccontr)
  assume q: "wl_queue (ss_waiters (rs_res s)) \<noteq> []"
  have inv: "rw_inv s" using lk.client_reach [OF run] by auto
  have fin: "finite (dom (rs_hold s))" using rw_invD(3) [OF inv] by (simp add: books_def)
  obtain f aq w k j where f: "ss_futs (rs_res s) f = Some (aq, w, k)" "0 < j" "j \<le> aq_requested aq"
    "msum res_owns (rs_hold s) + aq_requested aq = 1 + j"
    by (rule rsv.client_stalled [OF run dist(2) q stalled_futures(2) [OF run none]])
  obtain h where h: "rs_hold s f = Some h" "res_wants h = Some (aq_requested aq)"
    using books_fut(3) [OF rw_invD(4) [OF inv] f(1)] by auto
  then have "aq_requested aq = 1" by (cases h) auto
  then have "msum res_owns (rs_hold s) \<noteq> 0" using f by simp
  then obtain g x where g: "rs_hold s g = Some x" "0 < res_owns x"
    using msum_zero_iff [OF fin, of res_owns] by fastforce
  then have "res_wants x = None" by (cases x) auto
  with all_parked [OF run none g(1)] have "parked_in (rs_sem s) g" by simp
  with lock_queue_empty [OF run none dist(1)] show False by (auto simp: parked_in_def)
qed

section \<open>A concrete run\<close>

text \<open>A lock for two readers: handle 0 takes the write lock at once, then a reader parks behind it.\<close>

definition demo_lock :: "sem_sys \<Rightarrow> (nat \<Rightarrow> rw_handle option) \<Rightarrow> nat rw_sys" where
  "demo_lock S H = \<lparr>rs_upgradable = False, rs_res = sem_init 1,
     rs_lock = \<lparr>rw_max_readers = 2, rw_s = S, rw_c = 5\<rparr>, rs_hold = H\<rparr>"

definition demo_held :: sem_sys where
  "demo_held = (sem_init 2)\<lparr>ss_sem := sem_new 0, ss_acquired := 2\<rparr>"

definition demo_queued :: sem_sys where
  "demo_queued = demo_held\<lparr>ss_sem := \<lparr>sem_available = 0, sem_contention = False, sem_waiters = demo_parked\<rparr>,
     ss_futs := [1 \<mapsto> (\<lparr>aq_requested = 1, aq_index = Some demo_id\<rparr>, 7, 0)]\<rparr>"

definition demo_writer :: "nat \<Rightarrow> rw_handle option" where
  "demo_writer = [0 \<mapsto> Guard (WriteAccess LockRef 2)]"

lemma nz_two_get [simp]: "nz_get nz_two = 2"
  by transfer simp

lemma demo_reach_writer: "rw_step\<^sup>*\<^sup>* (rw_init False 5 nz_two) (demo_lock demo_held demo_writer)"
proof -
  have "rw_init False 5 nz_two = demo_lock (sem_init 2) Map.empty"
    by (simp add: rw_init_def demo_lock_def with_max_readers_def Let_def)
  moreover have "rw_try_write LockRef (rs_lock (demo_lock (sem_init 2) Map.empty)) =
      (Some (WriteAccess LockRef 2), rs_lock (demo_lock demo_held Map.empty))"
    by (simp add: rw_try_write_def demo_lock_def demo_held_def call_try_def try_acquire_eq sem_init_def sem_new_def)
  from rw_step.try_write [OF _ _ this, of 0]
  have "rw_step (demo_lock (sem_init 2) Map.empty) (demo_lock demo_held demo_writer)"
    by (simp add: demo_lock_def demo_writer_def)
  ultimately show ?thesis by (metis r_into_rtranclp)
qed

lemma demo_reach_reader:
  "rw_step\<^sup>*\<^sup>* (rw_init False 5 nz_two) (demo_lock demo_queued (demo_writer(1 \<mapsto> Reading LockRef)))"
proof -
  let ?S = "call_acquire 1 (sem_acquire 1) demo_held" and ?H = "demo_writer(1 \<mapsto> Reading LockRef)"
  have "rw_step (demo_lock demo_held demo_writer) (demo_lock ?S ?H)"
    using rw_step.begin_read [of "demo_lock demo_held demo_writer" 1 LockRef]
    by (simp add: demo_lock_def demo_writer_def rw_read_def)
  moreover have "call_poll 1 7 ?S = Some (Pending, demo_queued)"
    using demo_poll by (simp add: call_poll_def call_acquire_def demo_queued_def demo_held_def sem_init_def)
  then have "rw_read_poll 1 7 LockRef (rs_lock (demo_lock ?S ?H)) = Some (Pending, rs_lock (demo_lock demo_queued ?H))"
    by (simp add: rw_read_poll_def demo_lock_def)
  from rw_step.read_poll [OF _ this]
  have "rw_step (demo_lock ?S ?H) (demo_lock demo_queued ?H)"
    by (simp add: demo_lock_def settled_def)
  ultimately show ?thesis using demo_reach_writer by (meson run_step)
qed

section \<open>What the lock promises\<close>

text \<open>
  C32: through every interleaving of acquisitions, cancellations, downgrades, upgrades and
  mapped guards, a handle with write access is the only one with access to the value, no more
  than \<open>max_readers\<close> handles have access at once, and while any handle has read access no
  step changes the value.
\<close>

theorem rwlock_exclusion:
  assumes "rw_step\<^sup>*\<^sup>* (rw_init up v n) s"
  shows "(\<forall>f g ow p. access_of s f = Some (WriteAccess ow p) \<longrightarrow> access_of s g \<noteq> None \<longrightarrow> g = f) \<and>
    card {f. access_of s f \<noteq> None} \<le> nz_get n \<and>
    (\<forall>s' f ow. access_of s f = Some (ReadAccess ow) \<longrightarrow> rw_step s s' \<longrightarrow> rw_c (rs_lock s') = rw_c (rs_lock s))"
proof (intro conjI allI impI)
  show "g = f" if "access_of s f = Some (WriteAccess ow p)" "access_of s g \<noteq> None" for f g ow p
    using rw_exclusive [OF assms that(1)] that(2) by blast
  show "card {f. access_of s f \<noteq> None} \<le> nz_get n" by (rule rw_readers_bounded(2) [OF assms])
  show "rw_c (rs_lock s') = rw_c (rs_lock s)" if r: "access_of s f = Some (ReadAccess ow)" "rw_step s s'" for s' f ow
  proof (rule ccontr)
    assume "rw_c (rs_lock s') \<noteq> rw_c (rs_lock s)"
    then obtain g ow' p where "rs_hold s g = Some (Guard (WriteAccess ow' p))"
      using write_value_by_writer [OF r(2)] by blast
    then have g: "access_of s g = Some (WriteAccess ow' p)" by (simp add: access_of_def)
    with rw_exclusive [OF assms g r(1)] r(1) show False by simp
  qed
qed

theorem rwlock_exclusion_witness:
  "access_of (demo_lock demo_queued (demo_writer(1 \<mapsto> Reading LockRef))) 0 = Some (WriteAccess LockRef 2) \<and>
   access_of (demo_lock demo_queued (demo_writer(1 \<mapsto> Reading LockRef))) 1 = None \<and>
   card {f. access_of (demo_lock demo_queued (demo_writer(1 \<mapsto> Reading LockRef))) f \<noteq> None} \<le> 2"
proof -
  have "access_of (demo_lock demo_queued (demo_writer(1 \<mapsto> Reading LockRef))) 0 = Some (WriteAccess LockRef 2)"
    by (simp add: access_of_def demo_lock_def demo_writer_def)
  moreover from this have "access_of (demo_lock demo_queued (demo_writer(1 \<mapsto> Reading LockRef))) 1 = None"
    using rwlock_exclusion [OF demo_reach_reader] by (metis zero_neq_one)
  ultimately show ?thesis using rwlock_exclusion [OF demo_reach_reader] by simp
qed

text \<open>
  C33: a lock never deadlocks by itself. While any call or guard is alive, some thread is
  distributing permits or some handle can run: it is not parked, or it has its permits and has
  been woken since its last poll. In particular a pending upgrade never waits for a writer
  that waits for it.
\<close>

theorem rwlock_never_stuck:
  assumes "rw_step\<^sup>*\<^sup>* (rw_init up v n) s" and "rs_hold s f \<noteq> None"
  shows "(\<exists>g. runnable s g) \<or> ss_dist (rs_sem s) \<noteq> Map.empty \<or> ss_dist (rs_res s) \<noteq> Map.empty"
proof (rule ccontr)
  assume "\<not> ?thesis"
  then have none: "\<And>g. \<not> runnable s g" and d: "ss_dist (rs_sem s) = Map.empty" "ss_dist (rs_res s) = Map.empty"
    by auto
  obtain h where "rs_hold s f = Some h" using assms(2) by blast
  from all_parked [OF assms(1) none this] lock_queue_empty [OF assms(1) none d(1)]
    res_queue_empty [OF assms(1) none d]
  show False by (auto simp: parked_in_def)
qed

theorem rwlock_never_stuck_witness:
  "\<exists>g. runnable (demo_lock demo_queued (demo_writer(1 \<mapsto> Reading LockRef))) g"
  using rwlock_never_stuck [OF demo_reach_reader, of 1]
  by (simp add: demo_lock_def demo_queued_def demo_held_def sem_init_def)

end
