(* ===== verification/Mutex.thy ===== *)
theory Mutex
  imports PermitClient
begin

text \<open>
  The mutex of \<open>mutex/mod.rs\<close>: a value beside a semaphore of one permit, which each guard owns
  until it is dropped. Guards borrow the mutex or share its allocation, and may have been mapped
  to a part of the value.
\<close>

record 'v mutex =
  mx_s :: sem_sys
  mx_c :: 'v

definition mutex_new :: "'v \<Rightarrow> 'v mutex" where
  "mutex_new t = \<lparr>mx_s = sem_init 1, mx_c = t\<rparr>"

definition mutex_into_inner :: "'v mutex \<Rightarrow> 'v" where
  "mutex_into_inner m = mx_c m"

datatype guard_kind = MutexGuard | OwnedMutexGuard | MappedMutexGuard | OwnedMappedMutexGuard

text \<open>
  The asynchronous \<open>lock\<close> is given by its first poll, which creates the acquisition, and by each
  poll of it; \<open>f\<close> names the future.
\<close>

definition mutex_lock :: "nat \<Rightarrow> 'v mutex \<Rightarrow> 'v mutex" where
  "mutex_lock f m = m\<lparr>mx_s := call_acquire f (sem_acquire 1) (mx_s m)\<rparr>"

definition mutex_lock_poll :: "nat \<Rightarrow> waker \<Rightarrow> 'v mutex \<Rightarrow> (unit poll \<times> 'v mutex) option" where
  "mutex_lock_poll f w m = do {
     (r, s) \<leftarrow> call_poll f w (mx_s m);
     Some (r, m\<lparr>mx_s := s\<rparr>) }"

definition mutex_try_lock :: "guard_kind \<Rightarrow> 'v mutex \<Rightarrow> guard_kind option \<times> 'v mutex" where
  "mutex_try_lock g m =
     (case call_try 1 (mx_s m) of
        (True, s) \<Rightarrow> (Some g, m\<lparr>mx_s := s\<rparr>)
      | (False, s) \<Rightarrow> (None, m\<lparr>mx_s := s\<rparr>))"

definition mutex_cancel :: "nat \<Rightarrow> nat \<Rightarrow> 'v mutex \<Rightarrow> 'v mutex option" where
  "mutex_cancel t f m = do {
     s \<leftarrow> call_drop t f (mx_s m);
     Some (m\<lparr>mx_s := s\<rparr>) }"

text \<open>Every kind of guard is dropped by releasing its permit under the queue lock.\<close>

definition guard_drop :: "nat \<Rightarrow> 'v mutex \<Rightarrow> 'v mutex option" where
  "guard_drop t m = do {
     s \<leftarrow> call_release_slow t 1 (mx_s m);
     Some (m\<lparr>mx_s := s\<rparr>) }"

definition mx_deref :: "'v mutex \<Rightarrow> 'v" where
  "mx_deref m = mx_c m"

definition mx_deref_mut :: "'v \<Rightarrow> 'v mutex \<Rightarrow> 'v mutex" where
  "mx_deref_mut v m = m\<lparr>mx_c := v\<rparr>"

text \<open>
  A mapped guard takes over the permit of the guard it was made from, which is not dropped; a
  projection that declines gives the guard back.
\<close>

fun mapped_kind :: "guard_kind \<Rightarrow> guard_kind" where
  "mapped_kind MutexGuard = MappedMutexGuard"
| "mapped_kind OwnedMutexGuard = OwnedMappedMutexGuard"
| "mapped_kind g = g"

definition mx_map :: "('v \<Rightarrow> 'u) \<Rightarrow> guard_kind \<Rightarrow> 'v mutex \<Rightarrow> 'u \<times> guard_kind" where
  "mx_map proj orig m = (proj (mx_deref m), mapped_kind orig)"

definition mx_filter_map :: "('v \<Rightarrow> 'u option) \<Rightarrow> guard_kind \<Rightarrow> 'v mutex \<Rightarrow> ('u \<times> guard_kind, guard_kind) result" where
  "mx_filter_map proj orig m =
     (case proj (mx_deref m) of
        Some d \<Rightarrow> Ok (d, mapped_kind orig)
      | None \<Rightarrow> Err orig)"

lemmas mutex_ops [op_defs] = mutex_new_def mutex_into_inner_def mutex_lock_def mutex_lock_poll_def
  mutex_try_lock_def mutex_cancel_def guard_drop_def mx_deref_def mx_deref_mut_def mx_map_def mx_filter_map_def

lemma mutex_try_lock_cases:
  assumes "mutex_try_lock g m = (r, m')"
  obtains ok S where "call_try 1 (mx_s m) = (ok, S)" "m' = m\<lparr>mx_s := S\<rparr>" "r = (if ok then Some g else None)"
proof (cases "call_try 1 (mx_s m)")
  case (Pair ok S)
  with assms show thesis by (intro that [OF Pair]) (auto simp: mutex_try_lock_def split: bool.splits)
qed

lemma mutex_lock_poll_cases:
  assumes "mutex_lock_poll f w m = Some (r, m')"
  obtains S where "call_poll f w (mx_s m) = Some (r, S)" "m' = m\<lparr>mx_s := S\<rparr>"
  using assms by (auto simp: mutex_lock_poll_def panic_simps)

lemma mutex_cancel_cases:
  assumes "mutex_cancel t f m = Some m'"
  obtains S where "call_drop t f (mx_s m) = Some S" "m' = m\<lparr>mx_s := S\<rparr>"
  using assms by (auto simp: mutex_cancel_def panic_simps)

lemma guard_drop_cases:
  assumes "guard_drop t m = Some m'"
  obtains S where "call_release_slow t 1 (mx_s m) = Some S" "m' = m\<lparr>mx_s := S\<rparr>"
  using assms by (auto simp: guard_drop_def panic_simps)

end
