(* ===== verification/Condvar.thy ===== *)
theory Condvar
  imports Mutex Waiters
begin

text \<open>
  The condition variable of \<open>condvar/mod.rs\<close> together with the mutex its waits release and take
  again. A wait notified by \<open>notify_one\<close> carries a baton until it holds the mutex again; when it
  is cancelled before that, the baton goes to the next wait.
\<close>

section \<open>The condition variable\<close>

datatype wait_state = Waiting waker | NotifiedOne | NotifiedAll

record condvar =
  cv_waiters :: "wait_state wait_list"

definition condvar_new :: condvar where
  "condvar_new = \<lparr>cv_waiters = wl_new\<rparr>"

definition notify_one_locked :: "wait_state wait_list \<Rightarrow> (waker option \<times> wait_state wait_list) option" where
  "notify_one_locked waiters = do {
     (r, u, waiters) \<leftarrow> unlink_first_waiter waiters always ();
     (case r of
        None \<Rightarrow> Some (None, waiters)
      | Some (i, state) \<Rightarrow>
          (case state of
             Waiting waker \<Rightarrow> do {
               waiters \<leftarrow> set_waiter waiters i NotifiedOne;
               Some (Some waker, waiters) }
           | _ \<Rightarrow> None)) }"

definition cv_notify_one :: "condvar \<Rightarrow> (waker list \<times> condvar) option" where
  "cv_notify_one cv = do {
     (waker, waiters) \<leftarrow> notify_one_locked (cv_waiters cv);
     Some (opt_list waker, cv\<lparr>cv_waiters := waiters\<rparr>) }"

definition notify_all_body ::
  "wait_state wait_list \<times> waker_batch \<Rightarrow> ((wait_state wait_list \<times> waker_batch) \<times> bool) option" where
  "notify_all_body st = (case st of (waiters, wakers) \<Rightarrow> do {
     (r, u, waiters) \<leftarrow> unlink_first_waiter waiters always ();
     (case r of
        None \<Rightarrow> Some ((waiters, wakers), False)
      | Some (i, state) \<Rightarrow>
          (case state of
             Waiting waker \<Rightarrow> do {
               waiters \<leftarrow> set_waiter waiters i NotifiedAll;
               wakers \<leftarrow> wb_push wakers waker;
               Some ((waiters, wakers), True) }
           | _ \<Rightarrow> None)) })"

definition cv_notify_all :: "condvar \<Rightarrow> (waker list \<times> condvar) option" where
  "cv_notify_all cv = do {
     (waiters, wakers) \<leftarrow> loop notify_all_body (cv_waiters cv, wb_new);
     (woken, wakers) \<leftarrow> wb_wake_all wakers;
     Some (woken, cv\<lparr>cv_waiters := waiters\<rparr>) }"

text \<open>
  The first poll of a wait registers it and then drops the guard; a later poll reports whether
  the wait was notified, and whether it carries a baton.
\<close>

definition wait_register :: "condvar \<Rightarrow> waker \<Rightarrow> (waiter_id \<times> condvar) option" where
  "wait_register cv waker = do {
     (i, waiters) \<leftarrow> push_back (cv_waiters cv) (Waiting waker);
     Some (i, cv\<lparr>cv_waiters := waiters\<rparr>) }"

definition wait_poll :: "condvar \<Rightarrow> waiter_id \<Rightarrow> waker \<Rightarrow> (bool poll \<times> condvar) option" where
  "wait_poll cv index current = do {
     state \<leftarrow> waiter_mut (cv_waiters cv) index;
     (case state of
        Waiting waker \<Rightarrow>
          if will_wake waker current then Some (Pending, cv)
          else do {
            waiters \<leftarrow> set_waiter (cv_waiters cv) index (Waiting current);
            Some (Pending, cv\<lparr>cv_waiters := waiters\<rparr>) }
      | notified \<Rightarrow> do {
          (_, waiters) \<leftarrow> remove_unlinked_waiter (cv_waiters cv) index;
          Some (Ready (notified = NotifiedOne), cv\<lparr>cv_waiters := waiters\<rparr>) }) }"

definition wait_drop :: "condvar \<Rightarrow> waiter_id \<Rightarrow> (waker list \<times> condvar) option" where
  "wait_drop cv index = do {
     (_, _, waiters) \<leftarrow> unlink_waiter (cv_waiters cv) index always ();
     (waiter, waiters) \<leftarrow> remove_unlinked_waiter waiters index;
     (waker, waiters) \<leftarrow>
       (case waiter of NotifiedOne \<Rightarrow> notify_one_locked waiters | _ \<Rightarrow> Some (None, waiters));
     Some (opt_list waker, cv\<lparr>cv_waiters := waiters\<rparr>) }"

text \<open>Dropping a baton that was not completed notifies the next wait.\<close>

definition baton_drop :: "bool \<Rightarrow> condvar \<Rightarrow> (waker list \<times> condvar) option" where
  "baton_drop armed cv = (if armed then cv_notify_one cv else Some ([], cv))"

lemmas condvar_ops [op_defs] = condvar_new_def notify_one_locked_def cv_notify_one_def notify_all_body_def
  cv_notify_all_def wait_register_def wait_poll_def wait_drop_def baton_drop_def

section \<open>Waits, guards and notifiers\<close>

text \<open>
  A handle is a call suspended at one of its awaits or between two lock regions, or a guard. A
  wait is first registered while it still holds the guard, then parked, then taking the mutex
  again with or without a baton.
\<close>

datatype cv_handle =
    Locking guard_kind
  | Guard guard_kind
  | Registered guard_kind waiter_id waker nat
  | Parked guard_kind waiter_id waker nat
  | Relocking guard_kind bool
  | Passing bool

text \<open>
  The last fields count batons: those a \<open>notify_one\<close> handed to a wait, those completed by a wait
  that holds the mutex again, and those passed on when nobody was waiting any more.
\<close>

record 'v cv_sys =
  cs_mutex :: "'v mutex"
  cs_cv :: condvar
  cs_hold :: "nat \<Rightarrow> cv_handle option"
  cs_woken :: "waker list"
  cs_given :: nat
  cs_completed :: nat
  cs_vain :: nat

definition cv_init :: "'v \<Rightarrow> 'v cv_sys" where
  "cv_init v = \<lparr>cs_mutex = mutex_new v, cs_cv = condvar_new, cs_hold = Map.empty, cs_woken = [],
     cs_given = 0, cs_completed = 0, cs_vain = 0\<rparr>"

abbreviation cs_sem :: "'v cv_sys \<Rightarrow> sem_sys" where
  "cs_sem s \<equiv> mx_s (cs_mutex s)"

abbreviation cs_list :: "'v cv_sys \<Rightarrow> wait_state wait_list" where
  "cs_list s \<equiv> cv_waiters (cs_cv s)"

fun may_wait :: "guard_kind \<Rightarrow> bool" where
  "may_wait MutexGuard = True"
| "may_wait OwnedMutexGuard = True"
| "may_wait _ = False"

inductive cv_step :: "'v cv_sys \<Rightarrow> 'v cv_sys \<Rightarrow> bool" where
  lock: "cs_hold s f = None \<Longrightarrow>
    cv_step s (s\<lparr>cs_mutex := mutex_lock f (cs_mutex s), cs_hold := (cs_hold s)(f \<mapsto> Locking g)\<rparr>)"
| lock_pending: "cs_hold s f = Some (Locking g) \<Longrightarrow> mutex_lock_poll f w (cs_mutex s) = Some (Pending, m) \<Longrightarrow>
    cv_step s (s\<lparr>cs_mutex := m\<rparr>)"
| lock_ready: "cs_hold s f = Some (Locking g) \<Longrightarrow> mutex_lock_poll f w (cs_mutex s) = Some (Ready (), m) \<Longrightarrow>
    cv_step s (s\<lparr>cs_mutex := m, cs_hold := (cs_hold s)(f \<mapsto> Guard g)\<rparr>)"
| try_lock: "cs_hold s f = None \<Longrightarrow> mutex_try_lock g (cs_mutex s) = (r, m) \<Longrightarrow>
    cv_step s (s\<lparr>cs_mutex := m, cs_hold := (cs_hold s)(f := map_option Guard r)\<rparr>)"
| lock_cancel: "cs_hold s f = Some (Locking g) \<Longrightarrow> ss_dist (cs_sem s) t = None \<Longrightarrow>
    mutex_cancel t f (cs_mutex s) = Some m \<Longrightarrow>
    cv_step s (s\<lparr>cs_mutex := m, cs_hold := (cs_hold s)(f := None)\<rparr>)"
| unlock: "cs_hold s f = Some (Guard g) \<Longrightarrow> ss_dist (cs_sem s) t = None \<Longrightarrow> guard_drop t (cs_mutex s) = Some m \<Longrightarrow>
    cv_step s (s\<lparr>cs_mutex := m, cs_hold := (cs_hold s)(f := None)\<rparr>)"
| map_guard: "cs_hold s f = Some (Guard g) \<Longrightarrow>
    cv_step s (s\<lparr>cs_hold := (cs_hold s)(f \<mapsto> Guard (mapped_kind g))\<rparr>)"
| write_value: "cs_hold s f = Some (Guard g) \<Longrightarrow> cv_step s (s\<lparr>cs_mutex := mx_deref_mut v (cs_mutex s)\<rparr>)"
| round: "call_round t (cs_sem s) = Some S \<Longrightarrow> cv_step s (s\<lparr>cs_mutex := (cs_mutex s)\<lparr>mx_s := S\<rparr>\<rparr>)"
| register: "cs_hold s f = Some (Guard g) \<Longrightarrow> may_wait g \<Longrightarrow> wait_register (cs_cv s) w = Some (i, cv) \<Longrightarrow>
    cv_step s (s\<lparr>cs_cv := cv, cs_hold := (cs_hold s)(f \<mapsto> Registered g i w (length (cs_woken s)))\<rparr>)"
| release: "cs_hold s f = Some (Registered g i w k) \<Longrightarrow> ss_dist (cs_sem s) t = None \<Longrightarrow>
    guard_drop t (cs_mutex s) = Some m \<Longrightarrow>
    cv_step s (s\<lparr>cs_mutex := m, cs_hold := (cs_hold s)(f \<mapsto> Parked g i w k)\<rparr>)"
| wait_pending: "cs_hold s f = Some (Parked g i w0 k) \<Longrightarrow> wait_poll (cs_cv s) i w = Some (Pending, cv) \<Longrightarrow>
    cv_step s (s\<lparr>cs_cv := cv, cs_hold := (cs_hold s)(f \<mapsto> Parked g i w (length (cs_woken s)))\<rparr>)"
| wait_ready: "cs_hold s f = Some (Parked g i w0 k) \<Longrightarrow> wait_poll (cs_cv s) i w = Some (Ready baton, cv) \<Longrightarrow>
    cv_step s (s\<lparr>cs_cv := cv, cs_mutex := mutex_lock f (cs_mutex s), cs_hold := (cs_hold s)(f \<mapsto> Relocking g baton)\<rparr>)"
| wait_cancel: "cs_hold s f = Some (Parked g i w k) \<Longrightarrow> wait_drop (cs_cv s) i = Some (ws, cv) \<Longrightarrow>
    cv_step s (s\<lparr>cs_cv := cv, cs_hold := (cs_hold s)(f := None), cs_woken := cs_woken s @ ws,
      cs_vain := cs_vain s + of_bool (waiter_mut (cs_list s) i = Some NotifiedOne \<and> ws = [])\<rparr>)"
| relock_pending: "cs_hold s f = Some (Relocking g baton) \<Longrightarrow> mutex_lock_poll f w (cs_mutex s) = Some (Pending, m) \<Longrightarrow>
    cv_step s (s\<lparr>cs_mutex := m\<rparr>)"
| relock_ready: "cs_hold s f = Some (Relocking g baton) \<Longrightarrow> mutex_lock_poll f w (cs_mutex s) = Some (Ready (), m) \<Longrightarrow>
    cv_step s (s\<lparr>cs_mutex := m, cs_hold := (cs_hold s)(f \<mapsto> Guard g), cs_completed := cs_completed s + of_bool baton\<rparr>)"
| relock_cancel: "cs_hold s f = Some (Relocking g baton) \<Longrightarrow> ss_dist (cs_sem s) t = None \<Longrightarrow>
    mutex_cancel t f (cs_mutex s) = Some m \<Longrightarrow>
    cv_step s (s\<lparr>cs_mutex := m, cs_hold := (cs_hold s)(f \<mapsto> Passing baton)\<rparr>)"
| pass_baton: "cs_hold s f = Some (Passing baton) \<Longrightarrow> baton_drop baton (cs_cv s) = Some (ws, cv) \<Longrightarrow>
    cv_step s (s\<lparr>cs_cv := cv, cs_hold := (cs_hold s)(f := None), cs_woken := cs_woken s @ ws,
      cs_vain := cs_vain s + of_bool (baton \<and> ws = [])\<rparr>)"
| notify_one: "cv_notify_one (cs_cv s) = Some (ws, cv) \<Longrightarrow>
    cv_step s (s\<lparr>cs_cv := cv, cs_woken := cs_woken s @ ws, cs_given := cs_given s + length ws\<rparr>)"
| notify_all: "cv_notify_all (cs_cv s) = Some (ws, cv) \<Longrightarrow>
    cv_step s (s\<lparr>cs_cv := cv, cs_woken := cs_woken s @ ws\<rparr>)"

section \<open>The invariant\<close>

fun cv_owns :: "cv_handle \<Rightarrow> nat" where
  "cv_owns (Guard g) = 1"
| "cv_owns (Registered g i w k) = 1"
| "cv_owns _ = 0"

fun cv_wants :: "cv_handle \<Rightarrow> nat option" where
  "cv_wants (Locking g) = Some 1"
| "cv_wants (Relocking g b) = Some 1"
| "cv_wants _ = None"

fun cv_batons :: "cv_handle \<Rightarrow> nat" where
  "cv_batons (Relocking g b) = of_bool b"
| "cv_batons (Passing b) = of_bool b"
| "cv_batons _ = 0"

fun cv_reg :: "cv_handle \<Rightarrow> waiter_id registration option" where
  "cv_reg (Registered g i w k) = Some (i, w, k)"
| "cv_reg (Parked g i w k) = Some (i, w, k)"
| "cv_reg _ = None"

definition cv_regs :: "(nat \<Rightarrow> cv_handle option) \<Rightarrow> nat \<Rightarrow> waiter_id registration option" where
  "cv_regs H f = Option.bind (H f) cv_reg"

fun ws_waker :: "wait_state \<Rightarrow> waker option" where
  "ws_waker (Waiting w) = Some w"
| "ws_waker _ = None"

interpretation co: waiter_owners wl_inv wl_room wl_queue wl_val push_back push_front
  unlink_waiter unlink_first_waiter set_waiter remove_unlinked_waiter ws_waker
  by unfold_locales

text \<open>The waits that were notified by \<open>notify_one\<close> and have not been polled since.\<close>

definition one_node :: "wait_state \<Rightarrow> nat" where
  "one_node v = of_bool (v = NotifiedOne)"

definition notified :: "wait_state wait_list \<Rightarrow> nat" where
  "notified wl = msum one_node (wl_val wl)"

definition cv_inv :: "'v cv_sys \<Rightarrow> bool" where
  "cv_inv s \<longleftrightarrow> books cv_wants cv_owns (cs_hold s) (cs_sem s) \<and>
     co.owned (cs_list s) (cv_regs (cs_hold s)) (cs_woken s) \<and>
     cs_given s = cs_completed s + cs_vain s + notified (cs_list s) + msum cv_batons (cs_hold s)"

lemma cv_regs_upd: "cv_regs (H(f := y)) = (cv_regs H)(f := Option.bind y cv_reg)"
  by (auto simp: cv_regs_def)

lemma cv_regs_same: "Option.bind y cv_reg = cv_regs H f \<Longrightarrow> cv_regs (H(f := y)) = cv_regs H"
  by (auto simp: cv_regs_def)

lemma cv_regs_live: "H f = Some h \<Longrightarrow> cv_regs H f = cv_reg h"
  by (simp add: cv_regs_def)

lemma ws_waker_iff: "ws_waker v = Some w \<longleftrightarrow> v = Waiting w" "ws_waker v = None \<longleftrightarrow> v = NotifiedOne \<or> v = NotifiedAll"
  by (cases v; simp)+

lemma notified_change:
  "wl_val wl' = (wl_val wl)(i := y) \<Longrightarrow> notified wl' + maybe one_node (wl_val wl i) = notified wl + maybe one_node y"
  unfolding notified_def using msum_change [OF wl_val_finite, of one_node wl i y] by simp

lemma one_node_simps [simp]:
  "one_node (Waiting w) = 0" "one_node NotifiedOne = 1" "one_node NotifiedAll = 0"
  by (simp_all add: one_node_def)

section \<open>Notifying\<close>

lemma notify_one_locked_eq: "notify_one_locked wl = co.take_first wl NotifiedOne"
  by (auto simp: notify_one_locked_def co.take_first_def panic_simps
      split: option.splits wait_state.splits Option.bind_splits)

lemma take_first_notified:
  assumes o: "co.owned wl P woken" and n: "ws_waker v = None"
  obtains r wl' where "co.take_first wl v = Some (r, wl')" and "co.owned wl' P (woken @ opt_list r)"
    and "wl_queue wl' = tl (wl_queue wl)" and "r = None \<longleftrightarrow> wl_queue wl = []"
    and "notified wl' = notified wl + length (opt_list r) * one_node v"
    and "\<forall>j. wl_queue wl = [] \<or> j \<noteq> hd (wl_queue wl) \<longrightarrow> wl_val wl' j = wl_val wl j"
proof -
  obtain r wl' where t: "co.take_first wl v = Some (r, wl')" "co.owned wl' P (woken @ opt_list r)"
    "wl_queue wl' = tl (wl_queue wl)" "r = None \<longleftrightarrow> wl_queue wl = []" "r = None \<longrightarrow> wl' = wl"
    "\<forall>j. wl_queue wl = [] \<or> j \<noteq> hd (wl_queue wl) \<longrightarrow> wl_val wl' j = wl_val wl j"
    by (rule co.take_first_spec [OF o n]) blast
  have "notified wl' = notified wl + length (opt_list r) * one_node v"
  proof (cases "wl_queue wl")
    case Nil
    then show ?thesis using t by simp
  next
    case (Cons i q)
    then obtain u w where u: "wl_val wl i = Some u" "ws_waker u = Some w" using co.owned_wakers [OF o, of i] by auto
    obtain wl2 where "co.take_first wl v = Some (Some w, wl2)" "wl_val wl2 = (wl_val wl)(i \<mapsto> v)"
      by (rule co.take_first_inv [OF co.owned_inv [OF o] Cons u])
    moreover have "u = Waiting w" using u(2) by (simp add: ws_waker_iff)
    ultimately show ?thesis using t(1) u(1) notified_change [of wl2 wl i "Some v"] by simp
  qed
  with t show thesis by (intro that [of r wl']) auto
qed

lemma cv_notify_one_spec:
  assumes "co.owned (cv_waiters cv) P woken" and "cv_notify_one cv = Some (ws, cv')"
  shows "co.owned (cv_waiters cv') P (woken @ ws)" and "notified (cv_waiters cv') = notified (cv_waiters cv) + length ws"
    and "length ws = of_bool (wl_queue (cv_waiters cv) \<noteq> [])"
proof -
  obtain r wl where t: "co.take_first (cv_waiters cv) NotifiedOne = Some (r, wl)" "co.owned wl P (woken @ opt_list r)"
    "r = None \<longleftrightarrow> wl_queue (cv_waiters cv) = []" "notified wl = notified (cv_waiters cv) + length (opt_list r) * one_node NotifiedOne"
    by (rule take_first_notified [OF assms(1), of NotifiedOne]) auto
  then have "ws = opt_list r" "cv' = cv\<lparr>cv_waiters := wl\<rparr>"
    using assms(2) by (auto simp: cv_notify_one_def notify_one_locked_eq)
  with t show "co.owned (cv_waiters cv') P (woken @ ws)"
    and "notified (cv_waiters cv') = notified (cv_waiters cv) + length ws"
    and "length ws = of_bool (wl_queue (cv_waiters cv) \<noteq> [])" by (cases r; simp)+
qed

lemma notify_all_body_eq:
  "notify_all_body (wl, b) = do {
     (r, wl) \<leftarrow> co.take_first wl NotifiedAll;
     (case r of None \<Rightarrow> Some ((wl, b), False)
      | Some w \<Rightarrow> do { b \<leftarrow> wb_push b w; Some ((wl, b), True) }) }"
  by (auto simp: notify_all_body_def co.take_first_def panic_simps
      split: option.splits wait_state.splits Option.bind_splits)

lemma notify_all_loop:
  assumes "co.owned wl P woken"
  obtains wl' b where "loop notify_all_body (wl, wb_new) = Some (wl', b)" and "wb_inv b"
    and "wb_list b = co.wakers_in wl" and "co.owned wl' P (woken @ co.wakers_in wl)"
    and "notified wl' = notified wl"
proof -
  define K where "K s b ws \<longleftrightarrow> co.owned s P (woken @ ws) \<and> wb_inv b \<and> wb_list b = ws \<and> notified s = notified wl"
    for s b ws
  have "\<exists>wl' b. loop notify_all_body (wl, wb_new) = Some (wl', b) \<and> K wl' b ([] @ co.wakers_in wl) \<and> wl_queue wl' = []"
  proof (rule co.drain [where K = K])
    show "K wl wb_new []" using assms by (simp add: K_def)
    show "wl_inv s \<and> (\<forall>i\<in>set (wl_queue s). \<exists>v w. wl_val s i = Some v \<and> ws_waker v = Some w)" if "K s b ws" for s b ws
      using that co.owned_inv co.owned_wakers unfolding K_def by blast
    show "notify_all_body (s, b) = Some ((s, b), False)" if "wl_inv s" "wl_queue s = []" for s b
      using co.take_first_empty [OF that] by (simp add: notify_all_body_eq)
  next
    fix s b ws i q v w
    assume k: "K s b ws" and q: "wl_queue s = i # q" and v: "wl_val s i = Some v" "ws_waker v = Some w"
    have o: "co.owned s P (woken @ ws)" using k by (simp add: K_def)
    obtain r s' where t: "co.take_first s NotifiedAll = Some (r, s')" "co.owned s' P ((woken @ ws) @ opt_list r)"
      "wl_queue s' = tl (wl_queue s)" "notified s' = notified s + length (opt_list r) * one_node NotifiedAll"
      "\<forall>j. wl_queue s = [] \<or> j \<noteq> hd (wl_queue s) \<longrightarrow> wl_val s' j = wl_val s j"
      by (rule take_first_notified [OF o, of NotifiedAll]) auto
    have r: "r = Some w" by (rule co.take_first_inv [OF co.owned_inv [OF o] q v, of NotifiedAll]) (use t(1) in simp)
    obtain b' where b': "wb_push b w = Some b'" "wb_inv b'" "wb_list b' = wb_list b @ [w]"
      using wb_push_spec [of b w] k by (auto simp: K_def)
    show "\<exists>s' b'. notify_all_body (s, b) = Some ((s', b'), True) \<and> K s' b' (ws @ [w]) \<and> wl_queue s' = q \<and>
        (\<forall>j. j \<noteq> i \<longrightarrow> wl_val s' j = wl_val s j)"
      using t r b' q k by (simp add: notify_all_body_eq K_def)
  qed
  then show thesis using that unfolding K_def by auto
qed

lemma cv_notify_all_spec:
  assumes "co.owned (cv_waiters cv) P woken" and "cv_notify_all cv = Some (ws, cv')"
  shows "co.owned (cv_waiters cv') P (woken @ ws)" and "notified (cv_waiters cv') = notified (cv_waiters cv)"
proof -
  obtain wl b where "loop notify_all_body (cv_waiters cv, wb_new) = Some (wl, b)" "wb_inv b"
    "wb_list b = co.wakers_in (cv_waiters cv)" "co.owned wl P (woken @ co.wakers_in (cv_waiters cv))"
    "notified wl = notified (cv_waiters cv)"
    by (rule notify_all_loop [OF assms(1)])
  moreover obtain b' where "wb_wake_all b = Some (wb_list b, b')" by (rule wb_wake_all_spec [OF \<open>wb_inv b\<close>])
  ultimately show "co.owned (cv_waiters cv') P (woken @ ws)" and "notified (cv_waiters cv') = notified (cv_waiters cv)"
    using assms(2) by (auto simp: cv_notify_all_def)
qed

section \<open>Polling and cancelling a wait\<close>

lemma wait_poll_spec:
  assumes o: "co.owned (cv_waiters cv) P woken" and f: "P f = Some (i, w0, m)"
  obtains cv' where "i \<in> set (wl_queue (cv_waiters cv))" and "wait_poll cv i w = Some (Pending, cv')"
      and "co.owned (cv_waiters cv') (P(f \<mapsto> (i, w, length woken))) woken"
      and "notified (cv_waiters cv') = notified (cv_waiters cv)"
  | cv' b where "i \<notin> set (wl_queue (cv_waiters cv))" and "wait_poll cv i w = Some (Ready b, cv')"
      and "co.owned (cv_waiters cv') (P(f := None)) woken"
      and "notified (cv_waiters cv) = notified (cv_waiters cv') + of_bool b"
proof (cases "i \<in> set (wl_queue (cv_waiters cv))")
  case True
  then have v: "wl_val (cv_waiters cv) i = Some (Waiting w0)"
    using co.owned_queued [OF o f] by (auto simp: ws_waker_iff)
  show thesis
  proof (cases "w0 = w")
    case same: True
    show thesis
      using v same co.park_same [OF o f True]
      by (intro that(1) [of cv] True) (simp_all add: wait_poll_def waiter_mut_eq will_wake_def)
  next
    case False
    obtain wl where u: "set_waiter (cv_waiters cv) i (Waiting w) = Some wl"
      using wq.setv_law [OF co.owned_inv [OF o] v, of "Waiting w"] by blast
    have n: "notified wl = notified (cv_waiters cv)"
      using notified_change [OF co.park_again(3) [OF o f True u]] v by simp
    show thesis
      using v False u co.park_again(1) [OF o f True u, of w] n
      by (intro that(1) [of "cv\<lparr>cv_waiters := wl\<rparr>"] True) (simp_all add: wait_poll_def waiter_mut_eq will_wake_def)
  qed
next
  case False
  obtain v wl where c: "wl_val (cv_waiters cv) i = Some v" "ws_waker v = None"
    "remove_unlinked_waiter (cv_waiters cv) i = Some (v, wl)" "co.owned wl (P(f := None)) woken"
    "wl_val wl = (wl_val (cv_waiters cv))(i := None)"
    by (rule co.collect [OF o f False])
  have n: "notified (cv_waiters cv) = notified wl + of_bool (v = NotifiedOne)"
    using notified_change [OF c(5)] c(1) by (simp add: one_node_def)
  show thesis
    using c n by (intro that(2) [of "v = NotifiedOne" "cv\<lparr>cv_waiters := wl\<rparr>"] False)
      (auto simp: wait_poll_def waiter_mut_eq ws_waker_iff)
qed

lemma wait_drop_spec:
  assumes o: "co.owned (cv_waiters cv) P woken" and f: "P f = Some (i, w, m)"
    and d: "wait_drop cv i = Some (ws, cv')"
  shows "co.owned (cv_waiters cv') (P(f := None)) (woken @ ws)"
    and "notified (cv_waiters cv') + of_bool (waiter_mut (cv_waiters cv) i = Some NotifiedOne \<and> ws = []) =
      notified (cv_waiters cv)"
    and "waiter_mut (cv_waiters cv) i = Some NotifiedOne \<Longrightarrow> ws = [] \<Longrightarrow> wl_queue (cv_waiters cv) = []"
proof -
  have p: "always () v = (True, v, ())" for v :: wait_state by (simp add: always_def)
  obtain v s1 wl where n: "wl_val (cv_waiters cv) i = Some v"
    "unlink_waiter (cv_waiters cv) i always () = Some (Some v, (), s1)"
    "remove_unlinked_waiter s1 i = Some (v, wl)" "co.owned wl (P(f := None)) woken"
    "wl_val wl = (wl_val (cv_waiters cv))(i := None)" "wl_queue wl = removeAll i (wl_queue (cv_waiters cv))"
    "ws_waker v = (if i \<in> set (wl_queue (cv_waiters cv)) then Some w else None)"
    by (rule co.leave [where p = always, OF o f p])
  have k: "notified (cv_waiters cv) = notified wl + of_bool (v = NotifiedOne)"
    using notified_change [OF n(5)] n(1) by (simp add: one_node_def)
  have v: "waiter_mut (cv_waiters cv) i = Some NotifiedOne \<longleftrightarrow> v = NotifiedOne" using n(1) by (simp add: waiter_mut_eq)
  have "co.owned (cv_waiters cv') (P(f := None)) (woken @ ws) \<and>
    notified (cv_waiters cv') + of_bool (v = NotifiedOne \<and> ws = []) = notified (cv_waiters cv) \<and>
    (v = NotifiedOne \<longrightarrow> ws = [] \<longrightarrow> wl_queue (cv_waiters cv) = [])"
  proof (cases "v = NotifiedOne")
    case True
    obtain r wl' where t: "co.take_first wl NotifiedOne = Some (r, wl')"
      "co.owned wl' (P(f := None)) (woken @ opt_list r)"
      "notified wl' = notified wl + length (opt_list r) * one_node NotifiedOne" "r = None \<longleftrightarrow> wl_queue wl = []"
      by (rule take_first_notified [OF n(4), of NotifiedOne]) auto
    have "wl_queue wl = wl_queue (cv_waiters cv)" using n(6,7) True by (auto split: if_splits)
    moreover from t have "ws = opt_list r" "cv' = cv\<lparr>cv_waiters := wl'\<rparr>"
      using d True n by (auto simp: wait_drop_def notify_one_locked_eq)
    ultimately show ?thesis using t k True by (cases r) auto
  next
    case False
    then have "ws = []" "cv' = cv\<lparr>cv_waiters := wl\<rparr>"
      using d n by (auto simp: wait_drop_def split: wait_state.splits)
    with n k False show ?thesis by simp
  qed
  then show "co.owned (cv_waiters cv') (P(f := None)) (woken @ ws)"
    and "notified (cv_waiters cv') + of_bool (waiter_mut (cv_waiters cv) i = Some NotifiedOne \<and> ws = []) =
      notified (cv_waiters cv)"
    and "waiter_mut (cv_waiters cv) i = Some NotifiedOne \<Longrightarrow> ws = [] \<Longrightarrow> wl_queue (cv_waiters cv) = []"
    unfolding v by blast+
qed

section \<open>Every step keeps the invariant\<close>

lemma cv_invD:
  assumes "cv_inv s"
  shows "books cv_wants cv_owns (cs_hold s) (cs_sem s)" and "co.owned (cs_list s) (cv_regs (cs_hold s)) (cs_woken s)"
    and "cs_given s = cs_completed s + cs_vain s + notified (cs_list s) + msum cv_batons (cs_hold s)"
  using assms by (simp_all add: cv_inv_def)

text \<open>A step on the mutex, which leaves the registration alone.\<close>

lemma cv_mutex_step:
  assumes inv: "cv_inv s" and b: "books cv_wants cv_owns ((cs_hold s)(f := y)) (mx_s m)"
    and r: "Option.bind y cv_reg = Option.bind (cs_hold s f) cv_reg"
    and k: "maybe cv_batons y + n = maybe cv_batons (cs_hold s f)"
  shows "cv_inv (s\<lparr>cs_mutex := m, cs_hold := (cs_hold s)(f := y), cs_completed := cs_completed s + n\<rparr>)"
proof -
  have "finite (dom (cs_hold s))" using cv_invD(1) [OF inv] by (simp add: books_def)
  from msum_change [OF this, of cv_batons f y] k b r cv_invD [OF inv] show ?thesis
    by (simp add: cv_inv_def cv_regs_same cv_regs_def [of "cs_hold s"])
qed

text \<open>A step on the condition variable, which leaves the permits alone.\<close>

lemma cv_wait_step:
  assumes inv: "cv_inv s" and o: "co.owned (cv_waiters cv) ((cv_regs (cs_hold s))(f := Option.bind y cv_reg)) (cs_woken s @ ws)"
    and r: "Option.bind y cv_wants = Option.bind (cs_hold s f) cv_wants" "maybe cv_owns y = maybe cv_owns (cs_hold s f)"
    and k: "notified (cv_waiters cv) + maybe cv_batons y + n = notified (cs_list s) + maybe cv_batons (cs_hold s f)"
  shows "cv_inv (s\<lparr>cs_cv := cv, cs_hold := (cs_hold s)(f := y), cs_woken := cs_woken s @ ws, cs_vain := cs_vain s + n\<rparr>)"
proof -
  have fin: "finite (dom (cs_hold s))" using cv_invD(1) [OF inv] by (simp add: books_def)
  have "books cv_wants cv_owns ((cs_hold s)(f := y)) (cs_sem s)"
    by (rule books_same [OF cv_invD(1) [OF inv] r])
  with msum_change [OF fin, of cv_batons f y] k o cv_invD(3) [OF inv] show ?thesis
    by (simp add: cv_inv_def cv_regs_upd)
qed

lemma cv_step_inv: "cv_step s s' \<Longrightarrow> cv_inv s \<Longrightarrow> cv_inv s'"
proof (induction rule: cv_step.induct)
  case (lock s f g)
  have "books cv_wants cv_owns ((cs_hold s)(f \<mapsto> Locking g)) (mx_s (mutex_lock f (cs_mutex s)))"
    using lock books_acquire [OF cv_invD(1) [OF lock(2)], where f = f and y = "Some (Locking g)"] by (simp add: mutex_lock_def)
  from cv_mutex_step [OF lock(2) this, of 0] lock show ?case by simp
next
  case (lock_pending s f g w m)
  obtain S where "call_poll f w (cs_sem s) = Some (Pending, S)" "m = (cs_mutex s)\<lparr>mx_s := S\<rparr>"
    by (rule mutex_lock_poll_cases [OF lock_pending(2)])
  with books_pending [OF cv_invD(1) [OF lock_pending(3)]] lock_pending(3) show ?case by (simp add: cv_inv_def)
next
  case (lock_ready s f g w m)
  obtain S where S: "call_poll f w (cs_sem s) = Some (Ready (), S)" "m = (cs_mutex s)\<lparr>mx_s := S\<rparr>"
    by (rule mutex_lock_poll_cases [OF lock_ready(2)])
  have "books cv_wants cv_owns ((cs_hold s)(f \<mapsto> Guard g)) (mx_s m)"
    using books_ready [OF cv_invD(1) [OF lock_ready(3)] S(1), of 1 "Some (Guard g)"] lock_ready(1) S(2) by simp
  from cv_mutex_step [OF lock_ready(3) this, of 0] lock_ready(1) show ?case by simp
next
  case (try_lock s f g r m)
  obtain ok S where S: "call_try 1 (cs_sem s) = (ok, S)" "m = (cs_mutex s)\<lparr>mx_s := S\<rparr>" "r = (if ok then Some g else None)"
    by (rule mutex_try_lock_cases [OF try_lock(2)])
  have "books cv_wants cv_owns ((cs_hold s)(f := map_option Guard r)) (mx_s m)"
    using books_try [OF cv_invD(1) [OF try_lock(3)] S(1), of "map_option Guard r" f] try_lock(1) S(2,3) by simp
  from cv_mutex_step [OF try_lock(3) this, of 0] try_lock(1) S(3) show ?case by simp
next
  case (lock_cancel s f g t m)
  obtain S where S: "call_drop t f (cs_sem s) = Some S" "m = (cs_mutex s)\<lparr>mx_s := S\<rparr>"
    by (rule mutex_cancel_cases [OF lock_cancel(3)])
  have "books cv_wants cv_owns ((cs_hold s)(f := None)) (mx_s m)"
    using books_drop [OF cv_invD(1) [OF lock_cancel(4)] S(1), of None] lock_cancel(1) S(2) by simp
  from cv_mutex_step [OF lock_cancel(4) this, of 0] lock_cancel(1) show ?case by simp
next
  case (unlock s f g t m)
  obtain S where S: "call_release_slow t 1 (cs_sem s) = Some S" "m = (cs_mutex s)\<lparr>mx_s := S\<rparr>"
    by (rule guard_drop_cases [OF unlock(3)])
  have "books cv_wants cv_owns ((cs_hold s)(f := None)) (mx_s m)"
    using books_release_slow [OF cv_invD(1) [OF unlock(4)] S(1), of None f] unlock(1) S(2) by simp
  from cv_mutex_step [OF unlock(4) this, of 0] unlock(1) show ?case by simp
next
  case (map_guard s f g)
  have "books cv_wants cv_owns ((cs_hold s)(f \<mapsto> Guard (mapped_kind g))) (mx_s (cs_mutex s))"
    using books_same [OF cv_invD(1) [OF map_guard(2)], of "Some (Guard (mapped_kind g))" f] map_guard(1) by simp
  from cv_mutex_step [OF map_guard(2) this, of 0] map_guard(1) show ?case by simp
next
  case (write_value s f g v)
  then show ?case by (simp add: cv_inv_def mx_deref_mut_def)
next
  case (round t s S)
  then show ?case using books_round [OF cv_invD(1) [OF round(2)]] by (simp add: cv_inv_def)
next
  case (register s f g w i cv)
  obtain wl where p: "push_back (cs_list s) (Waiting w) = Some (i, wl)" "cv = (cs_cv s)\<lparr>cv_waiters := wl\<rparr>"
    using register(3) by (auto simp: wait_register_def panic_simps)
  have n: "cv_regs (cs_hold s) f = None" using register(1) by (simp add: cv_regs_live)
  note park = co.park_new [OF cv_invD(2) [OF register(4)] n p(1)]
  have "wl_val (cs_list s) i = None"
    using wq.push_law [OF co.owned_inv [OF cv_invD(2) [OF register(4)]] p(1)] by blast
  then have "notified wl = notified (cs_list s)" using notified_change [OF park(3)] by simp
  with cv_wait_step [OF register(4), of cv f "Some (Registered g i w (length (cs_woken s)))" "[]" 0] park(1) p register(1)
  show ?case by simp
next
  case (release s f g i w k t m)
  obtain S where S: "call_release_slow t 1 (cs_sem s) = Some S" "m = (cs_mutex s)\<lparr>mx_s := S\<rparr>"
    by (rule guard_drop_cases [OF release(3)])
  have "books cv_wants cv_owns ((cs_hold s)(f \<mapsto> Parked g i w k)) (mx_s m)"
    using books_release_slow [OF cv_invD(1) [OF release(4)] S(1), of "Some (Parked g i w k)" f] release(1) S(2) by simp
  from cv_mutex_step [OF release(4) this, of 0] release(1) show ?case by simp
next
  case (wait_pending s f g i w0 k w cv)
  have r: "cv_regs (cs_hold s) f = Some (i, w0, k)" using wait_pending(1) by (simp add: cv_regs_live)
  show ?case
    using cv_wait_step [OF wait_pending(3), of cv f "Some (Parked g i w (length (cs_woken s)))" "[]" 0] wait_pending(1,2)
    by (cases rule: wait_poll_spec [OF cv_invD(2) [OF wait_pending(3)] r, of w]) simp_all
next
  case (wait_ready s f g i w0 k w baton cv)
  have r: "cv_regs (cs_hold s) f = Some (i, w0, k)" using wait_ready(1) by (simp add: cv_regs_live)
  obtain o: "co.owned (cv_waiters cv) ((cv_regs (cs_hold s))(f := None)) (cs_woken s)"
    and n: "notified (cs_list s) = notified (cv_waiters cv) + of_bool baton"
    using wait_ready(2) by (cases rule: wait_poll_spec [OF cv_invD(2) [OF wait_ready(3)] r, of w]) auto
  have fin: "finite (dom (cs_hold s))" using cv_invD(1) [OF wait_ready(3)] by (simp add: books_def)
  have "books cv_wants cv_owns ((cs_hold s)(f \<mapsto> Relocking g baton)) (mx_s (mutex_lock f (cs_mutex s)))"
    using books_acquire [OF cv_invD(1) [OF wait_ready(3)], where f = f and y = "Some (Relocking g baton)"] wait_ready(1)
    by (simp add: mutex_lock_def)
  with o n msum_change [OF fin, of cv_batons f "Some (Relocking g baton)"] cv_invD(3) [OF wait_ready(3)] wait_ready(1)
  show ?case by (simp add: cv_inv_def cv_regs_upd)
next
  case (wait_cancel s f g i w k ws cv)
  have r: "cv_regs (cs_hold s) f = Some (i, w, k)" using wait_cancel(1) by (simp add: cv_regs_live)
  note d = wait_drop_spec [OF cv_invD(2) [OF wait_cancel(3)] r wait_cancel(2)]
  show ?case
    using cv_wait_step [OF wait_cancel(3), of cv f None ws "of_bool (waiter_mut (cs_list s) i = Some NotifiedOne \<and> ws = [])"]
      d wait_cancel(1) by simp
next
  case (relock_pending s f g baton w m)
  obtain S where "call_poll f w (cs_sem s) = Some (Pending, S)" "m = (cs_mutex s)\<lparr>mx_s := S\<rparr>"
    by (rule mutex_lock_poll_cases [OF relock_pending(2)])
  with books_pending [OF cv_invD(1) [OF relock_pending(3)]] relock_pending(3) show ?case by (simp add: cv_inv_def)
next
  case (relock_ready s f g baton w m)
  obtain S where S: "call_poll f w (cs_sem s) = Some (Ready (), S)" "m = (cs_mutex s)\<lparr>mx_s := S\<rparr>"
    by (rule mutex_lock_poll_cases [OF relock_ready(2)])
  have "books cv_wants cv_owns ((cs_hold s)(f \<mapsto> Guard g)) (mx_s m)"
    using books_ready [OF cv_invD(1) [OF relock_ready(3)] S(1), of 1 "Some (Guard g)"] relock_ready(1) S(2) by simp
  from cv_mutex_step [OF relock_ready(3) this, of "of_bool baton"] relock_ready(1) show ?case by simp
next
  case (relock_cancel s f g baton t m)
  obtain S where S: "call_drop t f (cs_sem s) = Some S" "m = (cs_mutex s)\<lparr>mx_s := S\<rparr>"
    by (rule mutex_cancel_cases [OF relock_cancel(3)])
  have "books cv_wants cv_owns ((cs_hold s)(f \<mapsto> Passing baton)) (mx_s m)"
    using books_drop [OF cv_invD(1) [OF relock_cancel(4)] S(1), of "Some (Passing baton)"] relock_cancel(1) S(2) by simp
  from cv_mutex_step [OF relock_cancel(4) this, of 0] relock_cancel(1) show ?case by simp
next
  case (pass_baton s f baton ws cv)
  have n: "(cv_regs (cs_hold s))(f := None) = cv_regs (cs_hold s)" using pass_baton(1) by (auto simp: cv_regs_def)
  show ?case
  proof (cases baton)
    case True
    then have "cv_notify_one (cs_cv s) = Some (ws, cv)" using pass_baton(2) by (simp add: baton_drop_def)
    note d = cv_notify_one_spec [OF cv_invD(2) [OF pass_baton(3)] this]
    have "length ws + of_bool (ws = []) = 1" using d(3) by (cases ws) (auto split: if_splits)
    with cv_wait_step [OF pass_baton(3), of cv f None ws "of_bool (baton \<and> ws = [])"] d pass_baton(1) True n
    show ?thesis by simp
  next
    case False
    with cv_wait_step [OF pass_baton(3), of cv f None ws 0] cv_invD(2) [OF pass_baton(3)] pass_baton(1,2) n
    show ?thesis by (simp add: baton_drop_def)
  qed
next
  case (notify_one s ws cv)
  then show ?case
    using cv_notify_one_spec [OF cv_invD(2) [OF notify_one(2)] notify_one(1)] by (simp add: cv_inv_def)
next
  case (notify_all s ws cv)
  then show ?case
    using cv_notify_all_spec [OF cv_invD(2) [OF notify_all(2)] notify_all(1)] by (simp add: cv_inv_def)
qed

lemma cv_regs_empty: "cv_regs Map.empty = (\<lambda>f. None)"
  by (simp add: cv_regs_def fun_eq_iff)

lemma cv_init_inv: "cv_inv (cv_init v)"
  by (simp add: cv_inv_def cv_init_def mutex_new_def books_init condvar_new_def notified_def wl_val_new
      cv_regs_empty co.owned_empty)

text \<open>Every step makes plain calls on the semaphore of the mutex.\<close>

lemma cv_fresh: "cv_inv s \<Longrightarrow> Option.bind (cs_hold s f) cv_wants = None \<Longrightarrow> ss_futs (cs_sem s) f = None"
  using books_fut(1) [OF cv_invD(1)] by blast

lemma one_bound: "(1::nat) \<le> usize_max"
  by (simp add: usize_max_def)

lemma cv_step_sem: "cv_step s s' \<Longrightarrow> cv_inv s \<Longrightarrow> sem_inv (cs_sem s) \<Longrightarrow> plain_step\<^sup>*\<^sup>* (cs_sem s) (cs_sem s')"
proof (induction rule: cv_step.induct)
  case (lock s f g)
  with cv_fresh [of s f] one_bound show ?case by (simp add: mutex_lock_def call_acquire_step)
next
  case (lock_pending s f g w m)
  then show ?case using call_poll_step by (auto elim!: mutex_lock_poll_cases)
next
  case (lock_ready s f g w m)
  then show ?case using call_poll_step by (auto elim!: mutex_lock_poll_cases)
next
  case (try_lock s f g r m)
  obtain ok S where "call_try 1 (cs_sem s) = (ok, S)" "m = (cs_mutex s)\<lparr>mx_s := S\<rparr>"
    by (rule mutex_try_lock_cases [OF try_lock(2)])
  with call_try_step show ?case by simp
next
  case (lock_cancel s f g t m)
  then show ?case using call_drop_step [OF _ lock_cancel(2)] by (auto elim!: mutex_cancel_cases)
next
  case (unlock s f g t m)
  then show ?case using call_release_slow_step [OF _ unlock(2) one_bound] by (auto elim!: guard_drop_cases)
next
  case (round t s S)
  then show ?case using call_round_step by simp
next
  case (release s f g i w k t m)
  then show ?case using call_release_slow_step [OF _ release(2) one_bound] by (auto elim!: guard_drop_cases)
next
  case (wait_ready s f g i w0 k w baton cv)
  with cv_fresh [of s f] one_bound show ?case by (simp add: mutex_lock_def call_acquire_step)
next
  case (relock_pending s f g baton w m)
  then show ?case using call_poll_step by (auto elim!: mutex_lock_poll_cases)
next
  case (relock_ready s f g baton w m)
  then show ?case using call_poll_step by (auto elim!: mutex_lock_poll_cases)
next
  case (relock_cancel s f g baton t m)
  then show ?case using call_drop_step [OF _ relock_cancel(2)] by (auto elim!: mutex_cancel_cases)
qed (simp_all add: mx_deref_mut_def)

interpretation mx: permit_client "cv_init v" cv_step "\<lambda>s. cs_sem s" "\<lambda>s. msum cv_owns (cs_hold s)" 1 cv_inv for v
proof unfold_locales
  show "cs_sem (cv_init v) = sem_init 1" by (simp add: cv_init_def mutex_new_def)
  show "plain_step\<^sup>*\<^sup>* (cs_sem s) (cs_sem s')" if "cv_step s s'" "cv_inv s" "sem_ok 1 (cs_sem s)" for s s'
    using that cv_step_sem by (auto simp: sem_ok_def)
  show "ss_acquired (cs_sem s) = msum cv_owns (cs_hold s) + ss_released (cs_sem s)" if "cv_inv s" for s :: "'a cv_sys"
    using cv_invD(1) [OF that] by (simp add: books_def)
qed (rule cv_init_inv, rule cv_step_inv)

lemma mutex_exclusive:
  assumes run: "cv_step\<^sup>*\<^sup>* (cv_init v) s" and f: "cs_hold s f = Some h" "cv_owns h = 1"
    and g: "cs_hold s g = Some h'" "cv_owns h' = 1"
  shows "g = f"
proof (rule ccontr)
  assume "g \<noteq> f"
  have inv: "cv_inv s" using mx.client_reach [OF run] by blast
  have fin: "finite (dom (cs_hold s))" using cv_invD(1) [OF inv] by (simp add: books_def)
  have "2 \<le> msum cv_owns (cs_hold s)"
    using msum_delete [OF fin f(1), of cv_owns] msum_ge [of "(cs_hold s)(f := None)" g h' cv_owns] fin f(2) g \<open>g \<noteq> f\<close>
    by simp
  with mx.client_held [OF run] show False by simp
qed

text \<open>No call on the condition variable panics, and a wait is dropped only while it is live.\<close>

lemma cv_no_panic:
  assumes "cv_inv s"
  shows "\<exists>ws cv. cv_notify_one (cs_cv s) = Some (ws, cv)" and "\<exists>ws cv. cv_notify_all (cs_cv s) = Some (ws, cv)"
    and "cs_hold s f = Some (Parked g i w k) \<Longrightarrow> \<exists>r. wait_poll (cs_cv s) i w' = Some r"
    and "cs_hold s f = Some (Parked g i w k) \<Longrightarrow> \<exists>ws cv. wait_drop (cs_cv s) i = Some (ws, cv)"
proof -
  note o = cv_invD(2) [OF assms]
  show "\<exists>ws cv. cv_notify_one (cs_cv s) = Some (ws, cv)"
  proof -
    obtain r wl where "co.take_first (cs_list s) NotifiedOne = Some (r, wl)"
      by (rule take_first_notified [OF o, of NotifiedOne]) simp
    then show ?thesis by (simp add: cv_notify_one_def notify_one_locked_eq)
  qed
  show "\<exists>ws cv. cv_notify_all (cs_cv s) = Some (ws, cv)"
  proof -
    obtain wl b where l: "loop notify_all_body (cs_list s, wb_new) = Some (wl, b)" "wb_inv b"
      by (rule notify_all_loop [OF o])
    obtain b' where "wb_wake_all b = Some (wb_list b, b')" by (rule wb_wake_all_spec [OF l(2)])
    with l show ?thesis by (simp add: cv_notify_all_def)
  qed
  show "\<exists>r. wait_poll (cs_cv s) i w' = Some r" if f: "cs_hold s f = Some (Parked g i w k)"
  proof -
    have r: "cv_regs (cs_hold s) f = Some (i, w, k)" using f by (simp add: cv_regs_live)
    show ?thesis by (rule wait_poll_spec [OF o r, of w']) blast+
  qed
  show "\<exists>ws cv. wait_drop (cs_cv s) i = Some (ws, cv)" if f: "cs_hold s f = Some (Parked g i w k)"
  proof -
    have r: "cv_regs (cs_hold s) f = Some (i, w, k)" using f by (simp add: cv_regs_live)
    have p: "always () v = (True, v, ())" for v :: wait_state by (simp add: always_def)
    obtain v s1 wl where n: "unlink_waiter (cs_list s) i always () = Some (Some v, (), s1)"
      "remove_unlinked_waiter s1 i = Some (v, wl)" "co.owned wl ((cv_regs (cs_hold s))(f := None)) (cs_woken s)"
      by (rule co.leave [where p = always, OF o r p])
    obtain t wl' where "co.take_first wl NotifiedOne = Some (t, wl')"
      by (rule take_first_notified [OF n(3), of NotifiedOne]) simp
    with n(1,2) show ?thesis by (cases v) (simp_all add: wait_drop_def notify_one_locked_eq)
  qed
qed

text \<open>A baton is given up only when no wait is queued.\<close>

lemma cv_step_vain:
  assumes "cv_step s s'" and "cv_inv s" and "cs_vain s' \<noteq> cs_vain s"
  shows "wl_queue (cs_list s) = []"
  using assms
proof (induction rule: cv_step.induct)
  case (wait_cancel s f g i w k ws cv)
  have r: "cv_regs (cs_hold s) f = Some (i, w, k)" using wait_cancel(1) by (simp add: cv_regs_live)
  from wait_drop_spec(3) [OF cv_invD(2) [OF wait_cancel(3)] r wait_cancel(2)] wait_cancel(4) show ?case
    by (auto simp: of_bool_def split: if_splits)
next
  case (pass_baton s f baton ws cv)
  then show ?case using cv_notify_one_spec(3) [OF cv_invD(2) [OF pass_baton(3)], of ws cv]
    by (auto simp: baton_drop_def of_bool_def split: if_splits)
qed auto

section \<open>A run\<close>

text \<open>One thread takes the mutex and registers its wait; another notifies it.\<close>

definition demo_condvar :: "(nat \<Rightarrow> cv_handle option) \<Rightarrow> wait_state wait_list \<Rightarrow> waker list \<Rightarrow> nat \<Rightarrow> nat cv_sys" where
  "demo_condvar H wl ws n = \<lparr>cs_mutex = \<lparr>mx_s = (sem_init 1)\<lparr>ss_sem := sem_new 0, ss_acquired := 1\<rparr>, mx_c = 5\<rparr>,
     cs_cv = \<lparr>cv_waiters = wl\<rparr>, cs_hold = H, cs_woken = ws, cs_given = n, cs_completed = 0, cs_vain = 0\<rparr>"

definition demo_registered :: "nat \<Rightarrow> cv_handle option" where
  "demo_registered = [0 \<mapsto> Registered MutexGuard node_id 7 0]"

lemma demo_condvar_notified:
  "cv_step\<^sup>*\<^sup>* (cv_init 5) (demo_condvar demo_registered (one_waiter False NotifiedOne) [7] 1)"
proof -
  let ?a = "demo_condvar [0 \<mapsto> Guard MutexGuard] wl_new [] 0"
    and ?b = "demo_condvar demo_registered (one_waiter True (Waiting 7)) [] 0"
  have "mutex_try_lock MutexGuard (cs_mutex (cv_init 5)) = (Some MutexGuard, cs_mutex ?a)"
    by (simp add: mutex_try_lock_def cv_init_def mutex_new_def demo_condvar_def call_try_def try_acquire_eq
        sem_init_def sem_new_def)
  then have "cv_step (cv_init 5) ?a"
    using cv_step.try_lock [of "cv_init 5" 0 MutexGuard "Some MutexGuard" "cs_mutex ?a"]
    by (simp add: cv_init_def demo_condvar_def condvar_new_def)
  moreover have "cv_step ?a ?b"
    using cv_step.register [of ?a 0 MutexGuard 7 node_id "\<lparr>cv_waiters = one_waiter True (Waiting 7)\<rparr>"]
    by (simp add: demo_condvar_def demo_registered_def wait_register_def one_waiter_simps)
  moreover have "cv_step ?b (demo_condvar demo_registered (one_waiter False NotifiedOne) [7] 1)"
    using cv_step.notify_one [of ?b "[7]" "\<lparr>cv_waiters = one_waiter False NotifiedOne\<rparr>"]
    by (simp add: demo_condvar_def cv_notify_one_def notify_one_locked_def one_waiter_unlink always_def one_waiter_simps)
  ultimately show ?thesis by (meson run_step rtranclp.rtrancl_refl)
qed

section \<open>Properties\<close>

text \<open>
  C34: no notification is lost. Every baton that \<open>notify_one\<close> handed to a wait was completed by a
  wait that holds the mutex again, or was given up at a moment when no wait was queued, or is
  still carried by a live wait. A notified wait has been woken since its last poll and its next
  poll completes. At most one handle holds the mutex.
\<close>

theorem condvar_no_lost_notification:
  assumes "cv_step\<^sup>*\<^sup>* (cv_init v) s"
  shows "cs_given s = cs_completed s + cs_vain s + notified (cs_list s) + msum cv_batons (cs_hold s) \<and>
    (\<forall>s'. cv_step s s' \<longrightarrow> cs_vain s' \<noteq> cs_vain s \<longrightarrow> wl_queue (cs_list s) = []) \<and>
    (\<forall>f i w k. cv_regs (cs_hold s) f = Some (i, w, k) \<longrightarrow> i \<notin> set (wl_queue (cs_list s)) \<longrightarrow>
       w \<in> set (drop k (cs_woken s)) \<and> (\<forall>w'. \<exists>b cv. wait_poll (cs_cv s) i w' = Some (Ready b, cv))) \<and>
    (\<forall>f g h h'. cs_hold s f = Some h \<longrightarrow> cs_hold s g = Some h' \<longrightarrow> cv_owns h = 1 \<longrightarrow> cv_owns h' = 1 \<longrightarrow> g = f)"
proof (intro conjI allI impI)
  have inv: "cv_inv s" using mx.client_reach [OF assms] by blast
  show "cs_given s = cs_completed s + cs_vain s + notified (cs_list s) + msum cv_batons (cs_hold s)"
    by (rule cv_invD(3) [OF inv])
  show "wl_queue (cs_list s) = []" if "cv_step s s'" "cs_vain s' \<noteq> cs_vain s" for s'
    by (rule cv_step_vain [OF that(1) inv that(2)])
  show "w \<in> set (drop k (cs_woken s))" if "cv_regs (cs_hold s) f = Some (i, w, k)" "i \<notin> set (wl_queue (cs_list s))" for f i w k
    using co.owned_taken(2) [OF cv_invD(2) [OF inv]] that by blast
  show "\<exists>b cv. wait_poll (cs_cv s) i w' = Some (Ready b, cv)"
    if "cv_regs (cs_hold s) f = Some (i, w, k)" "i \<notin> set (wl_queue (cs_list s))" for f i w k w'
    by (rule wait_poll_spec [OF cv_invD(2) [OF inv] that(1), of w']) (use that(2) in blast)+
  show "g = f" if "cs_hold s f = Some h" "cs_hold s g = Some h'" "cv_owns h = 1" "cv_owns h' = 1" for f g h h'
    using mutex_exclusive [OF assms that(1,3,2,4)] .
qed

theorem condvar_no_lost_notification_witness:
  "notified (one_waiter False NotifiedOne) = 1 \<and> 7 \<in> set (drop 0 [7::waker]) \<and>
   (\<exists>b cv. wait_poll \<lparr>cv_waiters = one_waiter False NotifiedOne\<rparr> node_id 9 = Some (Ready b, cv))"
proof -
  let ?s = "demo_condvar demo_registered (one_waiter False NotifiedOne) [7] 1"
  note t = condvar_no_lost_notification [OF demo_condvar_notified]
  have "cv_regs (cs_hold ?s) 0 = Some (node_id, 7, 0)"
    by (simp add: cv_regs_def demo_condvar_def demo_registered_def)
  moreover have "node_id \<notin> set (wl_queue (cs_list ?s))" by (simp add: demo_condvar_def one_waiter_simps)
  ultimately have "7 \<in> set (drop 0 (cs_woken ?s)) \<and> (\<exists>b cv. wait_poll (cs_cv ?s) node_id 9 = Some (Ready b, cv))"
    using t by blast
  moreover have "msum cv_batons demo_registered = 0"
    by (simp add: msum_def demo_registered_def)
  then have "notified (one_waiter False NotifiedOne) = 1" using t by (simp add: demo_condvar_def)
  ultimately show ?thesis by (simp add: demo_condvar_def)
qed

end
