(* ===== verification/Registrations.thy ===== *)
theory Registrations
  imports WakerSet
begin

text \<open>
  Futures that park in a waker set until a condition ends, and are all woken and forgotten when it
  does (\<open>watch\<close>, \<open>completion\<close>). A future keeps the token of its registration, the waker of its
  last poll and the number of wakers woken before that poll; \<open>live\<close> says for which futures the
  condition still holds. The futures that are no longer live have been woken since their last
  poll, and the set holds exactly the others.
\<close>

type_synonym 'f registrations = "'f \<Rightarrow> (waker_token \<times> waker \<times> nat) option"

definition still_parked :: "'f registrations \<Rightarrow> ('f \<Rightarrow> bool) \<Rightarrow> 'f \<Rightarrow> (waker_token \<times> waker) option" where
  "still_parked R live f = (if live f then map_option (\<lambda>(t, w, m). (t, w)) (R f) else None)"

definition reg_ok :: "waker_set \<Rightarrow> 'f registrations \<Rightarrow> ('f \<Rightarrow> bool) \<Rightarrow> waker list \<Rightarrow> bool" where
  "reg_ok ws R live woken \<longleftrightarrow> reg.owned ws (still_parked R live) \<and>
     (\<forall>f t w m. R f = Some (t, w, m) \<longrightarrow> m \<le> length woken \<and> (live f \<or> w \<in> set (drop m woken)))"

lemma reg_okD:
  assumes "reg_ok ws R live woken"
  shows "reg.owned ws (still_parked R live)" and "ws_inv ws"
    and "R f = Some (t, w, m) \<Longrightarrow> m \<le> length woken"
    and "R f = Some (t, w, m) \<Longrightarrow> \<not> live f \<Longrightarrow> w \<in> set (drop m woken)"
  using assms reg.owned_inv unfolding reg_ok_def by blast+

lemma reg_ok_new: "reg_ok ws_new (\<lambda>f. None) live woken"
proof -
  have "still_parked (\<lambda>f. None) live = Map.empty" by (auto simp: still_parked_def)
  then show ?thesis by (simp add: reg_ok_def)
qed

lemma still_parked_fst: "live f \<Longrightarrow> map_option fst (still_parked R live f) = map_option fst (R f)"
  by (cases "R f") (auto simp: still_parked_def)

lemma still_parked_upd:
  "still_parked (R(f := y)) live = (still_parked R live)(f := (if live f then map_option (\<lambda>(t, w, m). (t, w)) y else None))"
  by (auto simp: still_parked_def)

lemma reg_ok_cong:
  assumes "reg_ok ws R live woken" and "\<And>f. R f \<noteq> None \<Longrightarrow> live' f = live f"
  shows "reg_ok ws R live' woken"
proof -
  have "still_parked R live' f = still_parked R live f" for f
    using assms(2) [of f] by (cases "R f") (simp_all add: still_parked_def)
  then have "still_parked R live' = still_parked R live" by (rule ext)
  moreover have "live' f \<or> w \<in> set (drop m woken)" if "R f = Some (t, w, m)" for f t w m
    using assms that by (auto simp: reg_ok_def)
  ultimately show ?thesis using assms(1) by (simp add: reg_ok_def)
qed

lemma reg_ok_register:
  assumes ok: "reg_ok ws R live woken" and f: "live f"
    and r: "ws_register ws (map_option fst (R f)) w = Some (retired, tok, ws')"
  obtains t where "tok = Some t" and "reg_ok ws' (R(f \<mapsto> (t, w, length woken))) live woken"
proof -
  obtain t where t: "tok = Some t" "reg.owned ws' ((still_parked R live)(f \<mapsto> (t, w)))"
    using reg.park [OF reg_okD(1) [OF ok], where f = f] r still_parked_fst [of live f R] f by metis
  have "reg_ok ws' (R(f \<mapsto> (t, w, length woken))) live woken"
    using ok t(2) f by (auto simp: reg_ok_def still_parked_upd)
  with t(1) show thesis by (rule that)
qed

lemma reg_ok_register_total:
  assumes "reg_ok ws R live woken" and "live f" and "R f = None \<Longrightarrow> ws_room ws"
  shows "\<exists>r t ws'. ws_register ws (map_option fst (R f)) w = Some (r, Some t, ws')"
proof -
  have "ws_room ws" if "still_parked R live f = None" using that assms by (simp add: still_parked_def)
  from reg.park_total [OF reg_okD(1) [OF assms(1)], where f = f and w = w, OF this] show ?thesis
    by (simp add: still_parked_fst [of live f, OF assms(2)])
qed

lemma reg_ok_forget:
  assumes "reg_ok ws R live woken" and "\<not> live f"
  shows "reg_ok ws (R(f := None)) live woken"
proof -
  have "still_parked (R(f := None)) live = still_parked R live" using assms(2) by (auto simp: still_parked_def)
  then show ?thesis using assms(1) by (auto simp: reg_ok_def)
qed

lemma reg_ok_unregister:
  assumes ok: "reg_ok ws R live woken" and f: "live f" "R f = Some (t, w, m)"
  obtains ws' where "ws_unregister ws (Some t) = Some (Some w, None, ws')"
    and "reg_ok ws' (R(f := None)) live woken"
proof -
  have "still_parked R live f = Some (t, w)" using f by (simp add: still_parked_def)
  then obtain ws' where u: "ws_unregister ws (Some t) = Some (Some w, None, ws')"
    "reg.owned ws' ((still_parked R live)(f := None))"
    using reg.unpark [OF reg_okD(1) [OF ok]] by blast
  have "reg_ok ws' (R(f := None)) live woken"
    using ok u(2) f by (auto simp: reg_ok_def still_parked_upd)
  with u(1) show thesis by (rule that)
qed

text \<open>The condition ends: the wakers of the whole set are woken, and nobody is live any more.\<close>

lemma reg_ok_end:
  fixes R :: "'f registrations"
  assumes ok: "reg_ok ws R live woken" and ws: "{w. \<exists>f t. still_parked R live f = Some (t, w)} \<subseteq> set new"
    and none: "\<And>f. R f \<noteq> None \<Longrightarrow> \<not> live' f" and empty: "reg.owned ws' (Map.empty :: 'f \<Rightarrow> _)"
  shows "reg_ok ws' R live' (woken @ new)"
  unfolding reg_ok_def
proof (intro conjI allI impI)
  have "still_parked R live' f = None" for f using none [of f] by (cases "R f") (simp_all add: still_parked_def)
  then have "still_parked R live' = Map.empty" by (rule ext)
  with empty show "reg.owned ws' (still_parked R live')" by simp
next
  fix f t w m
  assume f: "R f = Some (t, w, m)"
  then show "m \<le> length (woken @ new)" using reg_okD(3) [OF ok f] by simp
  have "w \<in> set (drop m (woken @ new))"
  proof (cases "live f")
    case True
    with f have "still_parked R live f = Some (t, w)" by (simp add: still_parked_def)
    with ws have "w \<in> set new" by blast
    with reg_okD(3) [OF ok f] show ?thesis by simp
  next
    case False
    with reg_okD(4) [OF ok f] show ?thesis by simp
  qed
  then show "live' f \<or> w \<in> set (drop m (woken @ new))" by blast
qed

lemma reg_ok_wake_all:
  assumes "reg_ok ws R live woken" and "\<And>f. R f \<noteq> None \<Longrightarrow> \<not> live' f"
  shows "reg_ok ws_new R live' (woken @ ws_wake_all ws)"
  by (rule reg_ok_end [OF assms(1) _ assms(2)]) (simp_all add: owned_wake_all [OF reg_okD(1) [OF assms(1)]])

lemma reg_ok_take_all:
  fixes R :: "'f registrations"
  assumes "reg_ok ws R live woken" and "\<And>f. R f \<noteq> None \<Longrightarrow> \<not> live' f"
  obtains b ws' where "ws_take_all ws = Some (b, ws')" and "wb_inv b" and "reg_ok ws' R live' (woken @ wb_list b)"
proof -
  obtain b ws' where b: "ws_take_all ws = Some (b, ws')" "wb_inv b"
    "set (wb_list b) = {w. \<exists>f t. still_parked R live f = Some (t, w)}" "reg.owned ws' (Map.empty :: 'f \<Rightarrow> _)"
    by (rule reg.wake [OF reg_okD(1) [OF assms(1)]])
  show thesis by (rule that [OF b(1,2)], rule reg_ok_end [OF assms(1) _ assms(2) b(4)]) (simp_all add: b(3))
qed

section \<open>One registration\<close>

definition only_token :: waker_token where
  "only_token = WakerToken (SlotId (NonZero 0))"

definition one_waker :: "waker \<Rightarrow> waker_set" where
  "one_waker w = \<lparr>ws_wakers = \<lparr>ar_slots = [Occupied w], ar_vacant_head = None, ar_len = 1\<rparr>\<rparr>"

lemma one_waker_simps:
  "ws_register ws_new None w = Some (None, Some only_token, one_waker w)"
  "ws_wake_all (one_waker w) = [w]"
  by (simp_all add: op_defs only_token_def one_waker_def map_filter_simps)

end
