(* ===== verification/Watch.thy ===== *)
theory Watch
  imports Registrations ChannelErrors
begin

text \<open>
  The watch channel of \<open>watch/mod.rs\<close>: one value with a version, which senders replace and
  receivers observe. Every access is under the state lock. A pending \<open>changed\<close> or \<open>recv\<close> borrows
  its receiver, so each receiver has at most one. A \<open>u64\<close> version has the range of a \<open>usize\<close>.
\<close>

section \<open>The channel\<close>

record 'v watch_state =
  wt_value :: 'v
  wt_version :: usize
  wt_senders :: usize
  wt_receivers :: usize
  wt_waiters :: waker_set

definition watch_channel :: "'v \<Rightarrow> 'v watch_state \<times> usize" where
  "watch_channel initial =
     (\<lparr>wt_value = initial, wt_version = 0, wt_senders = 1, wt_receivers = 1, wt_waiters = ws_new\<rparr>, 0)"

definition wt_clone_sender :: "'v watch_state \<Rightarrow> 'v watch_state option" where
  "wt_clone_sender st = do {
     senders \<leftarrow> checked_add (wt_senders st) 1;
     Some (st\<lparr>wt_senders := senders\<rparr>) }"

definition wt_drop_sender :: "'v watch_state \<Rightarrow> (waker list \<times> 'v watch_state) option" where
  "wt_drop_sender st = do {
     senders \<leftarrow> checked_sub (wt_senders st) 1;
     (if senders \<noteq> 0 then Some ([], st\<lparr>wt_senders := senders\<rparr>)
      else Some (ws_wake_all (wt_waiters st), st\<lparr>wt_senders := senders, wt_waiters := ws_new\<rparr>)) }"

definition wt_send_replace :: "'v \<Rightarrow> 'v watch_state \<Rightarrow> ('v \<times> waker list \<times> 'v watch_state) option" where
  "wt_send_replace value st = do {
     version \<leftarrow> checked_add (wt_version st) 1;
     (wakers, waiters) \<leftarrow> ws_take_all (wt_waiters st);
     (woken, wakers) \<leftarrow> wb_wake_all wakers;
     Some (wt_value st, woken, st\<lparr>wt_value := value, wt_version := version, wt_waiters := waiters\<rparr>) }"

definition wt_send ::
  "'v \<Rightarrow> 'v watch_state \<Rightarrow> ((unit, 'v send_error) result \<times> waker list \<times> 'v watch_state) option" where
  "wt_send value st =
     (if wt_receivers st = 0 then Some (Err (SendError value), [], st)
      else do {
        version \<leftarrow> checked_add (wt_version st) 1;
        (wakers, waiters) \<leftarrow> ws_take_all (wt_waiters st);
        (woken, wakers) \<leftarrow> wb_wake_all wakers;
        Some (Ok (), woken, st\<lparr>wt_value := value, wt_version := version, wt_waiters := waiters\<rparr>) })"

text \<open>A subscription starts with the current version as seen.\<close>

definition wt_subscribe :: "'v watch_state \<Rightarrow> (usize \<times> 'v watch_state) option" where
  "wt_subscribe st = do {
     receivers \<leftarrow> checked_add (wt_receivers st) 1;
     Some (wt_version st, st\<lparr>wt_receivers := receivers\<rparr>) }"

definition wt_clone_receiver :: "usize \<Rightarrow> 'v watch_state \<Rightarrow> (usize \<times> 'v watch_state) option" where
  "wt_clone_receiver seen st = do {
     receivers \<leftarrow> checked_add (wt_receivers st) 1;
     Some (seen, st\<lparr>wt_receivers := receivers\<rparr>) }"

definition wt_drop_receiver :: "'v watch_state \<Rightarrow> 'v watch_state option" where
  "wt_drop_receiver st = do {
     receivers \<leftarrow> checked_sub (wt_receivers st) 1;
     Some (st\<lparr>wt_receivers := receivers\<rparr>) }"

definition wt_get :: "'v watch_state \<Rightarrow> 'v" where
  "wt_get st = wt_value st"

definition has_changed :: "usize \<Rightarrow> 'v watch_state \<Rightarrow> (bool, recv_error) result" where
  "has_changed seen st =
     (if wt_version st \<noteq> seen then Ok True
      else if wt_senders st = 0 then Err Disconnected
      else Ok False)"

definition wt_is_disconnected :: "'v watch_state \<Rightarrow> bool" where
  "wt_is_disconnected st = (wt_senders st = 0)"

definition change_poll ::
  "'v watch_state \<Rightarrow> usize \<Rightarrow> waker_token option \<Rightarrow> waker \<Rightarrow>
   ((usize, recv_error) result poll \<times> waker_token option \<times> 'v watch_state) option" where
  "change_poll st seen token waker =
     (if wt_version st \<noteq> seen then Some (Ready (Ok (wt_version st)), None, st)
      else if wt_senders st = 0 then Some (Ready (Err Disconnected), None, st)
      else do {
        (retired, token, waiters) \<leftarrow> ws_register (wt_waiters st) token waker;
        Some (Pending, token, st\<lparr>wt_waiters := waiters\<rparr>) })"

definition change_drop :: "'v watch_state \<Rightarrow> usize \<Rightarrow> waker_token option \<Rightarrow> 'v watch_state option" where
  "change_drop st seen token =
     (if token = None then Some st
      else if wt_version st \<noteq> seen \<or> wt_senders st = 0 then Some st
      else do {
        (waker, token, waiters) \<leftarrow> ws_unregister (wt_waiters st) token;
        Some (st\<lparr>wt_waiters := waiters\<rparr>) })"

text \<open>The end of \<open>recv\<close>: the value and the version are read in one lock region.\<close>

definition recv_read :: "'v watch_state \<Rightarrow> 'v \<times> usize" where
  "recv_read st = (wt_value st, wt_version st)"

section \<open>Senders and receivers\<close>

datatype change_call = Changed | Recv

datatype recv_phase = Idle | Changing change_call "(waker_token \<times> waker \<times> nat) option" | Reading

text \<open>A receiver remembers, beside the version it has seen, everything it has received.\<close>

record 'v watch_recv =
  wr_seen :: usize
  wr_phase :: recv_phase
  wr_got :: "(usize \<times> 'v) list"

record 'v watch_sys =
  wh_state :: "'v watch_state"
  wh_recvs :: "nat \<Rightarrow> 'v watch_recv option"
  wh_log :: "'v list"
  wh_woken :: "waker list"

definition fresh_recv :: "usize \<Rightarrow> 'v watch_recv" where
  "fresh_recv seen = \<lparr>wr_seen = seen, wr_phase = Idle, wr_got = []\<rparr>"

definition watch_init :: "'v \<Rightarrow> 'v watch_sys" where
  "watch_init initial = \<lparr>wh_state = fst (watch_channel initial),
     wh_recvs = [0 \<mapsto> fresh_recv (snd (watch_channel initial))], wh_log = [initial], wh_woken = []\<rparr>"

text \<open>What a completed change does to its receiver.\<close>

fun change_ready :: "change_call \<Rightarrow> (usize, recv_error) result \<Rightarrow> 'v watch_recv \<Rightarrow> 'v watch_recv" where
  "change_ready Changed (Ok seen) r = r\<lparr>wr_seen := seen, wr_phase := Idle\<rparr>"
| "change_ready Recv (Ok seen) r = r\<lparr>wr_phase := Reading\<rparr>"
| "change_ready _ (Err e) r = r\<lparr>wr_phase := Idle\<rparr>"

inductive watch_step :: "'v watch_sys \<Rightarrow> 'v watch_sys \<Rightarrow> bool" where
  clone_sender: "wt_senders (wh_state s) \<noteq> 0 \<Longrightarrow> wt_clone_sender (wh_state s) = Some st \<Longrightarrow>
    watch_step s (s\<lparr>wh_state := st\<rparr>)"
| drop_sender: "wt_senders (wh_state s) \<noteq> 0 \<Longrightarrow> wt_drop_sender (wh_state s) = Some (ws, st) \<Longrightarrow>
    watch_step s (s\<lparr>wh_state := st, wh_woken := wh_woken s @ ws\<rparr>)"
| send: "wt_senders (wh_state s) \<noteq> 0 \<Longrightarrow> wt_send v (wh_state s) = Some (Ok (), ws, st) \<Longrightarrow>
    watch_step s (s\<lparr>wh_state := st, wh_log := wh_log s @ [v], wh_woken := wh_woken s @ ws\<rparr>)"
| send_refused: "wt_senders (wh_state s) \<noteq> 0 \<Longrightarrow> wt_send v (wh_state s) = Some (Err e, ws, st) \<Longrightarrow>
    watch_step s (s\<lparr>wh_state := st, wh_woken := wh_woken s @ ws\<rparr>)"
| send_replace: "wt_senders (wh_state s) \<noteq> 0 \<Longrightarrow> wt_send_replace v (wh_state s) = Some (u, ws, st) \<Longrightarrow>
    watch_step s (s\<lparr>wh_state := st, wh_log := wh_log s @ [v], wh_woken := wh_woken s @ ws\<rparr>)"
| subscribe: "wt_senders (wh_state s) \<noteq> 0 \<Longrightarrow> wh_recvs s f = None \<Longrightarrow>
    wt_subscribe (wh_state s) = Some (seen, st) \<Longrightarrow>
    watch_step s (s\<lparr>wh_state := st, wh_recvs := (wh_recvs s)(f \<mapsto> fresh_recv seen)\<rparr>)"
| clone_receiver: "wh_recvs s f = Some r \<Longrightarrow> wr_phase r = Idle \<Longrightarrow> wh_recvs s g = None \<Longrightarrow>
    wt_clone_receiver (wr_seen r) (wh_state s) = Some (seen, st) \<Longrightarrow>
    watch_step s (s\<lparr>wh_state := st, wh_recvs := (wh_recvs s)(g \<mapsto> fresh_recv seen)\<rparr>)"
| drop_receiver: "wh_recvs s f = Some r \<Longrightarrow> wr_phase r = Idle \<Longrightarrow> wt_drop_receiver (wh_state s) = Some st \<Longrightarrow>
    watch_step s (s\<lparr>wh_state := st, wh_recvs := (wh_recvs s)(f := None)\<rparr>)"
| begin_change: "wh_recvs s f = Some r \<Longrightarrow> wr_phase r = Idle \<Longrightarrow>
    watch_step s (s\<lparr>wh_recvs := (wh_recvs s)(f \<mapsto> r\<lparr>wr_phase := Changing c None\<rparr>)\<rparr>)"
| change_pending: "wh_recvs s f = Some r \<Longrightarrow> wr_phase r = Changing c k \<Longrightarrow>
    change_poll (wh_state s) (wr_seen r) (map_option fst k) w = Some (Pending, Some t, st) \<Longrightarrow>
    watch_step s (s\<lparr>wh_state := st,
      wh_recvs := (wh_recvs s)(f \<mapsto> r\<lparr>wr_phase := Changing c (Some (t, w, length (wh_woken s)))\<rparr>)\<rparr>)"
| change_complete: "wh_recvs s f = Some r \<Longrightarrow> wr_phase r = Changing c k \<Longrightarrow>
    change_poll (wh_state s) (wr_seen r) (map_option fst k) w = Some (Ready x, t, st) \<Longrightarrow>
    watch_step s (s\<lparr>wh_state := st, wh_recvs := (wh_recvs s)(f \<mapsto> change_ready c x r)\<rparr>)"
| change_cancel: "wh_recvs s f = Some r \<Longrightarrow> wr_phase r = Changing c k \<Longrightarrow>
    change_drop (wh_state s) (wr_seen r) (map_option fst k) = Some st \<Longrightarrow>
    watch_step s (s\<lparr>wh_state := st, wh_recvs := (wh_recvs s)(f \<mapsto> r\<lparr>wr_phase := Idle\<rparr>)\<rparr>)"
| receive: "wh_recvs s f = Some r \<Longrightarrow> wr_phase r = Reading \<Longrightarrow> recv_read (wh_state s) = (v, seen) \<Longrightarrow>
    watch_step s (s\<lparr>wh_recvs := (wh_recvs s)(f \<mapsto> r\<lparr>wr_seen := seen, wr_phase := Idle, wr_got := wr_got r @ [(seen, v)]\<rparr>)\<rparr>)"

section \<open>The invariant\<close>

fun phase_reg :: "recv_phase \<Rightarrow> (waker_token \<times> waker \<times> nat) option" where
  "phase_reg (Changing c k) = k"
| "phase_reg _ = None"

definition recv_regs :: "(nat \<Rightarrow> 'v watch_recv option) \<Rightarrow> nat registrations" where
  "recv_regs R f = Option.bind (R f) (\<lambda>r. phase_reg (wr_phase r))"

definition up_to_date :: "'v watch_state \<Rightarrow> (nat \<Rightarrow> 'v watch_recv option) \<Rightarrow> nat \<Rightarrow> bool" where
  "up_to_date st R f \<longleftrightarrow> wt_senders st \<noteq> 0 \<and> (\<exists>r. R f = Some r \<and> wr_seen r = wt_version st)"

definition recv_ok :: "'v list \<Rightarrow> 'v watch_recv \<Rightarrow> bool" where
  "recv_ok log r \<longleftrightarrow> wr_seen r < length log \<and> (wr_phase r = Reading \<longrightarrow> Suc (wr_seen r) < length log) \<and>
     sorted_wrt (<) (map fst (wr_got r)) \<and> (\<forall>(i, v) \<in> set (wr_got r). i \<le> wr_seen r \<and> v = log ! i)"

definition watch_inv :: "'v watch_sys \<Rightarrow> bool" where
  "watch_inv s \<longleftrightarrow> wh_log s \<noteq> [] \<and> wt_value (wh_state s) = last (wh_log s) \<and>
     Suc (wt_version (wh_state s)) = length (wh_log s) \<and>
     finite (dom (wh_recvs s)) \<and> wt_receivers (wh_state s) = card (dom (wh_recvs s)) \<and>
     (\<forall>f r. wh_recvs s f = Some r \<longrightarrow> recv_ok (wh_log s) r) \<and>
     reg_ok (wt_waiters (wh_state s)) (recv_regs (wh_recvs s)) (up_to_date (wh_state s) (wh_recvs s)) (wh_woken s)"

lemma watch_invD:
  assumes "watch_inv s"
  shows "wh_log s \<noteq> []" "wt_value (wh_state s) = last (wh_log s)" "Suc (wt_version (wh_state s)) = length (wh_log s)"
    "finite (dom (wh_recvs s))" "wt_receivers (wh_state s) = card (dom (wh_recvs s))"
    "\<And>f r. wh_recvs s f = Some r \<Longrightarrow> recv_ok (wh_log s) r"
    "reg_ok (wt_waiters (wh_state s)) (recv_regs (wh_recvs s)) (up_to_date (wh_state s) (wh_recvs s)) (wh_woken s)"
  using assms unfolding watch_inv_def by blast+

lemma recv_regs_upd: "recv_regs (R(f := y)) = (recv_regs R)(f := Option.bind y (\<lambda>r. phase_reg (wr_phase r)))"
  by (auto simp: recv_regs_def)

lemma recv_regs_same: "Option.bind y (\<lambda>r. phase_reg (wr_phase r)) = recv_regs R f \<Longrightarrow> recv_regs (R(f := y)) = recv_regs R"
  by (auto simp: recv_regs_def)

lemma up_to_date_other: "g \<noteq> f \<Longrightarrow> up_to_date st (R(f := y)) g = up_to_date st R g"
  by (simp add: up_to_date_def)

lemma up_to_date_cong:
  "wt_senders st' \<noteq> 0 \<longleftrightarrow> wt_senders st \<noteq> 0 \<Longrightarrow> wt_version st' = wt_version st \<Longrightarrow> up_to_date st' R = up_to_date st R"
  by (auto simp: up_to_date_def)

lemma recv_ok_snoc: "recv_ok log r \<Longrightarrow> recv_ok (log @ [v]) r"
  by (fastforce simp: recv_ok_def nth_append)

lemma fresh_recv_ok: "seen < length log \<Longrightarrow> recv_ok log (fresh_recv seen)"
  by (simp add: recv_ok_def fresh_recv_def)

lemma recv_regs_fresh: "recv_regs [f \<mapsto> fresh_recv n] = (\<lambda>f. None)"
  by (auto simp: recv_regs_def fresh_recv_def fun_eq_iff)

lemma watch_init_inv: "watch_inv (watch_init v)"
  by (simp add: watch_inv_def watch_init_def watch_channel_def reg_ok_new recv_regs_fresh fresh_recv_ok)

section \<open>Every step keeps the invariant\<close>

text \<open>A step of one receiver, which leaves value, version and handle counts alone.\<close>

lemma watch_recv_step:
  assumes inv: "watch_inv s" and f: "wh_recvs s f = Some r"
    and st: "wt_value st = wt_value (wh_state s)" "wt_version st = wt_version (wh_state s)"
      "wt_senders st = wt_senders (wh_state s)" "wt_receivers st = wt_receivers (wh_state s)"
    and ok: "reg_ok (wt_waiters st) ((recv_regs (wh_recvs s))(f := phase_reg (wr_phase r')))
      (up_to_date (wh_state s) (wh_recvs s)) (wh_woken s)"
    and seen: "phase_reg (wr_phase r') \<noteq> None \<Longrightarrow> wr_seen r' = wr_seen r"
    and r': "recv_ok (wh_log s) r'"
  shows "watch_inv (s\<lparr>wh_state := st, wh_recvs := (wh_recvs s)(f \<mapsto> r')\<rparr>)"
proof -
  have "reg_ok (wt_waiters st) ((recv_regs (wh_recvs s))(f := phase_reg (wr_phase r')))
      (up_to_date st ((wh_recvs s)(f \<mapsto> r'))) (wh_woken s)"
  proof (rule reg_ok_cong [OF ok])
    fix g
    assume g: "((recv_regs (wh_recvs s))(f := phase_reg (wr_phase r'))) g \<noteq> None"
    show "up_to_date st ((wh_recvs s)(f \<mapsto> r')) g = up_to_date (wh_state s) (wh_recvs s) g"
    proof (cases "g = f")
      case True
      with g seen f st show ?thesis by (simp add: up_to_date_def)
    next
      case False
      with st show ?thesis by (simp add: up_to_date_def)
    qed
  qed
  moreover have "card (dom ((wh_recvs s)(f \<mapsto> r'))) = card (dom (wh_recvs s))"
    using f by (simp add: insert_absorb domI)
  ultimately show ?thesis using watch_invD [OF inv] st r' by (simp add: watch_inv_def recv_regs_upd)
qed

text \<open>A new receiver has nothing pending.\<close>

lemma watch_new_recv:
  assumes inv: "watch_inv s" and f: "wh_recvs s f = None" and n: "wt_receivers st = Suc (wt_receivers (wh_state s))"
    and st: "wt_value st = wt_value (wh_state s)" "wt_version st = wt_version (wh_state s)"
      "wt_senders st = wt_senders (wh_state s)" "wt_waiters st = wt_waiters (wh_state s)"
    and seen: "seen < length (wh_log s)"
  shows "watch_inv (s\<lparr>wh_state := st, wh_recvs := (wh_recvs s)(f \<mapsto> fresh_recv seen)\<rparr>)"
proof -
  have same: "recv_regs ((wh_recvs s)(f \<mapsto> fresh_recv seen)) = recv_regs (wh_recvs s)"
    by (rule recv_regs_same) (simp add: recv_regs_def f fresh_recv_def)
  have "reg_ok (wt_waiters st) (recv_regs (wh_recvs s)) (up_to_date st ((wh_recvs s)(f \<mapsto> fresh_recv seen))) (wh_woken s)"
    unfolding st(4)
  proof (rule reg_ok_cong [OF watch_invD(7) [OF inv]])
    fix g
    assume "recv_regs (wh_recvs s) g \<noteq> None"
    then have "g \<noteq> f" using f by (auto simp: recv_regs_def)
    then show "up_to_date st ((wh_recvs s)(f \<mapsto> fresh_recv seen)) g = up_to_date (wh_state s) (wh_recvs s) g"
      using st by (simp add: up_to_date_def)
  qed
  moreover have "card (dom ((wh_recvs s)(f \<mapsto> fresh_recv seen))) = Suc (card (dom (wh_recvs s)))"
    using watch_invD(4) [OF inv] f by (simp add: card_insert_if domIff)
  ultimately show ?thesis
    using watch_invD [OF inv] st n fresh_recv_ok [OF seen] same by (simp add: watch_inv_def)
qed

lemma wt_send_replaces: "wt_send v st = Some (Ok (), ws, st') \<Longrightarrow> wt_send_replace v st = Some (wt_value st, ws, st')"
  by (auto simp: wt_send_def wt_send_replace_def panic_simps split: if_splits)

text \<open>A publication wakes every pending change.\<close>

lemma watch_publish:
  assumes inv: "watch_inv s" and p: "wt_send_replace v (wh_state s) = Some (u, ws, st)"
  shows "watch_inv (s\<lparr>wh_state := st, wh_log := wh_log s @ [v], wh_woken := wh_woken s @ ws\<rparr>)"
    and "u = last (wh_log s)"
proof -
  let ?v = "Suc (wt_version (wh_state s))"
  have seen: "wr_seen r \<noteq> ?v" if "wh_recvs s f = Some r" for f r
    using watch_invD(3,6) [OF inv] that by (fastforce simp: recv_ok_def)
  obtain b wl where b: "ws_take_all (wt_waiters (wh_state s)) = Some (b, wl)" "wb_inv b"
    "reg_ok wl (recv_regs (wh_recvs s)) (\<lambda>f. False) (wh_woken s @ wb_list b)"
    by (rule reg_ok_take_all [OF watch_invD(7) [OF inv], of "\<lambda>f. False"]) simp
  obtain b' where "wb_wake_all b = Some (wb_list b, b')" by (rule wb_wake_all_spec [OF b(2)])
  then have st: "ws = wb_list b" "st = (wh_state s)\<lparr>wt_value := v, wt_version := ?v, wt_waiters := wl\<rparr>"
    and u: "u = wt_value (wh_state s)"
    using p b(1) by (auto simp: wt_send_replace_def panic_simps)
  have "up_to_date st (wh_recvs s) = (\<lambda>f. False)" using seen by (auto simp: up_to_date_def st fun_eq_iff)
  with b(3) st watch_invD [OF inv]
  show "watch_inv (s\<lparr>wh_state := st, wh_log := wh_log s @ [v], wh_woken := wh_woken s @ ws\<rparr>)"
    by (simp add: watch_inv_def recv_ok_snoc)
  show "u = last (wh_log s)" using u watch_invD(2) [OF inv] by simp
qed

lemma change_pollE:
  assumes "change_poll st seen token w = Some (x, t, st')"
  obtains (changed) "wt_version st \<noteq> seen" "x = Ready (Ok (wt_version st))" "st' = st"
  | (disconnected) "wt_version st = seen" "wt_senders st = 0" "x = Ready (Err Disconnected)" "st' = st"
  | (parked) retired ws where "wt_version st = seen" "wt_senders st \<noteq> 0" "x = Pending"
      "ws_register (wt_waiters st) token w = Some (retired, t, ws)" "st' = st\<lparr>wt_waiters := ws\<rparr>"
proof (cases "wt_version st = seen \<and> wt_senders st \<noteq> 0")
  case True
  with assms obtain retired ws where "ws_register (wt_waiters st) token w = Some (retired, t, ws)"
    "x = Pending" "st' = st\<lparr>wt_waiters := ws\<rparr>"
    by (auto simp: change_poll_def panic_simps)
  with True show thesis by (intro parked) simp_all
next
  case False
  with assms show thesis by (cases "wt_version st = seen") (auto simp: change_poll_def intro: changed disconnected)
qed

lemma watch_change_complete:
  assumes inv: "watch_inv s" and f: "wh_recvs s f = Some r" "wr_phase r = Changing c k"
    and p: "change_poll (wh_state s) (wr_seen r) (map_option fst k) w = Some (Ready x, t, st)"
  shows "watch_inv (s\<lparr>wh_state := st, wh_recvs := (wh_recvs s)(f \<mapsto> change_ready c x r)\<rparr>)"
proof -
  have dead: "\<not> up_to_date (wh_state s) (wh_recvs s) f" and st: "st = wh_state s"
    using f(1) by (cases rule: change_pollE [OF p]; simp add: up_to_date_def)+
  have idle: "phase_reg (wr_phase (change_ready c x r)) = None" by (cases "(c, x, r)" rule: change_ready.cases) simp_all
  have ok: "recv_ok (wh_log s) r" by (rule watch_invD(6) [OF inv f(1)])
  have "recv_ok (wh_log s) (change_ready c x r)"
  proof (cases rule: change_pollE [OF p])
    case 1
    then have "wr_seen r < wt_version (wh_state s)" "wt_version (wh_state s) < length (wh_log s)"
      using watch_invD(3) [OF inv] ok by (auto simp: recv_ok_def)
    with 1 ok watch_invD(3) [OF inv] show ?thesis by (cases c) (fastforce simp: recv_ok_def)+
  next
    case 2
    with ok show ?thesis by (cases c) (auto simp: recv_ok_def)
  qed simp
  with idle st show ?thesis
    by (intro watch_recv_step [OF inv f(1)])
      (simp_all add: reg_ok_forget [OF watch_invD(7) [OF inv] dead])
qed

lemma watch_unregister:
  assumes inv: "watch_inv s" and f: "wh_recvs s f = Some r" "wr_phase r = Changing c k"
    and d: "change_drop (wh_state s) (wr_seen r) (map_option fst k) = Some st"
  obtains ws where "st = (wh_state s)\<lparr>wt_waiters := ws\<rparr>"
    and "reg_ok ws ((recv_regs (wh_recvs s))(f := None)) (up_to_date (wh_state s) (wh_recvs s)) (wh_woken s)"
proof -
  note ok = watch_invD(7) [OF inv]
  have k: "recv_regs (wh_recvs s) f = k" using f by (simp add: recv_regs_def)
  have same: "wh_state s = (wh_state s)\<lparr>wt_waiters := wt_waiters (wh_state s)\<rparr>" by simp
  show thesis
  proof (cases k)
    case None
    then have "(recv_regs (wh_recvs s))(f := None) = recv_regs (wh_recvs s)" using k by auto
    then show thesis using that [of "wt_waiters (wh_state s)"] d None ok by (simp add: change_drop_def)
  next
    case (Some x)
    obtain t w m where x: "x = (t, w, m)" by (cases x)
    show thesis
    proof (cases "up_to_date (wh_state s) (wh_recvs s) f")
      case True
      obtain ws where "ws_unregister (wt_waiters (wh_state s)) (Some t) = Some (Some w, None, ws)"
        "reg_ok ws ((recv_regs (wh_recvs s))(f := None)) (up_to_date (wh_state s) (wh_recvs s)) (wh_woken s)"
        by (rule reg_ok_unregister [OF ok True]) (use k Some x in auto)
      with True f d Some x that [of ws] show thesis by (auto simp: change_drop_def up_to_date_def)
    next
      case False
      with f d Some have "st = wh_state s" by (auto simp: change_drop_def up_to_date_def split: if_splits)
      with that [of "wt_waiters (wh_state s)"] reg_ok_forget [OF ok False] show thesis by simp
    qed
  qed
qed

lemma recv_ok_receive:
  assumes "recv_ok log r" and "wr_phase r = Reading" and "Suc seen = length log" and "v = log ! seen"
  shows "recv_ok log (r\<lparr>wr_seen := seen, wr_phase := Idle, wr_got := wr_got r @ [(seen, v)]\<rparr>)"
proof -
  have lt: "wr_seen r < seen" and sorted: "sorted_wrt (<) (map fst (wr_got r))"
    using assms(1-3) by (simp_all add: recv_ok_def)
  have old: "i < seen \<and> u = log ! i" if "(i, u) \<in> set (wr_got r)" for i u
  proof -
    have "i \<le> wr_seen r \<and> u = log ! i" using assms(1) that unfolding recv_ok_def by blast
    with lt show ?thesis by simp
  qed
  then have "\<forall>x \<in> set (map fst (wr_got r)). x < seen" by auto
  with sorted have "sorted_wrt (<) (map fst (wr_got r) @ [seen])" by (simp add: sorted_wrt_append)
  moreover have "\<forall>(i, u) \<in> set (wr_got r @ [(seen, v)]). i \<le> seen \<and> u = log ! i"
    using old assms(4) by (auto intro: less_imp_le)
  ultimately show ?thesis using assms(3) by (simp add: recv_ok_def)
qed

lemma watch_step_inv: "watch_step s s' \<Longrightarrow> watch_inv s \<Longrightarrow> watch_inv s'"
proof (induction rule: watch_step.induct)
  case (clone_sender s st)
  then have st: "st = (wh_state s)\<lparr>wt_senders := Suc (wt_senders (wh_state s))\<rparr>"
    by (auto simp: wt_clone_sender_def panic_simps)
  with clone_sender up_to_date_cong [of st "wh_state s" "wh_recvs s"] show ?case by (simp add: watch_inv_def)
next
  case (drop_sender s ws st)
  note ok = watch_invD(7) [OF drop_sender(3)]
  show ?case
  proof (cases "wt_senders (wh_state s) = 1")
    case True
    with drop_sender have st: "ws = ws_wake_all (wt_waiters (wh_state s))"
      "st = (wh_state s)\<lparr>wt_senders := 0, wt_waiters := ws_new\<rparr>"
      by (auto simp: wt_drop_sender_def panic_simps split: if_splits)
    have "reg_ok ws_new (recv_regs (wh_recvs s)) (up_to_date st (wh_recvs s)) (wh_woken s @ ws)"
      unfolding st(1) by (rule reg_ok_wake_all [OF ok]) (simp add: up_to_date_def st)
    with watch_invD [OF drop_sender(3)] st show ?thesis by (simp add: watch_inv_def)
  next
    case False
    with drop_sender have st: "ws = []" "st = (wh_state s)\<lparr>wt_senders := wt_senders (wh_state s) - 1\<rparr>"
      "wt_senders (wh_state s) - 1 \<noteq> 0"
      by (auto simp: wt_drop_sender_def panic_simps split: if_splits)
    with drop_sender up_to_date_cong [of st "wh_state s" "wh_recvs s"] show ?thesis by (simp add: watch_inv_def)
  qed
next
  case (send s v ws st)
  show ?case by (rule watch_publish(1) [OF send(3) wt_send_replaces [OF send(2)]])
next
  case (send_refused s v e ws st)
  then show ?case by (auto simp: wt_send_def panic_simps split: if_splits)
next
  case (send_replace s v u ws st)
  show ?case by (rule watch_publish(1) [OF send_replace(3,2)])
next
  case (subscribe s f seen st)
  show ?case
    by (rule watch_new_recv [OF subscribe(4,2)])
      (use subscribe(3) watch_invD(3) [OF subscribe(4)] in \<open>auto simp: wt_subscribe_def panic_simps\<close>)
next
  case (clone_receiver s f r g seen st)
  show ?case
    by (rule watch_new_recv [OF clone_receiver(5,3)])
      (use clone_receiver(4) watch_invD(6) [OF clone_receiver(5,1)] in \<open>auto simp: wt_clone_receiver_def panic_simps recv_ok_def\<close>)
next
  case (drop_receiver s f r st)
  have st: "st = (wh_state s)\<lparr>wt_receivers := wt_receivers (wh_state s) - 1\<rparr>"
    using drop_receiver(3) by (auto simp: wt_drop_receiver_def panic_simps)
  have same: "recv_regs ((wh_recvs s)(f := None)) = recv_regs (wh_recvs s)"
    by (rule recv_regs_same) (simp add: recv_regs_def drop_receiver(1,2))
  have "reg_ok (wt_waiters st) (recv_regs (wh_recvs s)) (up_to_date st ((wh_recvs s)(f := None))) (wh_woken s)"
  proof -
    have "reg_ok (wt_waiters (wh_state s)) (recv_regs (wh_recvs s)) (up_to_date st ((wh_recvs s)(f := None))) (wh_woken s)"
    proof (rule reg_ok_cong [OF watch_invD(7) [OF drop_receiver(4)]])
      fix g
      assume "recv_regs (wh_recvs s) g \<noteq> None"
      then have "g \<noteq> f" using drop_receiver(1,2) by (auto simp: recv_regs_def)
      then show "up_to_date st ((wh_recvs s)(f := None)) g = up_to_date (wh_state s) (wh_recvs s) g"
        using st by (simp add: up_to_date_def)
    qed
    with st show ?thesis by simp
  qed
  moreover have "card (dom ((wh_recvs s)(f := None))) = card (dom (wh_recvs s)) - 1"
    using watch_invD(4) [OF drop_receiver(4)] drop_receiver(1) by (simp add: domI)
  ultimately show ?case using watch_invD [OF drop_receiver(4)] st same by (simp add: watch_inv_def)
next
  case (begin_change s f r c)
  have "(recv_regs (wh_recvs s))(f := None) = recv_regs (wh_recvs s)"
    using begin_change(1,2) by (auto simp: recv_regs_def)
  with watch_recv_step [OF begin_change(3,1), of "wh_state s" "r\<lparr>wr_phase := Changing c None\<rparr>"]
    watch_invD(6,7) [OF begin_change(3)] begin_change(1)
  show ?case by (simp add: recv_ok_def)
next
  case (change_pending s f r c k w t st)
  note ok = watch_invD(7) [OF change_pending(4)]
  have k: "recv_regs (wh_recvs s) f = k" using change_pending(1,2) by (simp add: recv_regs_def)
  show ?case
  proof (cases rule: change_pollE [OF change_pending(3)])
    case (3 retired ws)
    then have live: "up_to_date (wh_state s) (wh_recvs s) f" using change_pending(1) by (simp add: up_to_date_def)
    have "reg_ok ws ((recv_regs (wh_recvs s))(f \<mapsto> (t, w, length (wh_woken s))))
      (up_to_date (wh_state s) (wh_recvs s)) (wh_woken s)"
      by (rule reg_ok_register [OF ok live, of w retired "Some t" ws]) (use 3 k in auto)
    with 3 watch_invD(6) [OF change_pending(4,1)] show ?thesis
      by (intro watch_recv_step [OF change_pending(4,1)]) (simp_all add: recv_ok_def)
  qed simp_all
next
  case (change_complete s f r c k w x t st)
  show ?case by (rule watch_change_complete [OF change_complete(4,1,2,3)])
next
  case (change_cancel s f r c k st)
  note ok = watch_invD(7) [OF change_cancel(4)]
  have k: "recv_regs (wh_recvs s) f = k" using change_cancel(1,2) by (simp add: recv_regs_def)
  obtain ws where ws: "st = (wh_state s)\<lparr>wt_waiters := ws\<rparr>"
    "reg_ok ws ((recv_regs (wh_recvs s))(f := None)) (up_to_date (wh_state s) (wh_recvs s)) (wh_woken s)"
    by (rule watch_unregister [OF change_cancel(4,1,2,3)])
  with watch_invD(6) [OF change_cancel(4,1)] show ?case
    by (intro watch_recv_step [OF change_cancel(4,1)]) (simp_all add: recv_ok_def)
next
  case (receive s f r v seen)
  have v: "v = last (wh_log s)" "Suc seen = length (wh_log s)" and ok: "recv_ok (wh_log s) r"
    using receive(3) watch_invD [OF receive(4)] receive(1) by (auto simp: recv_read_def)
  have "recv_ok (wh_log s) (r\<lparr>wr_seen := seen, wr_phase := Idle, wr_got := wr_got r @ [(seen, v)]\<rparr>)"
    by (rule recv_ok_receive [OF ok receive(2) v(2)])
      (use v watch_invD(1) [OF receive(4)] in \<open>metis last_conv_nth diff_Suc_1\<close>)
  moreover have "(recv_regs (wh_recvs s))(f := None) = recv_regs (wh_recvs s)"
    using receive(1,2) by (auto simp: recv_regs_def)
  ultimately show ?case
    using watch_recv_step [OF receive(4,1), of "wh_state s"
        "r\<lparr>wr_seen := seen, wr_phase := Idle, wr_got := wr_got r @ [(seen, v)]\<rparr>"] watch_invD(7) [OF receive(4)] by simp
qed

lemma watch_reach_inv: "watch_step\<^sup>*\<^sup>* (watch_init v) s \<Longrightarrow> watch_inv s"
  by (induction rule: rtranclp_induct) (auto intro: watch_init_inv watch_step_inv)

text \<open>No call of a live handle panics, short of an overflowing count or a full waker set.\<close>

lemma watch_no_panic:
  assumes inv: "watch_inv s"
  shows "wt_version (wh_state s) < usize_max \<Longrightarrow> \<exists>x. wt_send_replace v (wh_state s) = Some x"
    and "wt_version (wh_state s) < usize_max \<Longrightarrow> \<exists>x. wt_send v (wh_state s) = Some x"
    and "wh_recvs s f = Some r \<Longrightarrow> \<exists>st. wt_drop_receiver (wh_state s) = Some st"
    and "wh_recvs s f = Some r \<Longrightarrow> wr_phase r = Changing c k \<Longrightarrow> ws_room (wt_waiters (wh_state s)) \<Longrightarrow>
      \<exists>x. change_poll (wh_state s) (wr_seen r) (map_option fst k) w = Some x"
    and "wh_recvs s f = Some r \<Longrightarrow> wr_phase r = Changing c k \<Longrightarrow>
      \<exists>st. change_drop (wh_state s) (wr_seen r) (map_option fst k) = Some st"
proof -
  note ok = watch_invD(7) [OF inv]
  obtain b wl where b: "ws_take_all (wt_waiters (wh_state s)) = Some (b, wl)" "wb_inv b"
    by (rule reg_ok_take_all [OF ok, of "\<lambda>f. False"]) simp
  obtain b' where w: "wb_wake_all b = Some (wb_list b, b')" by (rule wb_wake_all_spec [OF b(2)])
  show "\<exists>x. wt_send_replace v (wh_state s) = Some x" "\<exists>x. wt_send v (wh_state s) = Some x"
    if "wt_version (wh_state s) < usize_max"
    using that b(1) w by (auto simp: wt_send_replace_def wt_send_def checked_add_def)
  show "\<exists>st. wt_drop_receiver (wh_state s) = Some st" if "wh_recvs s f = Some r"
  proof -
    have "card (dom (wh_recvs s)) \<noteq> 0" using watch_invD(4) [OF inv] that by (auto simp: card_eq_0_iff)
    then show ?thesis using watch_invD(5) [OF inv] by (simp add: wt_drop_receiver_def checked_sub_def)
  qed
  show "\<exists>x. change_poll (wh_state s) (wr_seen r) (map_option fst k) w = Some x"
    if f: "wh_recvs s f = Some r" "wr_phase r = Changing c k" "ws_room (wt_waiters (wh_state s))"
  proof (cases "up_to_date (wh_state s) (wh_recvs s) f")
    case True
    have "\<exists>a t ws. ws_register (wt_waiters (wh_state s)) (map_option fst (recv_regs (wh_recvs s) f)) w = Some (a, Some t, ws)"
      by (rule reg_ok_register_total [OF ok True f(3)])
    then show ?thesis using f by (auto simp: change_poll_def recv_regs_def)
  qed (use f in \<open>auto simp: change_poll_def up_to_date_def\<close>)
  show "\<exists>st. change_drop (wh_state s) (wr_seen r) (map_option fst k) = Some st"
    if f: "wh_recvs s f = Some r" "wr_phase r = Changing c k"
  proof (cases "k = None \<or> \<not> up_to_date (wh_state s) (wh_recvs s) f")
    case True
    with f(1) show ?thesis by (auto simp: change_drop_def up_to_date_def)
  next
    case False
    then obtain t w m where k: "k = Some (t, w, m)" "up_to_date (wh_state s) (wh_recvs s) f" by (cases k) auto
    then have "recv_regs (wh_recvs s) f = Some (t, w, m)" using f by (simp add: recv_regs_def)
    from reg_ok_unregister [OF ok k(2) this]
    obtain ws where "ws_unregister (wt_waiters (wh_state s)) (Some t) = Some (Some w, None, ws)" by blast
    then show ?thesis using k(1) by (simp add: change_drop_def)
  qed
qed

section \<open>A run\<close>

text \<open>The first receiver parks in \<open>recv\<close> and a value is sent.\<close>

definition demo_watch :: "nat list \<Rightarrow> waker_set \<Rightarrow> recv_phase \<Rightarrow> waker list \<Rightarrow> nat watch_sys" where
  "demo_watch log ws phase woken = \<lparr>wh_state = \<lparr>wt_value = last log, wt_version = length log - 1, wt_senders = 1,
       wt_receivers = 1, wt_waiters = ws\<rparr>,
     wh_recvs = [0 \<mapsto> \<lparr>wr_seen = 0, wr_phase = phase, wr_got = []\<rparr>], wh_log = log, wh_woken = woken\<rparr>"

lemma demo_watch_sent:
  "watch_step\<^sup>*\<^sup>* (watch_init 5) (demo_watch [5, 8] ws_new (Changing Recv (Some (only_token, 7, 0))) [7])"
proof -
  let ?a = "demo_watch [5] ws_new (Changing Recv None) []"
    and ?b = "demo_watch [5] (one_waker 7) (Changing Recv (Some (only_token, 7, 0))) []"
  have "watch_step (watch_init 5) ?a"
    using watch_step.begin_change [of "watch_init 5" 0 "fresh_recv 0" Recv]
    by (simp add: watch_init_def watch_channel_def fresh_recv_def demo_watch_def)
  moreover have "watch_step ?a ?b"
    using watch_step.change_pending [of ?a 0 "\<lparr>wr_seen = 0, wr_phase = Changing Recv None, wr_got = []\<rparr>" Recv None 7 only_token
      "wh_state ?b"]
    by (simp add: demo_watch_def change_poll_def one_waker_simps)
  moreover have "watch_step ?b (demo_watch [5, 8] ws_new (Changing Recv (Some (only_token, 7, 0))) [7])"
    using watch_step.send [of ?b 8 "[7]" "wh_state (demo_watch [5, 8] ws_new Idle [])"]
    by (simp add: demo_watch_def wt_send_def op_defs one_waker_def map_filter_simps take_Suc hd_conv_nth)
  ultimately show ?thesis by (meson run_step rtranclp.rtrancl_refl)
qed

section \<open>Properties\<close>

text \<open>
  C35: a receiver observes the published values in order and never misses the newest. What it
  has received are published values with strictly growing versions; its next complete \<open>recv\<close>
  reads the value published last, which is newer than all of them; \<open>has_changed\<close> says exactly
  whether something was published since the version it has seen.
\<close>

theorem watch_observes_newest:
  assumes "watch_step\<^sup>*\<^sup>* (watch_init v) s" and "wh_recvs s f = Some r"
  shows "recv_read (wh_state s) = (last (wh_log s), length (wh_log s) - 1) \<and>
    sorted_wrt (<) (map fst (wr_got r)) \<and>
    (\<forall>(i, u) \<in> set (wr_got r). i \<le> wr_seen r \<and> u = wh_log s ! i) \<and> wr_seen r < length (wh_log s) \<and>
    (wr_phase r = Reading \<longrightarrow> wr_seen r < length (wh_log s) - 1) \<and>
    (has_changed (wr_seen r) (wh_state s) = Ok True \<longleftrightarrow> wr_seen r < length (wh_log s) - 1)"
proof -
  have inv: "watch_inv s" by (rule watch_reach_inv [OF assms(1)])
  have v: "wt_version (wh_state s) = length (wh_log s) - 1" using watch_invD(3) [OF inv] by simp
  show ?thesis
    using watch_invD(1,2) [OF inv] watch_invD(6) [OF inv assms(2)] v
    by (auto simp: recv_ok_def recv_read_def has_changed_def)
qed

theorem watch_observes_newest_witness:
  "has_changed 0 (wh_state (demo_watch [5, 8] ws_new (Changing Recv (Some (only_token, 7, 0))) [7])) = Ok True"
  using watch_observes_newest [OF demo_watch_sent, of 0] by (simp add: demo_watch_def)

text \<open>
  C36: no update is slept through. A pending \<open>changed\<close> or \<open>recv\<close> whose receiver has not seen the
  newest version, or whose senders are all gone, has been woken since its last poll, and its next
  poll completes: with the newest version if there is one to see, and with the error otherwise.
\<close>

theorem watch_no_lost_wakeup:
  assumes "watch_step\<^sup>*\<^sup>* (watch_init v) s" and "wh_recvs s f = Some r" and "wr_phase r = Changing c (Some (t, w, m))"
    and "wr_seen r \<noteq> wt_version (wh_state s) \<or> wt_senders (wh_state s) = 0"
  shows "w \<in> set (drop m (wh_woken s)) \<and>
    change_poll (wh_state s) (wr_seen r) (Some t) w' =
      Some (Ready (if wr_seen r \<noteq> wt_version (wh_state s) then Ok (length (wh_log s) - 1) else Err Disconnected), None, wh_state s)"
proof -
  have inv: "watch_inv s" by (rule watch_reach_inv [OF assms(1)])
  have "recv_regs (wh_recvs s) f = Some (t, w, m)" using assms(2,3) by (simp add: recv_regs_def)
  moreover have "\<not> up_to_date (wh_state s) (wh_recvs s) f" using assms(2,4) by (auto simp: up_to_date_def)
  ultimately have "w \<in> set (drop m (wh_woken s))" by (rule reg_okD(4) [OF watch_invD(7) [OF inv]])
  moreover have "wt_version (wh_state s) = length (wh_log s) - 1" using watch_invD(3) [OF inv] by simp
  ultimately show ?thesis using assms(4) by (auto simp: change_poll_def)
qed

theorem watch_no_lost_wakeup_witness:
  "(7::waker) \<in> set (drop 0 [7]) \<and>
   change_poll (wh_state (demo_watch [5, 8] ws_new (Changing Recv (Some (only_token, 7, 0))) [7])) 0 (Some only_token) 9 =
     Some (Ready (Ok 1), None, wh_state (demo_watch [5, 8] ws_new (Changing Recv (Some (only_token, 7, 0))) [7]))"
  using watch_no_lost_wakeup [OF demo_watch_sent, of 0
      "\<lparr>wr_seen = 0, wr_phase = Changing Recv (Some (only_token, 7, 0)), wr_got = []\<rparr>" Recv only_token 7 0 9]
  by (simp add: demo_watch_def)

end
