(* ===== verification/Completion.thy ===== *)
theory Completion
  imports Registrations
begin

text \<open>
  The completion of \<open>completion/mod.rs\<close>: a value that one completer provides, or abandons by being
  dropped, and that any number of observers wait for. The result is a \<open>OnceLock\<close> that is set
  while the waiter lock is held, and may be read without it. The completer holds a weak
  reference: \<open>alive\<close> says whether an observer is left to keep the shared state.
\<close>

section \<open>Operations\<close>

record 'v completion_shared =
  co_result :: "'v option option"
  co_waiters :: waker_set

datatype abandoned = Abandoned

definition completion_new :: "'v completion_shared" where
  "completion_new = \<lparr>co_result = None, co_waiters = ws_new\<rparr>"

text \<open>\<open>OnceLock::set\<close> fails on a lock that is already set.\<close>

definition once_lock_set :: "'v \<Rightarrow> 'v option \<Rightarrow> (unit, 'v) result \<times> 'v option" where
  "once_lock_set v lock = (case lock of None \<Rightarrow> (Ok (), Some v) | Some u \<Rightarrow> (Err v, Some u))"

definition publish_result :: "'v option \<Rightarrow> 'v completion_shared \<Rightarrow> (waker list \<times> 'v completion_shared) option" where
  "publish_result value sh = (case once_lock_set value (co_result sh) of (r, result) \<Rightarrow> do {
     guard (r = Ok ());
     Some (ws_wake_all (co_waiters sh), sh\<lparr>co_result := result, co_waiters := ws_new\<rparr>) })"

text \<open>
  \<open>alive\<close>: the weak reference to the shared state can be upgraded. \<open>complete\<close> clears that reference,
  so that the drop of the completer which follows it does nothing and is left out here.
\<close>

definition complete :: "bool \<Rightarrow> 'v \<Rightarrow> 'v completion_shared \<Rightarrow>
  ((unit, 'v) result \<times> waker list \<times> 'v completion_shared) option" where
  "complete alive value sh =
     (if \<not> alive then Some (Err value, [], sh)
      else do {
        (woken, sh) \<leftarrow> publish_result (Some value) sh;
        Some (Ok (), woken, sh) })"

definition completer_drop :: "bool \<Rightarrow> 'v completion_shared \<Rightarrow> (waker list \<times> 'v completion_shared) option" where
  "completer_drop alive sh = (if \<not> alive then Some ([], sh) else publish_result None sh)"

definition or_abandoned :: "'v option \<Rightarrow> ('v, abandoned) result" where
  "or_abandoned r = (case r of Some v \<Rightarrow> Ok v | None \<Rightarrow> Err Abandoned)"

text \<open>A poll first reads the result without the lock, and decides under the lock otherwise.\<close>

definition completion_probe :: "'v completion_shared \<Rightarrow> ('v, abandoned) result option" where
  "completion_probe sh = map_option or_abandoned (co_result sh)"

definition completion_poll_locked ::
  "'v completion_shared \<Rightarrow> waker_token option \<Rightarrow> waker \<Rightarrow>
   (('v, abandoned) result poll \<times> waker_token option \<times> 'v completion_shared) option" where
  "completion_poll_locked sh token waker =
     (case co_result sh of
        Some result \<Rightarrow> Some (Ready (or_abandoned result), None, sh)
      | None \<Rightarrow> do {
          (retired, token, waiters) \<leftarrow> ws_register (co_waiters sh) token waker;
          Some (Pending, token, sh\<lparr>co_waiters := waiters\<rparr>) })"

definition completion_wait_drop :: "'v completion_shared \<Rightarrow> waker_token option \<Rightarrow> 'v completion_shared option" where
  "completion_wait_drop sh token =
     (if token = None then Some sh
      else if co_result sh \<noteq> None then Some sh
      else do {
        (waker, token, waiters) \<leftarrow> ws_unregister (co_waiters sh) token;
        Some (sh\<lparr>co_waiters := waiters\<rparr>) })"

section \<open>The completer and its observers\<close>

text \<open>
  A wait borrows its observer, so an observer is dropped only when nothing waits on it. The
  waits keep their results, once they have one.
\<close>

record 'v completion_sys =
  cp_shared :: "'v completion_shared"
  cp_completer :: bool
  cp_observers :: "nat set"
  cp_waits :: "nat \<Rightarrow> (nat \<times> (waker_token \<times> waker \<times> nat) option) option"
  cp_results :: "('v, abandoned) result list"
  cp_provided :: "'v option"
  cp_woken :: "waker list"

definition completion_init :: "'v completion_sys" where
  "completion_init = \<lparr>cp_shared = completion_new, cp_completer = True, cp_observers = {0}, cp_waits = Map.empty,
     cp_results = [], cp_provided = None, cp_woken = []\<rparr>"

abbreviation observed :: "'v completion_sys \<Rightarrow> bool" where
  "observed s \<equiv> cp_observers s \<noteq> {}"

inductive completion_step :: "'v completion_sys \<Rightarrow> 'v completion_sys \<Rightarrow> bool" where
  provide: "cp_completer s \<Longrightarrow> complete (observed s) v (cp_shared s) = Some (Ok (), ws, sh) \<Longrightarrow>
    completion_step s (s\<lparr>cp_shared := sh, cp_completer := False, cp_provided := Some v, cp_woken := cp_woken s @ ws\<rparr>)"
| refuse: "cp_completer s \<Longrightarrow> complete (observed s) v (cp_shared s) = Some (Err u, ws, sh) \<Longrightarrow>
    completion_step s (s\<lparr>cp_shared := sh, cp_completer := False, cp_woken := cp_woken s @ ws\<rparr>)"
| abandon: "cp_completer s \<Longrightarrow> completer_drop (observed s) (cp_shared s) = Some (ws, sh) \<Longrightarrow>
    completion_step s (s\<lparr>cp_shared := sh, cp_completer := False, cp_woken := cp_woken s @ ws\<rparr>)"
| clone_observer: "h \<in> cp_observers s \<Longrightarrow>
    completion_step s (s\<lparr>cp_observers := insert h' (cp_observers s)\<rparr>)"
| drop_observer: "\<forall>f k. cp_waits s f \<noteq> Some (h, k) \<Longrightarrow>
    completion_step s (s\<lparr>cp_observers := cp_observers s - {h}\<rparr>)"
| begin_wait: "h \<in> cp_observers s \<Longrightarrow> cp_waits s f = None \<Longrightarrow>
    completion_step s (s\<lparr>cp_waits := (cp_waits s)(f \<mapsto> (h, None))\<rparr>)"
| probe_ready: "cp_waits s f = Some (h, k) \<Longrightarrow> completion_probe (cp_shared s) = Some r \<Longrightarrow>
    completion_step s (s\<lparr>cp_waits := (cp_waits s)(f := None), cp_results := cp_results s @ [r]\<rparr>)"
| wait_ready: "cp_waits s f = Some (h, k) \<Longrightarrow>
    completion_poll_locked (cp_shared s) (map_option fst k) w = Some (Ready r, t, sh) \<Longrightarrow>
    completion_step s (s\<lparr>cp_shared := sh, cp_waits := (cp_waits s)(f := None), cp_results := cp_results s @ [r]\<rparr>)"
| wait_pending: "cp_waits s f = Some (h, k) \<Longrightarrow>
    completion_poll_locked (cp_shared s) (map_option fst k) w = Some (Pending, Some t, sh) \<Longrightarrow>
    completion_step s (s\<lparr>cp_shared := sh, cp_waits := (cp_waits s)(f \<mapsto> (h, Some (t, w, length (cp_woken s))))\<rparr>)"
| wait_cancel: "cp_waits s f = Some (h, k) \<Longrightarrow> completion_wait_drop (cp_shared s) (map_option fst k) = Some sh \<Longrightarrow>
    completion_step s (s\<lparr>cp_shared := sh, cp_waits := (cp_waits s)(f := None)\<rparr>)"

section \<open>The invariant\<close>

definition wait_regs :: "(nat \<Rightarrow> (nat \<times> (waker_token \<times> waker \<times> nat) option) option) \<Rightarrow> nat registrations" where
  "wait_regs F f = Option.bind (F f) snd"

definition completion_inv :: "'v completion_sys \<Rightarrow> bool" where
  "completion_inv s \<longleftrightarrow>
     reg_ok (co_waiters (cp_shared s)) (wait_regs (cp_waits s)) (\<lambda>f. co_result (cp_shared s) = None) (cp_woken s) \<and>
     (\<forall>f h k. cp_waits s f = Some (h, k) \<longrightarrow> h \<in> cp_observers s) \<and>
     (cp_completer s \<longrightarrow> co_result (cp_shared s) = None) \<and>
     (\<not> cp_completer s \<longrightarrow> observed s \<longrightarrow> co_result (cp_shared s) = Some (cp_provided s)) \<and>
     (co_result (cp_shared s) = None \<longrightarrow> cp_provided s = None \<and> cp_results s = []) \<and>
     co_result (cp_shared s) \<in> {None, Some (cp_provided s)} \<and> set (cp_results s) \<subseteq> {or_abandoned (cp_provided s)}"

lemma completion_invD:
  assumes "completion_inv s"
  shows "reg_ok (co_waiters (cp_shared s)) (wait_regs (cp_waits s)) (\<lambda>f. co_result (cp_shared s) = None) (cp_woken s)"
    "\<And>f h k. cp_waits s f = Some (h, k) \<Longrightarrow> h \<in> cp_observers s"
    "cp_completer s \<Longrightarrow> co_result (cp_shared s) = None"
    "\<not> cp_completer s \<Longrightarrow> observed s \<Longrightarrow> co_result (cp_shared s) = Some (cp_provided s)"
    "co_result (cp_shared s) = None \<Longrightarrow> cp_provided s = None \<and> cp_results s = []"
    "\<And>r. co_result (cp_shared s) = Some r \<Longrightarrow> r = cp_provided s"
    "\<And>r. r \<in> set (cp_results s) \<Longrightarrow> r = or_abandoned (cp_provided s)"
proof -
  show "r = cp_provided s" if "co_result (cp_shared s) = Some r" for r
  proof -
    have "co_result (cp_shared s) \<in> {None, Some (cp_provided s)}" using assms unfolding completion_inv_def by blast
    with that show ?thesis by simp
  qed
  show "r = or_abandoned (cp_provided s)" if "r \<in> set (cp_results s)" for r
    using assms that unfolding completion_inv_def by blast
qed (use assms in \<open>unfold completion_inv_def, blast\<close>)+

lemma wait_regs_upd: "wait_regs (F(f := y)) = (wait_regs F)(f := Option.bind y snd)"
  by (auto simp: wait_regs_def)

lemma completion_init_inv: "completion_inv completion_init"
proof -
  have "wait_regs Map.empty = (\<lambda>f. None)" by (auto simp: wait_regs_def)
  then show ?thesis by (simp add: completion_inv_def completion_init_def completion_new_def reg_ok_new)
qed

text \<open>A settled result wakes every wait, and an unset one can be settled.\<close>

lemma publish_result_inv:
  assumes inv: "completion_inv s" and c: "cp_completer s" and p: "publish_result r (cp_shared s) = Some (ws, sh)"
  shows "completion_inv (s\<lparr>cp_shared := sh, cp_completer := False, cp_provided := r, cp_woken := cp_woken s @ ws\<rparr>)"
proof -
  have n: "co_result (cp_shared s) = None" by (rule completion_invD(3) [OF inv c])
  have sh: "sh = (cp_shared s)\<lparr>co_result := Some r, co_waiters := ws_new\<rparr>" "ws = ws_wake_all (co_waiters (cp_shared s))"
    using p n by (auto simp: publish_result_def once_lock_set_def panic_simps)
  have "reg_ok ws_new (wait_regs (cp_waits s)) (\<lambda>f. False) (cp_woken s @ ws)"
    unfolding sh(2) by (rule reg_ok_wake_all [OF completion_invD(1) [OF inv]]) simp
  then show ?thesis using sh(1) completion_invD(2,5) [OF inv] n by (simp add: completion_inv_def)
qed

lemma publish_result_total: "co_result sh = None \<Longrightarrow> \<exists>ws sh'. publish_result r sh = Some (ws, sh')"
  by (simp add: publish_result_def once_lock_set_def)

text \<open>A wait registers, or ends and takes its registration with it.\<close>

lemma wait_change_inv:
  assumes inv: "completion_inv s" and sh: "co_result sh = co_result (cp_shared s)"
    and ok: "reg_ok (co_waiters sh) ((wait_regs (cp_waits s))(f := Option.bind y snd))
      (\<lambda>f. co_result (cp_shared s) = None) (cp_woken s)"
    and y: "\<And>h k. y = Some (h, k) \<Longrightarrow> h \<in> cp_observers s"
    and r: "\<And>r. r \<in> set rs \<Longrightarrow> co_result (cp_shared s) \<noteq> None \<and> r = or_abandoned (cp_provided s)"
  shows "completion_inv (s\<lparr>cp_shared := sh, cp_waits := (cp_waits s)(f := y), cp_results := cp_results s @ rs\<rparr>)"
proof -
  have none: "rs = []" if "co_result (cp_shared s) = None" using r that by (cases rs) auto
  have res: "r = or_abandoned (cp_provided s)" if "r \<in> set (cp_results s @ rs)" for r
    using that completion_invD(7) [OF inv] r by auto
  have waits: "h \<in> cp_observers s" if "((cp_waits s)(f := y)) g = Some (h, k)" for g h k
    using that completion_invD(2) [OF inv, of g h k] y by (cases "g = f") auto
  let ?s = "s\<lparr>cp_shared := sh, cp_waits := (cp_waits s)(f := y), cp_results := cp_results s @ rs\<rparr>"
  have "reg_ok (co_waiters (cp_shared ?s)) (wait_regs (cp_waits ?s)) (\<lambda>f. co_result (cp_shared ?s) = None) (cp_woken ?s)"
    using ok sh by (simp add: wait_regs_upd)
  moreover have "\<forall>g h k. cp_waits ?s g = Some (h, k) \<longrightarrow> h \<in> cp_observers ?s"
    using waits by (simp del: fun_upd_apply)
  moreover have "co_result (cp_shared ?s) = None \<longrightarrow> cp_provided ?s = None \<and> cp_results ?s = []"
    using sh none completion_invD(5) [OF inv] by simp
  moreover have "set (cp_results ?s) \<subseteq> {or_abandoned (cp_provided ?s)}" using res by auto
  moreover have "cp_completer ?s \<longrightarrow> co_result (cp_shared ?s) = None" using sh completion_invD(3) [OF inv] by simp
  moreover have "\<not> cp_completer ?s \<longrightarrow> observed ?s \<longrightarrow> co_result (cp_shared ?s) = Some (cp_provided ?s)"
    using sh completion_invD(4) [OF inv] by simp
  moreover have "co_result (cp_shared ?s) \<in> {None, Some (cp_provided ?s)}"
    using sh completion_invD(6) [OF inv] by (cases "co_result (cp_shared s)") auto
  ultimately show ?thesis unfolding completion_inv_def by blast
qed

lemma observers_inv:
  assumes inv: "completion_inv s" and "N \<noteq> {} \<Longrightarrow> observed s" and "\<And>f h k. cp_waits s f = Some (h, k) \<Longrightarrow> h \<in> N"
  shows "completion_inv (s\<lparr>cp_observers := N\<rparr>)"
proof -
  have "co_result (cp_shared s) = Some (cp_provided s)" if "\<not> cp_completer s" "N \<noteq> {}"
    by (rule completion_invD(4) [OF inv that(1) assms(2) [OF that(2)]])
  moreover have "\<forall>f h k. cp_waits s f = Some (h, k) \<longrightarrow> h \<in> N" using assms(3) by blast
  ultimately show ?thesis using inv unfolding completion_inv_def by simp
qed

lemma completion_step_inv: "completion_step s s' \<Longrightarrow> completion_inv s \<Longrightarrow> completion_inv s'"
proof (induction rule: completion_step.induct)
  case (provide s v ws sh)
  then have "publish_result (Some v) (cp_shared s) = Some (ws, sh)"
    by (auto simp: complete_def panic_simps split: if_splits)
  from publish_result_inv [OF provide(3,1) this] show ?case .
next
  case (refuse s v u ws sh)
  then have "\<not> observed s" "sh = cp_shared s" "ws = []" by (auto simp: complete_def panic_simps split: if_splits)
  with refuse(3) show ?case by (simp add: completion_inv_def)
next
  case (abandon s ws sh)
  note n = completion_invD(3,5) [OF abandon(3)]
  show ?case
  proof (cases "observed s")
    case True
    with abandon have "publish_result None (cp_shared s) = Some (ws, sh)" by (simp add: completer_drop_def)
    from publish_result_inv [OF abandon(3,1) this] n abandon(1) show ?thesis by (simp add: completion_inv_def)
  next
    case False
    with abandon(2) have "sh = cp_shared s" "ws = []" by (auto simp: completer_drop_def)
    with False abandon(3) show ?thesis by (simp add: completion_inv_def)
  qed
next
  case (clone_observer h s h')
  then have "observed s" by blast
  then show ?case by (intro observers_inv [OF clone_observer(2)]) (simp_all add: completion_invD(2) [OF clone_observer(2)])
next
  case (drop_observer s h)
  then have "g \<in> cp_observers s - {h}" if "cp_waits s f = Some (g, k)" for f g k
    using that completion_invD(2) [OF drop_observer(2) that] by (cases "g = h") auto
  then show ?case by (intro observers_inv [OF drop_observer(2)]) auto
next
  case (begin_wait h s f)
  have "wait_regs ((cp_waits s)(f \<mapsto> (h, None))) = wait_regs (cp_waits s)"
    using begin_wait(2) by (auto simp: wait_regs_def)
  moreover have "(wait_regs (cp_waits s))(f := None) = wait_regs (cp_waits s)"
    using begin_wait(2) by (auto simp: wait_regs_def)
  ultimately show ?case
    using wait_change_inv [OF begin_wait(3), of "cp_shared s" f "Some (h, None)" "[]"]
      completion_invD(1) [OF begin_wait(3)] begin_wait(1) by simp
next
  case (probe_ready s f h k r)
  then have r: "co_result (cp_shared s) = Some (cp_provided s)" "r = or_abandoned (cp_provided s)"
    using completion_invD(6) [OF probe_ready(3)] by (auto simp: completion_probe_def)
  from wait_change_inv [OF probe_ready(3), of "cp_shared s" f None "[r]"] r
    reg_ok_forget [OF completion_invD(1) [OF probe_ready(3)], of f] show ?case by simp
next
  case (wait_ready s f h k w r t sh)
  then have r: "co_result (cp_shared s) = Some (cp_provided s)" "r = or_abandoned (cp_provided s)" "sh = cp_shared s"
    using completion_invD(6) [OF wait_ready(3)]
    by (auto simp: completion_poll_locked_def panic_simps split: option.splits)
  from wait_change_inv [OF wait_ready(3), of "cp_shared s" f None "[r]"] r
    reg_ok_forget [OF completion_invD(1) [OF wait_ready(3)], of f] show ?case by simp
next
  case (wait_pending s f h k w t sh)
  have n: "co_result (cp_shared s) = None"
    using wait_pending(2) by (auto simp: completion_poll_locked_def split: option.splits)
  with wait_pending(2) obtain a ws where ws: "ws_register (co_waiters (cp_shared s)) (map_option fst k) w = Some (a, Some t, ws)"
    "sh = (cp_shared s)\<lparr>co_waiters := ws\<rparr>"
    by (auto simp: completion_poll_locked_def panic_simps)
  have k: "wait_regs (cp_waits s) f = k" using wait_pending(1) by (simp add: wait_regs_def)
  have "reg_ok ws ((wait_regs (cp_waits s))(f \<mapsto> (t, w, length (cp_woken s)))) (\<lambda>f. co_result (cp_shared s) = None) (cp_woken s)"
    by (rule reg_ok_register [OF completion_invD(1) [OF wait_pending(3)], of f w a "Some t" ws]) (use n k ws in auto)
  with wait_change_inv [OF wait_pending(3), of sh f "Some (h, Some (t, w, length (cp_woken s)))" "[]"] ws(2)
    completion_invD(2) [OF wait_pending(3,1)]
  show ?case by simp
next
  case (wait_cancel s f h k sh)
  note ok = completion_invD(1) [OF wait_cancel(3)]
  have k: "wait_regs (cp_waits s) f = k" using wait_cancel(1) by (simp add: wait_regs_def)
  have "co_result sh = co_result (cp_shared s) \<and>
    reg_ok (co_waiters sh) ((wait_regs (cp_waits s))(f := None)) (\<lambda>f. co_result (cp_shared s) = None) (cp_woken s)"
  proof (cases "k = None \<or> co_result (cp_shared s) \<noteq> None")
    case True
    with wait_cancel(2) have sh: "sh = cp_shared s" by (auto simp: completion_wait_drop_def split: if_splits)
    show ?thesis
    proof (cases "k = None")
      case True
      then have "(wait_regs (cp_waits s))(f := None) = wait_regs (cp_waits s)" using k by auto
      with ok sh show ?thesis by simp
    next
      case False
      with True have "co_result (cp_shared s) \<noteq> None" by simp
      from reg_ok_forget [OF ok this] sh show ?thesis by blast
    qed
  next
    case False
    then obtain t w m where x: "wait_regs (cp_waits s) f = Some (t, w, m)" "co_result (cp_shared s) = None" using k by (cases k) auto
    obtain ws where "ws_unregister (co_waiters (cp_shared s)) (Some t) = Some (Some w, None, ws)"
      "reg_ok ws ((wait_regs (cp_waits s))(f := None)) (\<lambda>f. co_result (cp_shared s) = None) (cp_woken s)"
      by (rule reg_ok_unregister [OF ok x(2,1)])
    then show ?thesis using wait_cancel(2) x k by (auto simp: completion_wait_drop_def)
  qed
  with wait_change_inv [OF wait_cancel(3), of sh f None "[]"] show ?case by simp
qed

lemma completion_reach_inv: "completion_step\<^sup>*\<^sup>* completion_init s \<Longrightarrow> completion_inv s"
  by (induction rule: rtranclp_induct) (auto intro: completion_init_inv completion_step_inv)

section \<open>A run\<close>

text \<open>An observer parks, and the completer provides a value.\<close>

definition demo_completion ::
  "nat option option \<Rightarrow> waker_set \<Rightarrow> (waker_token \<times> waker \<times> nat) option \<Rightarrow> waker list \<Rightarrow> nat completion_sys" where
  "demo_completion r ws k woken = \<lparr>cp_shared = \<lparr>co_result = r, co_waiters = ws\<rparr>, cp_completer = (r = None),
     cp_observers = {0}, cp_waits = [0 \<mapsto> (0, k)], cp_results = [], cp_provided = Option.bind r id, cp_woken = woken\<rparr>"

lemma demo_completion_provided:
  "completion_step\<^sup>*\<^sup>* completion_init (demo_completion (Some (Some 5)) ws_new (Some (only_token, 7, 0)) [7])"
proof -
  let ?a = "demo_completion None ws_new None []" and ?b = "demo_completion None (one_waker 7) (Some (only_token, 7, 0)) []"
  have "completion_step completion_init ?a"
    using completion_step.begin_wait [of 0 completion_init 0]
    by (simp add: completion_init_def completion_new_def demo_completion_def)
  moreover have "completion_step ?a ?b"
    using completion_step.wait_pending [of ?a 0 0 None 7 only_token "cp_shared ?b"]
    by (simp add: demo_completion_def completion_poll_locked_def one_waker_simps)
  moreover have "completion_step ?b (demo_completion (Some (Some 5)) ws_new (Some (only_token, 7, 0)) [7])"
    using completion_step.provide [of ?b 5 "[7]" "\<lparr>co_result = Some (Some 5), co_waiters = ws_new\<rparr>"]
    by (simp add: demo_completion_def complete_def publish_result_def once_lock_set_def one_waker_simps)
  ultimately show ?thesis by (meson run_step rtranclp.rtrancl_refl)
qed

section \<open>Properties\<close>

text \<open>
  C37: a completion is resolved exactly once and everybody agrees. The completer never finds the
  result already set, so providing a value and abandoning never panic. Once the completer is gone
  and someone still observes, the result is the provided value, or abandonment if none was
  provided; every wait that returned got it; and every pending wait has been woken since its last
  poll and its next poll returns it.
\<close>

theorem completion_resolves:
  assumes "completion_step\<^sup>*\<^sup>* completion_init s"
  shows "(cp_completer s \<longrightarrow> (\<forall>a v. complete a v (cp_shared s) \<noteq> None \<and> completer_drop a (cp_shared s) \<noteq> None)) \<and>
    (\<forall>r \<in> set (cp_results s). \<not> cp_completer s \<and> r = or_abandoned (cp_provided s)) \<and>
    (\<forall>f h t w m. \<not> cp_completer s \<longrightarrow> cp_waits s f = Some (h, Some (t, w, m)) \<longrightarrow>
       w \<in> set (drop m (cp_woken s)) \<and> completion_probe (cp_shared s) = Some (or_abandoned (cp_provided s)))"
proof (intro conjI allI impI ballI)
  note inv = completion_reach_inv [OF assms]
  show "complete a v (cp_shared s) \<noteq> None" "completer_drop a (cp_shared s) \<noteq> None" if c: "cp_completer s" for a v
  proof -
    note n = completion_invD(3) [OF inv c]
    obtain ws sh where "publish_result (Some v) (cp_shared s) = Some (ws, sh)" using publish_result_total [OF n] by blast
    then show "complete a v (cp_shared s) \<noteq> None" by (simp add: complete_def)
    show "completer_drop a (cp_shared s) \<noteq> None"
      using publish_result_total [OF n, of None] by (auto simp: completer_drop_def)
  qed
  show "\<not> cp_completer s" "r = or_abandoned (cp_provided s)" if "r \<in> set (cp_results s)" for r
    using completion_invD(3,5,7) [OF inv] that by auto
  fix f h t w m
  assume a: "\<not> cp_completer s" "cp_waits s f = Some (h, Some (t, w, m))"
  then have r: "co_result (cp_shared s) = Some (cp_provided s)"
    using completion_invD(2) [OF inv a(2)] completion_invD(4) [OF inv a(1)] by blast
  have "wait_regs (cp_waits s) f = Some (t, w, m)" using a(2) by (simp add: wait_regs_def)
  with reg_okD(4) [OF completion_invD(1) [OF inv]] r show "w \<in> set (drop m (cp_woken s))" by simp
  show "completion_probe (cp_shared s) = Some (or_abandoned (cp_provided s))" using r by (simp add: completion_probe_def)
qed

theorem completion_resolves_witness:
  "(7::waker) \<in> set (drop 0 [7]) \<and> completion_probe \<lparr>co_result = Some (Some 5), co_waiters = ws_new\<rparr> = Some (Ok (5::nat))"
proof -
  let ?s = "demo_completion (Some (Some 5)) ws_new (Some (only_token, 7, 0)) [7]"
  have "\<not> cp_completer ?s" "cp_waits ?s 0 = Some (0, Some (only_token, 7, 0))" by (simp_all add: demo_completion_def)
  then have "7 \<in> set (drop 0 (cp_woken ?s)) \<and> completion_probe (cp_shared ?s) = Some (or_abandoned (cp_provided ?s))"
    using completion_resolves [OF demo_completion_provided] by blast
  then show ?thesis by (simp add: demo_completion_def or_abandoned_def)
qed

end
