(* ===== verification/Shutdown.thy ===== *)
theory Shutdown
  imports Countdown WaitGroup Registrations
begin

text \<open>
  Graceful shutdown (\<open>shutdown/mod.rs\<close>), composed of a latch of one, which announces the request,
  and a wait group, which counts the guards still at work. The calls on the two are those of
  \<open>Countdown\<close> and \<open>WaitGroup\<close>, whole, as their own theories show them to behave under every
  interleaving of their accesses.
\<close>

section \<open>Operations\<close>

record shutdown =
  sd_latch :: latch
  sd_wg :: wg_state

text \<open>The wait group handle is cloned for the future and goes into the first guard.\<close>

definition shutdown_new :: "(waker_token option \<times> shutdown) option" where
  "shutdown_new = (case wg_new of (wg, st) \<Rightarrow> do {
     (wg', st) \<leftarrow> wg_clone wg st;
     (wait, woken, st) \<leftarrow> wg_into_future wg' st;
     Some (wait, \<lparr>sd_latch = latch_new 1, sd_wg = st\<rparr>) })"

definition request_shutdown :: "nat \<Rightarrow> shutdown \<Rightarrow> waker list \<times> shutdown" where
  "request_shutdown spurious sd =
     (case count_down spurious (sd_latch sd) of (woken, latch) \<Rightarrow> (woken, sd\<lparr>sd_latch := latch\<rparr>))"

text \<open>Polling the handle requests the shutdown first.\<close>

definition shutdown_poll :: "nat \<Rightarrow> shutdown \<Rightarrow> waker_token option \<Rightarrow> waker \<Rightarrow>
  (unit poll \<times> waker_token option \<times> waker list \<times> shutdown) option" where
  "shutdown_poll spurious sd token waker =
     (case request_shutdown spurious sd of (woken, sd) \<Rightarrow> do {
        (r, token, wg) \<leftarrow> wait_poll (sd_wg sd) token waker;
        Some (r, token, woken, sd\<lparr>sd_wg := wg\<rparr>) })"

definition shutdown_clone :: "waker_token option \<Rightarrow> waker_token option" where
  "shutdown_clone token = wait_clone token"

definition shutdown_drop :: "shutdown \<Rightarrow> waker_token option \<Rightarrow> shutdown option" where
  "shutdown_drop sd token = map_option (\<lambda>wg. sd\<lparr>sd_wg := wg\<rparr>) (wait_drop (sd_wg sd) token)"

definition guard_clone :: "shutdown \<Rightarrow> shutdown option" where
  "guard_clone sd = map_option (\<lambda>(h, wg). sd\<lparr>sd_wg := wg\<rparr>) (wg_clone True (sd_wg sd))"

definition shutdown_guard_drop :: "shutdown \<Rightarrow> (waker list \<times> shutdown) option" where
  "shutdown_guard_drop sd = map_option (\<lambda>(woken, wg). (woken, sd\<lparr>sd_wg := wg\<rparr>)) (wg_drop True (sd_wg sd))"

text \<open>Turning a guard into a watch drops its wait group handle.\<close>

definition into_watch :: "shutdown \<Rightarrow> (waker list \<times> shutdown) option" where
  "into_watch sd = map_option (\<lambda>(woken, wg). (woken, sd\<lparr>sd_wg := wg\<rparr>)) (wg_drop True (sd_wg sd))"

definition is_shutdown_requested :: "shutdown \<Rightarrow> bool" where
  "is_shutdown_requested sd = (latch_try_wait (sd_latch sd) = Ok ())"

definition shutdown_requested_poll :: "shutdown \<Rightarrow> waker_token option \<Rightarrow> waker \<Rightarrow>
  (unit poll \<times> waker_token option \<times> shutdown) option" where
  "shutdown_requested_poll sd token waker = do {
     (r, token, latch) \<leftarrow> latch_wait_poll (sd_latch sd) token waker;
     Some (r, token, sd\<lparr>sd_latch := latch\<rparr>) }"

definition shutdown_requested_drop :: "shutdown \<Rightarrow> waker_token option \<Rightarrow> shutdown option" where
  "shutdown_requested_drop sd token = map_option (\<lambda>latch. sd\<lparr>sd_latch := latch\<rparr>) (latch_wait_drop (sd_latch sd) token)"

section \<open>Waiting at a gate\<close>

text \<open>The latch and the wait group have the same registrations, live until the count is zero.\<close>

definition gate_ok :: "'c::zero gate \<Rightarrow> nat registrations \<Rightarrow> waker list \<Rightarrow> bool" where
  "gate_ok g R woken \<longleftrightarrow> reg_ok (gt_waiters g) R (\<lambda>f. gt_count g \<noteq> 0) woken"

definition gate_poll :: "'c::zero gate \<Rightarrow> waker_token option \<Rightarrow> waker \<Rightarrow> (unit poll \<times> waker_token option \<times> 'c gate) option" where
  "gate_poll g token w =
     (if gt_count g = 0 then Some (Ready (), None, g)
      else do {
        (r, token, ws) \<leftarrow> ws_register (gt_waiters g) token w;
        Some (Pending, token, g\<lparr>gt_waiters := ws\<rparr>) })"

definition gate_leave :: "'c::zero gate \<Rightarrow> waker_token option \<Rightarrow> 'c gate option" where
  "gate_leave g token =
     (if token = None \<or> gt_count g = 0 then Some g
      else do {
        (w, token, ws) \<leftarrow> ws_unregister (gt_waiters g) token;
        Some (g\<lparr>gt_waiters := ws\<rparr>) })"

lemma gate_calls:
  "latch_wait_poll l token w = gate_poll l token w" "wait_poll g token w = gate_poll g token w"
  "latch_wait_drop l token = gate_leave l token" "wait_drop g token = gate_leave g token"
  by (auto simp: latch_wait_poll_def cd_poll_wait_def cd_try_wait_def cd_state_def gate_poll_def wait_poll_def
      wg_poll_wait_def latch_wait_drop_def cd_unregister_def gate_leave_def wait_drop_def wg_unregister_def
      map_option_bind split: option.splits Option.bind_splits)

lemma gate_ok_poll:
  assumes ok: "gate_ok g R woken" and p: "gate_poll g (map_option fst (R f)) w = Some (r, token, g')"
  shows "gt_count g' = gt_count g" and "r = Ready () \<longleftrightarrow> gt_count g = 0"
    and "r = Pending \<Longrightarrow> \<exists>t. token = Some t \<and> gate_ok g' (R(f \<mapsto> (t, w, length woken))) woken"
    and "r = Ready () \<Longrightarrow> gate_ok g' (R(f := None)) woken"
proof -
  show "gt_count g' = gt_count g" "r = Ready () \<longleftrightarrow> gt_count g = 0"
    using p by (auto simp: gate_poll_def panic_simps split: if_splits)
  show "\<exists>t. token = Some t \<and> gate_ok g' (R(f \<mapsto> (t, w, length woken))) woken" if pend: "r = Pending"
  proof -
    obtain a ws where ws: "gt_count g \<noteq> 0" "ws_register (gt_waiters g) (map_option fst (R f)) w = Some (a, token, ws)"
      "g' = g\<lparr>gt_waiters := ws\<rparr>"
      using p pend by (auto simp: gate_poll_def panic_simps split: if_splits)
    obtain t where "token = Some t" "reg_ok ws (R(f \<mapsto> (t, w, length woken))) (\<lambda>f. gt_count g \<noteq> 0) woken"
      by (rule reg_ok_register [OF ok [unfolded gate_ok_def] ws(1,2)])
    with ws(3) show ?thesis by (simp add: gate_ok_def)
  qed
  show "gate_ok g' (R(f := None)) woken" if "r = Ready ()"
  proof -
    have z: "gt_count g = 0" "g' = g" using p that by (auto simp: gate_poll_def panic_simps split: if_splits)
    with reg_ok_forget [OF ok [unfolded gate_ok_def], of f] show ?thesis by (simp add: gate_ok_def)
  qed
qed

lemma gate_ok_leave:
  assumes ok: "gate_ok g R woken" and l: "gate_leave g (map_option fst (R f)) = Some g'"
  shows "gt_count g' = gt_count g" and "gate_ok g' (R(f := None)) woken"
proof -
  have "gt_count g' = gt_count g \<and> gate_ok g' (R(f := None)) woken"
  proof (cases "R f = None \<or> gt_count g = 0")
    case True
    with l have "g' = g" by (auto simp: gate_leave_def split: if_splits)
    show ?thesis
    proof (cases "R f")
      case None
      then have "R(f := None) = R" by auto
      with ok \<open>g' = g\<close> show ?thesis by simp
    next
      case (Some k)
      with True have "\<not> gt_count g \<noteq> 0" by simp
      from reg_ok_forget [OF ok [unfolded gate_ok_def] this] \<open>g' = g\<close> show ?thesis by (simp add: gate_ok_def)
    qed
  next
    case False
    then obtain t w m where k: "R f = Some (t, w, m)" and n: "gt_count g \<noteq> 0" by (cases "R f") auto
    obtain ws where "ws_unregister (gt_waiters g) (Some t) = Some (Some w, None, ws)"
      "reg_ok ws (R(f := None)) (\<lambda>f. gt_count g \<noteq> 0) woken"
      by (rule reg_ok_unregister [OF ok [unfolded gate_ok_def] n k])
    with l k n show ?thesis by (auto simp: gate_leave_def gate_ok_def)
  qed
  then show "gt_count g' = gt_count g" and "gate_ok g' (R(f := None)) woken" by blast+
qed

text \<open>Reaching zero wakes everyone; any other change of the count leaves the registrations alone.\<close>

lemma gate_ok_zero:
  assumes "gate_ok g R woken"
  shows "gate_ok \<lparr>gt_count = 0, gt_waiters = ws_new\<rparr> R (woken @ ws_wake_all (gt_waiters g))"
  using reg_ok_wake_all [OF assms [unfolded gate_ok_def], of "\<lambda>f. False"] by (simp add: gate_ok_def)

lemma gate_ok_count:
  assumes "gate_ok g R woken" and "c = 0 \<longleftrightarrow> gt_count g = 0"
  shows "gate_ok (g\<lparr>gt_count := c\<rparr>) R woken"
  using assms by (simp add: gate_ok_def)

lemma gate_ok_more:
  assumes "gate_ok g R woken"
  shows "gate_ok g R (woken @ ws)"
  using assms unfolding gate_ok_def reg_ok_def by fastforce

section \<open>Guards, watchers and shutdown handles\<close>

text \<open>
  Shutdown handles and pending \<open>shutdown_requested\<close> futures with their registrations, the number
  of guards, and whether a shutdown was requested. The strong count of an \<open>Arc\<close> aborts the
  process before it overflows, so the number of guards stays within a \<open>usize\<close>.
\<close>

record shutdown_sys =
  sh_sd :: shutdown
  sh_guards :: nat
  sh_handles :: "nat \<Rightarrow> (waker_token \<times> waker \<times> nat) option option"
  sh_waits :: "nat \<Rightarrow> (waker_token \<times> waker \<times> nat) option option"
  sh_requested :: bool
  sh_woken :: "waker list"

definition shutdown_init :: "shutdown \<Rightarrow> shutdown_sys" where
  "shutdown_init sd = \<lparr>sh_sd = sd, sh_guards = 1, sh_handles = [0 \<mapsto> None], sh_waits = Map.empty,
     sh_requested = False, sh_woken = []\<rparr>"

inductive shutdown_step :: "shutdown_sys \<Rightarrow> shutdown_sys \<Rightarrow> bool" where
  request: "sh_handles s f = Some k \<Longrightarrow> request_shutdown sp (sh_sd s) = (ws, sd) \<Longrightarrow>
    shutdown_step s (s\<lparr>sh_sd := sd, sh_requested := True, sh_woken := sh_woken s @ ws\<rparr>)"
| poll_pending: "sh_handles s f = Some k \<Longrightarrow>
    shutdown_poll sp (sh_sd s) (map_option fst k) w = Some (Pending, Some t, ws, sd) \<Longrightarrow>
    shutdown_step s (s\<lparr>sh_sd := sd, sh_requested := True, sh_woken := sh_woken s @ ws,
      sh_handles := (sh_handles s)(f \<mapsto> Some (t, w, length (sh_woken s @ ws)))\<rparr>)"
| poll_ready: "sh_handles s f = Some k \<Longrightarrow>
    shutdown_poll sp (sh_sd s) (map_option fst k) w = Some (Ready (), t, ws, sd) \<Longrightarrow>
    shutdown_step s (s\<lparr>sh_sd := sd, sh_requested := True, sh_woken := sh_woken s @ ws,
      sh_handles := (sh_handles s)(f \<mapsto> None)\<rparr>)"
| clone_handle: "sh_handles s f = Some k \<Longrightarrow> sh_handles s g = None \<Longrightarrow> shutdown_clone (map_option fst k) = None \<Longrightarrow>
    shutdown_step s (s\<lparr>sh_handles := (sh_handles s)(g \<mapsto> None)\<rparr>)"
| drop_handle: "sh_handles s f = Some k \<Longrightarrow> shutdown_drop (sh_sd s) (map_option fst k) = Some sd \<Longrightarrow>
    shutdown_step s (s\<lparr>sh_sd := sd, sh_handles := (sh_handles s)(f := None)\<rparr>)"
| clone_guard: "0 < sh_guards s \<Longrightarrow> sh_guards s < usize_max \<Longrightarrow> guard_clone (sh_sd s) = Some sd \<Longrightarrow>
    shutdown_step s (s\<lparr>sh_sd := sd, sh_guards := sh_guards s + 1\<rparr>)"
| drop_guard: "0 < sh_guards s \<Longrightarrow> shutdown_guard_drop (sh_sd s) = Some (ws, sd) \<Longrightarrow>
    shutdown_step s (s\<lparr>sh_sd := sd, sh_guards := sh_guards s - 1, sh_woken := sh_woken s @ ws\<rparr>)"
| turn_into_watch: "0 < sh_guards s \<Longrightarrow> into_watch (sh_sd s) = Some (ws, sd) \<Longrightarrow>
    shutdown_step s (s\<lparr>sh_sd := sd, sh_guards := sh_guards s - 1, sh_woken := sh_woken s @ ws\<rparr>)"
| begin_wait: "sh_waits s f = None \<Longrightarrow> shutdown_step s (s\<lparr>sh_waits := (sh_waits s)(f \<mapsto> None)\<rparr>)"
| wait_pending: "sh_waits s f = Some k \<Longrightarrow>
    shutdown_requested_poll (sh_sd s) (map_option fst k) w = Some (Pending, Some t, sd) \<Longrightarrow>
    shutdown_step s (s\<lparr>sh_sd := sd, sh_waits := (sh_waits s)(f \<mapsto> Some (t, w, length (sh_woken s)))\<rparr>)"
| wait_ready: "sh_waits s f = Some k \<Longrightarrow>
    shutdown_requested_poll (sh_sd s) (map_option fst k) w = Some (Ready (), t, sd) \<Longrightarrow>
    shutdown_step s (s\<lparr>sh_sd := sd, sh_waits := (sh_waits s)(f := None)\<rparr>)"
| wait_cancel: "sh_waits s f = Some k \<Longrightarrow> shutdown_requested_drop (sh_sd s) (map_option fst k) = Some sd \<Longrightarrow>
    shutdown_step s (s\<lparr>sh_sd := sd, sh_waits := (sh_waits s)(f := None)\<rparr>)"

definition flat :: "(nat \<Rightarrow> 'r option option) \<Rightarrow> nat \<Rightarrow> 'r option" where
  "flat F f = Option.bind (F f) id"

definition shutdown_inv :: "shutdown_sys \<Rightarrow> bool" where
  "shutdown_inv s \<longleftrightarrow>
     gt_count (sd_latch (sh_sd s)) = (if sh_requested s then 0 else 1) \<and>
     gate_ok (sd_latch (sh_sd s)) (flat (sh_waits s)) (sh_woken s) \<and>
     gt_count (sd_wg (sh_sd s)) = sh_guards s \<and> sh_guards s \<le> usize_max \<and>
     gate_ok (sd_wg (sh_sd s)) (flat (sh_handles s)) (sh_woken s)"

lemma shutdown_invD:
  assumes "shutdown_inv s"
  shows "gt_count (sd_latch (sh_sd s)) = (if sh_requested s then 0 else 1)"
    "gate_ok (sd_latch (sh_sd s)) (flat (sh_waits s)) (sh_woken s)"
    "gt_count (sd_wg (sh_sd s)) = sh_guards s" "sh_guards s \<le> usize_max"
    "gate_ok (sd_wg (sh_sd s)) (flat (sh_handles s)) (sh_woken s)"
  using assms unfolding shutdown_inv_def by blast+

lemma flat_upd: "flat (F(f := y)) = (flat F)(f := Option.bind y id)"
  by (auto simp: flat_def)

lemma flat_same: "F f = Some k \<Longrightarrow> flat F f = k"
  by (simp add: flat_def)

lemma request_shutdown_inv:
  assumes inv: "shutdown_inv s" and r: "request_shutdown sp (sh_sd s) = (ws, sd)"
  shows "shutdown_inv (s\<lparr>sh_sd := sd, sh_requested := True, sh_woken := sh_woken s @ ws\<rparr>)" and "sd_wg sd = sd_wg (sh_sd s)"
proof -
  note d = shutdown_invD [OF inv]
  have c: "latch_count (sd_latch (sh_sd s)) = (if sh_requested s then 0 else 1)"
    using d(1) by (simp add: latch_count_def cd_state_def)
  obtain l where l: "count_down sp (sd_latch (sh_sd s)) = (ws, l)" "sd = (sh_sd s)\<lparr>sd_latch := l\<rparr>"
    using r by (auto simp: request_shutdown_def split: prod.splits)
  have "gt_count l = 0 \<and> gate_ok l (flat (sh_waits s)) (sh_woken s @ ws)"
  proof (cases "sh_requested s")
    case True
    with l(1) c have "ws = []" "l = (sd_latch (sh_sd s))\<lparr>gt_count := 0\<rparr>"
      by (auto simp: count_down_eq arrive_eq saturating_sub_def split: if_splits)
    with gate_ok_count [OF d(2), of 0] d(1) True show ?thesis by simp
  next
    case False
    with l(1) c have "ws = ws_wake_all (gt_waiters (sd_latch (sh_sd s)))" "l = \<lparr>gt_count = 0, gt_waiters = ws_new\<rparr>"
      by (auto simp: count_down_eq arrive_eq split: if_splits)
    with gate_ok_zero [OF d(2)] show ?thesis by simp
  qed
  with d(3,4) gate_ok_more [OF d(5)] l(2)
  show "shutdown_inv (s\<lparr>sh_sd := sd, sh_requested := True, sh_woken := sh_woken s @ ws\<rparr>)" and "sd_wg sd = sd_wg (sh_sd s)"
    by (simp_all add: shutdown_inv_def)
qed

lemma release_guard_inv:
  assumes inv: "shutdown_inv s" and g: "0 < sh_guards s" and r: "wg_drop True (sd_wg (sh_sd s)) = Some (ws, wg)"
  shows "shutdown_inv (s\<lparr>sh_sd := (sh_sd s)\<lparr>sd_wg := wg\<rparr>, sh_guards := sh_guards s - 1, sh_woken := sh_woken s @ ws\<rparr>)"
proof -
  note d = shutdown_invD [OF inv]
  have "gt_count wg = sh_guards s - 1 \<and> gate_ok wg (flat (sh_handles s)) (sh_woken s @ ws)"
  proof (cases "sh_guards s = 1")
    case True
    with r d(3) have "ws = ws_wake_all (gt_waiters (sd_wg (sh_sd s)))" "wg = \<lparr>gt_count = 0, gt_waiters = ws_new\<rparr>"
      by (auto simp: wg_drop_def release_handle_def)
    with gate_ok_zero [OF d(5)] True show ?thesis by simp
  next
    case False
    with r d(3) g have "ws = []" "wg = (sd_wg (sh_sd s))\<lparr>gt_count := sh_guards s - 1\<rparr>"
      by (auto simp: wg_drop_def release_handle_def)
    with gate_ok_count [OF d(5), of "sh_guards s - 1"] d(3) g False show ?thesis by simp
  qed
  with d(1,4) gate_ok_more [OF d(2)] show ?thesis by (simp add: shutdown_inv_def)
qed

text \<open>A step of one shutdown handle, or of one watcher.\<close>

lemma handle_inv:
  assumes "shutdown_inv s" and "gt_count wg = gt_count (sd_wg (sh_sd s))"
    and "gate_ok wg ((flat (sh_handles s))(f := Option.bind y id)) (sh_woken s)"
  shows "shutdown_inv (s\<lparr>sh_sd := (sh_sd s)\<lparr>sd_wg := wg\<rparr>, sh_handles := (sh_handles s)(f := y)\<rparr>)"
  using shutdown_invD [OF assms(1)] assms(2,3) by (simp add: shutdown_inv_def flat_upd)

lemma watcher_inv:
  assumes "shutdown_inv s" and "gt_count l = gt_count (sd_latch (sh_sd s))"
    and "gate_ok l ((flat (sh_waits s))(f := Option.bind y id)) (sh_woken s)"
  shows "shutdown_inv (s\<lparr>sh_sd := (sh_sd s)\<lparr>sd_latch := l\<rparr>, sh_waits := (sh_waits s)(f := y)\<rparr>)"
  using shutdown_invD [OF assms(1)] assms(2,3) by (simp add: shutdown_inv_def flat_upd)

lemma shutdown_pollE:
  assumes "shutdown_inv s" and "sh_handles s f = Some k"
    and "shutdown_poll sp (sh_sd s) (map_option fst k) w = Some (r, token, ws, sd)"
  obtains s1 wg where "shutdown_inv s1" and "s1 = s\<lparr>sh_sd := sh_sd s1, sh_requested := True, sh_woken := sh_woken s @ ws\<rparr>"
    and "sd_wg (sh_sd s1) = sd_wg (sh_sd s)" and "sd = (sh_sd s1)\<lparr>sd_wg := wg\<rparr>"
    and "gate_poll (sd_wg (sh_sd s)) (map_option fst (flat (sh_handles s) f)) w = Some (r, token, wg)"
proof -
  obtain sd1 where q: "request_shutdown sp (sh_sd s) = (ws, sd1)"
    using assms(3) by (auto simp: shutdown_poll_def panic_simps split: prod.splits)
  define s1 where "s1 = s\<lparr>sh_sd := sd1, sh_requested := True, sh_woken := sh_woken s @ ws\<rparr>"
  note r = request_shutdown_inv [OF assms(1) q]
  obtain wg where wg: "wait_poll (sd_wg sd1) (map_option fst k) w = Some (r, token, wg)" "sd = sd1\<lparr>sd_wg := wg\<rparr>"
    using assms(3) q by (auto simp: shutdown_poll_def panic_simps split: prod.splits)
  show thesis
    by (rule that [of s1 wg]) (use r wg flat_same [of "sh_handles s" f k, OF assms(2)] in \<open>simp_all add: s1_def gate_calls\<close>)
qed

lemma shutdown_poll_inv:
  assumes inv: "shutdown_inv s" and f: "sh_handles s f = Some k"
    and p: "shutdown_poll sp (sh_sd s) (map_option fst k) w = Some (r, token, ws, sd)"
    and y: "r = Pending \<and> (\<exists>t. token = Some t \<and> y = Some (t, w, length (sh_woken s @ ws))) \<or> r = Ready () \<and> y = None"
  shows "shutdown_inv (s\<lparr>sh_sd := sd, sh_requested := True, sh_woken := sh_woken s @ ws, sh_handles := (sh_handles s)(f \<mapsto> y)\<rparr>)"
proof -
  obtain s1 wg where s1: "shutdown_inv s1" "s1 = s\<lparr>sh_sd := sh_sd s1, sh_requested := True, sh_woken := sh_woken s @ ws\<rparr>"
    "sd_wg (sh_sd s1) = sd_wg (sh_sd s)" "sd = (sh_sd s1)\<lparr>sd_wg := wg\<rparr>"
    and g: "gate_poll (sd_wg (sh_sd s)) (map_option fst (flat (sh_handles s) f)) w = Some (r, token, wg)"
    by (rule shutdown_pollE [OF inv f p])
  have h: "sh_handles s1 = sh_handles s" "sh_woken s1 = sh_woken s @ ws" by (subst s1(2), simp)+
  have ok: "gate_ok (sd_wg (sh_sd s)) (flat (sh_handles s)) (sh_woken s @ ws)"
    using shutdown_invD(5) [OF s1(1)] s1(3) h by simp
  have "gt_count wg = gt_count (sd_wg (sh_sd s1))" using gate_ok_poll(1) [OF ok g] s1(3) by simp
  moreover have "gate_ok wg ((flat (sh_handles s1))(f := y)) (sh_woken s1)"
    using gate_ok_poll(3,4) [OF ok g] y h by auto
  ultimately have "shutdown_inv (s1\<lparr>sh_sd := (sh_sd s1)\<lparr>sd_wg := wg\<rparr>, sh_handles := (sh_handles s1)(f \<mapsto> y)\<rparr>)"
    by (intro handle_inv [OF s1(1)]) simp_all
  moreover have "s1\<lparr>sh_sd := (sh_sd s1)\<lparr>sd_wg := wg\<rparr>, sh_handles := (sh_handles s1)(f \<mapsto> y)\<rparr> =
      s\<lparr>sh_sd := sd, sh_requested := True, sh_woken := sh_woken s @ ws, sh_handles := (sh_handles s)(f \<mapsto> y)\<rparr>"
    by (subst s1(2)) (simp add: s1(4) h(1))
  ultimately show ?thesis by simp
qed

lemma shutdown_step_inv: "shutdown_step s s' \<Longrightarrow> shutdown_inv s \<Longrightarrow> shutdown_inv s'"
proof (induction rule: shutdown_step.induct)
  case (request s f k sp ws sd)
  show ?case by (rule request_shutdown_inv(1) [OF request(3,2)])
next
  case (poll_pending s f k sp w t ws sd)
  show ?case by (rule shutdown_poll_inv [OF poll_pending(3,1,2)]) simp
next
  case (poll_ready s f k sp w t ws sd)
  show ?case by (rule shutdown_poll_inv [OF poll_ready(3,1,2)]) simp
next
  case (clone_handle s f k g)
  have "(flat (sh_handles s))(g := None) = flat (sh_handles s)" using clone_handle(2) by (auto simp: flat_def)
  with clone_handle(4) show ?case by (simp add: shutdown_inv_def flat_upd)
next
  case (drop_handle s f k sd)
  then obtain wg where wg: "gate_leave (sd_wg (sh_sd s)) (map_option fst (flat (sh_handles s) f)) = Some wg"
    "sd = (sh_sd s)\<lparr>sd_wg := wg\<rparr>"
    by (auto simp: shutdown_drop_def gate_calls flat_same)
  from handle_inv [OF drop_handle(3), of wg f None] gate_ok_leave [OF shutdown_invD(5) [OF drop_handle(3)] wg(1)] wg(2)
  show ?case by simp
next
  case (clone_guard s sd)
  note d = shutdown_invD [OF clone_guard(4)]
  have "sd = (sh_sd s)\<lparr>sd_wg := (sd_wg (sh_sd s))\<lparr>gt_count := sh_guards s + 1\<rparr>\<rparr>"
    using clone_guard d(3) by (auto simp: guard_clone_def wg_clone_def register_handle_def)
  with d gate_ok_count [OF d(5), of "sh_guards s + 1"] clone_guard(1,2) show ?case by (simp add: shutdown_inv_def)
next
  case (drop_guard s ws sd)
  then show ?case using release_guard_inv [OF drop_guard(3,1)] by (auto simp: shutdown_guard_drop_def)
next
  case (turn_into_watch s ws sd)
  then show ?case using release_guard_inv [OF turn_into_watch(3,1)] by (auto simp: into_watch_def)
next
  case (begin_wait s f)
  have "(flat (sh_waits s))(f := None) = flat (sh_waits s)" using begin_wait(1) by (auto simp: flat_def)
  with begin_wait(2) show ?case by (simp add: shutdown_inv_def flat_upd)
next
  case (wait_pending s f k w t sd)
  then obtain l where l: "gate_poll (sd_latch (sh_sd s)) (map_option fst (flat (sh_waits s) f)) w = Some (Pending, Some t, l)"
    "sd = (sh_sd s)\<lparr>sd_latch := l\<rparr>"
    by (auto simp: shutdown_requested_poll_def gate_calls flat_same panic_simps)
  from watcher_inv [OF wait_pending(3), of l f "Some (Some (t, w, length (sh_woken s)))"]
    gate_ok_poll(1,3) [OF shutdown_invD(2) [OF wait_pending(3)] l(1)] l(2)
  show ?case by simp
next
  case (wait_ready s f k w t sd)
  then obtain l where l: "gate_poll (sd_latch (sh_sd s)) (map_option fst (flat (sh_waits s) f)) w = Some (Ready (), t, l)"
    "sd = (sh_sd s)\<lparr>sd_latch := l\<rparr>"
    by (auto simp: shutdown_requested_poll_def gate_calls flat_same panic_simps)
  from watcher_inv [OF wait_ready(3), of l f None]
    gate_ok_poll(1,4) [OF shutdown_invD(2) [OF wait_ready(3)] l(1)] l(2)
  show ?case by simp
next
  case (wait_cancel s f k sd)
  then obtain l where l: "gate_leave (sd_latch (sh_sd s)) (map_option fst (flat (sh_waits s) f)) = Some l"
    "sd = (sh_sd s)\<lparr>sd_latch := l\<rparr>"
    by (auto simp: shutdown_requested_drop_def gate_calls flat_same)
  from watcher_inv [OF wait_cancel(3), of l f None] gate_ok_leave [OF shutdown_invD(2) [OF wait_cancel(3)] l(1)] l(2)
  show ?case by simp
qed

lemma shutdown_new_eq:
  "shutdown_new = Some (None, \<lparr>sd_latch = \<lparr>gt_count = 1, gt_waiters = ws_new\<rparr>, sd_wg = \<lparr>gt_count = 1, gt_waiters = ws_new\<rparr>\<rparr>)"
  by (simp add: shutdown_new_def wg_new_def wg_clone_def wg_into_future_def wg_drop_def release_handle_def
      register_handle_def wg_state_new_def latch_new_def cd_new_def usize_max_def)

lemma flat_init: "flat [f \<mapsto> None] = (\<lambda>f. None)" "flat (\<lambda>f. None) = (\<lambda>f. None)"
  by (auto simp: flat_def)

lemma shutdown_init_inv: "shutdown_new = Some (wait, sd) \<Longrightarrow> shutdown_inv (shutdown_init sd)"
  by (auto simp: shutdown_new_eq shutdown_inv_def shutdown_init_def gate_ok_def reg_ok_new flat_init usize_max_def)

lemma shutdown_reach_inv:
  "shutdown_new = Some (wait, sd) \<Longrightarrow> shutdown_step\<^sup>*\<^sup>* (shutdown_init sd) s \<Longrightarrow> shutdown_inv s"
  by (rotate_tac, induction rule: rtranclp_induct) (auto intro: shutdown_init_inv shutdown_step_inv)

section \<open>A run\<close>

text \<open>A watcher parks, the shutdown handle is polled, and the only guard is dropped.\<close>

definition demo_shutdown :: "32 word \<Rightarrow> waker_set \<Rightarrow> nat \<Rightarrow> waker_set \<Rightarrow> shutdown" where
  "demo_shutdown c ws n vs = \<lparr>sd_latch = \<lparr>gt_count = c, gt_waiters = ws\<rparr>, sd_wg = \<lparr>gt_count = n, gt_waiters = vs\<rparr>\<rparr>"

definition demo_waiting :: "shutdown \<Rightarrow> nat \<Rightarrow> bool \<Rightarrow> (waker_token \<times> waker \<times> nat) option \<Rightarrow> waker list \<Rightarrow> shutdown_sys" where
  "demo_waiting sd n r k woken = \<lparr>sh_sd = sd, sh_guards = n, sh_handles = [0 \<mapsto> k], sh_waits = [0 \<mapsto> Some (only_token, 7, 0)],
     sh_requested = r, sh_woken = woken\<rparr>"

lemma demo_shutdown_done:
  "shutdown_step\<^sup>*\<^sup>* (shutdown_init (demo_shutdown 1 ws_new 1 ws_new))
     (demo_waiting (demo_shutdown 0 ws_new 0 ws_new) 0 True (Some (only_token, 8, 1)) [7, 8])"
proof -
  let ?i = "shutdown_init (demo_shutdown 1 ws_new 1 ws_new)"
  let ?a = "?i\<lparr>sh_waits := [0 \<mapsto> None]\<rparr>" and ?b = "demo_waiting (demo_shutdown 1 (one_waker 7) 1 ws_new) 1 False None []"
  let ?c = "demo_waiting (demo_shutdown 0 ws_new 1 (one_waker 8)) 1 True (Some (only_token, 8, 1)) [7]"
  have "shutdown_step ?i ?a"
    using shutdown_step.begin_wait [of ?i 0] by (simp add: shutdown_init_def)
  moreover have "shutdown_step ?a ?b"
    using shutdown_step.wait_pending [of ?a 0 None 7 only_token "sh_sd ?b"]
    by (simp add: shutdown_init_def demo_waiting_def demo_shutdown_def shutdown_requested_poll_def gate_calls gate_poll_def
        one_waker_simps)
  moreover have "shutdown_step ?b ?c"
    using shutdown_step.poll_pending [of ?b 0 None 0 8 only_token "[7]" "sh_sd ?c"]
    by (simp add: demo_waiting_def demo_shutdown_def shutdown_poll_def request_shutdown_def count_down_eq arrive_eq
        latch_count_def cd_state_def gate_calls gate_poll_def one_waker_simps)
  moreover have "shutdown_step ?c (demo_waiting (demo_shutdown 0 ws_new 0 ws_new) 0 True (Some (only_token, 8, 1)) [7, 8])"
    using shutdown_step.drop_guard [of ?c "[8]" "demo_shutdown 0 ws_new 0 ws_new"]
    by (simp add: demo_waiting_def demo_shutdown_def shutdown_guard_drop_def wg_drop_def release_handle_def one_waker_simps)
  ultimately show ?thesis by (meson run_step rtranclp.rtrancl_refl)
qed

section \<open>Properties\<close>

text \<open>
  C38: a shutdown is graceful. It is requested exactly when some handle asked for it or was
  polled; a poll of a handle always leaves it requested, and completes exactly when no guard is
  left. Once the last guard is gone every parked handle has been woken since its last poll, and
  once it is requested every parked watcher has been woken since its last poll and completes at
  its next one.
\<close>

theorem shutdown_graceful:
  assumes "shutdown_new = Some (wait, sd)" and "shutdown_step\<^sup>*\<^sup>* (shutdown_init sd) s"
  shows "(is_shutdown_requested (sh_sd s) \<longleftrightarrow> sh_requested s) \<and>
    (\<forall>f k sp w r t ws sd'. sh_handles s f = Some k \<longrightarrow>
       shutdown_poll sp (sh_sd s) (map_option fst k) w = Some (r, t, ws, sd') \<longrightarrow>
       is_shutdown_requested sd' \<and> (r = Ready () \<longleftrightarrow> sh_guards s = 0)) \<and>
    (\<forall>f t w m. sh_guards s = 0 \<longrightarrow> sh_handles s f = Some (Some (t, w, m)) \<longrightarrow> w \<in> set (drop m (sh_woken s))) \<and>
    (\<forall>f t w m. sh_requested s \<longrightarrow> sh_waits s f = Some (Some (t, w, m)) \<longrightarrow>
       w \<in> set (drop m (sh_woken s)) \<and> (\<forall>w'. shutdown_requested_poll (sh_sd s) (Some t) w' = Some (Ready (), None, sh_sd s)))"
proof (intro conjI allI impI)
  note inv = shutdown_reach_inv [OF assms]
  note d = shutdown_invD [OF inv]
  show "is_shutdown_requested (sh_sd s) \<longleftrightarrow> sh_requested s"
    using d(1) by (simp add: is_shutdown_requested_def latch_try_wait_def cd_try_wait_def cd_state_def)
  show "is_shutdown_requested sd'" "r = Ready () \<longleftrightarrow> sh_guards s = 0"
    if f: "sh_handles s f = Some k" "shutdown_poll sp (sh_sd s) (map_option fst k) w = Some (r, t, ws, sd')" for f k sp w r t ws sd'
  proof -
    obtain s1 wg where s1: "shutdown_inv s1" "s1 = s\<lparr>sh_sd := sh_sd s1, sh_requested := True, sh_woken := sh_woken s @ ws\<rparr>"
      "sd' = (sh_sd s1)\<lparr>sd_wg := wg\<rparr>"
      and g: "gate_poll (sd_wg (sh_sd s)) (map_option fst (flat (sh_handles s) f)) w = Some (r, t, wg)"
      by (rule shutdown_pollE [OF inv f])
    have "sh_requested s1" by (subst s1(2)) simp
    with shutdown_invD(1) [OF s1(1)] s1(3) show "is_shutdown_requested sd'"
      by (simp add: is_shutdown_requested_def latch_try_wait_def cd_try_wait_def cd_state_def)
    show "r = Ready () \<longleftrightarrow> sh_guards s = 0" using gate_ok_poll(2) [OF d(5) g] d(3) by simp
  qed
  show "w \<in> set (drop m (sh_woken s))" if "sh_guards s = 0" "sh_handles s f = Some (Some (t, w, m))" for f t w m
    using reg_okD(4) [OF d(5) [unfolded gate_ok_def], of f t w m] d(3) that by (simp add: flat_def)
  show "w \<in> set (drop m (sh_woken s))" if "sh_requested s" "sh_waits s f = Some (Some (t, w, m))" for f t w m
    using reg_okD(4) [OF d(2) [unfolded gate_ok_def], of f t w m] d(1) that by (simp add: flat_def)
  show "shutdown_requested_poll (sh_sd s) (Some t) w' = Some (Ready (), None, sh_sd s)" if "sh_requested s" for t w'
    using d(1) that by (simp add: shutdown_requested_poll_def gate_calls gate_poll_def)
qed

theorem shutdown_graceful_witness:
  "is_shutdown_requested (demo_shutdown 0 ws_new 0 ws_new) \<and> (8::waker) \<in> set (drop 1 [7, 8]) \<and> (7::waker) \<in> set (drop 0 [7, 8])"
proof -
  let ?s = "demo_waiting (demo_shutdown 0 ws_new 0 ws_new) 0 True (Some (only_token, 8, 1)) [7, 8]"
  have new: "shutdown_new = Some (None, demo_shutdown 1 ws_new 1 ws_new)" by (simp add: shutdown_new_eq demo_shutdown_def)
  note t = shutdown_graceful [OF new demo_shutdown_done]
  have "sh_guards ?s = 0" "sh_handles ?s 0 = Some (Some (only_token, 8, 1))" "sh_requested ?s"
    "sh_waits ?s 0 = Some (Some (only_token, 7, 0))" by (simp_all add: demo_waiting_def)
  with t have "is_shutdown_requested (sh_sd ?s)" "8 \<in> set (drop 1 (sh_woken ?s))" "7 \<in> set (drop 0 (sh_woken ?s))" by blast+
  then show ?thesis by (simp add: demo_waiting_def)
qed

end
