(* ===== verification/MpscBounded.thy ===== *)
theory MpscBounded
  imports Waiters ChannelErrors
begin

text \<open>
  The bounded channel of \<open>mpsc/bounded\<close>: any number of senders, one receiver, everything behind one
  lock. While the receiver lives each unit of capacity is in the counter, in a queued message, in
  a permit or in a granted reservation.
\<close>

section \<open>The shared state\<close>

record bounded_waiter =
  bw_grant :: bool
  bw_waker :: "waker option"

record 'a mb_state =
  mb_queue :: "'a list"
  mb_available :: usize
  mb_senders :: usize
  mb_receiver :: bool
  mb_recv_waker :: "waker option"
  mb_send_waiters :: "bounded_waiter wait_list"

definition mpsc_bounded :: "usize \<Rightarrow> 'a mb_state option" where
  "mpsc_bounded buffer = do {
     guard (buffer > 0);
     Some \<lparr>mb_queue = [], mb_available = buffer, mb_senders = 1, mb_receiver = True, mb_recv_waker = None,
       mb_send_waiters = wl_new\<rparr> }"

definition mb_acquire :: "'a mb_state \<Rightarrow> ((unit, unit try_send_error) result \<times> 'a mb_state) option" where
  "mb_acquire st =
     (if \<not> mb_receiver st then Some (Err (SendDisconnected ()), st)
      else if mb_available st = 0 then Some (Err (Full ()), st)
      else do {
        available \<leftarrow> checked_sub (mb_available st) 1;
        Some (Ok (), st\<lparr>mb_available := available\<rparr>) })"

definition mb_release :: "'a mb_state \<Rightarrow> (waker option \<times> 'a mb_state) option" where
  "mb_release st =
     (if \<not> mb_receiver st then Some (None, st)
      else do {
        (r, u, waiters) \<leftarrow> unlink_first_waiter (mb_send_waiters st) always ();
        (case r of
           Some (i, waiter) \<Rightarrow> do {
             waiters \<leftarrow> set_waiter waiters i (waiter\<lparr>bw_grant := True, bw_waker := None\<rparr>);
             Some (bw_waker waiter, st\<lparr>mb_send_waiters := waiters\<rparr>) }
         | None \<Rightarrow> do {
             available \<leftarrow> checked_add (mb_available st) 1;
             Some (None, st\<lparr>mb_available := available, mb_send_waiters := waiters\<rparr>) }) })"

definition mb_pop :: "'a mb_state \<Rightarrow> (('a \<times> waker option, try_recv_error) result \<times> 'a mb_state) option" where
  "mb_pop st =
     (case mb_queue st of
        value # queue \<Rightarrow> do {
          (waker, st) \<leftarrow> mb_release (st\<lparr>mb_queue := queue\<rparr>);
          Some (Ok (value, waker), st) }
      | [] \<Rightarrow> if mb_senders st = 0 then Some (Err RecvDisconnected, st) else Some (Err Empty, st))"

section \<open>Senders\<close>

definition mb_clone_sender :: "'a mb_state \<Rightarrow> 'a mb_state option" where
  "mb_clone_sender st = do {
     senders \<leftarrow> checked_add (mb_senders st) 1;
     Some (st\<lparr>mb_senders := senders\<rparr>) }"

definition mb_drop_sender :: "'a mb_state \<Rightarrow> (waker list \<times> 'a mb_state) option" where
  "mb_drop_sender st = do {
     senders \<leftarrow> checked_sub (mb_senders st) 1;
     (if senders = 0 then Some (opt_list (mb_recv_waker st), st\<lparr>mb_senders := senders, mb_recv_waker := None\<rparr>)
      else Some ([], st\<lparr>mb_senders := senders\<rparr>)) }"

definition mb_try_reserve :: "'a mb_state \<Rightarrow> ((unit, unit try_send_error) result \<times> 'a mb_state) option" where
  "mb_try_reserve st = mb_acquire st"

definition mb_try_send :: "'a \<Rightarrow> 'a mb_state \<Rightarrow> ((unit, 'a try_send_error) result \<times> waker list \<times> 'a mb_state) option" where
  "mb_try_send value st = do {
     (r, st) \<leftarrow> mb_acquire st;
     (case r of
        Ok _ \<Rightarrow> Some (Ok (), opt_list (mb_recv_waker st), st\<lparr>mb_queue := mb_queue st @ [value], mb_recv_waker := None\<rparr>)
      | Err (Full _) \<Rightarrow> Some (Err (Full value), [], st)
      | Err (SendDisconnected _) \<Rightarrow> Some (Err (SendDisconnected value), [], st)) }"

definition mb_sender_is_disconnected :: "'a mb_state \<Rightarrow> bool" where
  "mb_sender_is_disconnected st = (\<not> mb_receiver st)"

definition mb_permit_drop :: "'a mb_state \<Rightarrow> (waker list \<times> 'a mb_state) option" where
  "mb_permit_drop st = do {
     (wake, st) \<leftarrow> mb_release st;
     Some (opt_list wake, st) }"

text \<open>A refused permit is dropped, which finds no receiver and releases nothing.\<close>

definition mb_permit_send :: "'a \<Rightarrow> 'a mb_state \<Rightarrow> ((unit, 'a send_error) result \<times> waker list \<times> 'a mb_state) option" where
  "mb_permit_send value st =
     (if \<not> mb_receiver st then do {
        (woken, st) \<leftarrow> mb_permit_drop st;
        Some (Err (SendError value), woken, st) }
      else Some (Ok (), opt_list (mb_recv_waker st), st\<lparr>mb_queue := mb_queue st @ [value], mb_recv_waker := None\<rparr>))"

definition mb_reserve_poll :: "'a mb_state \<Rightarrow> waiter_id option \<Rightarrow> waker \<Rightarrow>
  ((unit, unit send_error) result poll \<times> waiter_id option \<times> 'a mb_state) option" where
  "mb_reserve_poll st waiter current =
     (if \<not> mb_receiver st then Some (Ready (Err (SendError ())), None, st)
      else case waiter of
        Some index \<Rightarrow> do {
          waiter \<leftarrow> waiter_mut (mb_send_waiters st) index;
          if bw_grant waiter then do {
            (_, waiters) \<leftarrow> remove_unlinked_waiter (mb_send_waiters st) index;
            Some (Ready (Ok ()), None, st\<lparr>mb_send_waiters := waiters\<rparr>) }
          else do {
            waiters \<leftarrow> set_waiter (mb_send_waiters st) index
              (waiter\<lparr>bw_waker := snd (register_waker (bw_waker waiter) current)\<rparr>);
            Some (Pending, Some index, st\<lparr>mb_send_waiters := waiters\<rparr>) } }
      | None \<Rightarrow>
          if mb_available st \<noteq> 0 then do {
            available \<leftarrow> checked_sub (mb_available st) 1;
            Some (Ready (Ok ()), None, st\<lparr>mb_available := available\<rparr>) }
          else do {
            (index, waiters) \<leftarrow> push_back (mb_send_waiters st) \<lparr>bw_grant = False, bw_waker = Some current\<rparr>;
            Some (Pending, Some index, st\<lparr>mb_send_waiters := waiters\<rparr>) })"

definition mb_reserve_drop :: "'a mb_state \<Rightarrow> waiter_id option \<Rightarrow> (waker list \<times> 'a mb_state) option" where
  "mb_reserve_drop st waiter =
     (case waiter of
        None \<Rightarrow> Some ([], st)
      | Some index \<Rightarrow>
          if \<not> mb_receiver st then Some ([], st)
          else do {
            (_, _, waiters) \<leftarrow> unlink_waiter (mb_send_waiters st) index always ();
            (waiter, waiters) \<leftarrow> remove_unlinked_waiter waiters index;
            let st = st\<lparr>mb_send_waiters := waiters\<rparr>;
            (wake, st) \<leftarrow> (if bw_grant waiter then mb_release st else Some (None, st));
            Some (opt_list wake, st) })"

section \<open>The receiver\<close>

text \<open>The waiters that were moved out are woken one after the other.\<close>

definition wake_senders_body ::
  "bounded_waiter wait_list \<times> waker list \<Rightarrow> ((bounded_waiter wait_list \<times> waker list) \<times> bool) option" where
  "wake_senders_body st = (case st of (waiters, woken) \<Rightarrow> do {
     (r, u, waiters) \<leftarrow> unlink_first_waiter waiters always ();
     (case r of
        None \<Rightarrow> Some ((waiters, woken), False)
      | Some (i, waiter) \<Rightarrow> do {
          waiters \<leftarrow> set_waiter waiters i (waiter\<lparr>bw_waker := None\<rparr>);
          Some ((waiters, woken @ opt_list (bw_waker waiter)), True) }) })"

definition mb_drop_receiver :: "'a mb_state \<Rightarrow> (waker list \<times> 'a list \<times> 'a mb_state) option" where
  "mb_drop_receiver st = do {
     (_, woken) \<leftarrow> loop wake_senders_body (mb_send_waiters st, []);
     Some (woken, mb_queue st,
       st\<lparr>mb_receiver := False, mb_queue := [], mb_recv_waker := None, mb_send_waiters := wl_new\<rparr>) }"

definition mb_try_recv :: "'a mb_state \<Rightarrow> (('a, try_recv_error) result \<times> waker list \<times> 'a mb_state) option" where
  "mb_try_recv st = do {
     (r, st) \<leftarrow> mb_pop st;
     (case r of
        Ok (value, wake) \<Rightarrow> Some (Ok value, opt_list wake, st)
      | Err e \<Rightarrow> Some (Err e, [], st)) }"

definition mb_poll_recv :: "'a mb_state \<Rightarrow> waker \<Rightarrow>
  (('a, recv_error) result poll \<times> waker list \<times> 'a mb_state) option" where
  "mb_poll_recv st current = do {
     (r, st) \<leftarrow> mb_pop st;
     (case r of
        Ok (value, wake) \<Rightarrow> Some (Ready (Ok value), opt_list wake, st)
      | Err RecvDisconnected \<Rightarrow> Some (Ready (Err Disconnected), [], st\<lparr>mb_recv_waker := None\<rparr>)
      | Err Empty \<Rightarrow>
          Some (Pending, [], st\<lparr>mb_recv_waker := snd (register_waker (mb_recv_waker st) current)\<rparr>)) }"

definition mb_receiver_is_disconnected :: "'a mb_state \<Rightarrow> bool" where
  "mb_receiver_is_disconnected st = (mb_senders st = 0)"

definition mb_is_empty :: "'a mb_state \<Rightarrow> bool" where
  "mb_is_empty st = (mb_queue st = [])"

section \<open>All interleavings\<close>

text \<open>
  The pending reservations, the number of live permits, and the pending \<open>recv\<close> with the waker of
  its last poll and the number of wakers woken before it. A \<open>send\<close> takes the steps of \<open>try_send\<close>,
  of its reservation and of its permit one after the other.
\<close>

record 'a mb_sys =
  ms_st :: "'a mb_state"
  ms_reserves :: wait_futures
  ms_permits :: nat
  ms_recv :: "(waker \<times> nat) option"
  ms_woken :: "waker list"
  ms_sent :: "'a list"
  ms_received :: "'a list"
  ms_discarded :: "'a list"

definition mb_init :: "'a mb_state \<Rightarrow> 'a mb_sys" where
  "mb_init st = \<lparr>ms_st = st, ms_reserves = Map.empty, ms_permits = 0, ms_recv = None, ms_woken = [], ms_sent = [],
     ms_received = [], ms_discarded = []\<rparr>"

inductive mb_step :: "'a mb_sys \<Rightarrow> 'a mb_sys \<Rightarrow> bool" where
  clone_sender: "mb_senders (ms_st s) \<noteq> 0 \<Longrightarrow> mb_clone_sender (ms_st s) = Some st \<Longrightarrow> mb_step s (s\<lparr>ms_st := st\<rparr>)"
| drop_sender: "mb_senders (ms_st s) \<noteq> 0 \<Longrightarrow> mb_drop_sender (ms_st s) = Some (ws, st) \<Longrightarrow>
    mb_step s (s\<lparr>ms_st := st, ms_woken := ms_woken s @ ws\<rparr>)"
| try_send: "mb_senders (ms_st s) \<noteq> 0 \<Longrightarrow> mb_try_send v (ms_st s) = Some (r, ws, st) \<Longrightarrow>
    mb_step s (s\<lparr>ms_st := st, ms_woken := ms_woken s @ ws, ms_sent := ms_sent s @ (if r = Ok () then [v] else [])\<rparr>)"
| try_reserve: "mb_senders (ms_st s) \<noteq> 0 \<Longrightarrow> mb_try_reserve (ms_st s) = Some (r, st) \<Longrightarrow>
    mb_step s (s\<lparr>ms_st := st, ms_permits := ms_permits s + of_bool (r = Ok ())\<rparr>)"
| permit_send: "ms_permits s = Suc n \<Longrightarrow> mb_permit_send v (ms_st s) = Some (r, ws, st) \<Longrightarrow>
    mb_step s (s\<lparr>ms_st := st, ms_permits := n, ms_woken := ms_woken s @ ws,
      ms_sent := ms_sent s @ (if r = Ok () then [v] else [])\<rparr>)"
| permit_drop: "ms_permits s = Suc n \<Longrightarrow> mb_permit_drop (ms_st s) = Some (ws, st) \<Longrightarrow>
    mb_step s (s\<lparr>ms_st := st, ms_permits := n, ms_woken := ms_woken s @ ws\<rparr>)"
| begin_reserve: "mb_senders (ms_st s) \<noteq> 0 \<Longrightarrow> ms_reserves s f = None \<Longrightarrow>
    mb_step s (s\<lparr>ms_reserves := (ms_reserves s)(f \<mapsto> None)\<rparr>)"
| reserve_ready: "ms_reserves s f = Some k \<Longrightarrow>
    mb_reserve_poll (ms_st s) (map_option fst k) w = Some (Ready r, i, st) \<Longrightarrow>
    mb_step s (s\<lparr>ms_st := st, ms_reserves := (ms_reserves s)(f := None), ms_permits := ms_permits s + of_bool (r = Ok ())\<rparr>)"
| reserve_pending: "ms_reserves s f = Some k \<Longrightarrow>
    mb_reserve_poll (ms_st s) (map_option fst k) w = Some (Pending, Some i, st) \<Longrightarrow>
    mb_step s (s\<lparr>ms_st := st, ms_reserves := (ms_reserves s)(f \<mapsto> Some (i, w, length (ms_woken s)))\<rparr>)"
| reserve_cancel: "ms_reserves s f = Some k \<Longrightarrow> mb_reserve_drop (ms_st s) (map_option fst k) = Some (ws, st) \<Longrightarrow>
    mb_step s (s\<lparr>ms_st := st, ms_reserves := (ms_reserves s)(f := None), ms_woken := ms_woken s @ ws\<rparr>)"
| try_recv: "mb_receiver (ms_st s) \<Longrightarrow> ms_recv s = None \<Longrightarrow> mb_try_recv (ms_st s) = Some (r, ws, st) \<Longrightarrow>
    mb_step s (s\<lparr>ms_st := st, ms_woken := ms_woken s @ ws,
      ms_received := ms_received s @ (case r of Ok v \<Rightarrow> [v] | Err e \<Rightarrow> [])\<rparr>)"
| recv_pending: "mb_receiver (ms_st s) \<Longrightarrow> mb_poll_recv (ms_st s) w = Some (Pending, ws, st) \<Longrightarrow>
    mb_step s (s\<lparr>ms_st := st, ms_recv := Some (w, length (ms_woken s)), ms_woken := ms_woken s @ ws\<rparr>)"
| recv_ready: "mb_receiver (ms_st s) \<Longrightarrow> mb_poll_recv (ms_st s) w = Some (Ready r, ws, st) \<Longrightarrow>
    mb_step s (s\<lparr>ms_st := st, ms_recv := None, ms_woken := ms_woken s @ ws,
      ms_received := ms_received s @ (case r of Ok v \<Rightarrow> [v] | Err e \<Rightarrow> [])\<rparr>)"
| recv_cancel: "mb_step s (s\<lparr>ms_recv := None\<rparr>)"
| drop_receiver: "mb_receiver (ms_st s) \<Longrightarrow> ms_recv s = None \<Longrightarrow> mb_drop_receiver (ms_st s) = Some (ws, vs, st) \<Longrightarrow>
    mb_step s (s\<lparr>ms_st := st, ms_woken := ms_woken s @ ws, ms_discarded := ms_discarded s @ vs\<rparr>)"

section \<open>The invariant\<close>

definition bw_view :: "bounded_waiter \<Rightarrow> waker option" where
  "bw_view v = (if bw_grant v then None else bw_waker v)"

interpretation bo: waiter_owners wl_inv wl_room wl_queue wl_val push_back push_front
  unlink_waiter unlink_first_waiter set_waiter remove_unlinked_waiter bw_view
  by unfold_locales

definition waiter_ok :: "bounded_waiter \<Rightarrow> bool" where
  "waiter_ok v \<longleftrightarrow> bw_grant v \<or> bw_waker v \<noteq> None"

lemma waiter_ok_simps [simp]:
  "waiter_ok (v\<lparr>bw_grant := True, bw_waker := x\<rparr>)" "waiter_ok (v\<lparr>bw_waker := Some w\<rparr>)"
  "waiter_ok \<lparr>bw_grant = b, bw_waker = Some w\<rparr>"
  by (simp_all add: waiter_ok_def)

definition waiters_ok :: "bounded_waiter wait_list \<Rightarrow> bool" where
  "waiters_ok wl \<longleftrightarrow> (\<forall>i v. wl_val wl i = Some v \<longrightarrow> waiter_ok v)"

lemma waiters_ok_upd:
  "waiters_ok wl \<Longrightarrow> wl_val wl' = (wl_val wl)(i := y) \<Longrightarrow> (\<And>v. y = Some v \<Longrightarrow> waiter_ok v) \<Longrightarrow> waiters_ok wl'"
  by (simp add: waiters_ok_def)

text \<open>
  The units of capacity, with \<open>n\<close> of them in the hands of callers; a reservation is queued only
  when the counter is zero. Without a receiver every pending reservation has been woken.
\<close>

definition units_ok :: "'a mb_state \<Rightarrow> wait_futures \<Rightarrow> usize \<Rightarrow> nat \<Rightarrow> waker list \<Rightarrow> bool" where
  "units_ok st F cap n woken \<longleftrightarrow>
     (if \<not> mb_receiver st then mb_send_waiters st = wl_new \<and> mb_queue st = [] \<and> woken_all (regs_of F) woken
      else bo.owned (mb_send_waiters st) (regs_of F) woken \<and>
        (mb_available st \<noteq> 0 \<longrightarrow> wl_queue (mb_send_waiters st) = []) \<and>
        mb_available st + length (mb_queue st) + n + bo.held (mb_send_waiters st) = cap \<and>
        waiters_ok (mb_send_waiters st))"

text \<open>The receiver: its waker is taken as soon as there is something to see.\<close>

definition recv_slot_ok :: "'a mb_state \<Rightarrow> (waker \<times> nat) option \<Rightarrow> waker list \<Rightarrow> bool" where
  "recv_slot_ok st recv woken \<longleftrightarrow> (mb_queue st \<noteq> [] \<or> mb_senders st = 0 \<longrightarrow> mb_recv_waker st = None) \<and>
     (\<forall>w m. recv = Some (w, m) \<longrightarrow>
        mb_receiver st \<and> m \<le> length woken \<and> (mb_recv_waker st = Some w \<or> w \<in> set (drop m woken)))"

definition mb_inv :: "usize \<Rightarrow> 'a mb_sys \<Rightarrow> bool" where
  "mb_inv cap s \<longleftrightarrow> units_ok (ms_st s) (ms_reserves s) cap (ms_permits s) (ms_woken s) \<and>
     recv_slot_ok (ms_st s) (ms_recv s) (ms_woken s) \<and>
     ms_sent s = ms_received s @ ms_discarded s @ mb_queue (ms_st s) \<and>
     (ms_discarded s \<noteq> [] \<longrightarrow> \<not> mb_receiver (ms_st s))"

lemma units_ok_more: "units_ok st F cap n woken \<Longrightarrow> units_ok st F cap n (woken @ ws)"
  by (auto simp: units_ok_def bo.owned_more woken_all_more)

lemma recv_slot_more: "recv_slot_ok st recv woken \<Longrightarrow> recv_slot_ok st recv (woken @ ws)"
  by (auto simp: recv_slot_ok_def)

lemma recv_slot_cong:
  "recv_slot_ok st recv woken \<Longrightarrow> mb_queue st' = mb_queue st \<Longrightarrow> mb_senders st' = mb_senders st \<Longrightarrow>
   mb_recv_waker st' = mb_recv_waker st \<Longrightarrow> mb_receiver st' = mb_receiver st \<Longrightarrow> recv_slot_ok st' recv (woken @ ws)"
  by (auto simp: recv_slot_ok_def)

text \<open>Taking the waker wakes the pending receive.\<close>

lemma recv_slot_take:
  "recv_slot_ok st recv woken \<Longrightarrow> mb_recv_waker st' = None \<Longrightarrow> mb_receiver st' = mb_receiver st \<Longrightarrow>
   recv_slot_ok st' recv (woken @ opt_list (mb_recv_waker st))"
  by (auto simp: recv_slot_ok_def opt_list_def)

lemma mb_release_ok:
  assumes k: "units_ok st F cap (Suc n) woken" and c: "cap \<le> usize_max"
  obtains r a wl where "mb_release st = Some (r, st\<lparr>mb_available := a, mb_send_waiters := wl\<rparr>)"
    and "units_ok (st\<lparr>mb_available := a, mb_send_waiters := wl\<rparr>) F cap n (woken @ opt_list r)"
proof (cases "mb_receiver st")
  case False
  then show thesis
    using that [of None "mb_send_waiters st" "mb_available st"] k by (simp add: mb_release_def units_ok_def)
next
  case True
  then have o: "bo.owned (mb_send_waiters st) (regs_of F) woken"
    and s: "mb_available st + length (mb_queue st) + Suc n + bo.held (mb_send_waiters st) = cap"
    and q: "mb_available st \<noteq> 0 \<Longrightarrow> wl_queue (mb_send_waiters st) = []"
    and v: "waiters_ok (mb_send_waiters st)"
    using k by (auto simp: units_ok_def)
  show thesis
  proof (cases "wl_queue (mb_send_waiters st)")
    case Nil
    have "mb_release st = Some (None, st\<lparr>mb_available := mb_available st + 1, mb_send_waiters := mb_send_waiters st\<rparr>)"
      using True s c by (simp add: mb_release_def wq.unlink_first_empty [OF bo.owned_inv [OF o] Nil] checked_add_def)
    with that [of None "mb_send_waiters st" "mb_available st + 1"] True o s v Nil show thesis by (simp add: units_ok_def)
  next
    case (Cons i l)
    have p: "always () v = (True, v, ())" for v :: bounded_waiter by (simp add: always_def)
    obtain x w s1 where u: "wl_val (mb_send_waiters st) i = Some x" "bw_view x = Some w"
      "unlink_first_waiter (mb_send_waiters st) always () = Some (Some (i, x), (), s1)"
      "\<And>v'. bw_view v' = None \<Longrightarrow> \<exists>s2. set_waiter s1 i v' = Some s2 \<and> bo.owned s2 (regs_of F) (woken @ [w]) \<and>
        wl_queue s2 = l \<and> wl_val s2 = (wl_val (mb_send_waiters st))(i \<mapsto> v') \<and> bo.held s2 = Suc (bo.held (mb_send_waiters st))"
      by (rule bo.select [where p = always, OF o p Cons]) blast
    from u(4) [of "x\<lparr>bw_grant := True, bw_waker := None\<rparr>"] obtain s2 where s2:
      "set_waiter s1 i (x\<lparr>bw_grant := True, bw_waker := None\<rparr>) = Some s2" "bo.owned s2 (regs_of F) (woken @ [w])"
      "wl_queue s2 = l" "wl_val s2 = (wl_val (mb_send_waiters st))(i \<mapsto> x\<lparr>bw_grant := True, bw_waker := None\<rparr>)"
      "bo.held s2 = Suc (bo.held (mb_send_waiters st))" by (auto simp: bw_view_def)
    have w: "bw_waker x = Some w" using u(2) by (simp add: bw_view_def split: if_splits)
    have "mb_release st = Some (Some w, st\<lparr>mb_available := mb_available st, mb_send_waiters := s2\<rparr>)"
      using True u(3) s2(1) w by (simp add: mb_release_def)
    moreover have "mb_available st = 0" using q Cons by (cases "mb_available st = 0") auto
    moreover have "waiters_ok s2" by (rule waiters_ok_upd [OF v s2(4)]) auto
    ultimately show thesis using that [of "Some w" s2 "mb_available st"] True s s2 by (simp add: units_ok_def)
  qed
qed

lemma units_okD:
  assumes "units_ok st F cap n woken" and "mb_receiver st"
  shows "bo.owned (mb_send_waiters st) (regs_of F) woken"
    and "mb_available st \<noteq> 0 \<Longrightarrow> wl_queue (mb_send_waiters st) = []"
    and "mb_available st + length (mb_queue st) + n + bo.held (mb_send_waiters st) = cap"
    and "waiters_ok (mb_send_waiters st)"
  using assms by (auto simp: units_ok_def)

text \<open>A node is granted exactly when it is off the queue.\<close>

lemma granted_iff:
  assumes "units_ok st F cap n woken" and "mb_receiver st" and "F f = Some (Some (i, w, m))"
  obtains v where "wl_val (mb_send_waiters st) i = Some v" and "bw_grant v \<longleftrightarrow> i \<notin> set (wl_queue (mb_send_waiters st))"
    and "i \<in> set (wl_queue (mb_send_waiters st)) \<Longrightarrow> bw_waker v = Some w"
proof -
  note d = units_okD [OF assms(1,2)]
  have f: "regs_of F f = Some (i, w, m)" using assms(3) by simp
  obtain v where v: "wl_val (mb_send_waiters st) i = Some v" by (rule bo.owned_val [OF d(1) f])
  have "waiter_ok v" using d(4) v by (simp add: waiters_ok_def)
  with bo.owned_view [OF d(1) f v] show thesis
    by (intro that [OF v]) (auto simp: bw_view_def waiter_ok_def split: if_splits)
qed

lemma mb_reserve_poll_ok:
  assumes k: "units_ok st F cap n woken" and f: "F f = Some r"
    and p: "mb_reserve_poll st (map_option fst r) w = Some (x, i, st')"
  obtains (gone) "\<not> mb_receiver st" "x = Ready (Err (SendError ()))" "st' = st" "units_ok st (F(f := None)) cap n woken"
  | (granted) a wl where "mb_receiver st" "x = Ready (Ok ())" "st' = st\<lparr>mb_available := a, mb_send_waiters := wl\<rparr>"
      "units_ok st' (F(f := None)) cap (Suc n) woken"
  | (queued) j wl where "mb_receiver st" "x = Pending" "i = Some j" "st' = st\<lparr>mb_send_waiters := wl\<rparr>"
      "units_ok st' (F(f \<mapsto> Some (j, w, length woken))) cap n woken"
proof (cases "mb_receiver st")
  case False
  with k p show thesis by (intro gone) (auto simp: mb_reserve_poll_def units_ok_def woken_all_clear)
next
  case rcv: True
  note d = units_okD [OF k rcv]
  show thesis
  proof (cases r)
    case None
    then have same: "(regs_of F)(f := None) = regs_of F" "regs_of F f = None" using f by (simp_all add: fun_upd_regs_of)
    show thesis
    proof (cases "mb_available st = 0")
      case True
      then obtain j wl where q: "push_back (mb_send_waiters st) \<lparr>bw_grant = False, bw_waker = Some w\<rparr> = Some (j, wl)"
        "x = Pending" "i = Some j" "st' = st\<lparr>mb_send_waiters := wl\<rparr>"
        using p None rcv by (auto simp: mb_reserve_poll_def panic_simps)
      note n = bo.park_new [OF d(1) same(2) q(1), of w]
      have "waiters_ok wl" by (rule waiters_ok_upd [OF d(4) n(3)]) (auto simp: bw_view_def)
      with q n d rcv True show thesis by (intro queued) (simp_all add: units_ok_def bw_view_def)
    next
      case False
      with p None rcv have "x = Ready (Ok ())" "st' = st\<lparr>mb_available := mb_available st - 1, mb_send_waiters := mb_send_waiters st\<rparr>"
        by (auto simp: mb_reserve_poll_def panic_simps)
      with False d rcv same show thesis
        by (intro granted [of "mb_send_waiters st" "mb_available st - 1"]) (auto simp: units_ok_def)
    qed
  next
    case (Some y)
    then obtain j w0 m where y: "F f = Some (Some (j, w0, m))" "r = Some (j, w0, m)" using f by (cases y) auto
    then have f': "regs_of F f = Some (j, w0, m)" by simp
    obtain v where v: "wl_val (mb_send_waiters st) j = Some v" "bw_grant v \<longleftrightarrow> j \<notin> set (wl_queue (mb_send_waiters st))"
      "j \<in> set (wl_queue (mb_send_waiters st)) \<Longrightarrow> bw_waker v = Some w0"
      by (rule granted_iff [OF k rcv y(1)]) blast
    show thesis
    proof (cases "j \<in> set (wl_queue (mb_send_waiters st))")
      case True
      let ?v = "v\<lparr>bw_waker := Some w\<rparr>"
      obtain wl where q: "set_waiter (mb_send_waiters st) j ?v = Some wl" "x = Pending" "i = Some j" "st' = st\<lparr>mb_send_waiters := wl\<rparr>"
        using p y rcv v True by (auto simp: mb_reserve_poll_def waiter_mut_eq panic_simps)
      note n = bo.park_again [OF d(1) f' True q(1), of w]
      have view: "bw_view ?v = Some w" using v True by (simp add: bw_view_def)
      have "waiters_ok wl" by (rule waiters_ok_upd [OF d(4) n(3)]) (auto simp: view)
      with q n view d rcv show thesis by (intro queued) (simp_all add: units_ok_def)
    next
      case False
      obtain u wl where c: "remove_unlinked_waiter (mb_send_waiters st) j = Some (u, wl)" "bo.owned wl ((regs_of F)(f := None)) woken"
        "wl_queue wl = wl_queue (mb_send_waiters st)" "wl_val wl = (wl_val (mb_send_waiters st))(j := None)"
        "bo.held (mb_send_waiters st) = Suc (bo.held wl)"
        by (rule bo.collect [OF d(1) f' False])
      have "x = Ready (Ok ())" "st' = st\<lparr>mb_available := mb_available st, mb_send_waiters := wl\<rparr>"
        using p y rcv v False c(1) by (auto simp: mb_reserve_poll_def waiter_mut_eq panic_simps)
      moreover have "waiters_ok wl" by (rule waiters_ok_upd [OF d(4) c(4)]) simp
      ultimately show thesis using c d rcv by (intro granted [of wl "mb_available st"]) (simp_all add: units_ok_def)
    qed
  qed
qed

lemma mb_reserve_drop_ok:
  assumes k: "units_ok st F cap n woken" and f: "F f = Some r" and c: "cap \<le> usize_max"
  obtains ws a wl where "mb_reserve_drop st (map_option fst r) = Some (ws, st\<lparr>mb_available := a, mb_send_waiters := wl\<rparr>)"
    and "units_ok (st\<lparr>mb_available := a, mb_send_waiters := wl\<rparr>) (F(f := None)) cap n (woken @ ws)"
proof (cases "r = None \<or> \<not> mb_receiver st")
  case True
  then have "mb_reserve_drop st (map_option fst r) = Some ([], st\<lparr>mb_available := mb_available st, mb_send_waiters := mb_send_waiters st\<rparr>)"
    by (auto simp: mb_reserve_drop_def split: option.splits)
  moreover have "units_ok st (F(f := None)) cap n woken"
    using k f True by (auto simp: units_ok_def fun_upd_regs_of woken_all_clear)
  ultimately show thesis using that [of "[]" "mb_send_waiters st" "mb_available st"] by simp
next
  case False
  then obtain j w0 m where r: "r = Some (j, w0, m)" and rcv: "mb_receiver st" by (cases r) auto
  then have f': "regs_of F f = Some (j, w0, m)" using f by simp
  note d = units_okD [OF k rcv]
  have p: "always () v = (True, v, ())" for v :: bounded_waiter by (simp add: always_def)
  obtain v where v: "wl_val (mb_send_waiters st) j = Some v" "bw_grant v \<longleftrightarrow> j \<notin> set (wl_queue (mb_send_waiters st))"
    by (rule granted_iff [OF k rcv, of f j w0 m]) (use f r in auto)
  obtain u s1 wl where n: "wl_val (mb_send_waiters st) j = Some u" "unlink_waiter (mb_send_waiters st) j always () = Some (Some u, (), s1)"
    "remove_unlinked_waiter s1 j = Some (u, wl)" "bo.owned wl ((regs_of F)(f := None)) woken"
    "wl_queue wl = removeAll j (wl_queue (mb_send_waiters st))" "wl_val wl = (wl_val (mb_send_waiters st))(j := None)"
    "bo.held wl = (if j \<in> set (wl_queue (mb_send_waiters st)) then bo.held (mb_send_waiters st) else bo.held (mb_send_waiters st) - 1)"
    by (rule bo.leave [where p = always, OF d(1) f' p])
  have ok: "waiters_ok wl" by (rule waiters_ok_upd [OF d(4) n(6)]) simp
  have u: "u = v" using v(1) n(1) by simp
  show thesis
  proof (cases "bw_grant v")
    case True
    have "0 < bo.held (mb_send_waiters st)" by (rule bo.collect [OF d(1) f']) (use True v in simp_all)
    then have "units_ok (st\<lparr>mb_send_waiters := wl\<rparr>) (F(f := None)) cap (Suc n) woken"
      using n d rcv ok True v by (auto simp: units_ok_def)
    then obtain t a wl2 where t: "mb_release (st\<lparr>mb_send_waiters := wl\<rparr>) = Some (t, (st\<lparr>mb_send_waiters := wl\<rparr>)\<lparr>mb_available := a, mb_send_waiters := wl2\<rparr>)"
      "units_ok ((st\<lparr>mb_send_waiters := wl\<rparr>)\<lparr>mb_available := a, mb_send_waiters := wl2\<rparr>) (F(f := None)) cap n (woken @ opt_list t)"
      by (rule mb_release_ok [OF _ c])
    then show thesis using that [of "opt_list t" wl2 a] n r rcv True u by (simp add: mb_reserve_drop_def)
  next
    case False
    then have "units_ok (st\<lparr>mb_send_waiters := wl\<rparr>) (F(f := None)) cap n woken" using n d rcv ok v by (auto simp: units_ok_def)
    then show thesis using that [of "[]" wl "mb_available st"] n r rcv False u by (simp add: mb_reserve_drop_def)
  qed
qed

lemma mb_pop_ok:
  assumes k: "units_ok st F cap n woken" and c: "cap \<le> usize_max"
  obtains (popped) v q t a wl where "mb_queue st = v # q" "mb_receiver st"
      "mb_pop st = Some (Ok (v, t), st\<lparr>mb_queue := q, mb_available := a, mb_send_waiters := wl\<rparr>)"
      "units_ok (st\<lparr>mb_queue := q, mb_available := a, mb_send_waiters := wl\<rparr>) F cap n (woken @ opt_list t)"
  | (empty) "mb_queue st = []" "mb_pop st = Some (Err (if mb_senders st = 0 then RecvDisconnected else Empty), st)"
proof (cases "mb_queue st")
  case Nil
  then show thesis by (intro empty) (simp_all add: mb_pop_def)
next
  case (Cons v q)
  then have rcv: "mb_receiver st" using k by (auto simp: units_ok_def split: if_splits)
  have "units_ok (st\<lparr>mb_queue := q\<rparr>) F cap (Suc n) woken" using k rcv Cons by (simp add: units_ok_def)
  then obtain t a wl where "mb_release (st\<lparr>mb_queue := q\<rparr>) = Some (t, (st\<lparr>mb_queue := q\<rparr>)\<lparr>mb_available := a, mb_send_waiters := wl\<rparr>)"
    "units_ok ((st\<lparr>mb_queue := q\<rparr>)\<lparr>mb_available := a, mb_send_waiters := wl\<rparr>) F cap n (woken @ opt_list t)"
    by (rule mb_release_ok [OF _ c])
  with popped [of v q t wl a] Cons rcv show thesis by (simp add: mb_pop_def)
qed

lemma wake_senders_loop:
  assumes "bo.owned wl P woken"
  shows "\<exists>wl'. loop wake_senders_body (wl, []) = Some (wl', bo.wakers_in wl)"
proof -
  have "\<exists>wl'. loop wake_senders_body (wl, []) = Some (wl', [] @ bo.wakers_in wl)"
  proof (rule bo.drain_moved [OF bo.owned_inv [OF assms]])
    fix s a i q v w
    assume s: "wl_inv s" "wl_queue s = i # q" "wl_val s i = Some v" "bw_view v = Some w"
    obtain s1 where u: "unlink_first_waiter s always () = Some (Some (i, v), (), s1)" "wl_inv s1" "wl_queue s1 = q"
      "wl_val s1 = wl_val s" by (rule bo.unlink_head [OF s(1-3)])
    have "wl_val s1 i = Some v" using s(3) u(4) by simp
    from wq.setv_law [OF u(2) this, of "v\<lparr>bw_waker := None\<rparr>"] obtain s2 where
      "set_waiter s1 i (v\<lparr>bw_waker := None\<rparr>) = Some s2" "wl_inv s2" "wl_queue s2 = q"
      "wl_val s2 = (wl_val s)(i \<mapsto> v\<lparr>bw_waker := None\<rparr>)" using u by auto
    moreover have "bw_waker v = Some w" using s(4) by (simp add: bw_view_def split: if_splits)
    ultimately show "\<exists>s'. wake_senders_body (s, a) = Some ((s', a @ [w]), True) \<and> wl_inv s' \<and> wl_queue s' = q \<and>
        (\<forall>j. j \<noteq> i \<longrightarrow> wl_val s' j = wl_val s j)"
      using u(1) by (simp add: wake_senders_body_def)
  qed (use bo.owned_wakers [OF assms] in \<open>auto simp: wake_senders_body_def wq.unlink_first_empty\<close>)
  then show ?thesis by simp
qed

section \<open>Every step keeps the invariant\<close>

lemma mb_invD:
  assumes "mb_inv cap s"
  shows "units_ok (ms_st s) (ms_reserves s) cap (ms_permits s) (ms_woken s)"
    "recv_slot_ok (ms_st s) (ms_recv s) (ms_woken s)"
    "ms_sent s = ms_received s @ ms_discarded s @ mb_queue (ms_st s)"
    "ms_discarded s \<noteq> [] \<Longrightarrow> \<not> mb_receiver (ms_st s)"
  using assms unfolding mb_inv_def by blast+

text \<open>A message takes over the unit of capacity of a permit, and wakes the receiver.\<close>

lemma push_inv:
  assumes inv: "mb_inv cap s" and rcv: "mb_receiver st" and k: "units_ok st (ms_reserves s) cap (Suc n) (ms_woken s)"
    and st: "mb_queue st = mb_queue (ms_st s)" "mb_senders st = mb_senders (ms_st s)"
      "mb_recv_waker st = mb_recv_waker (ms_st s)" "mb_receiver st = mb_receiver (ms_st s)"
  shows "mb_inv cap (s\<lparr>ms_st := st\<lparr>mb_queue := mb_queue st @ [v], mb_recv_waker := None\<rparr>, ms_permits := n,
    ms_woken := ms_woken s @ opt_list (mb_recv_waker st), ms_sent := ms_sent s @ [v]\<rparr>)"
proof -
  have "units_ok (st\<lparr>mb_queue := mb_queue st @ [v], mb_recv_waker := None\<rparr>) (ms_reserves s) cap n
      (ms_woken s @ opt_list (mb_recv_waker st))"
    by (rule units_ok_more) (use k rcv in \<open>simp add: units_ok_def\<close>)
  moreover have "recv_slot_ok (st\<lparr>mb_queue := mb_queue st @ [v], mb_recv_waker := None\<rparr>) (ms_recv s)
      (ms_woken s @ opt_list (mb_recv_waker st))"
    unfolding st(3) by (rule recv_slot_take [OF mb_invD(2) [OF inv]]) (simp_all add: st(4))
  moreover have "ms_discarded s = []" using mb_invD(4) [OF inv] rcv st(4) by blast
  ultimately show ?thesis using mb_invD(3) [OF inv] st by (simp add: mb_inv_def)
qed

text \<open>A step that only moves capacity around.\<close>

lemma units_inv:
  assumes inv: "mb_inv cap s" and k: "units_ok st F cap n (ms_woken s @ ws)"
    and st: "mb_queue st = mb_queue (ms_st s)" "mb_senders st = mb_senders (ms_st s)"
      "mb_recv_waker st = mb_recv_waker (ms_st s)" "mb_receiver st = mb_receiver (ms_st s)"
  shows "mb_inv cap (s\<lparr>ms_st := st, ms_reserves := F, ms_permits := n, ms_woken := ms_woken s @ ws\<rparr>)"
  using recv_slot_cong [OF mb_invD(2) [OF inv] st] k st mb_invD(3,4) [OF inv] by (simp add: mb_inv_def)

lemma mb_acquire_cases:
  assumes k: "units_ok st F cap n woken" and a: "mb_acquire st = Some (r, st')"
  obtains (gone) "\<not> mb_receiver st" "r = Err (SendDisconnected ())" "st' = st"
  | (full) "mb_receiver st" "mb_available st = 0" "r = Err (Full ())" "st' = st"
  | (acquired) "mb_receiver st" "r = Ok ()" "st' = st\<lparr>mb_available := mb_available st - 1\<rparr>" "units_ok st' F cap (Suc n) woken"
proof (cases "mb_receiver st \<and> mb_available st \<noteq> 0")
  case True
  with a have "r = Ok ()" "st' = st\<lparr>mb_available := mb_available st - 1\<rparr>" by (auto simp: mb_acquire_def panic_simps)
  with True k show thesis by (intro acquired) (auto simp: units_ok_def)
next
  case False
  with a show thesis by (cases "mb_receiver st") (auto simp: mb_acquire_def intro: gone full)
qed

lemma recv_inv:
  assumes inv: "mb_inv cap s" and rcv: "mb_receiver (ms_st s)" and pop: "mb_queue (ms_st s) = v # q"
    and k: "units_ok st (ms_reserves s) cap (ms_permits s) (ms_woken s @ ws)" and recv: "recv = None \<or> recv = ms_recv s"
    and st: "st = (ms_st s)\<lparr>mb_queue := q, mb_available := a, mb_send_waiters := wl\<rparr>"
  shows "mb_inv cap (s\<lparr>ms_st := st, ms_recv := recv, ms_woken := ms_woken s @ ws, ms_received := ms_received s @ [v]\<rparr>)"
proof -
  have "recv_slot_ok st (ms_recv s) (ms_woken s @ ws)"
    using mb_invD(2) [OF inv] pop by (auto simp: recv_slot_ok_def st)
  moreover from this have "recv_slot_ok st None (ms_woken s @ ws)" by (simp add: recv_slot_ok_def)
  ultimately have "recv_slot_ok st recv (ms_woken s @ ws)" using recv by blast
  moreover have "ms_discarded s = []" using mb_invD(4) [OF inv] rcv by blast
  ultimately show ?thesis using mb_invD(3) [OF inv] k pop rcv st by (simp add: mb_inv_def)
qed

lemma mb_step_inv: "mb_step s s' \<Longrightarrow> mb_inv cap s \<Longrightarrow> cap \<le> usize_max \<Longrightarrow> mb_inv cap s'"
proof (induction rule: mb_step.induct)
  case (clone_sender s st)
  then have "st = (ms_st s)\<lparr>mb_senders := mb_senders (ms_st s) + 1\<rparr>" by (auto simp: mb_clone_sender_def panic_simps)
  with clone_sender show ?case by (simp add: mb_inv_def units_ok_def recv_slot_ok_def)
next
  case (drop_sender s ws st)
  note d = mb_invD [OF drop_sender(3)]
  show ?case
  proof (cases "mb_senders (ms_st s) = 1")
    case True
    with drop_sender(2) have st: "ws = opt_list (mb_recv_waker (ms_st s))" "st = (ms_st s)\<lparr>mb_senders := 0, mb_recv_waker := None\<rparr>"
      by (auto simp: mb_drop_sender_def panic_simps split: if_splits)
    have "recv_slot_ok st (ms_recv s) (ms_woken s @ ws)" unfolding st(1) by (rule recv_slot_take [OF d(2)]) (simp_all add: st)
    moreover have "units_ok st (ms_reserves s) cap (ms_permits s) (ms_woken s @ ws)"
      by (rule units_ok_more) (use d(1) st in \<open>simp add: units_ok_def\<close>)
    ultimately show ?thesis using d st by (simp add: mb_inv_def)
  next
    case False
    with drop_sender(1,2) have "ws = []" "st = (ms_st s)\<lparr>mb_senders := mb_senders (ms_st s) - 1\<rparr>" "mb_senders (ms_st s) - 1 \<noteq> 0"
      by (auto simp: mb_drop_sender_def panic_simps split: if_splits)
    with d drop_sender(1) show ?thesis by (auto simp: mb_inv_def units_ok_def recv_slot_ok_def)
  qed
next
  case (try_send s v r ws st)
  obtain x st1 where a: "mb_acquire (ms_st s) = Some (x, st1)"
    using try_send(2) by (auto simp: mb_try_send_def panic_simps)
  from mb_invD(1) [OF try_send(3)] a show ?case
  proof (cases rule: mb_acquire_cases)
    case acquired
    with push_inv [OF try_send(3), of st1 "ms_permits s" v] a try_send(2) show ?thesis by (auto simp: mb_try_send_def)
  qed (use a try_send(2,3) in \<open>auto simp: mb_try_send_def\<close>)
next
  case (try_reserve s r st)
  from mb_invD(1) [OF try_reserve(3)] try_reserve(2) [unfolded mb_try_reserve_def] show ?case
  proof (cases rule: mb_acquire_cases)
    case acquired
    with units_inv [OF try_reserve(3), of st "ms_reserves s" "Suc (ms_permits s)" "[]"] show ?thesis by simp
  qed (use try_reserve(3) in simp_all)
next
  case (permit_send s n v r ws st)
  note d = mb_invD [OF permit_send(3)]
  show ?case
  proof (cases "mb_receiver (ms_st s)")
    case True
    with permit_send push_inv [OF permit_send(3) True, of n v] d(1) show ?thesis by (auto simp: mb_permit_send_def)
  next
    case False
    then have "r \<noteq> Ok ()" "ws = []" "st = ms_st s"
      using permit_send(2) by (auto simp: mb_permit_send_def mb_permit_drop_def mb_release_def)
    moreover have "units_ok (ms_st s) (ms_reserves s) cap n (ms_woken s)" using d(1) False by (simp add: units_ok_def)
    ultimately show ?thesis using permit_send(3) by (simp add: mb_inv_def)
  qed
next
  case (permit_drop s n ws st)
  have "units_ok (ms_st s) (ms_reserves s) cap (Suc n) (ms_woken s)" using mb_invD(1) [OF permit_drop(3)] permit_drop(1) by simp
  then obtain t a wl where "mb_release (ms_st s) = Some (t, (ms_st s)\<lparr>mb_available := a, mb_send_waiters := wl\<rparr>)"
    "units_ok ((ms_st s)\<lparr>mb_available := a, mb_send_waiters := wl\<rparr>) (ms_reserves s) cap n (ms_woken s @ opt_list t)"
    by (rule mb_release_ok [OF _ permit_drop(4)])
  with units_inv [OF permit_drop(3), of "(ms_st s)\<lparr>mb_available := a, mb_send_waiters := wl\<rparr>" "ms_reserves s" n "opt_list t"]
    permit_drop(2)
  show ?case by (auto simp: mb_permit_drop_def)
next
  case (begin_reserve s f)
  then show ?case by (simp add: mb_inv_def units_ok_def fun_upd_regs_of)
next
  case (reserve_ready s f k w r i st)
  from mb_invD(1) [OF reserve_ready(3)] reserve_ready(1,2) show ?case
  proof (cases rule: mb_reserve_poll_ok)
    case gone
    with units_inv [OF reserve_ready(3), of st "(ms_reserves s)(f := None)" "ms_permits s" "[]"] show ?thesis by simp
  next
    case (granted a wl)
    with units_inv [OF reserve_ready(3), of st "(ms_reserves s)(f := None)" "Suc (ms_permits s)" "[]"] show ?thesis by simp
  qed simp
next
  case (reserve_pending s f k w i st)
  from mb_invD(1) [OF reserve_pending(3)] reserve_pending(1,2) show ?case
  proof (cases rule: mb_reserve_poll_ok)
    case (queued j wl)
    with units_inv [OF reserve_pending(3), of st "(ms_reserves s)(f \<mapsto> Some (i, w, length (ms_woken s)))" "ms_permits s" "[]"]
    show ?thesis by simp
  qed simp_all
next
  case (reserve_cancel s f k ws st)
  obtain vs a wl where "mb_reserve_drop (ms_st s) (map_option fst k) = Some (vs, (ms_st s)\<lparr>mb_available := a, mb_send_waiters := wl\<rparr>)"
    "units_ok ((ms_st s)\<lparr>mb_available := a, mb_send_waiters := wl\<rparr>) ((ms_reserves s)(f := None)) cap (ms_permits s) (ms_woken s @ vs)"
    by (rule mb_reserve_drop_ok [OF mb_invD(1) [OF reserve_cancel(3)] reserve_cancel(1,4)])
  with units_inv [OF reserve_cancel(3), of "(ms_st s)\<lparr>mb_available := a, mb_send_waiters := wl\<rparr>" "(ms_reserves s)(f := None)"
      "ms_permits s" vs] reserve_cancel(2)
  show ?case by auto
next
  case (try_recv s r ws st)
  from mb_invD(1) [OF try_recv(4)] try_recv(5) show ?case
  proof (cases rule: mb_pop_ok)
    case (popped v q t a wl)
    let ?st = "(ms_st s)\<lparr>mb_queue := q, mb_available := a, mb_send_waiters := wl\<rparr>"
    have "r = Ok v" "ws = opt_list t" "st = ?st" using popped(3) try_recv(3) by (auto simp: mb_try_recv_def)
    with recv_inv [OF try_recv(4,1) popped(1), of ?st "opt_list t" "ms_recv s" wl a] popped(4) show ?thesis by simp
  next
    case empty
    with try_recv(3,4) show ?thesis by (auto simp: mb_try_recv_def)
  qed
next
  case (recv_pending s w ws st)
  note d = mb_invD [OF recv_pending(3)]
  from d(1) recv_pending(4) show ?case
  proof (cases rule: mb_pop_ok)
    case empty
    with recv_pending(2) have n: "mb_senders (ms_st s) \<noteq> 0" "ws = []" "st = (ms_st s)\<lparr>mb_recv_waker := Some w\<rparr>"
      by (auto simp: mb_poll_recv_def split: if_splits)
    have "recv_slot_ok st (Some (w, length (ms_woken s))) (ms_woken s)" using n empty recv_pending(1) by (simp add: recv_slot_ok_def)
    with d n show ?thesis by (simp add: mb_inv_def units_ok_def)
  qed (use recv_pending(2) in \<open>simp add: mb_poll_recv_def\<close>)
next
  case (recv_ready s w r ws st)
  note d = mb_invD [OF recv_ready(3)]
  from d(1) recv_ready(4) show ?case
  proof (cases rule: mb_pop_ok)
    case (popped v q t a wl)
    let ?st = "(ms_st s)\<lparr>mb_queue := q, mb_available := a, mb_send_waiters := wl\<rparr>"
    have "r = Ok v" "ws = opt_list t" "st = ?st" using popped(3) recv_ready(2) by (auto simp: mb_poll_recv_def)
    with recv_inv [OF recv_ready(3,1) popped(1), of ?st "opt_list t" None wl a] popped(4) show ?thesis by simp
  next
    case empty
    with recv_ready(2) have "ws = []" "st = (ms_st s)\<lparr>mb_recv_waker := None\<rparr>" "r = Err Disconnected"
      by (auto simp: mb_poll_recv_def split: if_splits)
    with d show ?thesis by (simp add: mb_inv_def units_ok_def recv_slot_ok_def)
  qed
next
  case (recv_cancel s)
  then show ?case by (simp add: mb_inv_def recv_slot_ok_def)
next
  case (drop_receiver s ws vs st)
  note d = mb_invD [OF drop_receiver(4)]
  have o: "bo.owned (mb_send_waiters (ms_st s)) (regs_of (ms_reserves s)) (ms_woken s)" by (rule units_okD(1) [OF d(1) drop_receiver(1)])
  obtain wl where "loop wake_senders_body (mb_send_waiters (ms_st s), []) = Some (wl, bo.wakers_in (mb_send_waiters (ms_st s)))"
    using wake_senders_loop [OF o] by blast
  with drop_receiver(3) have st: "ws = bo.wakers_in (mb_send_waiters (ms_st s))" "vs = mb_queue (ms_st s)"
    "st = (ms_st s)\<lparr>mb_receiver := False, mb_queue := [], mb_recv_waker := None, mb_send_waiters := wl_new\<rparr>"
    by (auto simp: mb_drop_receiver_def)
  have "units_ok st (ms_reserves s) cap (ms_permits s) (ms_woken s @ ws)" using bo.all_woken [OF o] st by (simp add: units_ok_def)
  moreover have "recv_slot_ok st (ms_recv s) (ms_woken s @ ws)" using drop_receiver(2) st by (simp add: recv_slot_ok_def)
  ultimately show ?case using d st drop_receiver(1) by (simp add: mb_inv_def)
qed

lemma mb_init_inv: "mpsc_bounded cap = Some st \<Longrightarrow> mb_inv cap (mb_init st)"
  by (auto simp: mpsc_bounded_def panic_simps mb_inv_def mb_init_def units_ok_def recv_slot_ok_def waiters_ok_def
      wl_queue_new wl_val_new bo.owned_empty bo.held_def)

lemma mb_reach_inv:
  assumes "mpsc_bounded cap = Some st" and "cap \<le> usize_max" and "mb_step\<^sup>*\<^sup>* (mb_init st) s"
  shows "mb_inv cap s"
  using assms(3) by (induction rule: rtranclp_induct) (auto intro: mb_init_inv [OF assms(1)] mb_step_inv assms(2))

section \<open>A run\<close>

text \<open>A channel of capacity one is filled, a reservation queues, and the receive grants it.\<close>

definition demo_bounded :: "nat list \<Rightarrow> usize \<Rightarrow> bounded_waiter wait_list \<Rightarrow> nat mb_state" where
  "demo_bounded q a wl = \<lparr>mb_queue = q, mb_available = a, mb_senders = 1, mb_receiver = True, mb_recv_waker = None,
     mb_send_waiters = wl\<rparr>"

definition demo_mpsc :: "nat mb_state \<Rightarrow> wait_futures \<Rightarrow> waker list \<Rightarrow> nat list \<Rightarrow> nat mb_sys" where
  "demo_mpsc st F woken received = (mb_init st)\<lparr>ms_reserves := F, ms_woken := woken, ms_sent := [5], ms_received := received\<rparr>"

abbreviation demo_granted :: "nat mb_sys" where
  "demo_granted \<equiv> demo_mpsc (demo_bounded [] 0 (one_waiter False \<lparr>bw_grant = True, bw_waker = None\<rparr>))
     [0 \<mapsto> Some (node_id, 7, 0)] [7] [5]"

lemma demo_mpsc_start: "mpsc_bounded 1 = Some (demo_bounded [] 1 wl_new)"
  by (simp add: mpsc_bounded_def demo_bounded_def)

lemma demo_mpsc_granted: "mb_step\<^sup>*\<^sup>* (mb_init (demo_bounded [] 1 wl_new)) demo_granted"
proof -
  let ?w = "\<lparr>bw_grant = False, bw_waker = Some 7\<rparr>"
  let ?i = "mb_init (demo_bounded [] 1 wl_new)" and ?a = "demo_mpsc (demo_bounded [5] 0 wl_new) Map.empty [] []"
    and ?b = "demo_mpsc (demo_bounded [5] 0 wl_new) [0 \<mapsto> None] [] []"
    and ?c = "demo_mpsc (demo_bounded [5] 0 (one_waiter True ?w)) [0 \<mapsto> Some (node_id, 7, 0)] [] []"
  have "mb_step ?i ?a"
    using mb_step.try_send [of ?i 5 "Ok ()" "[]" "demo_bounded [5] 0 wl_new"]
    by (simp add: demo_mpsc_def mb_init_def demo_bounded_def mb_try_send_def mb_acquire_def checked_sub_def opt_list_def)
  moreover have "mb_step ?a ?b"
    using mb_step.begin_reserve [of ?a 0] by (simp add: demo_mpsc_def mb_init_def demo_bounded_def)
  moreover have "mb_step ?b ?c"
    using mb_step.reserve_pending [of ?b 0 None 7 node_id "ms_st ?c"]
    by (simp add: demo_mpsc_def mb_init_def demo_bounded_def mb_reserve_poll_def one_waiter_simps)
  moreover have "mb_step ?c demo_granted"
    using mb_step.try_recv [of ?c "Ok 5" "[7]" "ms_st demo_granted"]
    by (simp add: demo_mpsc_def mb_init_def demo_bounded_def mb_try_recv_def mb_pop_def mb_release_def one_waiter_unlink
        always_def one_waiter_simps opt_list_def)
  ultimately show ?thesis by (meson run_step rtranclp.rtrancl_refl)
qed

section \<open>Properties\<close>

text \<open>
  C39: messages are delivered once, in order, within the capacity. The messages accepted are those
  received, then those discarded with the receiver, then those queued. While the receiver lives,
  free capacity, queued messages, live permits and granted reservations add up to the capacity,
  and a reservation is queued only when no capacity is free.
\<close>

theorem mpsc_bounded_delivers:
  assumes "mpsc_bounded cap = Some st" and "cap \<le> usize_max" and "mb_step\<^sup>*\<^sup>* (mb_init st) s"
  shows "ms_sent s = ms_received s @ ms_discarded s @ mb_queue (ms_st s) \<and>
    (ms_discarded s \<noteq> [] \<longrightarrow> \<not> mb_receiver (ms_st s)) \<and>
    (mb_receiver (ms_st s) \<longrightarrow>
       mb_available (ms_st s) + length (mb_queue (ms_st s)) + ms_permits s +
         card (dom (wl_val (mb_send_waiters (ms_st s))) - set (wl_queue (mb_send_waiters (ms_st s)))) = cap \<and>
       (wl_queue (mb_send_waiters (ms_st s)) \<noteq> [] \<longrightarrow> mb_available (ms_st s) = 0))"
proof -
  note d = mb_invD [OF mb_reach_inv [OF assms]]
  note u = units_okD [OF d(1)]
  have "wl_queue (mb_send_waiters (ms_st s)) \<noteq> [] \<longrightarrow> mb_available (ms_st s) = 0" if "mb_receiver (ms_st s)"
    using u(2) [OF that] by blast
  with d(3,4) u(3) show ?thesis by (simp add: bo.held_def)
qed

theorem mpsc_bounded_delivers_witness:
  "[5::nat] = ms_received demo_granted @ ms_discarded demo_granted @ mb_queue (ms_st demo_granted) \<and>
   card (dom (wl_val (mb_send_waiters (ms_st demo_granted))) - set (wl_queue (mb_send_waiters (ms_st demo_granted)))) = 1"
proof -
  have "(1::nat) \<le> usize_max" by (simp add: usize_max_def)
  from mpsc_bounded_delivers [OF demo_mpsc_start this demo_mpsc_granted] show ?thesis
    by (simp add: demo_mpsc_def mb_init_def demo_bounded_def)
qed

text \<open>
  C40: nobody sleeps through a message, a grant or a disconnection. A pending \<open>recv\<close> with something
  to receive or without senders has been woken since its last poll and its next poll completes;
  so has a pending reservation that was granted or lost its receiver, and it returns a permit
  exactly when the receiver lives.
\<close>

theorem mpsc_bounded_wakeups:
  assumes "mpsc_bounded cap = Some st" and "cap \<le> usize_max" and "mb_step\<^sup>*\<^sup>* (mb_init st) s"
  shows "(\<forall>w m w'. ms_recv s = Some (w, m) \<longrightarrow> mb_queue (ms_st s) \<noteq> [] \<or> mb_senders (ms_st s) = 0 \<longrightarrow>
       w \<in> set (drop m (ms_woken s)) \<and> (\<exists>r ws st'. mb_poll_recv (ms_st s) w' = Some (Ready r, ws, st'))) \<and>
    (\<forall>f i w m w'. ms_reserves s f = Some (Some (i, w, m)) \<longrightarrow>
       \<not> mb_receiver (ms_st s) \<or> i \<notin> set (wl_queue (mb_send_waiters (ms_st s))) \<longrightarrow>
       w \<in> set (drop m (ms_woken s)) \<and>
       (\<exists>r st'. mb_reserve_poll (ms_st s) (Some i) w' = Some (Ready r, None, st') \<and> (r = Ok () \<longleftrightarrow> mb_receiver (ms_st s))))"
proof (intro conjI allI impI)
  note d = mb_invD [OF mb_reach_inv [OF assms]]
  fix w m w'
  assume r: "ms_recv s = Some (w, m)" "mb_queue (ms_st s) \<noteq> [] \<or> mb_senders (ms_st s) = 0"
  then show "w \<in> set (drop m (ms_woken s))" using d(2) by (auto simp: recv_slot_ok_def)
  from d(1) assms(2) show "\<exists>r ws st'. mb_poll_recv (ms_st s) w' = Some (Ready r, ws, st')"
    by (cases rule: mb_pop_ok) (use r(2) in \<open>auto simp: mb_poll_recv_def\<close>)
next
  note d = mb_invD [OF mb_reach_inv [OF assms]]
  fix f i w m w'
  assume f: "ms_reserves s f = Some (Some (i, w, m))"
    and g: "\<not> mb_receiver (ms_st s) \<or> i \<notin> set (wl_queue (mb_send_waiters (ms_st s)))"
  have f': "regs_of (ms_reserves s) f = Some (i, w, m)" using f by simp
  show "w \<in> set (drop m (ms_woken s))"
  proof (cases "mb_receiver (ms_st s)")
    case True
    with g show ?thesis using bo.owned_taken(2) [OF units_okD(1) [OF d(1) True] f'] by blast
  next
    case False
    with d(1) f' show ?thesis by (auto simp: units_ok_def woken_all_def)
  qed
  show "\<exists>r st'. mb_reserve_poll (ms_st s) (Some i) w' = Some (Ready r, None, st') \<and> (r = Ok () \<longleftrightarrow> mb_receiver (ms_st s))"
  proof (cases "mb_receiver (ms_st s)")
    case True
    with g have q: "i \<notin> set (wl_queue (mb_send_waiters (ms_st s)))" by blast
    obtain u wl where "remove_unlinked_waiter (mb_send_waiters (ms_st s)) i = Some (u, wl)"
      by (rule bo.collect [OF units_okD(1) [OF d(1) True] f' q])
    moreover obtain v where "wl_val (mb_send_waiters (ms_st s)) i = Some v" "bw_grant v"
      by (rule granted_iff [OF d(1) True f]) (use q in blast)
    ultimately show ?thesis using True by (simp add: mb_reserve_poll_def waiter_mut_eq)
  qed (simp add: mb_reserve_poll_def)
qed

theorem mpsc_bounded_wakeups_witness:
  "(7::waker) \<in> set (drop 0 [7]) \<and>
   (\<exists>r st'. mb_reserve_poll (ms_st demo_granted) (Some node_id) 9 = Some (Ready r, None, st') \<and>
     (r = Ok ()) = mb_receiver (ms_st demo_granted))"
proof -
  have "(1::nat) \<le> usize_max" by (simp add: usize_max_def)
  note t = mpsc_bounded_wakeups [OF demo_mpsc_start this demo_mpsc_granted]
  have "ms_reserves demo_granted 0 = Some (Some (node_id, 7, 0))" "node_id \<notin> set (wl_queue (mb_send_waiters (ms_st demo_granted)))"
    by (simp_all add: demo_mpsc_def demo_bounded_def mb_init_def one_waiter_simps)
  with t have "7 \<in> set (drop 0 (ms_woken demo_granted)) \<and>
   (\<exists>r st'. mb_reserve_poll (ms_st demo_granted) (Some node_id) 9 = Some (Ready r, None, st') \<and>
     (r = Ok ()) = mb_receiver (ms_st demo_granted))" by blast
  then show ?thesis by (simp add: demo_mpsc_def)
qed

end
