(* ===== verification/SemaphorePermits.thy ===== *)
theory SemaphorePermits
  imports PermitClient
begin

text \<open>
  The public semaphore of \<open>semaphore/mod.rs\<close>: the internal one, whose operations it forwards to, and
  permit objects that remember how many permits they stand for and give them back when dropped.
  Borrowed and owned permits differ only in the kind of reference to the semaphore, which is its
  address here. Permits can be split, merged and forgotten; whatever is done with them, none is
  lost or made up.
\<close>

section \<open>Permit objects\<close>

record semaphore_permit =
  sp_sem :: nat
  sp_permits :: usize

definition permit_forget :: "semaphore_permit \<Rightarrow> semaphore_permit" where
  "permit_forget p = p\<lparr>sp_permits := 0\<rparr>"

text \<open>Both permits after merging; the second one is dropped by the call.\<close>

definition permit_merge :: "semaphore_permit \<Rightarrow> semaphore_permit \<Rightarrow> (semaphore_permit \<times> semaphore_permit) option" where
  "permit_merge p other = do {
     guard (sp_sem p = sp_sem other);
     n \<leftarrow> checked_add (sp_permits p) (sp_permits other);
     Some (p\<lparr>sp_permits := n\<rparr>, other\<lparr>sp_permits := 0\<rparr>) }"

definition permit_split :: "usize \<Rightarrow> semaphore_permit \<Rightarrow> semaphore_permit option \<times> semaphore_permit" where
  "permit_split n p =
     (if n > sp_permits p then (None, p)
      else (Some \<lparr>sp_sem = sp_sem p, sp_permits = n\<rparr>, p\<lparr>sp_permits := sp_permits p - n\<rparr>))"

text \<open>The semaphores by address; a drop by thread \<open>t\<close> releases, see \<open>call_release\<close>.\<close>

type_synonym sems = "nat \<Rightarrow> sem_sys"

definition permit_drop :: "nat \<Rightarrow> bool \<Rightarrow> semaphore_permit \<Rightarrow> sems \<Rightarrow> sems option" where
  "permit_drop t racy p S = do {
     s \<leftarrow> call_release t racy (sp_permits p) (S (sp_sem p));
     Some (S(sp_sem p := s)) }"

section \<open>Operations of the semaphore\<close>

definition public_try_acquire :: "nat \<Rightarrow> usize \<Rightarrow> sems \<Rightarrow> semaphore_permit option \<times> sems" where
  "public_try_acquire k n S =
     (case call_try n (S k) of
        (True, s) \<Rightarrow> (Some \<lparr>sp_sem = k, sp_permits = n\<rparr>, S(k := s))
      | (False, s) \<Rightarrow> (None, S(k := s)))"

text \<open>The asynchronous \<open>acquire\<close>: its creation, and each poll of the future \<open>f\<close> it awaits.\<close>

definition public_acquire :: "nat \<Rightarrow> nat \<Rightarrow> usize \<Rightarrow> sems \<Rightarrow> sems" where
  "public_acquire k f n S = S(k := call_acquire f (sem_acquire n) (S k))"

definition public_acquire_poll :: "nat \<Rightarrow> nat \<Rightarrow> usize \<Rightarrow> waker \<Rightarrow> sems \<Rightarrow> (semaphore_permit poll \<times> sems) option" where
  "public_acquire_poll k f n w S = do {
     (r, s) \<leftarrow> call_poll f w (S k);
     Some (case r of Pending \<Rightarrow> Pending | Ready _ \<Rightarrow> Ready \<lparr>sp_sem = k, sp_permits = n\<rparr>, S(k := s)) }"

definition public_cancel :: "nat \<Rightarrow> nat \<Rightarrow> nat \<Rightarrow> sems \<Rightarrow> sems option" where
  "public_cancel t k f S = do {
     s \<leftarrow> call_drop t f (S k);
     Some (S(k := s)) }"

definition public_drain_permits :: "nat \<Rightarrow> nat \<Rightarrow> usize \<Rightarrow> sems \<Rightarrow> usize \<times> sems" where
  "public_drain_permits spurious k up_to S =
     (case drain_permits spurious (ss_sem (S k)) up_to of
        (n, sem) \<Rightarrow> (n, S(k := (S k)\<lparr>ss_sem := sem, ss_acquired := ss_acquired (S k) + n\<rparr>)))"

definition public_reduce_permits :: "nat \<Rightarrow> usize \<Rightarrow> sems \<Rightarrow> sems option" where
  "public_reduce_permits k n S = do {
     sem \<leftarrow> reduce_permits (ss_sem (S k)) n;
     Some (S(k := (S k)\<lparr>ss_sem := sem, ss_reduced := ss_reduced (S k) + n\<rparr>)) }"

definition public_release :: "nat \<Rightarrow> bool \<Rightarrow> nat \<Rightarrow> usize \<Rightarrow> sems \<Rightarrow> sems option" where
  "public_release t racy k n S = do {
     s \<leftarrow> call_release t racy n (S k);
     Some (S(k := s)) }"

definition public_available_permits :: "nat \<Rightarrow> sems \<Rightarrow> usize" where
  "public_available_permits k S = available_permits (ss_sem (S k))"

lemmas permit_ops [op_defs] = permit_forget_def permit_merge_def permit_split_def permit_drop_def
  public_try_acquire_def public_acquire_def public_acquire_poll_def public_cancel_def
  public_drain_permits_def public_reduce_permits_def public_release_def public_available_permits_def

section \<open>All interleavings\<close>

text \<open>
  The permits and the acquisitions in use, and for each semaphore the permits taken out for good
  (forgotten or drained) and those added by \<open>release\<close>. An acquisition has the address of its
  semaphore and the number it asks for.
\<close>

record public_sys =
  pu_sems :: sems
  pu_permits :: "nat \<Rightarrow> semaphore_permit option"
  pu_acquires :: "nat \<Rightarrow> (nat \<times> usize) option"
  pu_gone :: "nat \<Rightarrow> nat"
  pu_added :: "nat \<Rightarrow> nat"

definition public_init :: "(nat \<Rightarrow> usize) \<Rightarrow> public_sys" where
  "public_init sizes = \<lparr>pu_sems = \<lambda>k. sem_init (sizes k), pu_permits = Map.empty, pu_acquires = Map.empty,
     pu_gone = \<lambda>k. 0, pu_added = \<lambda>k. 0\<rparr>"

inductive public_step :: "public_sys \<Rightarrow> public_sys \<Rightarrow> bool" where
  try_acquire: "pu_permits s i = None \<Longrightarrow> n \<le> usize_max \<Longrightarrow> public_try_acquire k n (pu_sems s) = (r, S) \<Longrightarrow>
    public_step s (s\<lparr>pu_sems := S, pu_permits := (pu_permits s)(i := r)\<rparr>)"
| acquire: "pu_acquires s f = None \<Longrightarrow> n \<le> usize_max \<Longrightarrow>
    public_step s (s\<lparr>pu_sems := public_acquire k f n (pu_sems s), pu_acquires := (pu_acquires s)(f \<mapsto> (k, n))\<rparr>)"
| acquire_pending: "pu_acquires s f = Some (k, n) \<Longrightarrow>
    public_acquire_poll k f n w (pu_sems s) = Some (Pending, S) \<Longrightarrow> public_step s (s\<lparr>pu_sems := S\<rparr>)"
| acquire_ready: "pu_acquires s f = Some (k, n) \<Longrightarrow> pu_permits s i = None \<Longrightarrow>
    public_acquire_poll k f n w (pu_sems s) = Some (Ready p, S) \<Longrightarrow>
    public_step s (s\<lparr>pu_sems := S, pu_permits := (pu_permits s)(i \<mapsto> p), pu_acquires := (pu_acquires s)(f := None)\<rparr>)"
| cancel: "pu_acquires s f = Some (k, n) \<Longrightarrow> ss_dist (pu_sems s k) t = None \<Longrightarrow>
    public_cancel t k f (pu_sems s) = Some S \<Longrightarrow>
    public_step s (s\<lparr>pu_sems := S, pu_acquires := (pu_acquires s)(f := None)\<rparr>)"
| round: "call_round t (pu_sems s k) = Some x \<Longrightarrow> public_step s (s\<lparr>pu_sems := (pu_sems s)(k := x)\<rparr>)"
| drain: "public_drain_permits spurious k n (pu_sems s) = (m, S) \<Longrightarrow>
    public_step s (s\<lparr>pu_sems := S, pu_gone := (pu_gone s)(k := pu_gone s k + m)\<rparr>)"
| reduce: "public_reduce_permits k n (pu_sems s) = Some S \<Longrightarrow> public_step s (s\<lparr>pu_sems := S\<rparr>)"
| release: "ss_dist (pu_sems s k) t = None \<Longrightarrow> n \<le> usize_max \<Longrightarrow> public_release t racy k n (pu_sems s) = Some S \<Longrightarrow>
    public_step s (s\<lparr>pu_sems := S, pu_added := (pu_added s)(k := pu_added s k + n)\<rparr>)"
| forget: "pu_permits s i = Some p \<Longrightarrow> ss_dist (pu_sems s (sp_sem p)) t = None \<Longrightarrow>
    permit_drop t racy (permit_forget p) (pu_sems s) = Some S \<Longrightarrow>
    public_step s (s\<lparr>pu_sems := S, pu_permits := (pu_permits s)(i := None),
      pu_gone := (pu_gone s)(sp_sem p := pu_gone s (sp_sem p) + sp_permits p)\<rparr>)"
| merge: "pu_permits s i = Some p \<Longrightarrow> pu_permits s j = Some q \<Longrightarrow> i \<noteq> j \<Longrightarrow> permit_merge p q = Some (p', q') \<Longrightarrow>
    ss_dist (pu_sems s (sp_sem q')) t = None \<Longrightarrow> permit_drop t racy q' (pu_sems s) = Some S \<Longrightarrow>
    public_step s (s\<lparr>pu_sems := S, pu_permits := (pu_permits s)(i \<mapsto> p', j := None)\<rparr>)"
| split: "pu_permits s i = Some p \<Longrightarrow> pu_permits s j = None \<Longrightarrow> permit_split n p = (r, p') \<Longrightarrow>
    public_step s (s\<lparr>pu_permits := (pu_permits s)(i \<mapsto> p', j := r)\<rparr>)"
| drop: "pu_permits s i = Some p \<Longrightarrow> ss_dist (pu_sems s (sp_sem p)) t = None \<Longrightarrow>
    permit_drop t racy p (pu_sems s) = Some S \<Longrightarrow>
    public_step s (s\<lparr>pu_sems := S, pu_permits := (pu_permits s)(i := None)\<rparr>)"

section \<open>The accounts\<close>

definition holds :: "nat \<Rightarrow> semaphore_permit \<Rightarrow> nat" where
  "holds k p = (if sp_sem p = k then sp_permits p else 0)"

definition asks :: "nat \<Rightarrow> (nat \<times> usize) option \<Rightarrow> usize option" where
  "asks k a = (case a of Some (k', n) \<Rightarrow> if k' = k then Some n else None | None \<Rightarrow> None)"

lemma asks_simps [simp]: "asks k None = None" "asks k (Some (k', n)) = (if k' = k then Some n else None)"
  by (simp_all add: asks_def)

text \<open>
  The accounts of the semaphore \<open>x\<close> at \<open>k\<close>: it is consistent, its futures are the acquisitions made on
  it, and what callers took and have not given back is in permit objects or gone for good.
\<close>

definition account ::
  "(nat \<Rightarrow> usize) \<Rightarrow> nat \<Rightarrow> sem_sys \<Rightarrow> (nat \<Rightarrow> (nat \<times> usize) option) \<Rightarrow> (nat \<Rightarrow> semaphore_permit option) \<Rightarrow> nat \<Rightarrow> nat \<Rightarrow> bool" where
  "account sizes k x A P gone added \<longleftrightarrow> sem_inv x \<and> ss_gifted x = 0 \<and> ss_total x = sizes k \<and>
     (\<forall>f. map_option (\<lambda>(aq, w, m). aq_requested aq) (ss_futs x f) = asks k (A f)) \<and>
     ss_acquired x + added = ss_released x + msum (holds k) P + gone"

definition public_inv :: "(nat \<Rightarrow> usize) \<Rightarrow> public_sys \<Rightarrow> bool" where
  "public_inv sizes s \<longleftrightarrow> finite (dom (pu_permits s)) \<and>
     (\<forall>p\<in>ran (pu_permits s). sp_permits p \<le> usize_max) \<and>
     (\<forall>k. account sizes k (pu_sems s k) (pu_acquires s) (pu_permits s) (pu_gone s k) (pu_added s k))"

lemma public_init_inv: "public_inv sizes (public_init sizes)"
  by (simp add: public_inv_def public_init_def account_def sem_init_inv msum_def) (simp add: sem_init_def)

lemma steps_keep:
  assumes "sem_step\<^sup>*\<^sup>* x y" and "sem_inv x"
  shows "sem_inv y \<and> ss_total y = ss_total x"
  using assms by (induction rule: rtranclp_induct) (auto dest: sem_step_inv sem_step_total)

lemma plain_steps:
  assumes "plain_step\<^sup>*\<^sup>* x y"
  shows "sem_step\<^sup>*\<^sup>* x y" and "ss_gifted y = ss_gifted x"
  using assms by (induction rule: rtranclp_induct) (auto simp: plain_step_def)

text \<open>What the permit objects hold after one of them is made, used up or changed.\<close>

lemma holds_upd:
  assumes "finite (dom P)"
  shows "msum (holds k) (P(i := r)) + maybe (holds k) (P i) = msum (holds k) P + maybe (holds k) r"
  using assms msum_insert [of P i "holds k"] msum_delete [of P i _ "holds k"] msum_update [of P i _ "holds k"]
  by (cases "P i"; cases r) (auto simp: maybe_def fun_upd_idem)

lemma account_move:
  assumes "account sizes k x A P g a" and "sem_inv y" "ss_gifted y = ss_gifted x" "ss_total y = ss_total x"
    and "\<And>f. map_option (\<lambda>(aq, w, m). aq_requested aq) (ss_futs y f) = asks k (A' f)"
    and "ss_acquired y + a' + (ss_released x + msum (holds k) P + g) =
      ss_released y + msum (holds k) P' + g' + (ss_acquired x + a)"
  shows "account sizes k y A' P' g' a'"
  using assms by (simp add: account_def)

lemma account_other:
  assumes "account sizes k x A P g a" and "\<And>f. asks k (A' f) = asks k (A f)" and "msum (holds k) P' = msum (holds k) P"
  shows "account sizes k x A' P' g a"
  using assms by (simp add: account_def)

lemma account_asks:
  "account sizes k x A P g a \<Longrightarrow> map_option (\<lambda>(aq, w, m). aq_requested aq) (ss_futs x f) = asks k (A f)"
  by (simp add: account_def)

text \<open>A step on the semaphore at \<open>k\<close>, which leaves the accounts of the others alone.\<close>

lemma public_inv_move:
  assumes i: "public_inv sizes s" and y: "sem_step\<^sup>*\<^sup>* (pu_sems s k) y" "ss_gifted y = ss_gifted (pu_sems s k)"
    and s': "pu_sems s' = (pu_sems s)(k := y)" "\<And>k'. k' \<noteq> k \<Longrightarrow> pu_gone s' k' = pu_gone s k' \<and> pu_added s' k' = pu_added s k'"
    and f: "\<And>f. map_option (\<lambda>(aq, w, m). aq_requested aq) (ss_futs y f) = asks k (pu_acquires s' f)"
    and A: "\<And>f k'. k' \<noteq> k \<Longrightarrow> asks k' (pu_acquires s' f) = asks k' (pu_acquires s f)"
    and P: "finite (dom (pu_permits s'))" "\<And>p. p \<in> ran (pu_permits s') \<Longrightarrow> sp_permits p \<le> usize_max"
      "\<And>k'. k' \<noteq> k \<Longrightarrow> msum (holds k') (pu_permits s') = msum (holds k') (pu_permits s)"
    and b: "ss_acquired y + pu_added s' k + (ss_released (pu_sems s k) + msum (holds k) (pu_permits s) + pu_gone s k) =
      ss_released y + msum (holds k) (pu_permits s') + pu_gone s' k + (ss_acquired (pu_sems s k) + pu_added s k)"
  shows "public_inv sizes s'"
proof -
  have acc: "account sizes k' (pu_sems s k') (pu_acquires s) (pu_permits s) (pu_gone s k') (pu_added s k')" for k'
    using i by (simp add: public_inv_def)
  then have "sem_inv (pu_sems s k)" by (simp add: account_def)
  note keep = steps_keep [OF y(1) this]
  show ?thesis
    using account_move [OF acc _ y(2) _ f b] keep account_other [OF acc A P(3)] P(1,2) s'
    by (simp add: public_inv_def)
qed

lemma ran_upd_bound:
  assumes "\<forall>p\<in>ran P. sp_permits p \<le> usize_max" and "\<And>q. r = Some q \<Longrightarrow> sp_permits q \<le> usize_max" and "p \<in> ran (P(i := r))"
  shows "sp_permits p \<le> usize_max"
  using assms by (auto simp: ran_def split: if_splits)

lemma holds_other:
  assumes "finite (dom P)" and "maybe (holds k) r = maybe (holds k) (P i)"
  shows "msum (holds k) (P(i := r)) = msum (holds k) P"
  using holds_upd [OF assms(1), of k i r] assms(2) by simp

lemma public_invD:
  assumes "public_inv sizes s"
  shows "finite (dom (pu_permits s))" and "\<forall>p\<in>ran (pu_permits s). sp_permits p \<le> usize_max"
    and "sem_inv (pu_sems s k)"
    and "map_option (\<lambda>(aq, w, m). aq_requested aq) (ss_futs (pu_sems s k) f) = asks k (pu_acquires s f)"
    and "pu_permits s i = Some p \<Longrightarrow> sp_permits p \<le> usize_max"
  using assms by (auto simp: public_inv_def account_def ranI)

text \<open>A future of the semaphore at \<open>k\<close> that an acquisition awaits.\<close>

lemma public_future:
  assumes "public_inv sizes s" and "pu_acquires s f = Some (k, n)"
  obtains aq w m where "ss_futs (pu_sems s k) f = Some (aq, w, m)" "aq_requested aq = n"
  using public_invD(4) [OF assms(1), of k f] assms(2) by (auto simp: that)

text \<open>A release, of a permit object or by hand.\<close>

lemma public_release_move:
  assumes i: "public_inv sizes s" and r: "call_release t racy n (pu_sems s k) = Some y" "ss_dist (pu_sems s k) t = None" "n \<le> usize_max"
    and s': "pu_sems s' = (pu_sems s)(k := y)" "pu_acquires s' = pu_acquires s"
      "\<And>k'. k' \<noteq> k \<Longrightarrow> pu_gone s' k' = pu_gone s k' \<and> pu_added s' k' = pu_added s k'"
    and P: "finite (dom (pu_permits s'))" "\<And>p. p \<in> ran (pu_permits s') \<Longrightarrow> sp_permits p \<le> usize_max"
      "\<And>k'. k' \<noteq> k \<Longrightarrow> msum (holds k') (pu_permits s') = msum (holds k') (pu_permits s)"
    and b: "pu_added s' k + msum (holds k) (pu_permits s) + pu_gone s k =
      n + msum (holds k) (pu_permits s') + pu_gone s' k + pu_added s k"
  shows "public_inv sizes s'"
  by (rule public_inv_move [OF i plain_steps [OF call_release_step [OF r]] s'(1,3) _ _ P])
    (use call_release_effect [OF r(1)] public_invD(4) [OF i] s'(2) b in auto)

lemma public_poll_cases:
  assumes "public_acquire_poll k f n w S = Some (r, S')"
  obtains (pending) y where "call_poll f w (S k) = Some (Pending, y)" "S' = S(k := y)" "r = Pending"
  | (ready) y where "call_poll f w (S k) = Some (Ready (), y)" "S' = S(k := y)" "r = Ready \<lparr>sp_sem = k, sp_permits = n\<rparr>"
proof -
  obtain x y where c: "call_poll f w (S k) = Some (x, y)" "S' = S(k := y)"
    "r = (case x of Pending \<Rightarrow> Pending | Ready _ \<Rightarrow> Ready \<lparr>sp_sem = k, sp_permits = n\<rparr>)"
    using assms by (auto simp: public_acquire_poll_def panic_simps)
  show thesis by (cases x) (use c pending ready in auto)
qed

lemma public_step_inv: "public_step s s' \<Longrightarrow> public_inv sizes s \<Longrightarrow> public_inv sizes s'"
proof (induction rule: public_step.induct)
  case (try_acquire s i n k r S)
  note inv = public_invD [OF try_acquire(4)]
  obtain ok y where c: "call_try n (pu_sems s k) = (ok, y)" by fastforce
  with try_acquire(3) have S: "S = (pu_sems s)(k := y)" and r: "r = (if ok then Some \<lparr>sp_sem = k, sp_permits = n\<rparr> else None)"
    by (auto simp: public_try_acquire_def split: bool.splits)
  have b: "sp_permits p \<le> usize_max" if "p \<in> ran ((pu_permits s)(i := r))" for p
    by (rule ran_upd_bound [OF inv(2) _ that]) (use r try_acquire(2) in \<open>auto split: if_splits\<close>)
  show ?case
    by (rule public_inv_move [OF try_acquire(4) plain_steps [OF call_try_step [OF c]]])
      (use call_try_effect [OF c] inv S r b try_acquire(1) holds_upd [OF inv(1), of k i r] in
        \<open>auto simp: holds_def holds_other\<close>)
next
  case (acquire s f n k)
  note inv = public_invD [OF acquire(3)]
  have n: "ss_futs (pu_sems s k) f = None" using inv(4) [of k f] acquire(1) by simp
  show ?case
    by (rule public_inv_move [OF acquire(3) plain_steps [OF call_acquire_step [OF n acquire(2)]]])
      (use inv acquire(1) in \<open>auto simp: public_acquire_def sem_acquire_def\<close>)
next
  case (acquire_pending s f k n w S)
  note inv = public_invD [OF acquire_pending(3)]
  obtain y where c: "call_poll f w (pu_sems s k) = Some (Pending, y)" and S: "S = (pu_sems s)(k := y)"
    using acquire_pending(2) by (cases rule: public_poll_cases) auto
  obtain aq w0 m where a: "ss_futs (pu_sems s k) f = Some (aq, w0, m)" "aq_requested aq = n"
    by (rule public_future [OF acquire_pending(3,1)])
  show ?case
    by (rule public_inv_move [OF acquire_pending(3) plain_steps [OF call_poll_step [OF c inv(3)]]])
      (use call_poll_effect [OF c a(1)] a inv S acquire_pending(1) in auto)
next
  case (acquire_ready s f k n i w p S)
  note inv = public_invD [OF acquire_ready(4)]
  obtain y where c: "call_poll f w (pu_sems s k) = Some (Ready (), y)" and S: "S = (pu_sems s)(k := y)"
    and p: "p = \<lparr>sp_sem = k, sp_permits = n\<rparr>"
    using acquire_ready(3) by (cases rule: public_poll_cases) auto
  obtain aq w0 m where a: "ss_futs (pu_sems s k) f = Some (aq, w0, m)" "aq_requested aq = n"
    by (rule public_future [OF acquire_ready(4,1)])
  have "n \<le> usize_max" using inv(3) [of k] a by (auto simp: sem_inv_def conserved_def)
  then show ?case
    by (intro public_inv_move [OF acquire_ready(4) plain_steps [OF call_poll_step [OF c inv(3)]]])
      (use call_poll_effect [OF c a(1)] a inv S p acquire_ready(1,2) holds_upd [OF inv(1), of k i "Some p"] in
        \<open>auto simp: holds_def holds_other intro: ran_upd_bound [OF inv(2), of "Some p" _ i]\<close>)
next
  case (cancel s f k n t S)
  note inv = public_invD [OF cancel(4)]
  obtain y where c: "call_drop t f (pu_sems s k) = Some y" and S: "S = (pu_sems s)(k := y)"
    using cancel(3) by (auto simp: public_cancel_def panic_simps)
  show ?case
    by (rule public_inv_move [OF cancel(4) plain_steps [OF call_drop_step [OF c cancel(2)]]])
      (use call_drop_effect [OF c] inv S cancel(1) in auto)
next
  case (round t s k x)
  note inv = public_invD [OF round(2)]
  show ?case
    by (rule public_inv_move [OF round(2) plain_steps [OF call_round_step [OF round(1)]]])
      (use call_round_effect [OF round(1)] inv in auto)
next
  case (drain spurious k n s m S)
  note inv = public_invD [OF drain(2)]
  obtain sem where d: "drain_permits spurious (ss_sem (pu_sems s k)) n = (m, sem)"
    and S: "S = (pu_sems s)(k := (pu_sems s k)\<lparr>ss_sem := sem, ss_acquired := ss_acquired (pu_sems s k) + m\<rparr>)"
    using drain(1) by (auto simp: public_drain_permits_def split: prod.splits)
  show ?case
    by (rule public_inv_move [OF drain(2) r_into_rtranclp [of sem_step, OF sem_step.drain [OF d]]]) (use inv S in auto)
next
  case (reduce k n s S)
  note inv = public_invD [OF reduce(2)]
  obtain sem where d: "reduce_permits (ss_sem (pu_sems s k)) n = Some sem"
    and S: "S = (pu_sems s)(k := (pu_sems s k)\<lparr>ss_sem := sem, ss_reduced := ss_reduced (pu_sems s k) + n\<rparr>)"
    using reduce(1) by (auto simp: public_reduce_permits_def panic_simps)
  show ?case
    by (rule public_inv_move [OF reduce(2) r_into_rtranclp [of sem_step, OF sem_step.reduce [OF d]]]) (use inv S in auto)
next
  case (release s k t n racy S)
  note inv = public_invD [OF release(4)]
  obtain y where c: "call_release t racy n (pu_sems s k) = Some y" and S: "S = (pu_sems s)(k := y)"
    using release(3) by (auto simp: public_release_def panic_simps)
  show ?case by (rule public_release_move [OF release(4) c release(1,2)]) (use inv S in auto)
next
  case (forget s i p t racy S)
  note inv = public_invD [OF forget(4)]
  obtain y where c: "call_release t racy 0 (pu_sems s (sp_sem p)) = Some y" and S: "S = (pu_sems s)(sp_sem p := y)"
    using forget(3) by (auto simp: permit_drop_def permit_forget_def panic_simps)
  show ?case
    by (rule public_release_move [OF forget(4) c forget(2)])
      (use inv S forget(1) holds_upd [OF inv(1), of "sp_sem p" i None] in
        \<open>auto simp: holds_def holds_other intro: ran_upd_bound [OF inv(2), of None _ i]\<close>)
next
  case (merge s i p j q p' q' t racy S)
  note inv = public_invD [OF merge(7)]
  have m: "sp_sem p = sp_sem q" "p' = p\<lparr>sp_permits := sp_permits p + sp_permits q\<rparr>" "q' = q\<lparr>sp_permits := 0\<rparr>"
    "sp_permits p' \<le> usize_max"
    using merge(4) by (auto simp: permit_merge_def guard_def checked_add_def panic_simps split: if_splits)
  obtain y where c: "call_release t racy 0 (pu_sems s (sp_sem q)) = Some y" and S: "S = (pu_sems s)(sp_sem q := y)"
    using merge(6) m by (auto simp: permit_drop_def panic_simps)
  let ?P = "(pu_permits s)(i \<mapsto> p')"
  have f: "finite (dom ?P)" using inv(1) by simp
  have h: "msum (holds k) (?P(j := None)) = msum (holds k) (pu_permits s)" for k
    using holds_upd [OF inv(1), of k i "Some p'"] holds_upd [OF f, of k j None] merge(1-3) m
    by (auto simp: holds_def split: if_splits)
  show ?case
    by (rule public_release_move [OF merge(7) c])
      (use inv S m merge(5) h in \<open>auto simp: ran_def split: if_splits\<close>)
next
  case (split s i p j n r p')
  note inv = public_invD [OF split(4)]
  show ?case
  proof (cases "n > sp_permits p")
    case True
    then have "(pu_permits s)(i \<mapsto> p', j := r) = pu_permits s" using split(1-3) by (auto simp: permit_split_def)
    with split(4) show ?thesis by simp
  next
    case False
    then have r: "r = Some \<lparr>sp_sem = sp_sem p, sp_permits = n\<rparr>" and p': "p' = p\<lparr>sp_permits := sp_permits p - n\<rparr>"
      using split(3) by (simp_all add: permit_split_def)
    let ?P = "(pu_permits s)(i \<mapsto> p')"
    have f: "finite (dom ?P)" and j: "?P j = None" using inv(1) split(1,2) by auto
    have h: "msum (holds k) (?P(j := r)) = msum (holds k) (pu_permits s)" for k
    proof -
      have "holds k p' + holds k \<lparr>sp_sem = sp_sem p, sp_permits = n\<rparr> = holds k p" using False p' by (simp add: holds_def)
      moreover have "msum (holds k) (?P(j := r)) = msum (holds k) ?P + holds k \<lparr>sp_sem = sp_sem p, sp_permits = n\<rparr>"
        unfolding r by (rule msum_insert [OF f j])
      ultimately show ?thesis using msum_update [OF inv(1) split(1), of "holds k" p'] by linarith
    qed
    have q: "\<forall>x\<in>ran ?P. sp_permits x \<le> usize_max"
      using ran_upd_bound [OF inv(2), of "Some p'"] inv(5) [OF split(1)] p' by auto
    have "\<forall>x\<in>ran (?P(j := r)). sp_permits x \<le> usize_max"
      using ran_upd_bound [OF q, of r] inv(5) [OF split(1)] False r by auto
    with split(4) h f r show ?thesis by (simp add: public_inv_def account_def)
  qed
next
  case (drop s i p t racy S)
  note inv = public_invD [OF drop(4)]
  obtain y where c: "call_release t racy (sp_permits p) (pu_sems s (sp_sem p)) = Some y" and S: "S = (pu_sems s)(sp_sem p := y)"
    using drop(3) by (auto simp: permit_drop_def panic_simps)
  show ?case
    by (rule public_release_move [OF drop(4) c drop(2) inv(5) [OF drop(1)]])
      (use inv S drop(1) holds_upd [OF inv(1), of "sp_sem p" i None] in
        \<open>auto simp: holds_def holds_other intro: ran_upd_bound [OF inv(2), of None _ i]\<close>)
qed

lemma public_reach: "public_step\<^sup>*\<^sup>* (public_init sizes) s \<Longrightarrow> public_inv sizes s"
  by (induction rule: rtranclp_induct) (auto intro: public_init_inv public_step_inv)

section \<open>No permit is lost or made up\<close>

text \<open>
  C5: for every semaphore and whatever is done with the permit objects, the permits available,
  reserved for parked acquisitions, in the hand of a releasing thread, held by permit objects,
  forgotten, drained or reduced add up to the initial ones, those added by \<open>release\<close>, and what the
  queue is still owed. Splitting a permit and merging the parts again gives it back, and merging
  permits of different semaphores panics.
\<close>

theorem semaphore_permits_conserved:
  assumes "public_step\<^sup>*\<^sup>* (public_init sizes) s"
  shows "public_available_permits k (pu_sems s) + msum reserved (ss_futs (pu_sems s k)) +
      msum (\<lambda>n. n) (ss_dist (pu_sems s k)) + msum (holds k) (pu_permits s) + pu_gone s k + ss_reduced (pu_sems s k) =
      sizes k + pu_added s k + queue_needs (ss_waiters (pu_sems s k)) \<and>
    (\<forall>i p n q p'. pu_permits s i = Some p \<longrightarrow> permit_split n p = (Some q, p') \<longrightarrow>
       permit_merge p' q = Some (p, permit_forget q)) \<and>
    (\<forall>i j p q. pu_permits s i = Some p \<longrightarrow> pu_permits s j = Some q \<longrightarrow> sp_sem p \<noteq> sp_sem q \<longrightarrow> permit_merge p q = None)"
proof (intro conjI allI impI)
  have inv: "public_inv sizes s" by (rule public_reach [OF assms])
  then have "account sizes k (pu_sems s k) (pu_acquires s) (pu_permits s) (pu_gone s k) (pu_added s k)"
    by (simp add: public_inv_def)
  then show "public_available_permits k (pu_sems s) + msum reserved (ss_futs (pu_sems s k)) +
      msum (\<lambda>n. n) (ss_dist (pu_sems s k)) + msum (holds k) (pu_permits s) + pu_gone s k + ss_reduced (pu_sems s k) =
      sizes k + pu_added s k + queue_needs (ss_waiters (pu_sems s k))"
    by (simp add: account_def sem_inv_def conserved_def public_available_permits_def available_permits_def)
  show "permit_merge p' q = Some (p, permit_forget q)"
    if "pu_permits s i = Some p" "permit_split n p = (Some q, p')" for i p n q p'
    using that(2) public_invD(5) [OF inv that(1)]
    by (auto simp: permit_split_def permit_merge_def permit_forget_def guard_def checked_add_def split: if_splits)
qed (simp add: permit_merge_def guard_def)

text \<open>A permit of three is taken, and split into one and two.\<close>

definition demo_permits :: public_sys where
  "demo_permits = \<lparr>pu_sems = (\<lambda>k. sem_init 5)(0 := (sem_init 5)\<lparr>ss_sem := sem_new 2, ss_acquired := 3\<rparr>),
     pu_permits = [0 \<mapsto> \<lparr>sp_sem = 0, sp_permits = 2\<rparr>, 1 \<mapsto> \<lparr>sp_sem = 0, sp_permits = 1\<rparr>], pu_acquires = Map.empty,
     pu_gone = \<lambda>k. 0, pu_added = \<lambda>k. 0\<rparr>"

lemma demo_permits_reach: "public_step\<^sup>*\<^sup>* (public_init (\<lambda>k. 5)) demo_permits"
proof -
  let ?S = "(\<lambda>k. sem_init 5)(0 := (sem_init 5)\<lparr>ss_sem := sem_new 2, ss_acquired := 3\<rparr>)"
  let ?s = "(public_init (\<lambda>k. 5))\<lparr>pu_sems := ?S, pu_permits := [0 \<mapsto> \<lparr>sp_sem = 0, sp_permits = 3\<rparr>]\<rparr>"
  have "public_try_acquire 0 3 (\<lambda>k. sem_init 5) = (Some \<lparr>sp_sem = 0, sp_permits = 3\<rparr>, ?S)"
    by (simp add: public_try_acquire_def call_try_def try_acquire_eq sem_init_def sem_new_def)
  then have "public_step (public_init (\<lambda>k. 5)) ?s"
    using public_step.try_acquire [of "public_init (\<lambda>k. 5)" 0 3 0 "Some \<lparr>sp_sem = 0, sp_permits = 3\<rparr>" ?S]
    by (simp add: public_init_def usize_max_def)
  moreover have "public_step ?s demo_permits"
    using public_step.split [of ?s 0 "\<lparr>sp_sem = 0, sp_permits = 3\<rparr>" 1 1]
    by (simp add: permit_split_def public_init_def demo_permits_def)
  ultimately show ?thesis by (meson r_into_rtranclp run_step)
qed

theorem semaphore_permits_conserved_witness:
  "public_available_permits 0 (pu_sems demo_permits) + msum (holds 0) (pu_permits demo_permits) = 5 \<and>
   permit_merge \<lparr>sp_sem = 0, sp_permits = 1\<rparr> \<lparr>sp_sem = 0, sp_permits = 1\<rparr> =
     Some (\<lparr>sp_sem = 0, sp_permits = 2\<rparr>, \<lparr>sp_sem = 0, sp_permits = 0\<rparr>)"
proof -
  note t = semaphore_permits_conserved [OF demo_permits_reach]
  have "permit_split 1 \<lparr>sp_sem = 0, sp_permits = 2\<rparr> =
      (Some \<lparr>sp_sem = 0, sp_permits = 1\<rparr>, \<lparr>sp_sem = 0, sp_permits = 1\<rparr>)" by (simp add: permit_split_def)
  moreover have "pu_permits demo_permits 0 = Some \<lparr>sp_sem = 0, sp_permits = 2\<rparr>" by (simp add: demo_permits_def)
  ultimately have "permit_merge \<lparr>sp_sem = 0, sp_permits = 1\<rparr> \<lparr>sp_sem = 0, sp_permits = 1\<rparr> =
     Some (\<lparr>sp_sem = 0, sp_permits = 2\<rparr>, permit_forget \<lparr>sp_sem = 0, sp_permits = 1\<rparr>)"
    using t by blast
  moreover have "queue_needs (ss_waiters (pu_sems demo_permits 0)) = 0"
    by (simp add: demo_permits_def sem_new_def queue_needs_def wl_list_def wl_queue_new)
  ultimately show ?thesis using t [of 0] by (simp add: demo_permits_def sem_init_def permit_forget_def)
qed

end
