(* ===== verification/PoolState.thy ===== *)
theory PoolState
  imports Prelude "HOL-Library.Multiset"
begin

text \<open>
  The bookkeeping of an object pool (\<open>pool/state.rs\<close>, with the object status and the strategies of
  \<open>pool/common.rs\<close>): the idle objects, the number of objects that belong to the pool, and \<open>retain\<close>,
  which sorts the idle objects in place by a predicate of the caller. The predicate may change
  its own state and the object, and may panic; \<open>retain\<close> is shown to agree with visiting the objects
  one after the other, and to lose no object when the predicate panics.
\<close>

section \<open>Objects and their status\<close>

text \<open>The clock is read by the caller of an operation and passed as \<open>now\<close>.\<close>

type_synonym instant = nat

record object_status =
  st_created :: instant
  st_last_returned :: "instant option"
  st_recycle_count :: usize

definition status_default :: "instant \<Rightarrow> object_status" where
  "status_default now = \<lparr>st_created = now, st_last_returned = None, st_recycle_count = 0\<rparr>"

definition last_used :: "object_status \<Rightarrow> instant" where
  "last_used st = (case st_last_returned st of Some i \<Rightarrow> i | None \<Rightarrow> st_created st)"

definition mark_recycled :: "object_status \<Rightarrow> object_status option" where
  "mark_recycled st = do {
     n \<leftarrow> checked_add (st_recycle_count st) 1;
     Some (st\<lparr>st_recycle_count := n\<rparr>) }"

definition mark_returned :: "instant \<Rightarrow> object_status \<Rightarrow> object_status" where
  "mark_returned now st = st\<lparr>st_last_returned := Some now\<rparr>"

datatype queue_strategy = Fifo | Lifo

record 'o object_state =
  os_o :: 'o
  os_status :: object_status

definition object_state_new :: "instant \<Rightarrow> 'o \<Rightarrow> 'o object_state" where
  "object_state_new now x = \<lparr>os_o = x, os_status = status_default now\<rparr>"

record 'o retain_result =
  rr_retained :: usize
  rr_removed :: "'o list"

section \<open>The state of a pool\<close>

record 'o pool_state =
  po_idle :: "'o object_state list"
  po_current_size :: usize

definition pool_new :: "'o pool_state" where
  "pool_new = \<lparr>po_idle = [], po_current_size = 0\<rparr>"

definition idle_count :: "'o pool_state \<Rightarrow> usize" where
  "idle_count p = length (po_idle p)"

fun pool_pop :: "queue_strategy \<Rightarrow> 'o pool_state \<Rightarrow> 'o object_state option \<times> 'o pool_state" where
  "pool_pop Fifo p =
     (case po_idle p of [] \<Rightarrow> (None, p) | x # xs \<Rightarrow> (Some x, p\<lparr>po_idle := xs\<rparr>))"
| "pool_pop Lifo p =
     (case po_idle p of [] \<Rightarrow> (None, p) | xs \<Rightarrow> (Some (last xs), p\<lparr>po_idle := butlast xs\<rparr>))"

definition add_idle :: "'o object_state \<Rightarrow> 'o pool_state \<Rightarrow> 'o pool_state option" where
  "add_idle x p = do {
     n \<leftarrow> checked_add (po_current_size p) 1;
     Some (p\<lparr>po_current_size := n, po_idle := po_idle p @ [x]\<rparr>) }"

definition add_active :: "'o pool_state \<Rightarrow> 'o pool_state option" where
  "add_active p = do {
     n \<leftarrow> checked_add (po_current_size p) 1;
     Some (p\<lparr>po_current_size := n\<rparr>) }"

definition return_idle :: "'o object_state \<Rightarrow> 'o pool_state \<Rightarrow> 'o pool_state" where
  "return_idle x p = p\<lparr>po_idle := po_idle p @ [x]\<rparr>"

definition pool_detach :: "'o pool_state \<Rightarrow> 'o pool_state option" where
  "pool_detach p = do {
     n \<leftarrow> checked_sub (po_current_size p) 1;
     Some (p\<lparr>po_current_size := n\<rparr>) }"

subsection \<open>Retaining idle objects\<close>

text \<open>
  The predicate turns its own state and an object into the new state, the object as it left it,
  and its answer, which is \<open>None\<close> when it panicked. The loops return the state of the predicate,
  the idle objects, \<open>current\<close>, \<open>retained\<close>, and whether they were left by unwinding.
\<close>

type_synonym ('s, 'o) judge = "'s \<Rightarrow> 'o \<Rightarrow> object_status \<Rightarrow> 's \<times> 'o \<times> bool option"

type_synonym ('s, 'o) scan = "'s \<times> 'o object_state list \<times> usize \<times> usize \<times> bool"

definition judge_at :: "('s, 'o) judge \<Rightarrow> 's \<Rightarrow> 'o object_state list \<Rightarrow> usize \<Rightarrow> 's \<times> 'o object_state list \<times> bool option" where
  "judge_at f s idle i =
     (case f s (os_o (idle ! i)) (os_status (idle ! i)) of
        (s', x, r) \<Rightarrow> (s', idle[i := (idle ! i)\<lparr>os_o := x\<rparr>], r))"

lemma judge_at_length: "judge_at f s idle i = (s', idle', r) \<Longrightarrow> length idle' = length idle"
  by (auto simp: judge_at_def split: prod.splits)

text \<open>The first loop ends at the first object to remove.\<close>

function retain_prefix :: "('s, 'o) judge \<Rightarrow> 's \<Rightarrow> 'o object_state list \<Rightarrow> usize \<Rightarrow> usize \<Rightarrow> ('s, 'o) scan" where
  "retain_prefix f s idle current retained =
     (if current < length idle then
        (case judge_at f s idle current of
           (s', idle', None) \<Rightarrow> (s', idle', current, retained, True)
         | (s', idle', Some False) \<Rightarrow> (s', idle', current + 1, retained, False)
         | (s', idle', Some True) \<Rightarrow> retain_prefix f s' idle' (current + 1) (retained + 1))
      else (s, idle, current, retained, False))"
  by pat_completeness auto
termination
  by (relation "measure (\<lambda>(f, s, idle, current, retained). length idle - current)")
    (auto dest!: judge_at_length [OF sym])

text \<open>The second loop swaps the objects to keep to the front.\<close>

function retain_compact :: "('s, 'o) judge \<Rightarrow> 's \<Rightarrow> 'o object_state list \<Rightarrow> usize \<Rightarrow> usize \<Rightarrow> ('s, 'o) scan" where
  "retain_compact f s idle current retained =
     (if current < length idle then
        (case judge_at f s idle current of
           (s', idle', None) \<Rightarrow> (s', idle', current, retained, True)
         | (s', idle', Some False) \<Rightarrow> retain_compact f s' idle' (current + 1) retained
         | (s', idle', Some True) \<Rightarrow>
             retain_compact f s' (idle'[retained := idle' ! current, current := idle' ! retained])
               (current + 1) (retained + 1))
      else (s, idle, current, retained, False))"
  by pat_completeness auto
termination
  by (relation "measure (\<lambda>(f, s, idle, current, retained). length idle - current)")
    (auto dest!: judge_at_length [OF sym])

declare retain_prefix.simps [simp del] retain_compact.simps [simp del]

text \<open>The answer is \<open>None\<close> when the predicate panicked; the pool keeps what the loops left then.\<close>

definition pool_retain ::
  "('s, 'o) judge \<Rightarrow> 's \<Rightarrow> 'o pool_state \<Rightarrow> ('o retain_result option \<times> 's \<times> 'o pool_state) option" where
  "pool_retain f s p =
     (case retain_prefix f s (po_idle p) 0 0 of
        (s, idle, current, retained, True) \<Rightarrow> Some (None, s, p\<lparr>po_idle := idle\<rparr>)
      | (s, idle, current, retained, False) \<Rightarrow>
          (case retain_compact f s idle current retained of
             (s, idle, current, retained, True) \<Rightarrow> Some (None, s, p\<lparr>po_idle := idle\<rparr>)
           | (s, idle, current, retained, False) \<Rightarrow>
               let removed = (if current = retained then [] else map os_o (drop retained idle));
                   idle = (if current = retained then idle else take retained idle)
               in do {
                 n \<leftarrow> checked_sub (po_current_size p) (length removed);
                 Some (Some \<lparr>rr_retained = retained, rr_removed = removed\<rparr>, s,
                   p\<lparr>po_idle := idle, po_current_size := n\<rparr>) }))"

lemmas pool_ops [op_defs] = status_default_def last_used_def mark_recycled_def mark_returned_def
  object_state_new_def pool_new_def idle_count_def add_idle_def add_active_def return_idle_def
  pool_detach_def judge_at_def pool_retain_def

section \<open>Objects belong to the pool\<close>

text \<open>The idle objects are among those counted; the others are checked out.\<close>

definition pool_inv :: "nat \<Rightarrow> 'o pool_state \<Rightarrow> bool" where
  "pool_inv active p \<longleftrightarrow> po_current_size p = length (po_idle p) + active \<and> po_current_size p \<le> usize_max"

lemma pool_new_inv: "pool_inv 0 pool_new"
  by (simp add: pool_inv_def pool_new_def)

lemma pool_pop_inv:
  assumes "pool_inv active p" and "pool_pop st p = (r, p')"
  shows "pool_inv (if r = None then active else active + 1) p' \<and> (r = None \<longleftrightarrow> po_idle p = [])"
  using assms by (cases st; cases "po_idle p") (auto simp: pool_inv_def)

lemma add_inv:
  assumes "pool_inv active p" and "po_current_size p < usize_max"
  shows "\<exists>p'. add_idle x p = Some p' \<and> pool_inv active p'" and "\<exists>p'. add_active p = Some p' \<and> pool_inv (active + 1) p'"
  using assms by (auto simp: pool_inv_def add_idle_def add_active_def checked_add_def)

lemma leave_inv:
  assumes "pool_inv (active + 1) p"
  shows "pool_inv active (return_idle x p)" and "\<exists>p'. pool_detach p = Some p' \<and> pool_inv active p'"
  using assms by (auto simp: pool_inv_def return_idle_def pool_detach_def checked_sub_def)

section \<open>Retaining is visiting\<close>

text \<open>
  The specification of \<open>retain\<close>: the predicate sees the objects in order, up to the first on which it
  panics; each object is paired with the verdict that it stays.
\<close>

fun visit :: "('s, 'o) judge \<Rightarrow> 's \<Rightarrow> 'o object_state list \<Rightarrow> 's \<times> ('o object_state \<times> bool) list \<times> bool" where
  "visit f s [] = (s, [], False)"
| "visit f s (x # xs) =
     (case f s (os_o x) (os_status x) of
        (s', y, None) \<Rightarrow> (s', (x\<lparr>os_o := y\<rparr>, True) # map (\<lambda>z. (z, True)) xs, True)
      | (s', y, Some b) \<Rightarrow>
          (case visit f s' xs of (s'', ys, panicked) \<Rightarrow> (s'', (x\<lparr>os_o := y\<rparr>, b) # ys, panicked)))"

abbreviation kept :: "('a \<times> bool) list \<Rightarrow> 'a list" where
  "kept ys \<equiv> map fst (filter snd ys)"

abbreviation rejected :: "('a \<times> bool) list \<Rightarrow> 'a list" where
  "rejected ys \<equiv> map fst (filter (\<lambda>y. \<not> snd y) ys)"

lemma visit_length: "visit f s xs = (s', ys, p) \<Longrightarrow> length ys = length xs"
  by (induction f s xs arbitrary: ys rule: visit.induct) (auto split: prod.splits option.splits)

lemma mset_kept_rejected: "mset (kept ys) + mset (rejected ys) = mset (map fst ys)"
  by (induction ys) auto

lemma judge_at_append:
  "judge_at f s (K @ x # xs) (length K) =
     (case f s (os_o x) (os_status x) of (s', y, r) \<Rightarrow> (s', K @ x\<lparr>os_o := y\<rparr> # xs, r))"
  by (simp add: judge_at_def split: prod.splits)

lemma swap_append:
  "(K @ d # D @ x # xs)[length K := x, length K + length (d # D) := d] = K @ x # D @ d # xs"
  by (simp add: list_update_append)

text \<open>
  The second loop with the kept objects \<open>K\<close> and the rejected ones \<open>D\<close> in front; at least one has been
  rejected when it starts.
\<close>

lemma retain_compact_visit:
  assumes "visit f s xs = (s', ys, panicked)" and "D \<noteq> []"
  shows "\<exists>D' c r. retain_compact f s (K @ D @ xs) (length K + length D) (length K) =
      (s', D', c, r, panicked) \<and> mset D' = mset K + mset D + mset (map fst ys) \<and>
      (\<not> panicked \<longrightarrow> c = length D' \<and> r = length K + length (kept ys) \<and> take r D' = K @ kept ys)"
  using assms
proof (induction f s xs arbitrary: ys K D rule: visit.induct)
  case (1 f s)
  then show ?case by (simp add: retain_compact.simps)
next
  case (2 f s x xs)
  obtain s1 y r where f: "f s (os_o x) (os_status x) = (s1, y, r)" by (metis prod_cases3)
  let ?x = "x\<lparr>os_o := y\<rparr>"
  have j: "judge_at f s (K @ D @ x # xs) (length K + length D) = (s1, K @ D @ ?x # xs, r)"
    using judge_at_append [of f s "K @ D" x xs] f by simp
  show ?case
  proof (cases r)
    case None
    with 2(2) f j show ?thesis by (auto simp: retain_compact.simps [of f s] multiset.map_comp comp_def)
  next
    case (Some b)
    obtain zs where v: "visit f s1 xs = (s', zs, panicked)" and ys: "ys = (?x, b) # zs"
      using 2(2) f Some by (auto split: prod.splits)
    obtain d E where D: "D = d # E" using 2(3) by (cases D) auto
    show ?thesis
    proof (cases b)
      case False
      with 2(1) [OF f [symmetric] refl Some v, of "D @ [?x]" K] j Some ys show ?thesis
        by (auto simp: retain_compact.simps [of f s])
    next
      case True
      have i: "(K @ D @ ?x # xs) ! (length K + length D) = ?x" "(K @ D @ ?x # xs) ! length K = d"
        using D nth_append_length [of "K @ D" ?x xs] by simp_all
      have "retain_compact f s (K @ D @ x # xs) (length K + length D) (length K) =
          retain_compact f s1 ((K @ [?x]) @ (E @ [d]) @ xs) (length (K @ [?x]) + length (E @ [d])) (length (K @ [?x]))"
        using j i Some True swap_append [of K d E ?x xs] D by (simp add: retain_compact.simps [of f s])
      with 2(1) [OF f [symmetric] refl Some v, of "E @ [d]" "K @ [?x]"] True ys D show ?thesis by auto
    qed
  qed
qed

text \<open>The first loop keeps everything in place, and hands over at the first rejected object.\<close>

lemma retain_prefix_visit:
  assumes "visit f s xs = (s', ys, panicked)"
  shows "retain_prefix f s (K @ xs) (length K) (length K) =
      (s', K @ map fst ys, length K + length ys, length K + length ys, False) \<and> \<not> panicked \<and> kept ys = map fst ys \<and> rejected ys = []
    \<or> (\<exists>c r. retain_prefix f s (K @ xs) (length K) (length K) = (s', K @ map fst ys, c, r, True)) \<and> panicked
    \<or> (\<exists>s1 A x B zs. retain_prefix f s (K @ xs) (length K) (length K) =
          (s1, (K @ A) @ [x] @ B, length (K @ A) + 1, length (K @ A), False) \<and>
        visit f s1 B = (s', zs, panicked) \<and> ys = map (\<lambda>a. (a, True)) A @ (x, False) # zs)"
  using assms
proof (induction f s xs arbitrary: ys K rule: visit.induct)
  case (1 f s)
  then show ?case by (simp add: retain_prefix.simps)
next
  case (2 f s x xs)
  obtain s1 y r where f: "f s (os_o x) (os_status x) = (s1, y, r)" by (metis prod_cases3)
  let ?x = "x\<lparr>os_o := y\<rparr>"
  have j: "judge_at f s (K @ x # xs) (length K) = (s1, K @ ?x # xs, r)"
    using judge_at_append [of f s K x xs] f by simp
  show ?case
  proof (cases r)
    case None
    with 2(2) f j show ?thesis by (auto simp: retain_prefix.simps [of f s] comp_def)
  next
    case (Some b)
    obtain zs where v: "visit f s1 xs = (s', zs, panicked)" and ys: "ys = (?x, b) # zs"
      using 2(2) f Some by (auto split: prod.splits)
    show ?thesis
    proof (cases b)
      case False
      with j Some ys v show ?thesis
        by (intro disjI2 exI [of _ s1] exI [of _ "[]"] exI [of _ ?x] exI [of _ xs] exI [of _ zs])
          (simp add: retain_prefix.simps [of f s])
    next
      case True
      have e: "retain_prefix f s (K @ x # xs) (length K) (length K) =
          retain_prefix f s1 ((K @ [?x]) @ xs) (length (K @ [?x])) (length (K @ [?x]))"
        using j Some True by (simp add: retain_prefix.simps [of f s])
      from 2(1) [OF f [symmetric] refl Some v, of "K @ [?x]"] show ?thesis
      proof (elim disjE)
        assume "\<exists>s1' A z B zs'. retain_prefix f s1 ((K @ [?x]) @ xs) (length (K @ [?x])) (length (K @ [?x])) =
            (s1', ((K @ [?x]) @ A) @ [z] @ B, length ((K @ [?x]) @ A) + 1, length ((K @ [?x]) @ A), False) \<and>
          visit f s1' B = (s', zs', panicked) \<and> zs = map (\<lambda>a. (a, True)) A @ (z, False) # zs'"
        then obtain s1' A z B zs' where "retain_prefix f s1 ((K @ [?x]) @ xs) (length (K @ [?x])) (length (K @ [?x])) =
            (s1', ((K @ [?x]) @ A) @ [z] @ B, length ((K @ [?x]) @ A) + 1, length ((K @ [?x]) @ A), False)"
          "visit f s1' B = (s', zs', panicked)" "zs = map (\<lambda>a. (a, True)) A @ (z, False) # zs'" by blast
        then show ?thesis using e True ys
          by (intro disjI2 exI [of _ s1'] exI [of _ "?x # A"] exI [of _ z] exI [of _ B] exI [of _ zs']) simp
      qed (use e True ys in auto)
    qed
  qed
qed

lemma kept_prefix: "kept (map (\<lambda>a. (a, True)) A) = A" "rejected (map (\<lambda>a. (a, True)) A) = []"
  by (induction A) auto

lemma mset_drop_kept:
  assumes "mset xs = mset (map fst ys)" and "take n xs = kept ys"
  shows "mset (drop n xs) = mset (rejected ys)"
proof -
  have "mset (kept ys) + mset (drop n xs) = mset xs"
    using assms(2) by (metis append_take_drop_id mset_append)
  also have "\<dots> = mset (kept ys) + mset (rejected ys)" using assms(1) by (simp only: mset_kept_rejected)
  finally show ?thesis by simp
qed

text \<open>The two loops together.\<close>

lemma retain_loops:
  assumes "visit f s xs = (s', ys, panicked)"
  obtains (unwound) c r xs' where "retain_prefix f s xs 0 0 = (s', xs', c, r, True)" "panicked" "mset xs' = mset (map fst ys)"
  | (scanned) s1 idle c0 r0 xs' c r where "retain_prefix f s xs 0 0 = (s1, idle, c0, r0, False)"
      "retain_compact f s1 idle c0 r0 = (s', xs', c, r, panicked)" "mset xs' = mset (map fst ys)"
      "\<not> panicked \<Longrightarrow> c = length xs' \<and> r = length (kept ys) \<and> take r xs' = kept ys"
  using retain_prefix_visit [OF assms, of "[]"]
proof (elim disjE exE conjE)
  assume "retain_prefix f s ([] @ xs) (length []) (length []) =
      (s', [] @ map fst ys, length [] + length ys, length [] + length ys, False)" "\<not> panicked" "kept ys = map fst ys"
  moreover have "length (kept ys) = length ys" using \<open>kept ys = map fst ys\<close> by simp
  ultimately show thesis by (intro scanned) (auto simp: retain_compact.simps)
next
  fix c r assume "retain_prefix f s ([] @ xs) (length []) (length []) = (s', [] @ map fst ys, c, r, True)" "panicked"
  then show thesis by (intro unwound) auto
next
  fix s1 A x B zs
  assume p: "retain_prefix f s ([] @ xs) (length []) (length []) =
      (s1, ([] @ A) @ [x] @ B, length ([] @ A) + 1, length ([] @ A), False)"
    and v: "visit f s1 B = (s', zs, panicked)" and ys: "ys = map (\<lambda>a. (a, True)) A @ (x, False) # zs"
  obtain D' c r where "retain_compact f s1 (A @ [x] @ B) (length A + 1) (length A) = (s', D', c, r, panicked)"
    "mset D' = mset A + mset [x] + mset (map fst zs)"
    "\<not> panicked \<longrightarrow> c = length D' \<and> r = length A + length (kept zs) \<and> take r D' = A @ kept zs"
    using retain_compact_visit [OF v, of "[x]" A] by auto
  with p ys kept_prefix [of A] show thesis
    by (intro scanned [of s1 "A @ [x] @ B" "length A + 1" "length A" D' c r]) (auto simp: multiset.map_comp comp_def)
qed

text \<open>
  C6: \<open>retain\<close> keeps exactly the objects its predicate accepts, in their order, and returns exactly
  the others, each as the predicate left it; the pool shrinks by those. When the predicate panics
  nothing is removed: every object is still idle in the pool and counted by it.
\<close>

theorem retain_sorts_objects:
  assumes "pool_inv active p" and "visit f s (po_idle p) = (s', ys, panicked)"
  shows "\<exists>r p'. pool_retain f s p = Some (r, s', p') \<and> pool_inv active p' \<and>
    (if panicked then r = None \<and> mset (po_idle p') = mset (map fst ys) \<and> po_current_size p' = po_current_size p
     else po_idle p' = kept ys \<and>
       (\<exists>removed. r = Some \<lparr>rr_retained = length (kept ys), rr_removed = removed\<rparr> \<and>
          mset removed = mset (map os_o (rejected ys)) \<and>
          po_current_size p' + length removed = po_current_size p))"
  using assms(2)
proof (cases rule: retain_loops)
  case (unwound c r xs')
  moreover from this(3) have "length xs' = length (po_idle p)"
    using visit_length [OF assms(2)] by (metis length_map size_mset)
  ultimately show ?thesis using assms(1) by (simp add: pool_retain_def pool_inv_def)
next
  case (scanned s1 idle c0 r0 xs' c r)
  have l: "length xs' = length (po_idle p)"
    using visit_length [OF assms(2)] scanned(3) by (metis length_map size_mset)
  show ?thesis
  proof (cases panicked)
    case True
    with scanned l assms(1) show ?thesis by (simp add: pool_retain_def pool_inv_def)
  next
    case False
    then have c: "c = length xs'" "r = length (kept ys)" "take r xs' = kept ys" using scanned(4) by auto
    have "mset (drop r xs') = mset (rejected ys)" by (rule mset_drop_kept [OF scanned(3) c(3)])
    then have d: "mset (map os_o (drop r xs')) = mset (map os_o (rejected ys))" by (metis mset_map)
    have r: "r \<le> length xs'" using c(2,3) by (metis length_take min.cobounded1)
    have "pool_retain f s p = Some (Some \<lparr>rr_retained = r, rr_removed = map os_o (drop r xs')\<rparr>, s',
        p\<lparr>po_idle := kept ys, po_current_size := po_current_size p - (length xs' - r)\<rparr>)"
      using scanned(1,2) False c r l assms(1)
      by (auto simp: pool_retain_def pool_inv_def checked_sub_def Let_def)
    with False d c(2) r l assms(1) show ?thesis by (auto simp: pool_inv_def)
  qed
qed

text \<open>A predicate that counts its calls and keeps the odd numbers.\<close>

definition demo_judge :: "(nat, nat) judge" where
  "demo_judge s x st = (s + 1, x + 10, Some (odd x))"

definition demo_pool :: "nat pool_state" where
  "demo_pool = \<lparr>po_idle = map (object_state_new 0) [1, 2, 3, 4, 5], po_current_size = 6\<rparr>"

theorem retain_sorts_objects_witness:
  "\<exists>r p'. pool_retain demo_judge 0 demo_pool = Some (Some r, 5, p') \<and> pool_inv 1 p' \<and>
     map os_o (po_idle p') = [11, 13, 15] \<and> mset (rr_removed r) = {#12, 14#}"
proof -
  have "pool_inv 1 demo_pool" by (simp add: pool_inv_def demo_pool_def usize_max_def)
  moreover have "visit demo_judge 0 (po_idle demo_pool) =
      (5, map (\<lambda>x. (object_state_new 0 (x + 10), odd x)) [1, 2, 3, 4, 5], False)"
    by (simp add: demo_judge_def demo_pool_def object_state_new_def)
  ultimately obtain r p' where "pool_retain demo_judge 0 demo_pool = Some (r, 5, p')" "pool_inv 1 p'"
    "po_idle p' = map (object_state_new 0) [11, 13, 15]"
    "\<exists>removed. r = Some \<lparr>rr_retained = 3, rr_removed = removed\<rparr> \<and> mset removed = {#12, 14#}"
    using retain_sorts_objects [of 1 demo_pool demo_judge 0 5 _ False] by (fastforce simp: object_state_new_def)
  then show ?thesis by (auto simp: object_state_new_def)
qed

end
