(* ===== verification/Spec2Isabelle.thy ===== *)
theory Spec2Isabelle
  imports SemaphoreSystem Barrier Phaser Countdown WaitGroup ManualResetEvent AutoResetEvent MpmcSystem
    SpmcQueue MpscUnbounded BroadcastBounded Oneshot RwLockSystem Condvar
    Watch Completion Shutdown MpscBounded SemaphorePermits PoolState
begin

text \<open>
  A verification of \<^verbatim>\<open>asyncband\<close>, a library of runtime-agnostic synchronization primitives for
  asynchronous Rust. Paths below are relative to \<^verbatim>\<open>src/asyncband/src\<close>.

  \<^bold>\<open>The program.\<close> Every primitive keeps its state behind a short internal lock or in an atomic, and
  parks the tasks that must wait: a pending future stores the waker of its last poll in a queue or
  a set inside the primitive, and whoever makes progress possible takes the waker out and wakes it
  after the lock is released. Futures may be dropped at any time and must then give back what they
  were handed. The interesting failures are lost wakeups, lost or duplicated permits, messages and
  signals, stale queue nodes, and panics of the internal assertions.

  \<^bold>\<open>Conventions\<close> (\<open>Prelude\<close>). A panic is the value \<open>None\<close> of the option monad, so every \<open>expect\<close>,
  \<open>assert!\<close>, \<open>unreachable!\<close> and integer overflow is a branch of the model. A \<open>usize\<close> is a natural
  number within 64 bits with \<open>checked_add\<close> and \<open>checked_sub\<close>; a \<open>u32\<close> count and the wrapping phase
  of the phaser are words. A waker is its identity; an operation returns the wakers it woke, in order. One region of a
  lock is one function, and an access outside every lock is a step of its own. A loop is the
  partial function \<open>loop\<close>, whose result \<open>None\<close> includes not returning, so the lemmas that give a
  loop a result show that it ends. No operation takes fuel: \<open>fuel\<close> in
  \<open>Oneshot\<close> is the measure by which a drop of the receiver is shown to take at most seven steps,
  and the number of spurious failures of a weak compare-and-swap is an arbitrary parameter. A primitive shared by many tasks is a record of its state, the
  futures and handles in use and logs of what has happened, with an \<open>inductive\<close> step relation for
  one call, poll or drop by anybody; the properties hold in all reachable states. A poll is
  remembered with the number of wakers woken before it, so that ``woken since the last poll'' can
  be said.

  \<^bold>\<open>Storage.\<close>
  \<^item> \<open>Arena\<close>: \<^verbatim>\<open>internal/arena.rs\<close>. The free list and the occupied slots; the locale \<open>store\<close> is the
    contract of a keyed store. Inserting and removing is a
    round trip.
  \<^item> \<open>WaitList\<close>: \<^verbatim>\<open>internal/waitlist.rs\<close>. The doubly linked queue in an arena; the locale
    \<open>waiter_queue\<close> is its contract. Unlinking refines removal from a list.
  \<^item> \<open>WakerBatch\<close>, \<open>WakerSet\<close>: \<^verbatim>\<open>internal/waker_batch.rs\<close>, \<^verbatim>\<open>internal/wakerset.rs\<close>. The locale
    \<open>waker_registry\<close> is the contract of the set.
  \<^item> \<open>Waiters\<close> (locale \<open>waiter_owners\<close>) and \<open>Registrations\<close> hold what the clients of the list and of
    the set have in common: who owns which node or token, and who has been woken.

  \<^bold>\<open>Counters and barriers.\<close>
  \<^item> \<open>ZeroGate\<close> (locale \<open>zero_gate\<close>): an atomic counter beside a locked waker set, one atomic access
    at a time; \<open>Countdown\<close> (\<^verbatim>\<open>internal/countdown.rs\<close>, \<^verbatim>\<open>latch/mod.rs\<close>) and \<open>WaitGroup\<close>
    (\<^verbatim>\<open>waitgroup/mod.rs\<close>) are its instances. No wakeup of a latch is lost and its lock holder always gets on; the
    counts of both are exact.
  \<^item> \<open>Barrier\<close> (\<^verbatim>\<open>barrier/mod.rs\<close>) and \<open>Phaser\<close> (\<^verbatim>\<open>phaser/mod.rs\<close>): counts of arrivals and parties are
    exact, a generation or phase ends exactly with its last arrival, and its waiters are woken.
  \<^item> \<open>Shutdown\<close> (\<^verbatim>\<open>shutdown/mod.rs\<close>): the composition of a latch and a wait group.

  \<^bold>\<open>Permits and locks.\<close>
  \<^item> \<open>Semaphore\<close>, \<open>SemaphoreSystem\<close>: \<^verbatim>\<open>internal/semaphore.rs\<close>. Single operations, then all
    interleavings, with distributions that let go of the lock between rounds: permits are
    conserved, grants are woken, nobody overtakes the queue, polls do not panic while the
    node table has room, and the drop of a future or a later round of a distribution panics exactly
    when the counter would overflow with nobody waiting.
  \<^item> \<open>SemaphorePermits\<close>: the public semaphore of \<^verbatim>\<open>semaphore/mod.rs\<close>. Whatever is split, merged, forgotten
    or dropped, permits are conserved.
  \<^item> \<open>PermitClient\<close>: the semaphore as its clients use it; the locale \<open>permit_client\<close> shows for every
    client that permits held never exceed those there are, and that a client with every future
    parked holds permits itself.
  \<^item> \<open>RwLock\<close>, \<open>RwLockSystem\<close>: \<^verbatim>\<open>rwlock/\<close>. Two interpretations of \<open>permit_client\<close> give exclusion of
    readers and writers and freedom from deadlock, upgrades included.
  \<^item> \<open>Mutex\<close>, \<open>Condvar\<close>: \<^verbatim>\<open>mutex/mod.rs\<close>, \<^verbatim>\<open>condvar/mod.rs\<close>. Guards exclude each other, and a
    notification is never lost, also when waits are cancelled at any stage.
  \<^item> \<open>ManualResetEvent\<close>, \<open>AutoResetEvent\<close>: \<^verbatim>\<open>event/\<close>. Who is released by which signal, and that
    signals are conserved.

  \<^item> \<open>PoolState\<close>: \<^verbatim>\<open>pool/state.rs\<close> with the status of \<^verbatim>\<open>pool/common.rs\<close>. The in-place \<open>retain\<close> agrees with
    visiting the objects in order, and loses none when the predicate panics.

  \<^bold>\<open>Channels.\<close>
  \<^item> \<open>ChannelErrors\<close>: the errors shared by the channels.
  \<^item> \<open>MpmcQueue\<close>, \<open>MpmcSystem\<close> (\<^verbatim>\<open>mpmc/\<close>), \<open>SpmcQueue\<close> (\<^verbatim>\<open>spmc/\<close>), \<open>MpscBounded\<close> (\<^verbatim>\<open>mpsc/bounded/\<close>) and
    \<open>MpscUnbounded\<close> (\<^verbatim>\<open>mpsc/unbounded/\<close>): exactly-once delivery in order, conservation of capacity
    among counter, buffer, permits and grants, wakeups, and disconnection of either side.
  \<^item> \<open>Backlog\<close>, \<open>Broadcast\<close>, \<open>BroadcastBounded\<close> (\<^verbatim>\<open>broadcast/mpmc/\<close>): the message log with its cursor
    counts against the sequence of all messages; every subscription reads everything; the locale
    \<open>bc_publication\<close> is what the bounded and the unbounded channel have in common.
  \<^item> \<open>Oneshot\<close> (\<^verbatim>\<open>oneshot/\<close>): every access of both endpoints to the atomic state and the unsafe
    slots: memory safety, single delivery, no lost wakeup, and a bounded drop.
  \<^item> \<open>Watch\<close> (\<^verbatim>\<open>watch/mod.rs\<close>) and \<open>Completion\<close> (\<^verbatim>\<open>completion/mod.rs\<close>): receivers observe the newest
    value, and a completion is resolved once for everybody.

  \<^bold>\<open>Hypotheses.\<close> A capacity is within a \<open>usize\<close>. Registering a waiter needs room in the arena, whose
  index overflow is a panic of the source. A call that panics is no step of a system; that the calls
  do not panic is shown apart, in the properties that say so and in lemmas such as \<open>barrier_no_panic\<close>,
  \<open>bc_no_panic\<close>, \<open>cv_no_panic\<close> and \<open>watch_no_panic\<close>. The atomics
  of the gates and of the one-shot channel are sequentially consistent; the internal mutex
  (\<^verbatim>\<open>internal/mutex.rs\<close>, a wrapper of the standard one) makes a region atomic. A \<open>will_wake\<close> that answers
  true means the same waker.

  \<^bold>\<open>Not modelled.\<close>
  \<^item> The cells and maps that run a caller's asynchronous closure while holding a permit or a guard
    (\<^verbatim>\<open>once/\<close>, \<^verbatim>\<open>internal/value_cell.rs\<close>, \<^verbatim>\<open>singleflight/mod.rs\<close>) and the checkout of the object pools
    (\<^verbatim>\<open>pool/bounded.rs\<close>, \<^verbatim>\<open>pool/unbounded.rs\<close>), which awaits a caller's manager. That code would be a
    parameter that may be suspended, cancelled or panic at any await, and the maps add a third-party
    hash table and the reference counts of their entries. What they are built on, the semaphore, the
    mutex, the countdown and the pool state, is modelled.
  \<^item> Blocking execution (\<^verbatim>\<open>blocking/\<close>): threads, parking and timeouts of the standard library.
  \<^item> The weak memory orderings of the atomics, allocation sizes, \<open>Debug\<close> and \<open>Display\<close>, trait markers,
    and the unsafe pointers of mapped guards, which are projections of the value here.
  \<^item> Tests, benchmarks, examples and the build tool (\<^verbatim>\<open>xtask\<close>), which are not part of the library.
\<close>

end
